(* ===== verification/Prelude.thy ===== *)
theory Prelude
  imports "HOL-Library.Word"
begin

text \<open>
  Shared vocabulary of the development.

  The kernel is built in the development profile (\<^verbatim>\<open>cargo build\<close> in the
  \<^verbatim>\<open>Makefile\<close>), so integer overflow, out-of-range indexing and failed assertions all panic.
  A computation that may panic returns \<open>'a res\<close>: \<open>Inl\<close> of the panic, or \<open>Inr\<close> of its result.
  \<open>usize\<close> and \<open>u64\<close> quantities on which only arithmetic is done are \<open>nat\<close>, and every
  operation that could leave the 64-bit range goes through the checked operations below; values
  on which the code works bitwise are machine words.
\<close>

unbundle bit_operations_syntax

subsection \<open>Types and panics\<close>

type_synonym u8 = "8 word"
type_synonym u16 = "16 word"
type_synonym u32 = "32 word"
type_synonym u64 = "64 word"

datatype panic =
    Assertion string
  | Index_out_of_bounds
  | Arithmetic_overflow
  | Expect string

type_synonym 'a res = "panic + 'a"

definition and_then :: "'a res \<Rightarrow> ('a \<Rightarrow> 'b res) \<Rightarrow> 'b res" where
  "and_then r f = (case r of Inl e \<Rightarrow> Inl e | Inr x \<Rightarrow> f x)"

definition guard :: "bool \<Rightarrow> panic \<Rightarrow> unit res" where
  "guard c e = (if c then Inr () else Inl e)"

lemma and_then_simps [simp]:
  "and_then (Inl e) f = Inl e"
  "and_then (Inr x) f = f x"
  by (simp_all add: and_then_def)

lemma and_then_eq_Inr: "and_then r f = Inr y \<longleftrightarrow> (\<exists>x. r = Inr x \<and> f x = Inr y)"
  by (cases r) simp_all

lemma and_then_eq_Inl: "and_then r f = Inl e \<longleftrightarrow> r = Inl e \<or> (\<exists>x. r = Inr x \<and> f x = Inl e)"
  by (cases r) simp_all

lemma and_then_assoc: "and_then (and_then r f) g = and_then r (\<lambda>x. and_then (f x) g)"
  by (cases r) simp_all

lemma and_then_cong [fundef_cong]:
  "r = r' \<Longrightarrow> (\<And>x. r' = Inr x \<Longrightarrow> f x = g x) \<Longrightarrow> and_then r f = and_then r' g"
  by (cases r') simp_all

lemma guard_simps [simp]:
  "guard True e = Inr ()"
  "guard False e = Inl e"
  by (simp_all add: guard_def)

lemma guard_eq_Inr [simp]: "guard c e = Inr u \<longleftrightarrow> c"
  by (simp add: guard_def)

named_theorems res_elims \<open>what a computation that did not panic says about its parts\<close>

declare and_then_eq_Inr [res_elims]

subsection \<open>Checked 64-bit arithmetic and indexing\<close>

definition u64_max :: nat where
  "u64_max = 2 ^ 64 - 1"

definition checked_add :: "nat \<Rightarrow> nat \<Rightarrow> nat res" where
  "checked_add a b = (if a + b \<le> u64_max then Inr (a + b) else Inl Arithmetic_overflow)"

definition checked_sub :: "nat \<Rightarrow> nat \<Rightarrow> nat res" where
  "checked_sub a b = (if b \<le> a then Inr (a - b) else Inl Arithmetic_overflow)"

definition checked_mul :: "nat \<Rightarrow> nat \<Rightarrow> nat res" where
  "checked_mul a b = (if a * b \<le> u64_max then Inr (a * b) else Inl Arithmetic_overflow)"

definition at_index :: "'a list \<Rightarrow> nat \<Rightarrow> 'a res" where
  "at_index xs i = (if i < length xs then Inr (xs ! i) else Inl Index_out_of_bounds)"

definition set_index :: "'a list \<Rightarrow> nat \<Rightarrow> 'a \<Rightarrow> 'a list res" where
  "set_index xs i v = (if i < length xs then Inr (xs[i := v]) else Inl Index_out_of_bounds)"

lemma checked_add_ok [simp]: "a + b \<le> u64_max \<Longrightarrow> checked_add a b = Inr (a + b)"
  by (simp add: checked_add_def)

lemma checked_sub_ok [simp]: "b \<le> a \<Longrightarrow> checked_sub a b = Inr (a - b)"
  by (simp add: checked_sub_def)

lemma checked_mul_ok [simp]: "a * b \<le> u64_max \<Longrightarrow> checked_mul a b = Inr (a * b)"
  by (simp add: checked_mul_def)

lemma at_index_ok [simp]: "i < length xs \<Longrightarrow> at_index xs i = Inr (xs ! i)"
  by (simp add: at_index_def)

lemma set_index_ok [simp]: "i < length xs \<Longrightarrow> set_index xs i v = Inr (xs[i := v])"
  by (simp add: set_index_def)

lemma checked_eq_Inr [res_elims]:
  "checked_add a b = Inr c \<longleftrightarrow> a + b \<le> u64_max \<and> c = a + b"
  "checked_sub a b = Inr c \<longleftrightarrow> b \<le> a \<and> c = a - b"
  "checked_mul a b = Inr c \<longleftrightarrow> a * b \<le> u64_max \<and> c = a * b"
  by (auto simp: checked_add_def checked_sub_def checked_mul_def)

lemma index_eq_Inr [res_elims]:
  "at_index xs i = Inr x \<longleftrightarrow> i < length xs \<and> x = xs ! i"
  "set_index xs i v = Inr ys \<longleftrightarrow> i < length xs \<and> ys = xs[i := v]"
  by (auto simp: at_index_def set_index_def)

subsection \<open>Masking as arithmetic\<close>

text \<open>
  \<open>x & !(align - 1)\<close> on a \<open>u64\<close>, with the value read as a natural number: the code's way to
  round down to a power of two.
\<close>

definition and_not :: "nat \<Rightarrow> nat \<Rightarrow> nat" where
  "and_not x m = unat ((of_nat x :: u64) AND NOT (of_nat m))"

lemma word_and_not_mask:
  fixes w :: "'a::len word"
  shows "unat (w AND NOT (mask k)) = unat w - unat w mod 2 ^ k"
proof -
  have "NOT w AND (w AND mask k) = 0"
    by (simp add: bit_eq_iff bit_simps)
  then have "w - (w AND mask k) = w AND NOT (w AND mask k)"
    by (rule disjunctive_diff_eq_and_not)
  moreover have "w AND NOT (w AND mask k) = w AND NOT (mask k)"
    by (auto simp: bit_eq_iff bit_simps)
  ultimately have "w AND NOT (mask k) = w - (w AND mask k)" by simp
  moreover have "w AND mask k \<le> w" by (rule word_and_le2)
  ultimately have "unat (w AND NOT (mask k)) = unat w - unat (w AND mask k)"
    by (simp add: unat_sub)
  moreover have "unat (w AND mask k) = unat w mod 2 ^ k"
    by (simp flip: take_bit_eq_mask add: unsigned_take_bit_eq) (simp add: take_bit_eq_mod)
  ultimately show ?thesis by simp
qed

lemma and_not_mask:
  assumes "x \<le> u64_max" and "k < 64"
  shows "and_not x (2 ^ k - 1) = x - x mod 2 ^ k"
proof -
  have "(of_nat (2 ^ k - 1) :: u64) = mask k"
    by (simp add: mask_eq_exp_minus_1 of_nat_diff)
  moreover have "unat (of_nat x :: u64) = x"
    using assms(1) by (simp add: unsigned_of_nat u64_max_def take_bit_nat_eq_self)
  ultimately show ?thesis
    by (simp add: and_not_def word_and_not_mask)
qed

subsection \<open>Counting zeros of a 64-bit integer\<close>

fun trailing_zeros :: "nat \<Rightarrow> nat" where
  "trailing_zeros n = (if n = 0 then 64 else if even n then Suc (trailing_zeros (n div 2)) else 0)"

fun bit_length :: "nat \<Rightarrow> nat" where
  "bit_length n = (if n = 0 then 0 else Suc (bit_length (n div 2)))"

definition leading_zeros :: "nat \<Rightarrow> nat" where
  "leading_zeros n = 64 - bit_length n"

declare trailing_zeros.simps [simp del] bit_length.simps [simp del]

lemma trailing_zeros_dvd: "n \<noteq> 0 \<Longrightarrow> 2 ^ trailing_zeros n dvd n"
proof (induction n rule: trailing_zeros.induct)
  case (1 n)
  show ?case
  proof (cases "even n")
    case True
    with 1 have "2 ^ trailing_zeros (n div 2) dvd n div 2" by auto
    then have "2 * 2 ^ trailing_zeros (n div 2) dvd 2 * (n div 2)" by (rule mult_dvd_mono [OF dvd_refl])
    with True 1(2) show ?thesis by (subst trailing_zeros.simps) simp
  next
    case False
    with 1(2) show ?thesis by (subst trailing_zeros.simps) simp
  qed
qed

lemma trailing_zeros_max: "n \<noteq> 0 \<Longrightarrow> 2 ^ j dvd n \<Longrightarrow> j \<le> trailing_zeros n"
proof (induction n arbitrary: j rule: trailing_zeros.induct)
  case (1 n)
  show ?case
  proof (cases j)
    case (Suc i)
    with 1(3) have "even n" "2 ^ i dvd n div 2"
      by (auto elim!: dvdE)
    with 1 have "i \<le> trailing_zeros (n div 2)" by auto
    with 1(2) \<open>even n\<close> Suc show ?thesis by (subst trailing_zeros.simps) simp
  qed simp
qed

lemma bit_length_bounds: "n \<noteq> 0 \<Longrightarrow> 2 ^ (bit_length n - 1) \<le> n \<and> n < 2 ^ bit_length n"
proof (induction n rule: bit_length.induct)
  case (1 n)
  show ?case
  proof (cases "n div 2 = 0")
    case True
    with 1(2) have "n = 1" by simp
    then show ?thesis by (simp add: bit_length.simps)
  next
    case False
    with 1 have IH: "2 ^ (bit_length (n div 2) - 1) \<le> n div 2" "n div 2 < 2 ^ bit_length (n div 2)"
      by auto
    from False have "bit_length (n div 2) \<noteq> 0" by (subst bit_length.simps) simp
    then obtain l where l: "bit_length (n div 2) = Suc l" by (cases "bit_length (n div 2)") auto
    with IH 1(2) show ?thesis by (subst (1 2) bit_length.simps) auto
  qed
qed

lemma bit_length_pos: "n \<noteq> 0 \<Longrightarrow> 0 < bit_length n"
  by (subst bit_length.simps) simp

lemma bit_length_le: "n < 2 ^ k \<Longrightarrow> bit_length n \<le> k"
proof (cases "n = 0")
  case False
  assume "n < 2 ^ k"
  with bit_length_bounds [OF False] have "(2::nat) ^ (bit_length n - 1) < 2 ^ k" by linarith
  then have "bit_length n - 1 < k" by (rule power_less_imp_less_exp [rotated]) simp
  then show ?thesis by simp
qed (simp add: bit_length.simps)

text \<open>\<open>usize::BITS - 1 - n.leading_zeros()\<close> is the position of the highest set bit.\<close>

lemma highest_bit:
  assumes "n \<noteq> 0" and "n \<le> u64_max"
  shows "2 ^ (63 - leading_zeros n) \<le> n" and "n < 2 ^ Suc (63 - leading_zeros n)"
    and "leading_zeros n \<le> 63"
proof -
  have "bit_length n \<le> 64" using assms by (intro bit_length_le) (simp add: u64_max_def)
  moreover note bit_length_pos [OF assms(1)]
  ultimately have "63 - leading_zeros n = bit_length n - 1" "Suc (63 - leading_zeros n) = bit_length n"
    "leading_zeros n \<le> 63"
    by (auto simp: leading_zeros_def)
  with bit_length_bounds [OF assms(1)]
  show "2 ^ (63 - leading_zeros n) \<le> n" and "n < 2 ^ Suc (63 - leading_zeros n)"
    and "leading_zeros n \<le> 63" by simp_all
qed

subsection \<open>Aligned powers of two\<close>

lemma xor_one_nat: "n XOR 1 = (if even n then n + 1 else n - 1)" for n :: nat
proof (cases "even n")
  case True
  then obtain k where "n = 2 * k" by (elim evenE)
  then show ?thesis by (simp add: xor_nat_unfold)
next
  case False
  then obtain k where "n = 2 * k + 1" by (elim oddE)
  then show ?thesis by (simp add: xor_nat_unfold)
qed

lemma xor_pow2:
  fixes i :: nat
  assumes "2 ^ k dvd i"
  shows "i XOR 2 ^ k = (if even (i div 2 ^ k) then i + 2 ^ k else i - 2 ^ k)"
proof -
  obtain q where i: "i = q * 2 ^ k" using assms by (metis dvdE mult.commute)
  have "i XOR 2 ^ k = push_bit k q XOR push_bit k 1"
    by (simp add: i push_bit_eq_mult)
  also have "\<dots> = push_bit k (q XOR 1)"
    by (simp only: push_bit_xor)
  also have "\<dots> = (q XOR 1) * 2 ^ k"
    by (simp only: push_bit_eq_mult)
  also have "\<dots> = (if even q then i + 2 ^ k else i - 2 ^ k)"
    unfolding xor_one_nat by (simp add: i algebra_simps diff_mult_distrib2)
  finally show ?thesis by (simp add: i)
qed

subsection \<open>Functions and lists\<close>

lemma last_of_run: "j + (2 ^ k - 1) \<in> {j..<j + 2 ^ k}" for j k :: nat
proof -
  have "(0::nat) < 2 ^ k" by simp
  then show ?thesis unfolding atLeastLessThan_iff by linarith
qed

lemma list_update_append_same [simp]: "length xs = n \<Longrightarrow> (xs @ y # ys)[n := z] = xs @ z # ys"
  by (simp add: list_update_append)

lemma find_upt_Some:
  assumes "find P [a..<b] = Some k"
  shows "a \<le> k \<and> k < b \<and> P k \<and> (\<forall>j. a \<le> j \<and> j < k \<longrightarrow> \<not> P j)"
proof -
  from assms obtain i where i: "i < length [a..<b]" "P ([a..<b] ! i)" "k = [a..<b] ! i"
      "\<forall>j<i. \<not> P ([a..<b] ! j)"
    by (auto simp: find_Some_iff)
  have "\<not> P j" if "a \<le> j" "j < k" for j
    using i that by (auto dest: spec [of _ "j - a"])
  with i show ?thesis by auto
qed

lemma find_upt_None: "find P [a..<b] = None \<longleftrightarrow> (\<forall>k. a \<le> k \<and> k < b \<longrightarrow> \<not> P k)"
  by (auto simp: find_None_iff)

end
