(* ===== verification/Memory.thy ===== *)
theory Memory
  imports Prelude
begin

text \<open>
  The machine's memory as the kernel sees it through the higher-half direct map: a byte per
  virtual address. \<open>ld\<close> and \<open>st\<close> are little-endian accesses of \<open>n\<close> bytes; the kernel uses
  them at widths 1, 4 and 8 (\<open>ptr::read\<close>, \<open>ptr::write\<close>, field accesses through raw pointers,
  \<open>read_volatile\<close>, \<open>write_volatile\<close>). Every allocator header, free-list link and page table
  of the model lives in this one memory, so aliasing between components is visible.
\<close>

type_synonym mem = "nat \<Rightarrow> u8"

definition ld :: "nat \<Rightarrow> mem \<Rightarrow> nat \<Rightarrow> nat" where
  "ld n m a = (\<Sum>i<n. unat (m (a + i)) * 256 ^ i)"

definition st :: "nat \<Rightarrow> nat \<Rightarrow> nat \<Rightarrow> mem \<Rightarrow> mem" where
  "st n a v m = (\<lambda>x. if a \<le> x \<and> x < a + n then of_nat (v div 256 ^ (x - a)) else m x)"

abbreviation ld64 :: "mem \<Rightarrow> nat \<Rightarrow> nat" where "ld64 \<equiv> ld 8"
abbreviation st64 :: "nat \<Rightarrow> nat \<Rightarrow> mem \<Rightarrow> mem" where "st64 \<equiv> st 8"
abbreviation ld32 :: "mem \<Rightarrow> nat \<Rightarrow> nat" where "ld32 \<equiv> ld 4"
abbreviation st32 :: "nat \<Rightarrow> nat \<Rightarrow> mem \<Rightarrow> mem" where "st32 \<equiv> st 4"

subsection \<open>Reading over writing\<close>

lemma base256_digits: "(\<Sum>i<n. (v div 256 ^ i mod 256) * 256 ^ i) = v mod 256 ^ n" for v :: nat
proof (induction n)
  case 0
  then show ?case by simp
next
  case (Suc n)
  have "v mod 256 ^ Suc n = 256 ^ n * (v div 256 ^ n mod 256) + v mod 256 ^ n"
    by (metis mod_mult2_eq power_Suc2)
  with Suc show ?case by (simp add: algebra_simps)
qed

lemma ld_st_same: "ld n (st n a v m) a = v mod 256 ^ n"
proof -
  have "ld n (st n a v m) a = (\<Sum>i<n. (v div 256 ^ i mod 256) * 256 ^ i)"
    by (simp add: ld_def st_def unsigned_of_nat take_bit_eq_mod)
  then show ?thesis by (simp only: base256_digits)
qed

lemma ld_cong: "(\<And>i. i < n \<Longrightarrow> m (a + i) = m' (a + i)) \<Longrightarrow> ld n m a = ld n m' a"
  by (simp add: ld_def)

lemma ld_st_other [simp]: "b + n \<le> a \<or> a + k \<le> b \<Longrightarrow> ld n (st k a v m) b = ld n m b"
  by (rule ld_cong) (auto simp: st_def)

lemma st_other: "x < a \<or> a + n \<le> x \<Longrightarrow> st n a v m x = m x"
  by (auto simp: st_def)

lemma ld64_st64 [simp]: "v \<le> u64_max \<Longrightarrow> ld64 (st64 a v m) a = v"
  by (simp add: ld_st_same u64_max_def)

lemma ld32_st32 [simp]: "v < 2 ^ 32 \<Longrightarrow> ld32 (st32 a v m) a = v"
  by (simp add: ld_st_same)

lemma ld_zero [simp]: "ld n (\<lambda>_. 0) a = 0"
  by (simp add: ld_def)

lemma ld_bound: "ld n m a < 256 ^ n"
proof (induction n)
  case 0
  then show ?case by (simp add: ld_def)
next
  case (Suc n)
  have "ld (Suc n) m a = ld n m a + unat (m (a + n)) * 256 ^ n"
    by (simp add: ld_def)
  also have "\<dots> < 256 ^ n + 255 * 256 ^ n"
    using Suc unsigned_less [of "m (a + n)", where ?'a = nat] by (intro add_less_le_mono mult_right_mono) simp_all
  finally show ?case by simp
qed

lemma ld64_bound [simp]: "ld64 m a \<le> u64_max"
  using ld_bound [of 8 m a] by (simp add: u64_max_def)

subsection \<open>Where two memories may differ\<close>

definition agree_off :: "nat set \<Rightarrow> mem \<Rightarrow> mem \<Rightarrow> bool" where
  "agree_off S m m' \<longleftrightarrow> (\<forall>x. x \<notin> S \<longrightarrow> m' x = m x)"

lemma agree_off_refl [simp]: "agree_off S m m"
  by (simp add: agree_off_def)

lemma agree_off_trans: "agree_off S m m' \<Longrightarrow> agree_off S m' m'' \<Longrightarrow> agree_off S m m''"
  by (simp add: agree_off_def)

lemma agree_off_mono: "agree_off S m m' \<Longrightarrow> S \<subseteq> T \<Longrightarrow> agree_off T m m'"
  by (auto simp: agree_off_def)

lemma agree_off_st: "agree_off S m m' \<Longrightarrow> {a..<a + n} \<subseteq> S \<Longrightarrow> agree_off S m (st n a v m')"
  by (auto simp: agree_off_def st_def)

lemma ld_agree: "agree_off S m m' \<Longrightarrow> {a..<a + n} \<inter> S = {} \<Longrightarrow> ld n m' a = ld n m a"
proof (rule ld_cong)
  fix i assume "i < n" and *: "agree_off S m m'" "{a..<a + n} \<inter> S = {}"
  then have "a + i \<notin> S" by (metis IntI add_less_cancel_left atLeastLessThan_iff empty_iff le_add1)
  with * show "m' (a + i) = m (a + i)" by (simp add: agree_off_def)
qed

end
