(* ===== verification/Linked_List.thy ===== *)
theory Linked_List
  imports Memory
begin

text \<open>
  Intrusive doubly linked lists in byte memory, as every allocator of the kernel keeps them: a
  node is an address, its two link fields are 8-byte cells at fixed offsets from it, and the null
  pointer is 0. \<open>seg\<close> relates a stretch of such a list to the sequence of its nodes; \<open>dll\<close> is a
  whole list. The locale collects what the three layouts (buddy, slab, TLSF) share: two link
  cells inside the first \<open>w\<close> bytes of a node, nodes at least \<open>w\<close> bytes apart.
\<close>

primrec seg :: "nat \<Rightarrow> nat \<Rightarrow> mem \<Rightarrow> nat \<Rightarrow> nat \<Rightarrow> nat list \<Rightarrow> nat \<Rightarrow> nat \<Rightarrow> bool" where
  "seg po no m p h [] q n \<longleftrightarrow> h = n \<and> p = q"
| "seg po no m p h (x # xs) q n \<longleftrightarrow>
     h = x \<and> x \<noteq> 0 \<and> ld64 m (x + po) = p \<and> seg po no m x (ld64 m (x + no)) xs q n"

definition dll :: "nat \<Rightarrow> nat \<Rightarrow> mem \<Rightarrow> nat \<Rightarrow> nat \<Rightarrow> nat list \<Rightarrow> bool" where
  "dll po no m p h xs \<longleftrightarrow> (\<exists>q. seg po no m p h xs q 0)"

definition apart :: "nat \<Rightarrow> nat set \<Rightarrow> bool" where
  "apart w S \<longleftrightarrow> (\<forall>x\<in>S. \<forall>y\<in>S. x \<noteq> y \<longrightarrow> x + w \<le> y \<or> y + w \<le> x)"

definition link_cells :: "nat \<Rightarrow> nat set \<Rightarrow> nat set" where
  "link_cells w S = (\<Union>x\<in>S. {x..<x + w})"

lemma apartD: "apart w S \<Longrightarrow> x \<in> S \<Longrightarrow> y \<in> S \<Longrightarrow> x \<noteq> y \<Longrightarrow> x + w \<le> y \<or> y + w \<le> x"
  by (simp add: apart_def)

lemma apart_subset: "apart w S \<Longrightarrow> T \<subseteq> S \<Longrightarrow> apart w T"
  by (auto simp: apart_def)

lemma link_cells_simps [simp]:
  "link_cells w {} = {}"
  "link_cells w (insert x S) = {x..<x + w} \<union> link_cells w S"
  "link_cells w (S \<union> T) = link_cells w S \<union> link_cells w T"
  by (auto simp: link_cells_def)

lemma link_cellsI: "x \<in> S \<Longrightarrow> x \<le> a \<Longrightarrow> a < x + w \<Longrightarrow> a \<in> link_cells w S"
  by (auto simp: link_cells_def)

lemma link_cell_subset: "x \<in> S \<Longrightarrow> d + n \<le> w \<Longrightarrow> {x + d..<x + d + n} \<subseteq> link_cells w S"
  by (auto intro!: link_cellsI)

lemma link_cells_mono: "S \<subseteq> T \<Longrightarrow> link_cells w S \<subseteq> link_cells w T"
  by (auto simp: link_cells_def)

text \<open>Just the two link cells of each node, for nodes that hold more than their links.\<close>

definition ptr_cells :: "nat \<Rightarrow> nat \<Rightarrow> nat set \<Rightarrow> nat set" where
  "ptr_cells po no S = (\<Union>x\<in>S. {x + po..<x + po + 8} \<union> {x + no..<x + no + 8})"

lemma ptr_cell_subset:
  "x \<in> S \<Longrightarrow> {x + po..<x + po + 8} \<subseteq> ptr_cells po no S"
  "x \<in> S \<Longrightarrow> {x + no..<x + no + 8} \<subseteq> ptr_cells po no S"
  by (auto simp: ptr_cells_def)

lemma ptr_cells_mono: "S \<subseteq> T \<Longrightarrow> ptr_cells po no S \<subseteq> ptr_cells po no T"
  by (auto simp: ptr_cells_def)

lemma seg_append:
  "seg po no m p h (as @ bs) q n \<longleftrightarrow> (\<exists>l k. seg po no m p h as l k \<and> seg po no m l k bs q n)"
  by (induction as arbitrary: p h) auto

lemma seg_last: "seg po no m p h as q n \<Longrightarrow> as \<noteq> [] \<Longrightarrow> q = last as"
  by (induction as arbitrary: p h) (auto split: if_splits)

lemma seg_nonzero: "seg po no m p h as q n \<Longrightarrow> x \<in> set as \<Longrightarrow> x \<noteq> 0"
  by (induction as arbitrary: p h) auto

lemma dll_Nil [simp]: "dll po no m p h [] \<longleftrightarrow> h = 0"
  by (auto simp: dll_def)

lemma dll_Cons [simp]:
  "dll po no m p h (x # xs) \<longleftrightarrow>
     h = x \<and> x \<noteq> 0 \<and> ld64 m (x + po) = p \<and> dll po no m x (ld64 m (x + no)) xs"
  by (auto simp: dll_def)

lemma dll_append:
  "dll po no m p h (as @ bs) \<longleftrightarrow> (\<exists>l k. seg po no m p h as l k \<and> dll po no m l k bs)"
  by (auto simp: dll_def seg_append)

lemma dll_nonzero: "dll po no m p h as \<Longrightarrow> x \<in> set as \<Longrightarrow> x \<noteq> 0"
  by (auto simp: dll_def dest: seg_nonzero)

lemma dll_head: "dll po no m p h xs \<Longrightarrow> h = (if xs = [] then 0 else hd xs)"
  by (cases xs) auto

text \<open>The two list operations, over the memory and the head pointer.\<close>

definition list_push :: "nat \<Rightarrow> nat \<Rightarrow> nat \<Rightarrow> mem \<Rightarrow> nat \<Rightarrow> mem" where
  "list_push po no node m head =
     (let m = st64 (node + po) 0 m;
          m = st64 (node + no) head m
      in if head \<noteq> 0 then st64 (head + po) node m else m)"

definition list_unlink :: "nat \<Rightarrow> nat \<Rightarrow> nat \<Rightarrow> mem \<Rightarrow> nat \<Rightarrow> mem \<times> nat" where
  "list_unlink po no node m head =
     (let prev = ld64 m (node + po);
          next = ld64 m (node + no);
          (m, head) = (if prev \<noteq> 0 then (st64 (prev + no) next m, head) else (m, next));
          m = (if next \<noteq> 0 then st64 (next + po) prev m else m)
      in (m, head))"

locale link_layout =
  fixes po no w :: nat
  assumes po_in: "po + 8 \<le> w"
    and no_in: "no + 8 \<le> w"
    and links_apart: "po + 8 \<le> no \<or> no + 8 \<le> po"
begin

lemma seg_frame:
  assumes "\<And>x. x \<in> set xs \<Longrightarrow> \<forall>i<w. m' (x + i) = m (x + i)"
  shows "seg po no m' p h xs q n = seg po no m p h xs q n"
  using assms
proof (induction xs arbitrary: p h)
  case Nil
  then show ?case by simp
next
  case (Cons x xs)
  have "ld64 m' (x + po) = ld64 m (x + po)" "ld64 m' (x + no) = ld64 m (x + no)"
    using Cons.prems [of x] po_in no_in by (auto intro!: ld_cong simp: add.assoc)
  with Cons show ?case by simp
qed

lemma seg_agree:
  assumes "agree_off S m m'" and "link_cells w (set xs) \<inter> S = {}"
  shows "seg po no m' p h xs q n = seg po no m p h xs q n"
proof (rule seg_frame)
  fix x assume x: "x \<in> set xs"
  show "\<forall>i<w. m' (x + i) = m (x + i)"
  proof (intro allI impI)
    fix i assume "i < w"
    with x have "x + i \<in> link_cells w (set xs)" by (auto intro: link_cellsI)
    with assms(2) have "x + i \<notin> S" by blast
    with assms(1) show "m' (x + i) = m (x + i)" by (simp add: agree_off_def)
  qed
qed

lemma dll_agree:
  assumes "agree_off S m m'" and "link_cells w (set xs) \<inter> S = {}"
  shows "dll po no m' p h xs = dll po no m p h xs"
  by (simp add: dll_def seg_agree [OF assms])

lemma seg_st_other:
  assumes "apart w (insert y (set xs))" and "y \<notin> set xs" and "o' + 8 \<le> w"
  shows "seg po no (st64 (y + o') v m) p h xs q n = seg po no m p h xs q n"
proof (rule seg_frame)
  fix x assume x: "x \<in> set xs"
  with assms have "x + w \<le> y \<or> y + w \<le> x"
    by (intro apartD [OF assms(1)]) auto
  with assms(3) show "\<forall>i<w. st64 (y + o') v m (x + i) = m (x + i)"
    by (auto intro!: st_other)
qed

lemma dll_st_other:
  assumes "apart w (insert y (set xs))" and "y \<notin> set xs" and "o' + 8 \<le> w"
  shows "dll po no (st64 (y + o') v m) p h xs = dll po no m p h xs"
  by (simp add: dll_def seg_st_other [OF assms])

lemma dll_set_prev:
  assumes "dll po no m p h xs" and "apart w (set xs)" and "distinct xs" and "xs \<noteq> []"
    and "p' \<le> u64_max"
  shows "dll po no (st64 (h + po) p' m) p' h xs"
proof -
  from assms obtain ys where xs: "xs = h # ys" by (cases xs) auto
  with assms have "dll po no (st64 (h + po) p' m) h (ld64 m (h + no)) ys"
    by (simp add: dll_st_other po_in)
  moreover have "ld64 (st64 (h + po) p' m) (h + no) = ld64 m (h + no)"
    using links_apart by auto
  ultimately show ?thesis using assms xs by simp
qed

lemma seg_set_next:
  assumes "seg po no m p h xs q n" and "apart w (set xs)" and "distinct xs" and "xs \<noteq> []"
    and "n' \<le> u64_max"
  shows "seg po no (st64 (last xs + no) n' m) p h xs q n'"
  using assms
proof (induction xs arbitrary: p h)
  case Nil
  then show ?case by simp
next
  case (Cons x xs)
  show ?case
  proof (cases "xs = []")
    case True
    with Cons.prems links_apart show ?thesis by auto
  next
    case False
    then have l: "last xs \<in> set xs" by simp
    with Cons.prems have ne: "last xs \<noteq> x" by auto
    with l have "last xs + w \<le> x \<or> x + w \<le> last xs"
      by (intro apartD [OF Cons.prems(2)]) auto
    then have "ld64 (st64 (last xs + no) n' m) (x + po) = ld64 m (x + po)"
      "ld64 (st64 (last xs + no) n' m) (x + no) = ld64 m (x + no)"
      using po_in no_in by auto
    with Cons False show ?thesis by (auto intro: apart_subset)
  qed
qed

lemma push_dll:
  assumes "dll po no m 0 h xs" and "apart w (insert x (set xs))" and "x \<notin> set xs"
    and "distinct xs" and "x \<noteq> 0" and "x \<le> u64_max" and "\<forall>y\<in>set xs. y \<le> u64_max"
  shows "dll po no (list_push po no x m h) 0 x (x # xs)"
proof -
  define m2 where "m2 = st64 (x + no) h (st64 (x + po) 0 m)"
  have h: "h \<le> u64_max" using assms by (cases xs) auto
  have xs2: "dll po no m2 0 h xs"
    using assms by (simp add: m2_def dll_st_other po_in no_in)
  have links: "ld64 m2 (x + po) = 0" "ld64 m2 (x + no) = h"
    using h links_apart by (auto simp: m2_def)
  have push: "list_push po no x m h = (if h \<noteq> 0 then st64 (h + po) x m2 else m2)"
    by (simp add: list_push_def m2_def Let_def)
  show ?thesis
  proof (cases "h = 0")
    case True
    then have "xs = []" using assms(1) by (cases xs) auto
    with True links assms show ?thesis unfolding push by simp
  next
    case False
    then have xs: "xs \<noteq> []" "h \<in> set xs" using assms(1) by (cases xs; auto)+
    have "dll po no (st64 (h + po) x m2) x h xs"
      using xs2 xs assms by (intro dll_set_prev) (auto intro: apart_subset)
    moreover have "h + w \<le> x \<or> x + w \<le> h"
      using xs assms by (intro apartD [OF assms(2)]) auto
    then have "ld64 (st64 (h + po) x m2) (x + po) = 0" "ld64 (st64 (h + po) x m2) (x + no) = h"
      using links po_in no_in by auto
    ultimately show ?thesis
      using False assms by (simp add: push)
  qed
qed

lemma push_agree:
  assumes "dll po no m 0 h xs"
  shows "agree_off (link_cells w (insert x (set xs))) m (list_push po no x m h)"
proof -
  have h: "h \<noteq> 0 \<Longrightarrow> h \<in> set xs" using assms by (cases xs) auto
  show ?thesis
    unfolding list_push_def Let_def
    using po_in no_in h by (auto intro!: agree_off_st simp: link_cells_def; force)
qed

lemma dll_links:
  assumes "dll po no m 0 h (as @ x # bs)"
  shows "ld64 m (x + po) = (if as = [] then 0 else last as)"
    and "ld64 m (x + no) = (if bs = [] then 0 else hd bs)"
  using assms by (auto simp: dll_append dest: seg_last dll_head)

lemma unlink_dll:
  assumes "dll po no m 0 h (as @ x # bs)" and "apart w (set (as @ x # bs))"
    and "distinct (as @ x # bs)" and "\<forall>y\<in>set (as @ bs). y \<le> u64_max"
    and "list_unlink po no x m h = (m', h')"
  shows "dll po no m' 0 h' (as @ bs)"
proof -
  from assms(1) obtain l where seg: "seg po no m 0 h as l x" and l: "ld64 m (x + po) = l"
    and bs: "dll po no m x (ld64 m (x + no)) bs"
    by (auto simp: dll_append)
  define n where "n = ld64 m (x + no)"
  have n: "n = (if bs = [] then 0 else hd bs)" using dll_head [OF bs] by (simp add: n_def)
  have lz: "l \<noteq> 0 \<longleftrightarrow> as \<noteq> []"
    using seg seg_last [OF seg] seg_nonzero [OF seg, of l] by (cases as) auto
  have la: "as \<noteq> [] \<Longrightarrow> l = last as" using seg_last [OF seg] by simp
  have nb: "n \<le> u64_max" using assms(4) n by (auto dest: hd_in_set)
  have lb: "l \<le> u64_max" using assms(4) la lz by (cases "as = []") auto
  have ap_as: "apart w (set as)" and ap_bs: "apart w (set bs)"
    using assms(2) by (auto intro: apart_subset)
  define m1 where "m1 = (if l \<noteq> 0 then st64 (l + no) n m else m)"
  have seg1: "\<exists>h1. h1 = (if l \<noteq> 0 then h else n) \<and> seg po no m1 0 h1 as l n"
    using seg seg_set_next [OF seg ap_as] assms(3) lz la nb by (auto simp: m1_def)
  have bs1: "dll po no m1 x n bs"
  proof (cases "l = 0")
    case True
    then show ?thesis using bs by (simp add: m1_def n_def)
  next
    case False
    then have "l \<in> set as" using lz la by auto
    then have "apart w (insert l (set bs))" "l \<notin> set bs"
      using assms(2,3) by (auto intro: apart_subset)
    with False show ?thesis using bs by (simp add: m1_def n_def dll_st_other no_in)
  qed
  define m2 where "m2 = (if n \<noteq> 0 then st64 (n + po) l m1 else m1)"
  have bs2: "dll po no m2 l n bs"
  proof (cases "bs = []")
    case True
    then show ?thesis using n by (simp add: m2_def)
  next
    case False
    then have "n \<noteq> 0" using n dll_nonzero [OF bs, of n] by auto
    with False show ?thesis
      using dll_set_prev [OF bs1 ap_bs _ False lb] assms(3) by (simp add: m2_def)
  qed
  have seg2: "seg po no m2 0 (if l \<noteq> 0 then h else n) as l n"
  proof (cases "n = 0")
    case True
    then show ?thesis using seg1 by (simp add: m2_def)
  next
    case False
    then have "n \<in> set bs" using n by (auto split: if_splits)
    then have "apart w (insert n (set as))" "n \<notin> set as"
      using assms(2,3) by (auto intro: apart_subset)
    with False show ?thesis using seg1 by (simp add: m2_def seg_st_other po_in)
  qed
  have "m' = m2" "h' = (if l \<noteq> 0 then h else n)"
    using assms(5) by (auto simp: list_unlink_def Let_def m2_def m1_def n_def l split: if_splits)
  with seg2 bs2 show ?thesis unfolding dll_append by blast
qed

lemma unlink_agree:
  assumes "dll po no m 0 h (as @ x # bs)" and "list_unlink po no x m h = (m', h')"
  shows "agree_off (link_cells w (set (as @ bs))) m m'"
proof -
  note links = dll_links [OF assms(1)]
  have nz: "as \<noteq> [] \<Longrightarrow> last as \<noteq> 0" "bs \<noteq> [] \<Longrightarrow> hd bs \<noteq> 0"
    by (rule dll_nonzero [OF assms(1)], simp)+
  have "m' = (let m1 = (if as \<noteq> [] then st64 (last as + no) (ld64 m (x + no)) m else m)
              in if bs \<noteq> [] then st64 (hd bs + po) (ld64 m (x + po)) m1 else m1)"
    using assms(2) links nz by (auto simp: list_unlink_def Let_def split: if_splits)
  moreover have "{last as + no..<last as + no + 8} \<subseteq> link_cells w (set (as @ bs))" if "as \<noteq> []"
    using that no_in by (intro link_cell_subset) auto
  moreover have "{hd bs + po..<hd bs + po + 8} \<subseteq> link_cells w (set (as @ bs))" if "bs \<noteq> []"
    using that po_in by (intro link_cell_subset) auto
  ultimately show ?thesis
    by (cases "as = []"; cases "bs = []") (simp_all add: Let_def agree_off_st)
qed

lemma dll_ptr_agree:
  assumes "agree_off X m m'" and "ptr_cells po no (set xs) \<inter> X = {}"
  shows "dll po no m' p h xs = dll po no m p h xs"
  using assms(2)
proof (induction xs arbitrary: p h)
  case (Cons x xs)
  have "{x + po..<x + po + 8} \<inter> X = {}" "{x + no..<x + no + 8} \<inter> X = {}"
    using Cons.prems ptr_cell_subset [of x "set (x # xs)" po no]
      ptr_cell_subset [of x "set (x # xs)" no po] by (auto simp: ptr_cells_def)
  then have "ld64 m' (x + po) = ld64 m (x + po)" "ld64 m' (x + no) = ld64 m (x + no)"
    using ld_agree [OF assms(1)] by blast+
  moreover have "ptr_cells po no (set xs) \<inter> X = {}"
    using Cons.prems by (auto simp: ptr_cells_def)
  ultimately show ?case using Cons.IH by simp
qed simp

lemma push_ptr_agree:
  assumes "dll po no m 0 h xs"
  shows "agree_off (ptr_cells po no (insert x (set xs))) m (list_push po no x m h)"
proof -
  have h: "h \<noteq> 0 \<Longrightarrow> h \<in> set xs" using assms by (cases xs) auto
  show ?thesis
    unfolding list_push_def Let_def
    using h by (auto intro!: agree_off_st simp: ptr_cells_def; force)
qed

lemma unlink_ptr_agree:
  assumes "dll po no m 0 h (as @ x # bs)" and "list_unlink po no x m h = (m', h')"
  shows "agree_off (ptr_cells po no (set (as @ bs))) m m'"
proof -
  note links = dll_links [OF assms(1)]
  have nz: "as \<noteq> [] \<Longrightarrow> last as \<noteq> 0" "bs \<noteq> [] \<Longrightarrow> hd bs \<noteq> 0"
    by (rule dll_nonzero [OF assms(1)], simp)+
  have "m' = (let m1 = (if as \<noteq> [] then st64 (last as + no) (ld64 m (x + no)) m else m)
              in if bs \<noteq> [] then st64 (hd bs + po) (ld64 m (x + po)) m1 else m1)"
    using assms(2) links nz by (auto simp: list_unlink_def Let_def split: if_splits)
  moreover have "{last as + no..<last as + no + 8} \<subseteq> ptr_cells po no (set (as @ bs))" if "as \<noteq> []"
    using that by (intro ptr_cell_subset) auto
  moreover have "{hd bs + po..<hd bs + po + 8} \<subseteq> ptr_cells po no (set (as @ bs))" if "bs \<noteq> []"
    using that by (intro ptr_cell_subset) auto
  ultimately show ?thesis
    by (cases "as = []"; cases "bs = []") (simp_all add: Let_def agree_off_st)
qed

lemma unlink_head:
  assumes "dll po no m 0 h (as @ x # bs)" and "list_unlink po no x m h = (m', h')"
  shows "h' = (if as @ bs = [] then 0 else hd (as @ bs))"
proof -
  note links = dll_links [OF assms(1)]
  have nz: "as \<noteq> [] \<Longrightarrow> last as \<noteq> 0" by (rule dll_nonzero [OF assms(1)]) simp
  have "h = hd (as @ x # bs)" using dll_head [OF assms(1)] by simp
  then show ?thesis
    using assms(2) links nz by (cases as) (auto simp: list_unlink_def Let_def split: if_splits)
qed

end

end
