(* ===== verification/Abalone.thy ===== *)
theory Abalone
  imports Linked_List
begin

text \<open>
  \<^verbatim>\<open>abalone/src/lib.rs\<close>: the constants and the statistics record the allocators share.
\<close>

definition PAGE_SIZE :: nat where
  "PAGE_SIZE = 4096"

definition BUDDY_MAX_ORDER :: nat where
  "BUDDY_MAX_ORDER = 17"

record alloc_stats =
  total_bytes :: nat
  used_bytes :: nat
  free_bytes :: nat
  alloc_count :: nat
  dealloc_count :: nat
  peak_bytes :: nat

definition zero_stats :: alloc_stats where
  "zero_stats =
     \<lparr>total_bytes = 0, used_bytes = 0, free_bytes = 0,
      alloc_count = 0, dealloc_count = 0, peak_bytes = 0\<rparr>"

text \<open>The bytes of a block of \<open>2 ^ k\<close> pages at an address.\<close>

definition block_range :: "nat \<Rightarrow> nat \<Rightarrow> nat set" where
  "block_range a order = {a..<a + 2 ^ order * PAGE_SIZE}"

end
