(* ===== verification/Buddy.thy ===== *)
theory Buddy
  imports Abalone
begin

text \<open>
  \<^verbatim>\<open>abalone/src/buddy.rs\<close>: the binary buddy page allocator. A page index counts 4 KiB pages
  from the allocator's base; a free block of order \<open>k\<close> is \<open>2 ^ k\<close> pages whose first 16 bytes
  hold the node (\<open>prev\<close> at 0, \<open>next\<close> at 8) of the order's free list. The state is the memory
  and the allocator record; the \<open>Mutex\<close> serialises the operations, so each is one step.
\<close>

subsection \<open>Bitmap\<close>

record bitmap =
  words :: "u64 list"

definition bitmap_new :: bitmap where
  "bitmap_new = \<lparr>words = replicate (2 ^ (BUDDY_MAX_ORDER - 1) div 64 + 1) 0\<rparr>"

definition bitmap_toggle :: "bitmap \<Rightarrow> nat \<Rightarrow> bitmap res" where
  "bitmap_toggle bm bt =
     and_then (at_index (words bm) (bt div 64)) (\<lambda>w.
     Inr (bm\<lparr>words := (words bm)[bt div 64 := w XOR push_bit (bt mod 64) 1]\<rparr>))"

definition bitmap_test :: "bitmap \<Rightarrow> nat \<Rightarrow> bool res" where
  "bitmap_test bm bt =
     and_then (at_index (words bm) (bt div 64)) (\<lambda>w.
     Inr (drop_bit (bt mod 64) w AND 1 = 1))"

subsection \<open>The allocator\<close>

record buddy =
  bd_base :: nat
  bd_total_pages :: nat
  bd_free_lists :: "nat list"
  bd_bitmaps :: "bitmap list"
  bd_stats :: alloc_stats

definition buddy_new :: buddy where
  "buddy_new =
     \<lparr>bd_base = 0,
      bd_total_pages = 0,
      bd_free_lists = replicate BUDDY_MAX_ORDER 0,
      bd_bitmaps = replicate BUDDY_MAX_ORDER bitmap_new,
      bd_stats = zero_stats\<rparr>"

definition set_base :: "nat \<Rightarrow> buddy \<Rightarrow> buddy res" where
  "set_base virt_base b =
     and_then (guard (bd_total_pages b = 0)
       (Assertion ''set_base must be called before add_region'')) (\<lambda>_.
     and_then (guard (virt_base mod PAGE_SIZE = 0) (Assertion ''virt_base % PAGE_SIZE == 0'')) (\<lambda>_.
     Inr (b\<lparr>bd_base := virt_base\<rparr>)))"

definition toggle_pair :: "nat \<Rightarrow> nat \<Rightarrow> buddy \<Rightarrow> buddy res" where
  "toggle_pair order bt b =
     and_then (at_index (bd_bitmaps b) order) (\<lambda>bm.
     and_then (bitmap_toggle bm bt) (\<lambda>bm.
     Inr (b\<lparr>bd_bitmaps := (bd_bitmaps b)[order := bm]\<rparr>)))"

definition free_block :: "nat \<Rightarrow> nat \<Rightarrow> mem \<times> buddy \<Rightarrow> (mem \<times> buddy) res" where
  "free_block page_idx order = (\<lambda>(m, b).
     and_then (checked_mul page_idx PAGE_SIZE) (\<lambda>off.
     and_then (checked_add (bd_base b) off) (\<lambda>node.
     and_then (at_index (bd_free_lists b) order) (\<lambda>head.
     let m = list_push 0 8 node m head;
         b = b\<lparr>bd_free_lists := (bd_free_lists b)[order := node]\<rparr>
     in and_then (toggle_pair order (drop_bit (order + 1) page_idx) b) (\<lambda>b.
     Inr (m, b))))))"

text \<open>The \<open>while remaining > 0\<close> loop of \<open>add_region\<close>.\<close>

definition region_order :: "nat \<Rightarrow> nat \<Rightarrow> nat" where
  "region_order remaining offset_pages =
     (let align_order = min (if offset_pages = 0 then BUDDY_MAX_ORDER - 1
                             else trailing_zeros offset_pages) (BUDDY_MAX_ORDER - 1);
          size_order = 63 - leading_zeros remaining;
          size_order = min size_order (BUDDY_MAX_ORDER - 1)
      in min align_order size_order)"

function add_region_loop :: "nat \<Rightarrow> nat \<Rightarrow> mem \<times> buddy \<Rightarrow> (mem \<times> buddy) res" where
  "add_region_loop remaining offset_pages s =
     (if remaining > 0 then
        let order = region_order remaining offset_pages;
            block_pages = 2 ^ order
        in and_then (free_block offset_pages order s) (\<lambda>s.
           and_then (checked_add offset_pages block_pages) (\<lambda>offset_pages.
           and_then (checked_sub remaining block_pages) (\<lambda>remaining.
           add_region_loop remaining offset_pages s)))
      else Inr s)"
  by pat_completeness auto
termination
  by (relation "measure (\<lambda>(remaining, offset_pages, s). remaining)")
    (auto simp: checked_eq_Inr)

declare add_region_loop.simps [simp del]

definition add_region :: "nat \<Rightarrow> nat \<Rightarrow> mem \<times> buddy \<Rightarrow> (mem \<times> buddy) res" where
  "add_region virt_base page_count = (\<lambda>(m, b).
     and_then (guard (bd_base b \<noteq> 0) (Assertion ''call set_base before add_region'')) (\<lambda>_.
     and_then (guard (virt_base \<ge> bd_base b)
       (Assertion ''region base precedes allocator base'')) (\<lambda>_.
     and_then (add_region_loop page_count ((virt_base - bd_base b) div PAGE_SIZE) (m, b)) (\<lambda>(m, b).
     and_then (checked_add (bd_total_pages b) page_count) (\<lambda>total_pages.
     and_then (checked_mul total_pages PAGE_SIZE) (\<lambda>total.
     and_then (checked_sub total (used_bytes (bd_stats b))) (\<lambda>free.
     Inr (m, b\<lparr>bd_total_pages := total_pages,
               bd_stats := (bd_stats b)\<lparr>total_bytes := total, free_bytes := free\<rparr>\<rparr>))))))))"

text \<open>The splitting loop of \<open>alloc_pages\<close>: \<open>current_order\<close> counts down to \<open>order\<close>.\<close>

primrec split_block :: "nat \<Rightarrow> nat \<Rightarrow> nat \<Rightarrow> mem \<times> buddy \<Rightarrow> (mem \<times> buddy) res" where
  "split_block order 0 current_page s = Inr s"
| "split_block order (Suc current_order) current_page s =
     (if Suc current_order > order then
        and_then (checked_add current_page (2 ^ current_order)) (\<lambda>buddy_page.
        and_then (free_block buddy_page current_order s) (\<lambda>s.
        split_block order current_order current_page s))
      else Inr s)"

definition count_alloc :: "nat \<Rightarrow> alloc_stats \<Rightarrow> alloc_stats res" where
  "count_alloc bytes ss =
     and_then (checked_add (used_bytes ss) bytes) (\<lambda>used.
     and_then (checked_sub (free_bytes ss) bytes) (\<lambda>free.
     and_then (checked_add (alloc_count ss) 1) (\<lambda>count.
     Inr (ss\<lparr>used_bytes := used, free_bytes := free, alloc_count := count,
             peak_bytes := (if used > peak_bytes ss then used else peak_bytes ss)\<rparr>))))"

definition alloc_pages :: "nat \<Rightarrow> mem \<times> buddy \<Rightarrow> (nat option \<times> mem \<times> buddy) res" where
  "alloc_pages order = (\<lambda>(m, b).
     and_then (guard (order < BUDDY_MAX_ORDER) (Assertion ''order exceeds BUDDY_MAX_ORDER'')) (\<lambda>_.
     case find (\<lambda>k. bd_free_lists b ! k \<noteq> 0) [order..<BUDDY_MAX_ORDER] of
       None \<Rightarrow> Inr (None, m, b)
     | Some found_order \<Rightarrow>
         let block_ptr = bd_free_lists b ! found_order;
             next = ld64 m (block_ptr + 8);
             b = b\<lparr>bd_free_lists := (bd_free_lists b)[found_order := next]\<rparr>;
             m = (if next \<noteq> 0 then st64 next 0 m else m)
         in and_then (checked_sub block_ptr (bd_base b)) (\<lambda>off.
            let page_idx = off div PAGE_SIZE
            in and_then (toggle_pair found_order (drop_bit (found_order + 1) page_idx) b) (\<lambda>b.
               and_then (split_block order found_order page_idx (m, b)) (\<lambda>(m, b).
               and_then (checked_mul (2 ^ order) PAGE_SIZE) (\<lambda>bytes.
               and_then (count_alloc bytes (bd_stats b)) (\<lambda>ss.
               and_then (checked_mul page_idx PAGE_SIZE) (\<lambda>off.
               and_then (checked_add (bd_base b) off) (\<lambda>addr.
               Inr (Some addr, m, b\<lparr>bd_stats := ss\<rparr>))))))))))"

text \<open>The merging loop of \<open>dealloc_pages\<close>.\<close>

function coalesce :: "nat \<Rightarrow> nat \<Rightarrow> mem \<times> buddy \<Rightarrow> (nat \<times> nat \<times> mem \<times> buddy) res" where
  "coalesce page_idx ord (m, b) =
     (if ord < BUDDY_MAX_ORDER - 1 then
        let buddy_idx = page_idx XOR 2 ^ ord;
            pair_bit = drop_bit (ord + 1) page_idx
        in and_then (at_index (bd_bitmaps b) ord) (\<lambda>bm.
           and_then (bitmap_test bm pair_bit) (\<lambda>set.
           if set then
             and_then (checked_mul buddy_idx PAGE_SIZE) (\<lambda>off.
             and_then (checked_add (bd_base b) off) (\<lambda>buddy_addr.
             and_then (at_index (bd_free_lists b) ord) (\<lambda>head.
             let (m, head) = list_unlink 0 8 buddy_addr m head;
                 b = b\<lparr>bd_free_lists := (bd_free_lists b)[ord := head]\<rparr>
             in and_then (toggle_pair ord pair_bit b) (\<lambda>b.
                coalesce (min page_idx buddy_idx) (ord + 1) (m, b)))))
           else Inr (page_idx, ord, m, b)))
      else Inr (page_idx, ord, m, b))"
  by pat_completeness auto
termination
  by (relation "measure (\<lambda>(page_idx, ord, s). BUDDY_MAX_ORDER - 1 - ord)") auto

declare coalesce.simps [simp del]

definition count_dealloc :: "nat \<Rightarrow> alloc_stats \<Rightarrow> alloc_stats res" where
  "count_dealloc bytes ss =
     and_then (checked_sub (used_bytes ss) bytes) (\<lambda>used.
     and_then (checked_add (free_bytes ss) bytes) (\<lambda>free.
     and_then (checked_add (dealloc_count ss) 1) (\<lambda>count.
     Inr (ss\<lparr>used_bytes := used, free_bytes := free, dealloc_count := count\<rparr>))))"

definition dealloc_pages :: "nat \<Rightarrow> nat \<Rightarrow> mem \<times> buddy \<Rightarrow> (mem \<times> buddy) res" where
  "dealloc_pages ptr order = (\<lambda>(m, b).
     and_then (guard (ptr \<ge> bd_base b \<and> (ptr - bd_base b) mod PAGE_SIZE = 0)
       (Assertion ''dealloc_pages: address not from this allocator'')) (\<lambda>_.
     and_then (guard (order < BUDDY_MAX_ORDER) (Assertion ''order exceeds BUDDY_MAX_ORDER'')) (\<lambda>_.
     and_then (coalesce ((ptr - bd_base b) div PAGE_SIZE) order (m, b)) (\<lambda>(page_idx, ord, m, b).
     and_then (free_block page_idx ord (m, b)) (\<lambda>(m, b).
     and_then (checked_mul (2 ^ order) PAGE_SIZE) (\<lambda>bytes.
     and_then (count_dealloc bytes (bd_stats b)) (\<lambda>ss.
     Inr (m, b\<lparr>bd_stats := ss\<rparr>))))))))"

end
