(* ===== verification/Buddy_Inv.thy ===== *)
theory Buddy_Inv
  imports Buddy
begin

text \<open>
  What the buddy allocator keeps true. \<open>F k\<close> is the sequence of page indices on the free list of
  order \<open>k\<close>; \<open>buddy_rep m b F\<close> says that memory and record represent \<open>F\<close>: every list is linked,
  blocks are aligned, inside the 512 MiB window and pairwise disjoint, and every bitmap bit says
  whether exactly one buddy of the pair is free. The lemmas give each step of the code (push,
  unlink, toggle, the two loops) as a step on \<open>F\<close>.
\<close>

subsection \<open>Bitmap bits\<close>

lemma drop_bit_and_1: "drop_bit j w AND 1 = 1 \<longleftrightarrow> bit w j" for w :: u64
  by (simp add: bit_iff_odd_drop_bit and_one_eq odd_iff_mod_2_eq_one)

lemma bitmap_toggle_test:
  assumes "bitmap_test bm p = Inr v"
  obtains bm' where "bitmap_toggle bm p = Inr bm'" and "bitmap_test bm' p = Inr (\<not> v)"
    and "\<And>q. q \<noteq> p \<Longrightarrow> bitmap_test bm' q = bitmap_test bm q"
proof -
  define w where "w = words bm ! (p div 64)"
  define bm' where "bm' = bm\<lparr>words := (words bm)[p div 64 := w XOR push_bit (p mod 64) 1]\<rparr>"
  have len: "p div 64 < length (words bm)" and v: "v = bit w (p mod 64)"
    using assms by (auto simp: bitmap_test_def res_elims drop_bit_and_1 w_def)
  have tog: "bit (w XOR push_bit (p mod 64) 1) j = (bit w j \<noteq> (j = p mod 64))" if "j < 64" for j
    using that by (auto simp: bit_simps)
  show thesis
  proof
    show "bitmap_toggle bm p = Inr bm'"
      using len by (simp add: bitmap_toggle_def bm'_def w_def)
    show "bitmap_test bm' p = Inr (\<not> v)"
      using len tog [of "p mod 64"] v by (simp add: bitmap_test_def bm'_def drop_bit_and_1)
    show "bitmap_test bm' q = bitmap_test bm q" if "q \<noteq> p" for q
    proof (cases "q div 64 = p div 64")
      case True
      then have "q mod 64 \<noteq> p mod 64" using that by (metis div_mod_decomp)
      with True len tog [of "q mod 64"] show ?thesis
        by (simp add: bitmap_test_def bm'_def drop_bit_and_1 w_def)
    next
      case False
      then show ?thesis by (simp add: bitmap_test_def bm'_def at_index_def)
    qed
  qed
qed

subsection \<open>Blocks\<close>

definition MAX_PAGES :: nat where
  "MAX_PAGES = 2 ^ BUDDY_MAX_ORDER"

definition block_pages :: "nat \<times> nat \<Rightarrow> nat set" where
  "block_pages = (\<lambda>(k, i). {i..<i + 2 ^ k})"

definition block_set :: "(nat \<Rightarrow> nat list) \<Rightarrow> (nat \<times> nat) set" where
  "block_set F = {(k, i). k < BUDDY_MAX_ORDER \<and> i \<in> set (F k)}"

definition free_pages :: "(nat \<Rightarrow> nat list) \<Rightarrow> nat set" where
  "free_pages F = (\<Union>B\<in>block_set F. block_pages B)"

definition wf_block :: "nat \<times> nat \<Rightarrow> bool" where
  "wf_block = (\<lambda>(k, i). k < BUDDY_MAX_ORDER \<and> 2 ^ k dvd i \<and> i + 2 ^ k \<le> MAX_PAGES)"

definition wf_blocks :: "(nat \<Rightarrow> nat list) \<Rightarrow> bool" where
  "wf_blocks F \<longleftrightarrow>
     (\<forall>B\<in>block_set F. wf_block B) \<and>
     (\<forall>k<BUDDY_MAX_ORDER. distinct (F k)) \<and>
     (\<forall>A\<in>block_set F. \<forall>B\<in>block_set F. A \<noteq> B \<longrightarrow> block_pages A \<inter> block_pages B = {})"

definition pair_bit :: "nat set \<Rightarrow> nat \<Rightarrow> nat \<Rightarrow> bool" where
  "pair_bit S k p \<longleftrightarrow> (2 * p * 2 ^ k \<in> S) \<noteq> ((2 * p + 1) * 2 ^ k \<in> S)"

definition wf_bitmaps :: "bitmap list \<Rightarrow> (nat \<Rightarrow> nat list) \<Rightarrow> bool" where
  "wf_bitmaps bms F \<longleftrightarrow> length bms = BUDDY_MAX_ORDER \<and>
     (\<forall>k<BUDDY_MAX_ORDER. \<forall>p<2 ^ (BUDDY_MAX_ORDER - 1).
        bitmap_test (bms ! k) p = Inr (pair_bit (set (F k)) k p))"

lemma block_pages_simp [simp]: "block_pages (k, i) = {i..<i + 2 ^ k}"
  by (simp add: block_pages_def)

lemma block_set_iff [simp]: "(k, i) \<in> block_set F \<longleftrightarrow> k < BUDDY_MAX_ORDER \<and> i \<in> set (F k)"
  by (simp add: block_set_def)

lemma wf_block_iff [simp]:
  "wf_block (k, i) \<longleftrightarrow> k < BUDDY_MAX_ORDER \<and> 2 ^ k dvd i \<and> i + 2 ^ k \<le> MAX_PAGES"
  by (simp add: wf_block_def)

lemma block_set_insert:
  "k < BUDDY_MAX_ORDER \<Longrightarrow> block_set (F(k := i # F k)) = insert (k, i) (block_set F)"
  by (auto simp: block_set_def split: if_splits)

lemma mem_free_pages: "x \<in> free_pages F \<longleftrightarrow> (\<exists>k<BUDDY_MAX_ORDER. \<exists>i\<in>set (F k). i \<le> x \<and> x < i + 2 ^ k)"
  by (auto simp: free_pages_def block_set_def block_pages_def)

lemma block_free_pages: "k < BUDDY_MAX_ORDER \<Longrightarrow> i \<in> set (F k) \<Longrightarrow> {i..<i + 2 ^ k} \<subseteq> free_pages F"
  using UN_upper [of "(k, i)" "block_set F" block_pages] by (simp add: free_pages_def)

lemma index_free: "k < BUDDY_MAX_ORDER \<Longrightarrow> i \<in> set (F k) \<Longrightarrow> i \<in> free_pages F"
  using block_free_pages [of k i F] by (simp add: subset_iff)

lemma free_pages_insert:
  assumes "k < BUDDY_MAX_ORDER"
  shows "free_pages (F(k := i # F k)) = free_pages F \<union> {i..<i + 2 ^ k}"
  by (simp add: free_pages_def block_set_insert [OF assms] Un_commute)

lemma wf_blocks_window: "wf_blocks F \<Longrightarrow> free_pages F \<subseteq> {..<MAX_PAGES}"
  by (force simp: wf_blocks_def free_pages_def)

lemma wf_blocksD:
  assumes "wf_blocks F" and "k < BUDDY_MAX_ORDER" and "i \<in> set (F k)"
  shows "2 ^ k dvd i" and "i + 2 ^ k \<le> MAX_PAGES" and "distinct (F k)"
  using assms by (auto simp: wf_blocks_def dest!: bspec [where x = "(k, i)"])

lemma wf_blocks_disjoint:
  assumes "wf_blocks F" and "k < BUDDY_MAX_ORDER" and "i \<in> set (F k)"
    and "l < BUDDY_MAX_ORDER" and "j \<in> set (F l)" and "(k, i) \<noteq> (l, j)"
  shows "{i..<i + 2 ^ k} \<inter> {j..<j + 2 ^ l} = {}"
proof -
  have "(k, i) \<in> block_set F" "(l, j) \<in> block_set F" using assms by auto
  with assms(1,6) have "block_pages (k, i) \<inter> block_pages (l, j) = {}"
    unfolding wf_blocks_def by blast
  then show ?thesis by simp
qed

lemma wf_blocks_order_unique:
  assumes "wf_blocks F" and "k < BUDDY_MAX_ORDER" and "i \<in> set (F k)"
    and "l < BUDDY_MAX_ORDER" and "i \<in> set (F l)"
  shows "k = l"
  using wf_blocks_disjoint [OF assms(1-3) assms(4,5)] by (cases "k = l") auto

lemma wf_blocks_insert:
  assumes "wf_blocks F" and "wf_block (k, i)" and "{i..<i + 2 ^ k} \<inter> free_pages F = {}"
  shows "wf_blocks (F(k := i # F k))"
proof -
  have k: "k < BUDDY_MAX_ORDER" using assms(2) by simp
  note new = block_set_insert [OF k, of F i]
  have notin: "i \<notin> set (F k)" using index_free [OF k] assms(3) by fastforce
  have dis: "block_pages (k, i) \<inter> block_pages B = {}" if "B \<in> block_set F" for B
    using assms(3) that by (auto simp: free_pages_def)
  then show ?thesis
    using assms(1,2) notin unfolding wf_blocks_def new
    by (auto simp: Int_commute simp del: block_pages_simp)
qed

lemma wf_blocks_remove:
  assumes "wf_blocks F"
  shows "wf_blocks (F(k := remove1 i (F k)))"
proof -
  have "block_set (F(k := remove1 i (F k))) \<subseteq> block_set F"
    by (auto simp: block_set_def dest: set_remove1_subset [THEN subsetD] split: if_splits)
  moreover have "distinct ((F(k := remove1 i (F k))) l)" if "l < BUDDY_MAX_ORDER" for l
    using assms that by (auto simp: wf_blocks_def)
  ultimately show ?thesis
    using assms unfolding wf_blocks_def by blast
qed

lemma free_pages_remove:
  assumes "wf_blocks F" and "k < BUDDY_MAX_ORDER" and "i \<in> set (F k)"
  shows "free_pages F = free_pages (F(k := remove1 i (F k))) \<union> {i..<i + 2 ^ k}"
    and "free_pages (F(k := remove1 i (F k))) \<inter> {i..<i + 2 ^ k} = {}"
proof -
  let ?F = "F(k := remove1 i (F k))"
  have dist: "distinct (F k)" using assms wf_blocksD by blast
  have split: "block_set F = insert (k, i) (block_set ?F)" "(k, i) \<notin> block_set ?F"
    using assms(2,3) dist by (auto simp: block_set_def set_remove1_eq split: if_splits)
  then show "free_pages F = free_pages ?F \<union> {i..<i + 2 ^ k}"
    by (simp add: free_pages_def Un_commute)
  have "block_pages B \<inter> block_pages (k, i) = {}" if "B \<in> block_set ?F" for B
  proof -
    have "B \<in> block_set F" "(k, i) \<in> block_set F" "B \<noteq> (k, i)" using that split by auto
    with assms(1) show ?thesis unfolding wf_blocks_def by blast
  qed
  then show "free_pages ?F \<inter> {i..<i + 2 ^ k} = {}"
    by (auto simp: free_pages_def)
qed

subsection \<open>Pair bits\<close>

lemma pair_of_block:
  fixes i :: nat
  assumes "2 ^ k dvd i"
  shows "i = 2 * (i div 2 ^ (k + 1)) * 2 ^ k \<or> i = (2 * (i div 2 ^ (k + 1)) + 1) * 2 ^ k"
proof -
  obtain q where i: "i = q * 2 ^ k" using assms by (metis dvdE mult.commute)
  have "i div 2 ^ (k + 1) = q div 2"
    by (simp add: i div_mult2_eq [symmetric] mult.commute [of 2] flip: div_mult_mult2)
  then show ?thesis using i by (metis div_mult_mod_eq mult.commute not_mod_2_eq_0_eq_1 add.right_neutral)
qed

lemma pair_bit_toggle:
  assumes "2 ^ k dvd i" and "T - {i} = S - {i}" and "(i \<in> T) \<noteq> (i \<in> S)"
  shows "pair_bit T k p = (pair_bit S k p \<noteq> (p = i div 2 ^ (k + 1)))"
proof -
  have other: "x \<in> T \<longleftrightarrow> x \<in> S" if "x \<noteq> i" for x using assms(2) that by blast
  have inj: "(a * 2 ^ k = b * 2 ^ k) = (a = b)" for a b :: nat by simp
  show ?thesis
  proof (cases "p = i div 2 ^ (k + 1)")
    case True
    with pair_of_block [OF assms(1)] show ?thesis
    proof (elim disjE)
      assume i: "i = 2 * (i div 2 ^ (k + 1)) * 2 ^ k"
      then have "(2 * p + 1) * 2 ^ k \<noteq> i" using inj True by (metis add_eq_self_zero one_neq_zero)
      with i True other assms(3) show ?thesis by (auto simp: pair_bit_def)
    next
      assume i: "i = (2 * (i div 2 ^ (k + 1)) + 1) * 2 ^ k"
      then have "2 * p * 2 ^ k \<noteq> i" using inj True by (metis add_eq_self_zero one_neq_zero)
      with i True other assms(3) show ?thesis by (auto simp: pair_bit_def)
    qed
  next
    case False
    have "2 * p * 2 ^ k div 2 ^ (k + 1) = p" "(2 * p + 1) * 2 ^ k div 2 ^ (k + 1) = p"
      using div_mult2_eq [of "(2 * p + 1) * 2 ^ k" "2 ^ k" 2] by (simp_all add: mult.commute)
    with False have "2 * p * 2 ^ k \<noteq> i" "(2 * p + 1) * 2 ^ k \<noteq> i" by auto
    with False other show ?thesis by (simp add: pair_bit_def)
  qed
qed

end
