(* ===== verification/Buddy_Steps.thy ===== *)
theory Buddy_Steps
  imports Buddy_Inv
begin

text \<open>
  The representation relation of the buddy allocator and its three primitive steps: pushing a
  block (\<open>free_block\<close>), unlinking one, and the two loops built from them.
\<close>

interpretation bl: link_layout 0 8 16
  by unfold_locales simp_all

definition page_addr :: "buddy \<Rightarrow> nat \<Rightarrow> nat" where
  "page_addr b i = bd_base b + i * PAGE_SIZE"

definition page_bytes :: "buddy \<Rightarrow> nat set \<Rightarrow> nat set" where
  "page_bytes b P = (\<Union>i\<in>P. {page_addr b i..<page_addr b i + PAGE_SIZE})"

definition wf_base :: "buddy \<Rightarrow> bool" where
  "wf_base b \<longleftrightarrow> bd_base b \<noteq> 0 \<and> bd_base b mod PAGE_SIZE = 0 \<and>
     bd_base b + MAX_PAGES * PAGE_SIZE \<le> u64_max"

definition wf_lists :: "mem \<Rightarrow> buddy \<Rightarrow> (nat \<Rightarrow> nat list) \<Rightarrow> bool" where
  "wf_lists m b F \<longleftrightarrow> length (bd_free_lists b) = BUDDY_MAX_ORDER \<and>
     (\<forall>k<BUDDY_MAX_ORDER. dll 0 8 m 0 (bd_free_lists b ! k) (map (page_addr b) (F k)))"

definition buddy_rep :: "mem \<Rightarrow> buddy \<Rightarrow> (nat \<Rightarrow> nat list) \<Rightarrow> bool" where
  "buddy_rep m b F \<longleftrightarrow>
     wf_base b \<and> wf_lists m b F \<and> wf_blocks F \<and> wf_bitmaps (bd_bitmaps b) F"

text \<open>What the list operations leave alone in the record.\<close>

definition same_frame :: "buddy \<Rightarrow> buddy \<Rightarrow> bool" where
  "same_frame b b' \<longleftrightarrow> bd_base b' = bd_base b \<and> bd_total_pages b' = bd_total_pages b \<and>
     bd_stats b' = bd_stats b"

lemma same_frame_refl [simp]: "same_frame b b"
  by (simp add: same_frame_def)

lemma same_frame_trans: "same_frame b b' \<Longrightarrow> same_frame b' b'' \<Longrightarrow> same_frame b b''"
  by (simp add: same_frame_def)

lemma same_frame_addr: "same_frame b b' \<Longrightarrow> page_addr b' = page_addr b"
  by (auto simp: same_frame_def page_addr_def)

lemma same_frame_bytes: "same_frame b b' \<Longrightarrow> page_bytes b' = page_bytes b"
  by (auto simp: page_bytes_def same_frame_addr)

lemma page_bytes_mono: "P \<subseteq> Q \<Longrightarrow> page_bytes b P \<subseteq> page_bytes b Q"
  by (auto simp: page_bytes_def)

lemma page_bytes_Un: "page_bytes b (P \<union> Q) = page_bytes b P \<union> page_bytes b Q"
  by (auto simp: page_bytes_def)

subsection \<open>Addresses of pages\<close>

lemma page_addr_inj [simp]: "page_addr b i = page_addr b j \<longleftrightarrow> i = j"
  by (simp add: page_addr_def PAGE_SIZE_def)

lemma inj_page_addr: "inj_on (page_addr b) S"
  by (simp add: inj_on_def)

lemma apart_pages: "apart 16 (page_addr b ` S)"
proof -
  have "page_addr b i + 16 \<le> page_addr b j \<or> page_addr b j + 16 \<le> page_addr b i" if "i \<noteq> j" for i j
    using that by (simp add: page_addr_def PAGE_SIZE_def) arith
  then show ?thesis by (auto simp: apart_def)
qed

lemma page_addr_bound: "wf_base b \<Longrightarrow> i < MAX_PAGES \<Longrightarrow> page_addr b i \<le> u64_max"
proof -
  assume base: "wf_base b" and "i < MAX_PAGES"
  then have "i * PAGE_SIZE \<le> MAX_PAGES * PAGE_SIZE" by (intro mult_le_mono1) simp
  then show ?thesis using base unfolding wf_base_def page_addr_def by linarith
qed

lemma page_off_bound: "wf_base b \<Longrightarrow> i < MAX_PAGES \<Longrightarrow> i * PAGE_SIZE \<le> u64_max"
  using page_addr_bound [of b i] by (simp add: page_addr_def)

lemma page_addr_nonzero: "wf_base b \<Longrightarrow> page_addr b i \<noteq> 0"
  by (simp add: wf_base_def page_addr_def)

lemma page_index: "(page_addr b i - bd_base b) div PAGE_SIZE = i"
  by (simp add: page_addr_def PAGE_SIZE_def)

lemma link_cells_pages: "link_cells 16 (page_addr b ` S) \<subseteq> page_bytes b S"
  by (force simp: link_cells_def page_bytes_def PAGE_SIZE_def)

lemma page_bytes_disjoint:
  assumes "S \<inter> T = {}"
  shows "page_bytes b S \<inter> page_bytes b T = {}"
proof (rule ccontr)
  assume "page_bytes b S \<inter> page_bytes b T \<noteq> {}"
  then obtain x i j where ij: "i \<in> S" "j \<in> T"
    and x: "page_addr b i \<le> x" "x < page_addr b i + PAGE_SIZE"
      "page_addr b j \<le> x" "x < page_addr b j + PAGE_SIZE"
    unfolding page_bytes_def by fastforce
  have "i = j" using x by (simp add: page_addr_def PAGE_SIZE_def)
  with ij assms show False by blast
qed

lemma block_in_window:
  assumes "wf_blocks F" and "k < BUDDY_MAX_ORDER" and "i \<in> set (F k)"
  shows "i < MAX_PAGES"
  using wf_blocksD(2) [OF assms] by (metis add_gr_0 less_add_same_cancel1 less_le_trans zero_less_numeral zero_less_power)

subsection \<open>Changing one list\<close>

text \<open>
  Replacing the list of order \<open>k\<close> by one that differs in a single block \<open>i\<close>, with the block's
  pair bit toggled, keeps the representation, if the memory changed only in link cells of the
  blocks of that list.
\<close>

lemma toggle_pair_rep:
  assumes bms: "wf_bitmaps (bd_bitmaps b) F" and k: "k < BUDDY_MAX_ORDER"
    and i: "2 ^ k dvd i" "i < MAX_PAGES"
    and T: "set ys - {i} = set (F k) - {i}" "(i \<in> set ys) \<noteq> (i \<in> set (F k))"
  obtains b' where "toggle_pair k (drop_bit (k + 1) i) b = Inr b'"
    and "wf_bitmaps (bd_bitmaps b') (F(k := ys))"
    and "b' = b\<lparr>bd_bitmaps := bd_bitmaps b'\<rparr>"
proof -
  define p where "p = i div 2 ^ (k + 1)"
  have p: "p < 2 ^ (BUDDY_MAX_ORDER - 1)"
  proof -
    have "i < 2 ^ (BUDDY_MAX_ORDER - 1) * 2"
      using i(2) by (simp add: MAX_PAGES_def BUDDY_MAX_ORDER_def)
    also have "\<dots> \<le> 2 ^ (BUDDY_MAX_ORDER - 1) * 2 ^ (k + 1)" by simp
    finally show ?thesis by (simp add: p_def less_mult_imp_div_less)
  qed
  from bms k p have "bitmap_test (bd_bitmaps b ! k) p = Inr (pair_bit (set (F k)) k p)"
    and len: "length (bd_bitmaps b) = BUDDY_MAX_ORDER"
    by (auto simp: wf_bitmaps_def)
  then obtain bm' where bm': "bitmap_toggle (bd_bitmaps b ! k) p = Inr bm'"
    "bitmap_test bm' p = Inr (\<not> pair_bit (set (F k)) k p)"
    "\<And>q. q \<noteq> p \<Longrightarrow> bitmap_test bm' q = bitmap_test (bd_bitmaps b ! k) q"
    by (metis bitmap_toggle_test)
  define b' where "b' = b\<lparr>bd_bitmaps := (bd_bitmaps b)[k := bm']\<rparr>"
  have bits: "bitmap_test bm' q = Inr (pair_bit (set ys) k q)" if "q < 2 ^ (BUDDY_MAX_ORDER - 1)" for q
    using bm' that bms k pair_bit_toggle [OF i(1) T, of q]
    by (cases "q = p") (auto simp: wf_bitmaps_def p_def)
  show thesis
  proof
    show "toggle_pair k (drop_bit (k + 1) i) b = Inr b'"
      using k len bm'(1) by (simp add: toggle_pair_def b'_def p_def drop_bit_eq_div)
    show "wf_bitmaps (bd_bitmaps b') (F(k := ys))"
      using bms k len bits by (auto simp: wf_bitmaps_def b'_def nth_list_update)
    show "b' = b\<lparr>bd_bitmaps := bd_bitmaps b'\<rparr>"
      by (simp add: b'_def)
  qed
qed

lemma page_addr_update [simp]:
  "page_addr (b\<lparr>bd_free_lists := x\<rparr>) = page_addr b"
  "page_addr (b\<lparr>bd_bitmaps := y\<rparr>) = page_addr b"
  "page_addr (b\<lparr>bd_stats := z\<rparr>) = page_addr b"
  "page_addr (b\<lparr>bd_total_pages := n\<rparr>) = page_addr b"
  by (simp_all add: page_addr_def fun_eq_iff)

lemma wf_lists_update:
  assumes lists: "wf_lists m b F" and k: "k < BUDDY_MAX_ORDER"
    and new: "dll 0 8 m' 0 h' (map (page_addr b) ys)"
    and agree: "agree_off (link_cells 16 (page_addr b ` S)) m m'"
    and S: "\<And>l. l < BUDDY_MAX_ORDER \<Longrightarrow> l \<noteq> k \<Longrightarrow> set (F l) \<inter> S = {}"
  shows "wf_lists m' (b\<lparr>bd_free_lists := (bd_free_lists b)[k := h']\<rparr>) (F(k := ys))"
proof -
  have "dll 0 8 m' 0 (bd_free_lists b ! l) (map (page_addr b) (F l))"
    if l: "l < BUDDY_MAX_ORDER" "l \<noteq> k" for l
  proof -
    have "link_cells 16 (page_addr b ` set (F l)) \<inter> link_cells 16 (page_addr b ` S) = {}"
      using page_bytes_disjoint [OF S [OF l], of b] link_cells_pages by blast
    then have "dll 0 8 m' 0 (bd_free_lists b ! l) (map (page_addr b) (F l))
        = dll 0 8 m 0 (bd_free_lists b ! l) (map (page_addr b) (F l))"
      by (intro bl.dll_agree [OF agree]) simp
    with lists l show ?thesis by (simp add: wf_lists_def)
  qed
  with lists k new show ?thesis
    by (auto simp: wf_lists_def nth_list_update page_addr_def)
qed

lemma other_lists_avoid:
  assumes "wf_blocks F" and "k < BUDDY_MAX_ORDER" and "l < BUDDY_MAX_ORDER" and "l \<noteq> k"
  shows "set (F l) \<inter> set (F k) = {}"
  using wf_blocks_order_unique [OF assms(1,3) _ assms(2)] assms(4) by blast

lemma wf_base_update [simp]:
  "wf_base (b\<lparr>bd_free_lists := x\<rparr>) = wf_base b"
  "wf_base (b\<lparr>bd_bitmaps := y\<rparr>) = wf_base b"
  "wf_base (b\<lparr>bd_stats := z\<rparr>) = wf_base b"
  "wf_base (b\<lparr>bd_total_pages := n\<rparr>) = wf_base b"
  by (simp_all add: wf_base_def)

lemma wf_lists_other_fields [simp]:
  "wf_lists m (b\<lparr>bd_bitmaps := y\<rparr>) F = wf_lists m b F"
  "wf_lists m (b\<lparr>bd_stats := z\<rparr>) F = wf_lists m b F"
  "wf_lists m (b\<lparr>bd_total_pages := n\<rparr>) F = wf_lists m b F"
  by (simp_all add: wf_lists_def)

lemma buddy_rep_other_fields [simp]:
  "buddy_rep m (b\<lparr>bd_stats := z\<rparr>) F = buddy_rep m b F"
  "buddy_rep m (b\<lparr>bd_total_pages := n\<rparr>) F = buddy_rep m b F"
  by (simp_all add: buddy_rep_def)

subsection \<open>Freeing a block\<close>

lemma free_block_rep:
  assumes rep: "buddy_rep m b F" and blk: "wf_block (k, i)"
    and new: "{i..<i + 2 ^ k} \<inter> free_pages F = {}"
  obtains m' b' where "free_block i k (m, b) = Inr (m', b')"
    and "buddy_rep m' b' (F(k := i # F k))"
    and "agree_off (page_bytes b (free_pages F \<union> {i..<i + 2 ^ k})) m m'"
    and "same_frame b b'"
proof -
  from rep have base: "wf_base b" and lists: "wf_lists m b F" and blocks: "wf_blocks F"
    and bms: "wf_bitmaps (bd_bitmaps b) F"
    by (simp_all add: buddy_rep_def)
  from blk have k: "k < BUDDY_MAX_ORDER" and dvd: "2 ^ k dvd i" and "i + 2 ^ k \<le> MAX_PAGES" by auto
  then have i: "i < MAX_PAGES" by (metis add_gr_0 less_add_same_cancel1 less_le_trans zero_less_numeral zero_less_power)
  have "i \<in> {i..<i + 2 ^ k}" by simp
  with new have notin: "i \<notin> free_pages F" by blast
  define head where "head = bd_free_lists b ! k"
  define m' where "m' = list_push 0 8 (page_addr b i) m head"
  define b1 where "b1 = b\<lparr>bd_free_lists := (bd_free_lists b)[k := page_addr b i]\<rparr>"
  have old: "dll 0 8 m 0 head (map (page_addr b) (F k))"
    using lists k by (simp add: wf_lists_def head_def)
  have pushed: "dll 0 8 m' 0 (page_addr b i) (page_addr b i # map (page_addr b) (F k))"
    unfolding m'_def
  proof (rule bl.push_dll [OF old])
    show "apart 16 (insert (page_addr b i) (set (map (page_addr b) (F k))))"
      using apart_pages [of b "insert i (set (F k))"] by simp
    show "page_addr b i \<notin> set (map (page_addr b) (F k))"
      using notin index_free [OF k] by auto
    show "distinct (map (page_addr b) (F k))"
      using blocks k inj_page_addr by (simp add: distinct_map wf_blocks_def)
    show "\<forall>y\<in>set (map (page_addr b) (F k)). y \<le> u64_max"
      using page_addr_bound [OF base] block_in_window [OF blocks k] by auto
    show "page_addr b i \<le> u64_max" using base i by (rule page_addr_bound)
    show "page_addr b i \<noteq> 0" using base by (rule page_addr_nonzero)
  qed
  have agree: "agree_off (link_cells 16 (page_addr b ` insert i (set (F k)))) m m'"
    using bl.push_agree [OF old, of "page_addr b i"] by (simp add: m'_def)
  have avoid: "set (F l) \<inter> insert i (set (F k)) = {}" if "l < BUDDY_MAX_ORDER" "l \<noteq> k" for l
    using other_lists_avoid [OF blocks k that] notin index_free [OF that(1)] by auto
  have lists1: "wf_lists m' b1 (F(k := i # F k))"
    unfolding b1_def using pushed by (intro wf_lists_update [OF lists k _ agree avoid]) simp
  have "i \<notin> set (F k)" using notin index_free [OF k] by auto
  then obtain b' where b': "toggle_pair k (drop_bit (k + 1) i) b1 = Inr b'"
    "wf_bitmaps (bd_bitmaps b') (F(k := i # F k))" "b' = b1\<lparr>bd_bitmaps := bd_bitmaps b'\<rparr>"
    using toggle_pair_rep [of b1 F k i "i # F k"] bms k dvd i by (auto simp: b1_def)
  have frame: "same_frame b b'" by (subst b'(3)) (simp add: same_frame_def b1_def)
  show thesis
  proof
    show "free_block i k (m, b) = Inr (m', b')"
      using k b'(1) lists page_off_bound [OF base i] page_addr_bound [OF base i]
      by (simp add: free_block_def Let_def wf_lists_def head_def m'_def b1_def page_addr_def)
    show "buddy_rep m' b' (F(k := i # F k))"
      using base lists1 wf_blocks_insert [OF blocks blk new] b'(2)
      unfolding buddy_rep_def by (subst (1 2) b'(3)) (simp add: b1_def)
    have "insert i (set (F k)) \<subseteq> free_pages F \<union> {i..<i + 2 ^ k}"
      using index_free [OF k] by auto
    then show "agree_off (page_bytes b (free_pages F \<union> {i..<i + 2 ^ k})) m m'"
      by (rule agree_off_mono [OF agree subset_trans [OF link_cells_pages page_bytes_mono]])
    show "same_frame b b'" by (rule frame)
  qed
qed

subsection \<open>Taking a block off its list\<close>

lemma unlink_rep:
  assumes rep: "buddy_rep m b F" and k: "k < BUDDY_MAX_ORDER" and i: "i \<in> set (F k)"
    and un: "list_unlink 0 8 (page_addr b i) m (bd_free_lists b ! k) = (m', h')"
  obtains b' where
    "toggle_pair k (drop_bit (k + 1) i) (b\<lparr>bd_free_lists := (bd_free_lists b)[k := h']\<rparr>) = Inr b'"
    and "buddy_rep m' b' (F(k := remove1 i (F k)))"
    and "agree_off (page_bytes b (free_pages F)) m m'"
    and "same_frame b b'"
proof -
  from rep have base: "wf_base b" and lists: "wf_lists m b F" and blocks: "wf_blocks F"
    and bms: "wf_bitmaps (bd_bitmaps b) F"
    by (simp_all add: buddy_rep_def)
  note blk = wf_blocksD [OF blocks k i]
  obtain as bs where F: "F k = as @ i # bs" using i by (meson split_list)
  with blk(3) have rm: "remove1 i (F k) = as @ bs" by (simp add: remove1_append)
  define b1 where "b1 = b\<lparr>bd_free_lists := (bd_free_lists b)[k := h']\<rparr>"
  have old: "dll 0 8 m 0 (bd_free_lists b ! k)
      (map (page_addr b) as @ page_addr b i # map (page_addr b) bs)"
  proof -
    have "dll 0 8 m 0 (bd_free_lists b ! k) (map (page_addr b) (F k))"
      using lists k by (simp add: wf_lists_def)
    then show ?thesis unfolding F by simp
  qed
  have rest: "dll 0 8 m' 0 h' (map (page_addr b) as @ map (page_addr b) bs)"
  proof (rule bl.unlink_dll [OF old _ _ _ un])
    show "apart 16 (set (map (page_addr b) as @ page_addr b i # map (page_addr b) bs))"
      using apart_pages [of b "set (F k)"] F by (simp add: image_Un)
    show "distinct (map (page_addr b) as @ page_addr b i # map (page_addr b) bs)"
    proof -
      have "distinct (map (page_addr b) (F k))"
        using blk(3) by (simp add: distinct_map inj_page_addr)
      then show ?thesis unfolding F by simp
    qed
    show "\<forall>y\<in>set (map (page_addr b) as @ map (page_addr b) bs). y \<le> u64_max"
      using page_addr_bound [OF base] block_in_window [OF blocks k] F by auto
  qed
  have agree: "agree_off (link_cells 16 (page_addr b ` set (F k))) m m'"
    by (rule agree_off_mono [OF bl.unlink_agree [OF old un] link_cells_mono]) (auto simp: F)
  have lists1: "wf_lists m' b1 (F(k := remove1 i (F k)))"
    unfolding b1_def rm using rest
    by (intro wf_lists_update [OF lists k _ agree other_lists_avoid [OF blocks k]]) simp_all
  obtain b' where b': "toggle_pair k (drop_bit (k + 1) i) b1 = Inr b'"
    "wf_bitmaps (bd_bitmaps b') (F(k := remove1 i (F k)))" "b' = b1\<lparr>bd_bitmaps := bd_bitmaps b'\<rparr>"
    using toggle_pair_rep [of b1 F k i "remove1 i (F k)"] bms k i blk(1,3) block_in_window [OF blocks k i]
    by (auto simp: b1_def)
  show thesis
  proof
    show "toggle_pair k (drop_bit (k + 1) i) (b\<lparr>bd_free_lists := (bd_free_lists b)[k := h']\<rparr>) = Inr b'"
      using b'(1) by (simp add: b1_def)
    show "buddy_rep m' b' (F(k := remove1 i (F k)))"
      using base lists1 wf_blocks_remove [OF blocks] b'(2)
      unfolding buddy_rep_def by (subst (1 2) b'(3)) (simp add: b1_def)
    show "agree_off (page_bytes b (free_pages F)) m m'"
      using index_free [OF k]
      by (intro agree_off_mono [OF agree subset_trans [OF link_cells_pages page_bytes_mono]]) auto
    show "same_frame b b'" by (subst b'(3)) (simp add: same_frame_def b1_def)
  qed
qed

end
