(* ===== verification/Buddy_Loops.thy ===== *)
theory Buddy_Loops
  imports Buddy_Steps
begin

text \<open>
  The loops of the buddy allocator: splitting a block down to the requested order, merging a
  freed block with its free buddies, and cutting a region into naturally aligned blocks.
\<close>

subsection \<open>A block and its buddy\<close>

lemma buddy_cases:
  fixes i :: nat
  assumes "2 ^ k dvd i"
  obtains (low) "i XOR 2 ^ k = i + 2 ^ k" "2 ^ Suc k dvd i"
      "i = 2 * (i div 2 ^ (k + 1)) * 2 ^ k"
    | (high) "i XOR 2 ^ k = i - 2 ^ k" "2 ^ Suc k dvd i - 2 ^ k" "2 ^ k \<le> i"
      "i = (2 * (i div 2 ^ (k + 1)) + 1) * 2 ^ k"
proof -
  define p where "p = i div 2 ^ (k + 1)"
  from pair_of_block [OF assms]
  consider "i = 2 * p * 2 ^ k" | "i = (2 * p + 1) * 2 ^ k" by (auto simp: p_def)
  then show thesis
  proof cases
    case 1
    then have "i div 2 ^ k = 2 * p" by simp
    with 1 show thesis
      using low xor_pow2 [OF assms] by (simp add: p_def [symmetric])
  next
    case 2
    then have "i div 2 ^ k = 2 * p + 1" "i - 2 ^ k = 2 * p * 2 ^ k" "2 ^ k \<le> i"
      by (simp_all add: algebra_simps)
    note low2 = this
    show thesis
    proof (rule high)
      show "i XOR 2 ^ k = i - 2 ^ k" using low2 xor_pow2 [OF assms] by simp
      show "2 ^ Suc k dvd i - 2 ^ k" using low2 by simp
      show "2 ^ k \<le> i" by (rule low2)
      show "i = (2 * (i div 2 ^ (k + 1)) + 1) * 2 ^ k" unfolding p_def [symmetric] by (rule 2)
    qed
  qed
qed

lemma buddy_index:
  fixes i :: nat
  assumes "2 ^ k dvd i"
  shows "2 ^ k dvd i XOR 2 ^ k" and "(i XOR 2 ^ k) div 2 ^ (k + 1) = i div 2 ^ (k + 1)"
    and "2 ^ Suc k dvd min i (i XOR 2 ^ k)"
    and "{min i (i XOR 2 ^ k)..<min i (i XOR 2 ^ k) + 2 ^ Suc k}
      = {i..<i + 2 ^ k} \<union> {i XOR 2 ^ k..<(i XOR 2 ^ k) + 2 ^ k}"
    and "(i XOR 2 ^ k) XOR 2 ^ k = i"
    and "min i (i XOR 2 ^ k) + 2 ^ Suc k = max i (i XOR 2 ^ k) + 2 ^ k"
proof -
  show "(i XOR 2 ^ k) XOR 2 ^ k = i"
    by (simp add: xor.assoc)
  have "2 ^ k dvd i XOR 2 ^ k \<and> (i XOR 2 ^ k) div 2 ^ (k + 1) = i div 2 ^ (k + 1) \<and>
      2 ^ Suc k dvd min i (i XOR 2 ^ k) \<and>
      {min i (i XOR 2 ^ k)..<min i (i XOR 2 ^ k) + 2 ^ Suc k}
        = {i..<i + 2 ^ k} \<union> {i XOR 2 ^ k..<(i XOR 2 ^ k) + 2 ^ k} \<and>
      min i (i XOR 2 ^ k) + 2 ^ Suc k = max i (i XOR 2 ^ k) + 2 ^ k"
    using assms
  proof (cases rule: buddy_cases)
    case low
    then obtain j where "i = j * 2 ^ Suc k" by (metis dvdE mult.commute)
    then have "(i + 2 ^ k) div 2 ^ (k + 1) = i div 2 ^ (k + 1)" by simp
    with low assms show ?thesis by auto
  next
    case high
    then obtain j where j: "i = j * 2 ^ Suc k + 2 ^ k"
      by (metis dvdE le_add_diff_inverse2 mult.commute)
    then have "(i - 2 ^ k) div 2 ^ (k + 1) = i div 2 ^ (k + 1)"
      by simp
    moreover have "2 ^ k dvd i - 2 ^ k" using assms high by simp
    ultimately show ?thesis using high by auto
  qed
  then show "2 ^ k dvd i XOR 2 ^ k" and "(i XOR 2 ^ k) div 2 ^ (k + 1) = i div 2 ^ (k + 1)"
    and "2 ^ Suc k dvd min i (i XOR 2 ^ k)"
    and "{min i (i XOR 2 ^ k)..<min i (i XOR 2 ^ k) + 2 ^ Suc k}
      = {i..<i + 2 ^ k} \<union> {i XOR 2 ^ k..<(i XOR 2 ^ k) + 2 ^ k}"
    and "min i (i XOR 2 ^ k) + 2 ^ Suc k = max i (i XOR 2 ^ k) + 2 ^ k"
    by blast+
qed

text \<open>The bitmap bit of a pair, seen from an allocated block, says whether its buddy is free.\<close>

lemma pair_bit_buddy:
  assumes "2 ^ k dvd i" and "i \<notin> S"
  shows "pair_bit S k (i div 2 ^ (k + 1)) \<longleftrightarrow> i XOR 2 ^ k \<in> S"
  using assms(1)
proof (cases rule: buddy_cases)
  case low
  then have "(2 * (i div 2 ^ (k + 1)) + 1) * 2 ^ k = i XOR 2 ^ k"
    by (metis add.commute distrib_right mult_1)
  with low(3) assms(2) show ?thesis by (auto simp: pair_bit_def)
next
  case high
  then have "2 * (i div 2 ^ (k + 1)) * 2 ^ k = i XOR 2 ^ k"
    by (metis add_diff_cancel_right' distrib_right mult_1)
  with high(4) assms(2) show ?thesis by (auto simp: pair_bit_def)
qed

subsection \<open>Splitting\<close>

definition split_lists :: "nat \<Rightarrow> nat \<Rightarrow> nat \<Rightarrow> (nat \<Rightarrow> nat list) \<Rightarrow> nat \<Rightarrow> nat list" where
  "split_lists order c page F = (\<lambda>k. if order \<le> k \<and> k < c then (page + 2 ^ k) # F k else F k)"

lemma split_lists_Suc:
  "order \<le> c \<Longrightarrow>
    split_lists order c page (F(c := (page + 2 ^ c) # F c)) = split_lists order (Suc c) page F"
  by (auto simp: split_lists_def fun_eq_iff less_Suc_eq)

lemma split_lists_same: "split_lists c c page F = F"
  by (auto simp: split_lists_def)

lemma wf_block_start: "wf_block (k, i) \<Longrightarrow> i < MAX_PAGES"
proof -
  assume "wf_block (k, i)"
  then have "i + 2 ^ k \<le> MAX_PAGES" by simp
  moreover have "(0::nat) < 2 ^ k" by simp
  ultimately show ?thesis by linarith
qed

lemma free_pages_split:
  assumes "order \<le> c" and "c < BUDDY_MAX_ORDER"
  shows "free_pages (split_lists order c page F) = free_pages F \<union> {page + 2 ^ order..<page + 2 ^ c}"
  using assms
proof (induction c arbitrary: F)
  case 0
  then show ?case by (simp add: split_lists_same)
next
  case (Suc n)
  show ?case
  proof (cases "order = Suc n")
    case True
    then show ?thesis by (simp add: split_lists_same)
  next
    case False
    with Suc.prems have le: "order \<le> n" and n: "n < BUDDY_MAX_ORDER" by auto
    then have pow: "(2::nat) ^ order \<le> 2 ^ n" by simp
    have "free_pages (split_lists order (Suc n) page F)
        = free_pages F \<union> ({page + 2 ^ n..<page + 2 ^ n + 2 ^ n} \<union> {page + 2 ^ order..<page + 2 ^ n})"
      using Suc.IH [OF le n] le n
      by (simp add: split_lists_Suc [symmetric] free_pages_insert Un_assoc del: fun_upd_apply)
    also have "{page + 2 ^ n..<page + 2 ^ n + 2 ^ n} \<union> {page + 2 ^ order..<page + 2 ^ n}
        = {page + 2 ^ order..<page + 2 ^ Suc n}"
    proof (rule set_eqI)
      fix x
      show "x \<in> {page + 2 ^ n..<page + 2 ^ n + 2 ^ n} \<union> {page + 2 ^ order..<page + 2 ^ n} \<longleftrightarrow>
          x \<in> {page + 2 ^ order..<page + 2 ^ Suc n}"
        unfolding Un_iff atLeastLessThan_iff power_Suc using pow by linarith
    qed
    finally show ?thesis .
  qed
qed

lemma split_rep:
  assumes "buddy_rep m b F" and "order \<le> c" and "wf_block (c, page)"
    and "{page..<page + 2 ^ c} \<inter> free_pages F = {}"
  shows "\<exists>m' b'. split_block order c page (m, b) = Inr (m', b') \<and>
    buddy_rep m' b' (split_lists order c page F) \<and>
    agree_off (page_bytes b (free_pages F \<union> {page..<page + 2 ^ c})) m m' \<and> same_frame b b'"
  using assms
proof (induction c arbitrary: m b F)
  case 0
  then show ?case by (auto simp: split_lists_same)
next
  case (Suc c)
  show ?case
  proof (cases "order \<le> c")
    case False
    with Suc.prems(2) have "order = Suc c" by simp
    with Suc.prems(1) show ?thesis by (simp add: split_lists_same)
  next
    case True
    let ?F1 = "F(c := (page + 2 ^ c) # F c)"
    from Suc.prems(3) have c: "c < BUDDY_MAX_ORDER" and dvd: "2 ^ c dvd page" "2 ^ c dvd page + 2 ^ c"
      and win: "page + 2 ^ c + 2 ^ c \<le> MAX_PAGES"
      by (auto dest: dvd_mult_right)
    have sub: "{page + 2 ^ c..<page + 2 ^ c + 2 ^ c} \<subseteq> {page..<page + 2 ^ Suc c}"
      "{page..<page + 2 ^ c} \<subseteq> {page..<page + 2 ^ Suc c}" by auto
    obtain m1 b1 where 1: "free_block (page + 2 ^ c) c (m, b) = Inr (m1, b1)"
      "buddy_rep m1 b1 ?F1"
      "agree_off (page_bytes b (free_pages F \<union> {page + 2 ^ c..<page + 2 ^ c + 2 ^ c})) m m1"
      "same_frame b b1"
    proof (rule free_block_rep [OF Suc.prems(1), of c "page + 2 ^ c"])
      show "wf_block (c, page + 2 ^ c)" using c dvd win by simp
      show "{page + 2 ^ c..<page + 2 ^ c + 2 ^ c} \<inter> free_pages F = {}"
        using Suc.prems(4) sub by blast
    qed
    have fp: "free_pages ?F1 = free_pages F \<union> {page + 2 ^ c..<page + 2 ^ c + 2 ^ c}"
      using c by (rule free_pages_insert)
    have "{page..<page + 2 ^ c} \<inter> free_pages ?F1 = {}"
      (is "?P \<inter> _ = {}")
    proof -
      have "?P \<inter> free_pages F = {}" using Suc.prems(4) sub(2) by blast
      moreover have "?P \<inter> {page + 2 ^ c..<page + 2 ^ c + 2 ^ c} = {}"
        by (simp add: disjoint_iff)
      ultimately show ?thesis unfolding fp by blast
    qed
    note rest = this
    have blk: "wf_block (c, page)" using c dvd win by simp
    obtain m' b' where 2: "split_block order c page (m1, b1) = Inr (m', b')"
      "buddy_rep m' b' (split_lists order c page ?F1)"
      "agree_off (page_bytes b1 (free_pages ?F1 \<union> {page..<page + 2 ^ c})) m1 m'"
      "same_frame b1 b'"
      using Suc.IH [OF 1(2) True blk rest] by blast
    have "agree_off (page_bytes b (free_pages F \<union> {page..<page + 2 ^ Suc c})) m m'"
    proof (rule agree_off_trans [of _ _ m1])
      show "agree_off (page_bytes b (free_pages F \<union> {page..<page + 2 ^ Suc c})) m m1"
        by (rule agree_off_mono [OF 1(3) page_bytes_mono]) (use sub in blast)
      show "agree_off (page_bytes b (free_pages F \<union> {page..<page + 2 ^ Suc c})) m1 m'"
        using 2(3) unfolding same_frame_bytes [OF 1(4)] fp
        by (rule agree_off_mono [OF _ page_bytes_mono]) (use sub in auto)
    qed
    moreover have "page + 2 ^ c \<le> u64_max"
      using win by (simp add: MAX_PAGES_def BUDDY_MAX_ORDER_def u64_max_def)
    ultimately show ?thesis
      using 1 2 True by (auto simp: split_lists_Suc intro: same_frame_trans)
  qed
qed

subsection \<open>Merging\<close>

lemma coalesce_rep:
  assumes "buddy_rep m b F" and "wf_block (ord, page)"
    and "{page..<page + 2 ^ ord} \<inter> free_pages F = {}"
  shows "\<exists>page' ord' m' b' F'. coalesce page ord (m, b) = Inr (page', ord', m', b') \<and>
    buddy_rep m' b' F' \<and> wf_block (ord', page') \<and>
    {page'..<page' + 2 ^ ord'} \<inter> free_pages F' = {} \<and>
    free_pages F' \<union> {page'..<page' + 2 ^ ord'} = free_pages F \<union> {page..<page + 2 ^ ord} \<and>
    agree_off (page_bytes b (free_pages F)) m m' \<and> same_frame b b' \<and>
    (\<forall>k. set (F' k) \<subseteq> set (F k)) \<and>
    (ord' < BUDDY_MAX_ORDER - 1 \<longrightarrow> page' XOR 2 ^ ord' \<notin> set (F' ord'))"
  using assms
proof (induction "BUDDY_MAX_ORDER - ord" arbitrary: page ord m b F rule: less_induct)
  case less
  note rep = less.prems(1) and blk = less.prems(2) and new = less.prems(3)
  from rep have base: "wf_base b" and blocks: "wf_blocks F" and bms: "wf_bitmaps (bd_bitmaps b) F"
    and lists: "wf_lists m b F"
    by (simp_all add: buddy_rep_def)
  from blk have ord: "ord < BUDDY_MAX_ORDER" and dvd: "2 ^ ord dvd page" and win: "page + 2 ^ ord \<le> MAX_PAGES"
    by auto
  show ?case
  proof (cases "ord < BUDDY_MAX_ORDER - 1")
    case False
    then show ?thesis using less.prems by (subst coalesce.simps) auto
  next
    case True
    define buddy where "buddy = page XOR 2 ^ ord"
    define p where "p = page div 2 ^ (ord + 1)"
    have "page \<in> {page..<page + 2 ^ ord}" by simp
    then have notin: "page \<notin> set (F ord)" using new index_free [OF ord] by blast
    have "p < 2 ^ (BUDDY_MAX_ORDER - 1)"
    proof -
      have "page < 2 ^ (BUDDY_MAX_ORDER - 1) * 2"
        using wf_block_start [OF blk] by (simp add: MAX_PAGES_def BUDDY_MAX_ORDER_def)
      also have "\<dots> \<le> 2 ^ (BUDDY_MAX_ORDER - 1) * 2 ^ (ord + 1)" by simp
      finally show ?thesis by (simp add: p_def less_mult_imp_div_less)
    qed
    then have test: "bitmap_test (bd_bitmaps b ! ord) p = Inr (buddy \<in> set (F ord))"
      and len: "length (bd_bitmaps b) = BUDDY_MAX_ORDER"
      using bms ord pair_bit_buddy [OF dvd notin] by (auto simp: wf_bitmaps_def p_def buddy_def)
    show ?thesis
    proof (cases "buddy \<in> set (F ord)")
      case False
      then have "coalesce page ord (m, b) = Inr (page, ord, m, b)"
        using True ord len test by (subst coalesce.simps) (simp add: p_def drop_bit_eq_div)
      with False less.prems show ?thesis by (force simp: buddy_def)
    next
      case bud: True
      obtain m1 h1 where un: "list_unlink 0 8 (page_addr b buddy) m (bd_free_lists b ! ord) = (m1, h1)"
        by fastforce
      obtain b1 where 1:
        "toggle_pair ord (drop_bit (ord + 1) buddy) (b\<lparr>bd_free_lists := (bd_free_lists b)[ord := h1]\<rparr>) = Inr b1"
        "buddy_rep m1 b1 (F(ord := remove1 buddy (F ord)))"
        "agree_off (page_bytes b (free_pages F)) m m1" "same_frame b b1"
        by (rule unlink_rep [OF rep ord bud un])
      let ?F1 = "F(ord := remove1 buddy (F ord))"
      define page1 where "page1 = min page buddy"
      note bi = buddy_index [OF dvd, folded buddy_def page1_def]
      note fr = free_pages_remove [OF blocks ord bud]
      have win': "buddy + 2 ^ ord \<le> MAX_PAGES" using wf_blocksD(2) [OF blocks ord bud] .
      have blk1: "wf_block (Suc ord, page1)"
        using True bi(3,6) win win' by (auto simp: max_def split: if_splits)
      have new1: "{page1..<page1 + 2 ^ Suc ord} \<inter> free_pages ?F1 = {}"
        unfolding bi(4) using fr new by blast
      have dec: "BUDDY_MAX_ORDER - Suc ord < BUDDY_MAX_ORDER - ord" using ord by simp
      obtain page' ord' m' b' F' where 2: "coalesce page1 (Suc ord) (m1, b1) = Inr (page', ord', m', b')"
        "buddy_rep m' b' F'" "wf_block (ord', page')" "{page'..<page' + 2 ^ ord'} \<inter> free_pages F' = {}"
        "free_pages F' \<union> {page'..<page' + 2 ^ ord'} = free_pages ?F1 \<union> {page1..<page1 + 2 ^ Suc ord}"
        "agree_off (page_bytes b1 (free_pages ?F1)) m1 m'" "same_frame b1 b'"
        "\<forall>k. set (F' k) \<subseteq> set (?F1 k)"
        "ord' < BUDDY_MAX_ORDER - 1 \<longrightarrow> page' XOR 2 ^ ord' \<notin> set (F' ord')"
        using less.hyps [OF dec 1(2) blk1 new1] by blast
      have "coalesce page ord (m, b) = Inr (page', ord', m', b')"
      proof -
        have "drop_bit (ord + 1) buddy = p" using bi(2) by (simp add: drop_bit_eq_div p_def)
        moreover have "buddy < MAX_PAGES" using block_in_window [OF blocks ord bud] .
        moreover have "checked_add (bd_base b) (buddy * PAGE_SIZE) = Inr (page_addr b buddy)"
          using page_addr_bound [OF base calculation(2)] by (simp add: page_addr_def)
        moreover have "page div (2 * 2 ^ ord) = p" by (simp add: p_def)
        ultimately show ?thesis
          using True ord len test bud un 1(1) 2(1) lists page_off_bound [OF base, of buddy]
          by (subst coalesce.simps)
            (simp add: buddy_def [symmetric] page1_def [symmetric] Let_def drop_bit_eq_div wf_lists_def)
      qed
      moreover have "free_pages F' \<union> {page'..<page' + 2 ^ ord'} = free_pages F \<union> {page..<page + 2 ^ ord}"
        using 2(5) fr(1) unfolding bi(4) by blast
      moreover have "agree_off (page_bytes b (free_pages F)) m m'"
        using agree_off_trans [OF 1(3), of m'] 2(6) fr(1) same_frame_bytes [OF 1(4)]
        by (metis agree_off_mono page_bytes_mono Un_upper1)
      moreover have "\<forall>k. set (F' k) \<subseteq> set (F k)"
        using 2(8) set_remove1_subset by (fastforce split: if_splits)
      ultimately show ?thesis
        using 2 same_frame_trans [OF 1(4) 2(7)] by blast
    qed
  qed
qed

subsection \<open>Merged lists\<close>

text \<open>No two free buddies: everything that can be merged is.\<close>

definition coalesced :: "(nat \<Rightarrow> nat list) \<Rightarrow> bool" where
  "coalesced F \<longleftrightarrow> (\<forall>k<BUDDY_MAX_ORDER - 1. \<forall>i\<in>set (F k). i XOR 2 ^ k \<notin> set (F k))"

lemma coalesced_mono:
  "coalesced F \<Longrightarrow> (\<And>k. set (F' k) \<subseteq> set (F k)) \<Longrightarrow> coalesced F'"
  unfolding coalesced_def by blast

lemma coalesced_insert:
  assumes "coalesced F" and "2 ^ k dvd i" and "k < BUDDY_MAX_ORDER - 1 \<longrightarrow> i XOR 2 ^ k \<notin> set (F k)"
  shows "coalesced (F(k := i # F k))"
proof -
  have bk: "(j XOR 2 ^ k) XOR 2 ^ k = j" for j :: nat by (simp add: xor.assoc)
  have self: "i XOR 2 ^ k \<noteq> i"
  proof
    assume "i XOR 2 ^ k = i"
    moreover have "i XOR (i XOR 2 ^ k) = 2 ^ k" by (simp add: xor.assoc [symmetric])
    ultimately show False by simp
  qed
  show ?thesis
    unfolding coalesced_def
  proof (intro allI impI ballI)
    fix l j assume l: "l < BUDDY_MAX_ORDER - 1" and j: "j \<in> set ((F(k := i # F k)) l)"
    show "j XOR 2 ^ l \<notin> set ((F(k := i # F k)) l)"
    proof (cases "l = k")
      case False
      with assms(1) l j show ?thesis by (simp add: coalesced_def)
    next
      case True
      have "j XOR 2 ^ k \<noteq> i \<or> j = i" if "j \<in> set (F k)"
        using that assms(3) l True bk [of j] by auto
      moreover have "j XOR 2 ^ k \<notin> set (F k)" if "j \<in> set (F k)"
        using that assms(1) l True by (simp add: coalesced_def)
      ultimately show ?thesis using True j self assms(3) l by (auto simp: bk)
    qed
  qed
qed

subsection \<open>Cutting a region\<close>

lemma region_order_bounds:
  assumes "remaining > 0" and "remaining \<le> u64_max"
  shows "region_order remaining offset < BUDDY_MAX_ORDER"
    and "2 ^ region_order remaining offset dvd offset"
    and "2 ^ region_order remaining offset \<le> remaining"
proof -
  show "region_order remaining offset < BUDDY_MAX_ORDER"
    by (simp add: region_order_def BUDDY_MAX_ORDER_def Let_def)
  show "2 ^ region_order remaining offset dvd offset"
  proof (cases "offset = 0")
    case False
    then have "region_order remaining offset \<le> trailing_zeros offset"
      by (simp add: region_order_def Let_def)
    then have "(2::nat) ^ region_order remaining offset dvd 2 ^ trailing_zeros offset"
      by (rule le_imp_power_dvd)
    then show ?thesis using trailing_zeros_dvd [OF False] by (rule dvd_trans)
  qed simp
  have "region_order remaining offset \<le> 63 - leading_zeros remaining"
    by (simp add: region_order_def Let_def)
  then have "(2::nat) ^ region_order remaining offset \<le> 2 ^ (63 - leading_zeros remaining)"
    by (rule power_increasing) simp
  also have "\<dots> \<le> remaining" using assms by (intro highest_bit) simp_all
  finally show "2 ^ region_order remaining offset \<le> remaining" .
qed

lemma region_order_max:
  assumes "j < BUDDY_MAX_ORDER" and "2 ^ j dvd offset" and "2 ^ j \<le> remaining" and "remaining \<le> u64_max"
  shows "j \<le> region_order remaining offset"
proof -
  have "j \<le> 63 - leading_zeros remaining"
  proof (rule ccontr)
    assume "\<not> j \<le> 63 - leading_zeros remaining"
    then have "Suc (63 - leading_zeros remaining) \<le> j" by simp
    then have "(2::nat) ^ Suc (63 - leading_zeros remaining) \<le> 2 ^ j" by (rule power_increasing) simp
    moreover have "remaining \<noteq> 0" using assms(3) by (metis not_less zero_less_numeral zero_less_power)
    ultimately show False using highest_bit(2) [of remaining] assms(3,4) by simp
  qed
  moreover have "offset \<noteq> 0 \<Longrightarrow> j \<le> trailing_zeros offset"
    using assms(2) by (rule trailing_zeros_max [rotated])
  moreover have "j \<le> BUDDY_MAX_ORDER - 1" using assms(1) by simp
  ultimately show ?thesis by (simp add: region_order_def Let_def)
qed

text \<open>
  A region whose neighbours are not free is cut so that no two of its blocks are free buddies:
  \<open>open_end\<close> is what the loop keeps at its moving start.
\<close>

definition open_end :: "nat \<Rightarrow> nat \<Rightarrow> (nat \<Rightarrow> nat list) \<Rightarrow> bool" where
  "open_end offset remaining F \<longleftrightarrow> coalesced F \<and> offset + remaining \<notin> free_pages F \<and>
     (\<forall>k<BUDDY_MAX_ORDER - 1. \<forall>j\<in>set (F k).
        j + 2 ^ k = offset \<and> 2 ^ Suc k dvd j \<longrightarrow> remaining < 2 ^ k)"

lemma open_end_step:
  assumes "open_end offset remaining F" and "wf_blocks F" and "k = region_order remaining offset"
    and "0 < remaining" and "remaining \<le> u64_max"
    and free: "{offset..<offset + remaining} \<inter> free_pages F = {}"
  shows "open_end (offset + 2 ^ k) (remaining - 2 ^ k) (F(k := offset # F k))"
proof -
  have k: "k < BUDDY_MAX_ORDER" "2 ^ k dvd offset" "2 ^ k \<le> remaining"
    using region_order_bounds [OF assms(4,5), of offset] assms(3) by simp_all
  have ends: "offset + remaining \<notin> free_pages F" "coalesced F"
    using assms(1) by (simp_all add: open_end_def)
  note fp = free_pages_insert [OF k(1), of F offset]
  have up: "offset + 2 ^ k \<notin> set (F k)"
  proof
    assume "offset + 2 ^ k \<in> set (F k)"
    then have "offset + 2 ^ k \<in> free_pages F" by (rule index_free [OF k(1)])
    moreover have "offset + 2 ^ k \<in> {offset..<offset + remaining} \<or> offset + 2 ^ k = offset + remaining"
      using k(3) by auto
    ultimately show False using free ends by (metis IntI empty_iff)
  qed
  have "offset XOR 2 ^ k \<notin> set (F k)" if "k < BUDDY_MAX_ORDER - 1"
    using k(2)
  proof (cases rule: buddy_cases)
    case low
    with up show ?thesis by simp
  next
    case high
    with assms(1) that k(3) show ?thesis by (force simp: open_end_def)
  qed
  then have "coalesced (F(k := offset # F k))" by (intro coalesced_insert ends k) blast
  moreover have "offset + 2 ^ k + (remaining - 2 ^ k) \<notin> free_pages (F(k := offset # F k))"
    using k(3) ends unfolding fp by auto
  moreover have "remaining - 2 ^ k < 2 ^ l"
    if l: "l < BUDDY_MAX_ORDER - 1" and j: "j \<in> set ((F(k := offset # F k)) l)"
      and e: "j + 2 ^ l = offset + 2 ^ k" and dvd: "2 ^ Suc l dvd j" for l j
  proof (rule ccontr)
    assume big: "\<not> remaining - 2 ^ k < 2 ^ l"
    have "(l, j) = (k, offset)"
    proof (rule ccontr)
      assume "(l, j) \<noteq> (k, offset)"
      then have "j \<in> set (F l)" using j by (auto split: if_splits)
      then have "{j..<j + 2 ^ l} \<subseteq> free_pages F" using l by (intro block_free_pages) auto
      moreover have "j + (2 ^ l - 1) \<in> {j..<j + 2 ^ l}"
        by (rule last_of_run)
      ultimately have "j + (2 ^ l - 1) \<in> free_pages F" by blast
      moreover have "(1::nat) \<le> 2 ^ l" "(1::nat) \<le> 2 ^ k" by simp_all
      then have "j + (2 ^ l - 1) = offset + (2 ^ k - 1)" "offset + (2 ^ k - 1) < offset + remaining"
        using e k(3) by linarith+
      moreover have "offset + (2 ^ k - 1) \<in> {offset..<offset + remaining}"
        unfolding atLeastLessThan_iff using calculation(3) by linarith
      ultimately show False using free by (metis IntI empty_iff)
    qed
    then have "2 ^ Suc k \<le> remaining" "2 ^ Suc k dvd offset" "Suc k < BUDDY_MAX_ORDER"
      using big k(3) dvd l by auto
    then show False using region_order_max [of "Suc k" offset remaining] assms(3,5) by simp
  qed
  ultimately show ?thesis by (simp add: open_end_def)
qed

lemma add_region_loop_rep:
  assumes "buddy_rep m b F" and "offset + remaining \<le> MAX_PAGES"
    and "{offset..<offset + remaining} \<inter> free_pages F = {}"
  shows "\<exists>m' b' F'. add_region_loop remaining offset (m, b) = Inr (m', b') \<and> buddy_rep m' b' F' \<and>
    free_pages F' = free_pages F \<union> {offset..<offset + remaining} \<and>
    agree_off (page_bytes b (free_pages F \<union> {offset..<offset + remaining})) m m' \<and> same_frame b b' \<and>
    (open_end offset remaining F \<longrightarrow> coalesced F')"
  using assms
proof (induction remaining arbitrary: offset m b F rule: less_induct)
  case (less remaining)
  have max: "MAX_PAGES \<le> u64_max" by (simp add: MAX_PAGES_def BUDDY_MAX_ORDER_def u64_max_def)
  show ?case
  proof (cases "remaining > 0")
    case False
    with less.prems show ?thesis by (subst add_region_loop.simps) (auto simp: open_end_def)
  next
    case True
    define k where "k = region_order remaining offset"
    have k: "k < BUDDY_MAX_ORDER" "2 ^ k dvd offset" "2 ^ k \<le> remaining"
      using region_order_bounds [OF True, of offset] less.prems(2) max by (auto simp: k_def)
    have blk: "wf_block (k, offset)" using k less.prems(2) by simp
    have split: "{offset..<offset + remaining} = {offset..<offset + 2 ^ k} \<union>
        {offset + 2 ^ k..<offset + 2 ^ k + (remaining - 2 ^ k)}"
      using k(3) by auto
    obtain m1 b1 where 1: "free_block offset k (m, b) = Inr (m1, b1)"
      "buddy_rep m1 b1 (F(k := offset # F k))"
      "agree_off (page_bytes b (free_pages F \<union> {offset..<offset + 2 ^ k})) m m1" "same_frame b b1"
      by (rule free_block_rep [OF less.prems(1) blk]) (use less.prems(3) split in blast)
    note fp = free_pages_insert [OF k(1), of F offset]
    have "remaining - 2 ^ k < remaining" using True by simp
    moreover have "offset + 2 ^ k + (remaining - 2 ^ k) \<le> MAX_PAGES" using k(3) less.prems(2) by simp
    moreover have "{offset + 2 ^ k..<offset + 2 ^ k + (remaining - 2 ^ k)} \<inter>
        free_pages (F(k := offset # F k)) = {}"
      (is "?R \<inter> _ = {}")
    proof -
      have "?R \<inter> {offset..<offset + 2 ^ k} = {}" by (simp add: disjoint_iff)
      with less.prems(3) split show ?thesis unfolding fp by blast
    qed
    ultimately obtain m' b' F' where
      2: "add_region_loop (remaining - 2 ^ k) (offset + 2 ^ k) (m1, b1) = Inr (m', b')"
      "buddy_rep m' b' F'" "free_pages F' = free_pages (F(k := offset # F k)) \<union> ?R"
      "agree_off (page_bytes b1 (free_pages (F(k := offset # F k)) \<union> ?R)) m1 m'" "same_frame b1 b'"
      "open_end (offset + 2 ^ k) (remaining - 2 ^ k) (F(k := offset # F k)) \<longrightarrow> coalesced F'"
      using less.IH [OF _ 1(2)] by blast
    have "wf_blocks F" using less.prems(1) by (simp add: buddy_rep_def)
    note merged = open_end_step [OF _ this k_def True _ less.prems(3)]
    have run: "add_region_loop remaining offset (m, b) = Inr (m', b')"
      using True 1(1) 2(1) k(3) less.prems(2) max
      by (subst add_region_loop.simps) (simp add: Let_def k_def [symmetric])
    have pages: "free_pages F' = free_pages F \<union> {offset..<offset + remaining}"
      using 2(3) unfolding fp split by blast
    have "agree_off (page_bytes b (free_pages F \<union> {offset..<offset + remaining})) m m'"
    proof (rule agree_off_trans)
      show "agree_off (page_bytes b (free_pages F \<union> {offset..<offset + remaining})) m m1"
        by (rule agree_off_mono [OF 1(3) page_bytes_mono]) (use split in blast)
      show "agree_off (page_bytes b (free_pages F \<union> {offset..<offset + remaining})) m1 m'"
        using 2(4) unfolding same_frame_bytes [OF 1(4)] fp split by (simp add: Un_assoc)
    qed
    moreover have "open_end offset remaining F \<longrightarrow> coalesced F'"
      using merged 2(6) less.prems(2) max by auto
    ultimately show ?thesis using run pages 2(2) same_frame_trans [OF 1(4) 2(5)] by blast
  qed
qed

end
