(* ===== verification/Buddy_Correct.thy ===== *)
theory Buddy_Correct
  imports Buddy_Loops
begin

text \<open>
  What the buddy allocator promises its callers. \<open>manages m b R S\<close> relates memory and record to
  two sets of page indices: \<open>R\<close>, the pages handed to \<open>add_region\<close>, and \<open>S \<subseteq> R\<close>, those free
  now. Every operation is a set operation on \<open>S\<close>, writes only free pages, and keeps the
  statistics equal to the sets' sizes.
\<close>

definition stats_match :: "alloc_stats \<Rightarrow> nat set \<Rightarrow> nat set \<Rightarrow> bool" where
  "stats_match ss R S \<longleftrightarrow>
     total_bytes ss = PAGE_SIZE * card R \<and> free_bytes ss = PAGE_SIZE * card S \<and>
     used_bytes ss + free_bytes ss = total_bytes ss \<and>
     used_bytes ss \<le> peak_bytes ss \<and> peak_bytes ss \<le> total_bytes ss"

definition buddy_inv :: "mem \<Rightarrow> buddy \<Rightarrow> (nat \<Rightarrow> nat list) \<Rightarrow> nat set \<Rightarrow> bool" where
  "buddy_inv m b F R \<longleftrightarrow>
     buddy_rep m b F \<and> free_pages F \<subseteq> R \<and> R \<subseteq> {..<MAX_PAGES} \<and>
     bd_total_pages b = card R \<and> stats_match (bd_stats b) R (free_pages F)"

definition manages :: "mem \<Rightarrow> buddy \<Rightarrow> nat set \<Rightarrow> nat set \<Rightarrow> bool" where
  "manages m b R S \<longleftrightarrow> (\<exists>F. buddy_inv m b F R \<and> free_pages F = S)"

lemma MAX_PAGES_bytes: "MAX_PAGES * PAGE_SIZE \<le> u64_max"
  by (simp add: MAX_PAGES_def BUDDY_MAX_ORDER_def PAGE_SIZE_def u64_max_def)

lemma card_window: "R \<subseteq> {..<MAX_PAGES} \<Longrightarrow> finite R \<and> card R \<le> MAX_PAGES"
  using card_mono [of "{..<MAX_PAGES}" R] finite_subset by auto

lemma window_bytes: "n \<le> MAX_PAGES \<Longrightarrow> PAGE_SIZE * n \<le> u64_max"
proof -
  assume "n \<le> MAX_PAGES"
  then have "PAGE_SIZE * n \<le> PAGE_SIZE * MAX_PAGES" by (rule mult_le_mono2)
  also have "\<dots> \<le> u64_max" using MAX_PAGES_bytes by (simp only: mult.commute)
  finally show ?thesis .
qed

lemma block_bytes: "wf_block (k, i) \<Longrightarrow> 2 ^ k * PAGE_SIZE \<le> u64_max"
proof -
  assume "wf_block (k, i)"
  then have "2 ^ k \<le> MAX_PAGES" by simp
  then have "2 ^ k * PAGE_SIZE \<le> MAX_PAGES * PAGE_SIZE" by (rule mult_le_mono1)
  with MAX_PAGES_bytes show ?thesis by linarith
qed

subsection \<open>Allocation on the lists\<close>

lemma head_zero_iff:
  assumes "buddy_rep m b F" and "k < BUDDY_MAX_ORDER"
  shows "bd_free_lists b ! k = 0 \<longleftrightarrow> F k = []"
    and "F k = i # xs \<Longrightarrow> bd_free_lists b ! k = page_addr b i"
proof -
  have l: "dll 0 8 m 0 (bd_free_lists b ! k) (map (page_addr b) (F k))"
    using assms by (simp add: buddy_rep_def wf_lists_def)
  then show "F k = i # xs \<Longrightarrow> bd_free_lists b ! k = page_addr b i" by simp
  from l show "bd_free_lists b ! k = 0 \<longleftrightarrow> F k = []"
    using assms(1) by (cases "F k") (auto simp: buddy_rep_def page_addr_nonzero)
qed

lemma alloc_none_rep:
  assumes "buddy_rep m b F" and "order < BUDDY_MAX_ORDER"
    and "\<forall>k. order \<le> k \<and> k < BUDDY_MAX_ORDER \<longrightarrow> F k = []"
  shows "alloc_pages order (m, b) = Inr (None, m, b)"
proof -
  have "find (\<lambda>k. bd_free_lists b ! k \<noteq> 0) [order..<BUDDY_MAX_ORDER] = None"
    using assms head_zero_iff(1) [OF assms(1)] by (auto simp: find_upt_None)
  with assms(2) show ?thesis by (simp add: alloc_pages_def)
qed

lemma alloc_some_rep:
  assumes rep: "buddy_rep m b F" and order: "order \<le> k" and k: "k < BUDDY_MAX_ORDER"
    and F: "F k = i # rest" and first: "\<forall>j. order \<le> j \<and> j < k \<longrightarrow> F j = []"
    and count: "count_alloc (2 ^ order * PAGE_SIZE) (bd_stats b) = Inr ss"
  obtains m' b' where "alloc_pages order (m, b) = Inr (Some (page_addr b i), m', b'\<lparr>bd_stats := ss\<rparr>)"
    and "buddy_rep m' b' (split_lists order k i (F(k := rest)))"
    and "agree_off (page_bytes b (free_pages F)) m m'" and "same_frame b b'"
proof -
  from rep have base: "wf_base b" and blocks: "wf_blocks F" and lists: "wf_lists m b F"
    by (simp_all add: buddy_rep_def)
  have i: "i \<in> set (F k)" using F by simp
  have blk: "wf_block (k, i)" using wf_blocksD [OF blocks k i] k by simp
  have iw: "i < MAX_PAGES" using block_in_window [OF blocks k i] .
  have found: "find (\<lambda>k. bd_free_lists b ! k \<noteq> 0) [order..<BUDDY_MAX_ORDER] = Some k"
  proof (cases "find (\<lambda>k. bd_free_lists b ! k \<noteq> 0) [order..<BUDDY_MAX_ORDER]")
    case None
    with order k F head_zero_iff(1) [OF rep k] show ?thesis by (auto simp: find_upt_None)
  next
    case (Some l)
    from find_upt_Some [OF Some] have l: "order \<le> l" "l < BUDDY_MAX_ORDER" "bd_free_lists b ! l \<noteq> 0"
      "\<forall>j. order \<le> j \<and> j < l \<longrightarrow> bd_free_lists b ! j = 0" by auto
    have "\<not> l < k" using first l head_zero_iff(1) [OF rep] by auto
    moreover have "\<not> k < l" using l order k F head_zero_iff(1) [OF rep k] by auto
    ultimately show ?thesis using Some by simp
  qed
  have head: "bd_free_lists b ! k = page_addr b i" using head_zero_iff(2) [OF rep k F] .
  have prev: "ld64 m (page_addr b i) = 0"
    using lists k F unfolding wf_lists_def by (metis add_0_right dll_Cons list.simps(9))
  define nxt where "nxt = ld64 m (page_addr b i + 8)"
  define m1 where "m1 = (if nxt \<noteq> 0 then st64 nxt 0 m else m)"
  have un: "list_unlink 0 8 (page_addr b i) m (bd_free_lists b ! k) = (m1, nxt)"
    using prev by (simp add: list_unlink_def m1_def nxt_def Let_def)
  have rm: "remove1 i (F k) = rest" using F by simp
  obtain b1 where 1:
    "toggle_pair k (drop_bit (k + 1) i) (b\<lparr>bd_free_lists := (bd_free_lists b)[k := nxt]\<rparr>) = Inr b1"
    "buddy_rep m1 b1 (F(k := rest))" "agree_off (page_bytes b (free_pages F)) m m1" "same_frame b b1"
    using unlink_rep [OF rep k i un] unfolding rm by blast
  note fr = free_pages_remove [OF blocks k i, unfolded rm]
  obtain m' b' where 2: "split_block order k i (m1, b1) = Inr (m', b')"
    "buddy_rep m' b' (split_lists order k i (F(k := rest)))"
    "agree_off (page_bytes b1 (free_pages (F(k := rest)) \<union> {i..<i + 2 ^ k})) m1 m'" "same_frame b1 b'"
    using split_rep [OF 1(2) order blk] fr(2) by (auto simp: Int_commute)
  note frame = same_frame_trans [OF 1(4) 2(4)]
  show thesis
  proof
    have "(2::nat) ^ order \<le> 2 ^ k" using order by (rule power_increasing) simp
    then have "2 ^ order * PAGE_SIZE \<le> 2 ^ k * PAGE_SIZE" by (rule mult_le_mono1)
    then have ord: "2 ^ order * PAGE_SIZE \<le> u64_max" using block_bytes [OF blk] by linarith
    have "bd_base b' = bd_base b" "bd_stats b' = bd_stats b" using frame by (auto simp: same_frame_def)
    moreover have "bd_base b \<le> page_addr b i" by (simp add: page_addr_def)
    moreover have "checked_add (bd_base b) (i * PAGE_SIZE) = Inr (page_addr b i)"
      using page_addr_bound [OF base iw] by (simp add: page_addr_def)
    moreover have run: "split_block order k i (if nxt \<noteq> 0 then st64 nxt 0 m else m, b1) = Inr (m', b')"
      using 2(1) by (simp add: m1_def)
    ultimately show "alloc_pages order (m, b) = Inr (Some (page_addr b i), m', b'\<lparr>bd_stats := ss\<rparr>)"
      using order k found head 1(1) ord count page_off_bound [OF base iw] page_index [of b i]
      unfolding nxt_def by (simp add: alloc_pages_def Let_def split del: if_split)
    show "buddy_rep m' b' (split_lists order k i (F(k := rest)))" by (rule 2(2))
    show "agree_off (page_bytes b (free_pages F)) m m'"
      using agree_off_trans [OF 1(3)] 2(3) fr(1) unfolding same_frame_bytes [OF 1(4)] by simp
    show "same_frame b b'" by (rule frame)
  qed
qed

subsection \<open>Statistics\<close>

lemma count_alloc_ok:
  assumes "stats_match ss R S" and "R \<subseteq> {..<MAX_PAGES}" and "S \<subseteq> R" and "B \<subseteq> S" and "card B = n"
    and "alloc_count ss < u64_max"
  obtains ss' where "count_alloc (n * PAGE_SIZE) ss = Inr ss'" and "stats_match ss' R (S - B)"
    and "used_bytes ss' = used_bytes ss + n * PAGE_SIZE"
    and "alloc_count ss' = alloc_count ss + 1" and "dealloc_count ss' = dealloc_count ss"
proof -
  have fin: "finite R" and R: "card R \<le> MAX_PAGES"
    using card_window [OF assms(2)] by blast+
  have fin: "finite R" "finite S" "finite B"
    using fin assms(3,4) by (meson finite_subset)+
  have "card (S - B) + n = card S"
    using card_Diff_subset [OF fin(3) assms(4)] card_mono [OF fin(2) assms(4)] assms(5) by simp
  then have "PAGE_SIZE * card (S - B) + n * PAGE_SIZE = PAGE_SIZE * card S"
    by (metis distrib_left mult.commute)
  moreover have "PAGE_SIZE * card R \<le> u64_max"
    by (rule window_bytes [OF R])
  ultimately have *: "free_bytes ss - n * PAGE_SIZE = PAGE_SIZE * card (S - B)"
    "n * PAGE_SIZE \<le> free_bytes ss" "used_bytes ss + n * PAGE_SIZE + PAGE_SIZE * card (S - B) = total_bytes ss"
    "used_bytes ss + n * PAGE_SIZE \<le> u64_max" "total_bytes ss = PAGE_SIZE * card R"
    "used_bytes ss \<le> peak_bytes ss" "peak_bytes ss \<le> total_bytes ss"
    using assms(1) unfolding stats_match_def by linarith+
  show thesis
  proof (rule that)
    let ?used = "used_bytes ss + n * PAGE_SIZE"
    let ?ss = "ss\<lparr>used_bytes := ?used, free_bytes := free_bytes ss - n * PAGE_SIZE,
      alloc_count := alloc_count ss + 1, peak_bytes := max (peak_bytes ss) ?used\<rparr>"
    show "count_alloc (n * PAGE_SIZE) ss = Inr ?ss"
      using * assms(6) by (simp add: count_alloc_def max_def)
    show "stats_match ?ss R (S - B)" using * by (simp add: stats_match_def)
  qed simp_all
qed

lemma count_dealloc_ok:
  assumes "stats_match ss R S" and "R \<subseteq> {..<MAX_PAGES}" and "S \<subseteq> R" and "B \<subseteq> R" and "B \<inter> S = {}"
    and "card B = n" and "dealloc_count ss < u64_max"
  obtains ss' where "count_dealloc (n * PAGE_SIZE) ss = Inr ss'" and "stats_match ss' R (S \<union> B)"
    and "used_bytes ss' + n * PAGE_SIZE = used_bytes ss"
    and "alloc_count ss' = alloc_count ss" and "dealloc_count ss' = dealloc_count ss + 1"
proof -
  have fin: "finite R" and R: "card R \<le> MAX_PAGES"
    using card_window [OF assms(2)] by blast+
  have fin: "finite R" "finite S" "finite B"
    using fin assms(3,4) by (meson finite_subset)+
  have "card (S \<union> B) = card S + n"
    using card_Un_disjoint [OF fin(2,3)] assms(5,6) by (simp add: Int_commute)
  moreover have "card (S \<union> B) \<le> card R" using assms(3,4) fin by (intro card_mono) auto
  ultimately have "PAGE_SIZE * card (S \<union> B) = PAGE_SIZE * card S + n * PAGE_SIZE"
    "PAGE_SIZE * card (S \<union> B) \<le> PAGE_SIZE * card R"
    by (simp add: distrib_left mult.commute [of n], intro mult_le_mono2)
  moreover have "PAGE_SIZE * card R \<le> u64_max"
    by (rule window_bytes [OF R])
  ultimately have *: "free_bytes ss + n * PAGE_SIZE = PAGE_SIZE * card (S \<union> B)"
    "n * PAGE_SIZE \<le> used_bytes ss" "used_bytes ss - n * PAGE_SIZE + PAGE_SIZE * card (S \<union> B) = total_bytes ss"
    "free_bytes ss + n * PAGE_SIZE \<le> u64_max" "total_bytes ss = PAGE_SIZE * card R"
    "used_bytes ss \<le> peak_bytes ss" "peak_bytes ss \<le> total_bytes ss"
    using assms(1) unfolding stats_match_def by linarith+
  show thesis
  proof (rule that)
    let ?ss = "ss\<lparr>used_bytes := used_bytes ss - n * PAGE_SIZE,
      free_bytes := free_bytes ss + n * PAGE_SIZE, dealloc_count := dealloc_count ss + 1\<rparr>"
    show "count_dealloc (n * PAGE_SIZE) ss = Inr ?ss"
      using * assms(7) by (simp add: count_dealloc_def)
    show "stats_match ?ss R (S \<union> B)" using * by (simp add: stats_match_def)
  qed (use * in simp_all)
qed

subsection \<open>Operations on sets of pages\<close>

lemma free_pages_split_lists:
  assumes "wf_blocks F" and "order \<le> k" and "k < BUDDY_MAX_ORDER" and "F k = i # rest"
  shows "free_pages (split_lists order k i (F(k := rest))) = free_pages F - {i..<i + 2 ^ order}"
    and "{i..<i + 2 ^ order} \<subseteq> free_pages F" and "2 ^ order dvd i"
proof -
  have i: "i \<in> set (F k)" and rm: "remove1 i (F k) = rest" using assms(4) by simp_all
  have le: "(2::nat) ^ order \<le> 2 ^ k" using assms(2) by (rule power_increasing) simp
  note fr = free_pages_remove [OF assms(1,3) i, unfolded rm]
  have split: "{i..<i + 2 ^ k} = {i..<i + 2 ^ order} \<union> {i + 2 ^ order..<i + 2 ^ k}"
    using le by (intro ivl_disj_un(17) [symmetric]) simp_all
  have "{i..<i + 2 ^ order} \<inter> {i + 2 ^ order..<i + 2 ^ k} = {}" by (simp add: disjoint_iff)
  then show "free_pages (split_lists order k i (F(k := rest))) = free_pages F - {i..<i + 2 ^ order}"
    unfolding free_pages_split [OF assms(2,3)] using fr split by blast
  show "{i..<i + 2 ^ order} \<subseteq> free_pages F"
    using block_free_pages [of k i F] assms(3) i split by blast
  have "(2::nat) ^ order dvd 2 ^ k" using assms(2) by (rule le_imp_power_dvd)
  then show "2 ^ order dvd i" using wf_blocksD(1) [OF assms(1,3) i] by (rule dvd_trans)
qed

lemma buddy_inv_update:
  assumes "buddy_inv m b F R" and "buddy_rep m' b' F'" and "same_frame b b'"
    and "free_pages F' \<subseteq> R" and "stats_match ss R (free_pages F')"
  shows "buddy_inv m' (b'\<lparr>bd_stats := ss\<rparr>) F' R"
  using assms by (simp add: buddy_inv_def same_frame_def)

lemma alloc_pages_step:
  assumes inv: "buddy_inv m b F R" and order: "order < BUDDY_MAX_ORDER"
    and count: "alloc_count (bd_stats b) < u64_max"
  shows "(\<forall>k. order \<le> k \<and> k < BUDDY_MAX_ORDER \<longrightarrow> F k = []) \<and>
      alloc_pages order (m, b) = Inr (None, m, b) \<or>
    (\<exists>k i rest m' b'. order \<le> k \<and> k < BUDDY_MAX_ORDER \<and> F k = i # rest \<and>
      alloc_pages order (m, b) = Inr (Some (page_addr b i), m', b') \<and>
      buddy_inv m' b' (split_lists order k i (F(k := rest))) R \<and>
      agree_off (page_bytes b (free_pages F)) m m' \<and>
      page_addr b' = page_addr b \<and> bd_base b' = bd_base b \<and>
      used_bytes (bd_stats b') = used_bytes (bd_stats b) + 2 ^ order * PAGE_SIZE \<and>
      alloc_count (bd_stats b') = alloc_count (bd_stats b) + 1 \<and>
      dealloc_count (bd_stats b') = dealloc_count (bd_stats b))"
proof (cases "\<forall>k. order \<le> k \<and> k < BUDDY_MAX_ORDER \<longrightarrow> F k = []")
  case True
  with inv order alloc_none_rep show ?thesis by (auto simp: buddy_inv_def)
next
  case False
  from inv have rep: "buddy_rep m b F" and sub: "free_pages F \<subseteq> R" and win: "R \<subseteq> {..<MAX_PAGES}"
    and ss: "stats_match (bd_stats b) R (free_pages F)" and blocks: "wf_blocks F"
    by (simp_all add: buddy_inv_def buddy_rep_def)
  define P where "P = (\<lambda>k. order \<le> k \<and> k < BUDDY_MAX_ORDER \<and> F k \<noteq> [])"
  define k where "k = (LEAST k. P k)"
  have "\<exists>k. P k" using False by (auto simp: P_def)
  then have "P k" unfolding k_def by (rule LeastI_ex)
  then have k: "order \<le> k" "k < BUDDY_MAX_ORDER" "F k \<noteq> []" by (auto simp: P_def)
  have first: "\<forall>j. order \<le> j \<and> j < k \<longrightarrow> F j = []"
    using not_less_Least [of _ P, folded k_def] k(2) by (auto simp: P_def)
  obtain i rest where F: "F k = i # rest" using k(3) by (cases "F k") auto
  note sp = free_pages_split_lists [OF blocks k(1,2) F]
  obtain ss' where ss': "count_alloc (2 ^ order * PAGE_SIZE) (bd_stats b) = Inr ss'"
    "stats_match ss' R (free_pages F - {i..<i + 2 ^ order})"
    "used_bytes ss' = used_bytes (bd_stats b) + 2 ^ order * PAGE_SIZE"
    "alloc_count ss' = alloc_count (bd_stats b) + 1" "dealloc_count ss' = dealloc_count (bd_stats b)"
    by (rule count_alloc_ok [OF ss win sub sp(2) _ count, of "2 ^ order"]) simp_all
  obtain m' b' where a: "alloc_pages order (m, b) = Inr (Some (page_addr b i), m', b'\<lparr>bd_stats := ss'\<rparr>)"
    "buddy_rep m' b' (split_lists order k i (F(k := rest)))"
    "agree_off (page_bytes b (free_pages F)) m m'" "same_frame b b'"
    by (rule alloc_some_rep [OF rep k(1,2) F first ss'(1)])
  have "buddy_inv m' (b'\<lparr>bd_stats := ss'\<rparr>) (split_lists order k i (F(k := rest))) R"
    by (rule buddy_inv_update [OF inv a(2,4)]) (use sp sub ss'(2) in auto)
  moreover have "page_addr (b'\<lparr>bd_stats := ss'\<rparr>) = page_addr b" "bd_base (b'\<lparr>bd_stats := ss'\<rparr>) = bd_base b"
    using same_frame_addr [OF a(4)] a(4) by (simp_all add: same_frame_def)
  ultimately show ?thesis
    using a(1,3) k F ss'(3-5)
    by (intro disjI2 exI [of _ k] exI [of _ i] exI [of _ rest] exI [of _ m']
        exI [of _ "b'\<lparr>bd_stats := ss'\<rparr>"] conjI) simp_all
qed

lemma dealloc_pages_step:
  assumes inv: "buddy_inv m b F R" and blk: "wf_block (order, i)"
    and own: "{i..<i + 2 ^ order} \<subseteq> R - free_pages F"
    and count: "dealloc_count (bd_stats b) < u64_max"
  obtains m' b' F' page k where "dealloc_pages (page_addr b i) order (m, b) = Inr (m', b')"
    and "buddy_inv m' b' (F'(k := page # F' k)) R"
    and "free_pages (F'(k := page # F' k)) = free_pages F \<union> {i..<i + 2 ^ order}"
    and "agree_off (page_bytes b (free_pages F \<union> {i..<i + 2 ^ order})) m m'"
    and "page_addr b' = page_addr b" and "bd_base b' = bd_base b"
    and "used_bytes (bd_stats b') + 2 ^ order * PAGE_SIZE = used_bytes (bd_stats b)"
    and "alloc_count (bd_stats b') = alloc_count (bd_stats b)"
    and "dealloc_count (bd_stats b') = dealloc_count (bd_stats b) + 1"
    and "k < BUDDY_MAX_ORDER" and "\<forall>k. set (F' k) \<subseteq> set (F k)"
    and "page \<notin> free_pages F'" and "2 ^ k dvd page"
    and "k < BUDDY_MAX_ORDER - 1 \<longrightarrow> page XOR 2 ^ k \<notin> set (F' k)"
proof -
  from inv have rep: "buddy_rep m b F" and sub: "free_pages F \<subseteq> R" and win: "R \<subseteq> {..<MAX_PAGES}"
    and ss: "stats_match (bd_stats b) R (free_pages F)"
    by (simp_all add: buddy_inv_def)
  let ?B = "{i..<i + 2 ^ order}"
  have B: "?B \<subseteq> R" "?B \<inter> free_pages F = {}" using own by blast+
  obtain page k m1 b1 F' where 1: "coalesce i order (m, b) = Inr (page, k, m1, b1)"
    "buddy_rep m1 b1 F'" "wf_block (k, page)" "{page..<page + 2 ^ k} \<inter> free_pages F' = {}"
    "free_pages F' \<union> {page..<page + 2 ^ k} = free_pages F \<union> ?B"
    "agree_off (page_bytes b (free_pages F)) m m1" "same_frame b b1"
    "\<forall>k. set (F' k) \<subseteq> set (F k)" "k < BUDDY_MAX_ORDER - 1 \<longrightarrow> page XOR 2 ^ k \<notin> set (F' k)"
    using coalesce_rep [OF rep blk B(2)] by blast
  obtain m' b2 where 2: "free_block page k (m1, b1) = Inr (m', b2)"
    "buddy_rep m' b2 (F'(k := page # F' k))"
    "agree_off (page_bytes b1 (free_pages F' \<union> {page..<page + 2 ^ k})) m1 m'" "same_frame b1 b2"
    by (rule free_block_rep [OF 1(2-4)])
  have k: "k < BUDDY_MAX_ORDER" "2 ^ k dvd page" using 1(3) by auto
  note pages = free_pages_insert [OF k(1), of F' page, unfolded 1(5)]
  note frame = same_frame_trans [OF 1(7) 2(4)]
  obtain ss' where ss': "count_dealloc (2 ^ order * PAGE_SIZE) (bd_stats b) = Inr ss'"
    "stats_match ss' R (free_pages F \<union> ?B)"
    "used_bytes ss' + 2 ^ order * PAGE_SIZE = used_bytes (bd_stats b)"
    "alloc_count ss' = alloc_count (bd_stats b)" "dealloc_count ss' = dealloc_count (bd_stats b) + 1"
    by (rule count_dealloc_ok [OF ss win sub B _ count, of "2 ^ order"]) simp_all
  show thesis
  proof (rule that)
    have "bd_base b \<le> page_addr b i" "(page_addr b i - bd_base b) mod PAGE_SIZE = 0"
      by (simp_all add: page_addr_def)
    then show "dealloc_pages (page_addr b i) order (m, b) = Inr (m', b2\<lparr>bd_stats := ss'\<rparr>)"
      using 1(1) 2(1) ss'(1) frame blk block_bytes [OF blk]
      by (simp add: dealloc_pages_def page_index same_frame_def)
    show "buddy_inv m' (b2\<lparr>bd_stats := ss'\<rparr>) (F'(k := page # F' k)) R"
      by (rule buddy_inv_update [OF inv 2(2) frame]) (use pages sub B(1) ss'(2) in auto)
    show "free_pages (F'(k := page # F' k)) = free_pages F \<union> ?B" by (rule pages)
    show "agree_off (page_bytes b (free_pages F \<union> ?B)) m m'"
    proof (rule agree_off_trans)
      show "agree_off (page_bytes b (free_pages F \<union> ?B)) m m1"
        by (rule agree_off_mono [OF 1(6) page_bytes_mono]) blast
      show "agree_off (page_bytes b (free_pages F \<union> ?B)) m1 m'"
        using 2(3) unfolding same_frame_bytes [OF 1(7)] 1(5) .
    qed
    show "page_addr (b2\<lparr>bd_stats := ss'\<rparr>) = page_addr b" "bd_base (b2\<lparr>bd_stats := ss'\<rparr>) = bd_base b"
      using same_frame_addr [OF frame] frame by (simp_all add: same_frame_def)
    show "k < BUDDY_MAX_ORDER" "\<forall>k. set (F' k) \<subseteq> set (F k)" "2 ^ k dvd page"
      "k < BUDDY_MAX_ORDER - 1 \<longrightarrow> page XOR 2 ^ k \<notin> set (F' k)" using k 1(8,9) by auto
    have "page \<in> {page..<page + 2 ^ k}" by simp
    then show "page \<notin> free_pages F'" using 1(4) by blast
  qed (use ss' in simp_all)
qed

end
