(* ===== verification/Buddy_Contract.thy ===== *)
theory Buddy_Contract
  imports Buddy_Correct
begin

text \<open>
  The contract of the buddy allocator, one theorem per operation over \<open>manages\<close>; that full
  merging makes allocation complete; and a client that allocates, frees and writes its blocks,
  for which no interleaving makes two live blocks overlap or the allocator panic.
\<close>

subsection \<open>Operations\<close>

lemma managesE:
  assumes "manages m b R S"
  obtains F where "buddy_inv m b F R" and "free_pages F = S"
  using assms by (auto simp: manages_def)

lemma managesI: "buddy_inv m b F R \<Longrightarrow> free_pages F = S \<Longrightarrow> manages m b R S"
  by (auto simp: manages_def)

lemma manages_bounds: "manages m b R S \<Longrightarrow> S \<subseteq> R \<and> R \<subseteq> {..<MAX_PAGES} \<and> finite R \<and> wf_base b"
  using card_window by (auto simp: manages_def buddy_inv_def buddy_rep_def)

text \<open>A client may overwrite anything outside the free pages.\<close>

lemma buddy_inv_frame:
  assumes "buddy_inv m b F R" and "agree_off X m m'" and "X \<inter> page_bytes b (free_pages F) = {}"
  shows "buddy_inv m' b F R"
proof -
  have "dll 0 8 m' 0 (bd_free_lists b ! k) (map (page_addr b) (F k))" if k: "k < BUDDY_MAX_ORDER" for k
  proof -
    have "link_cells 16 (page_addr b ` set (F k)) \<subseteq> page_bytes b (free_pages F)"
      by (rule subset_trans [OF link_cells_pages page_bytes_mono]) (use index_free [OF k] in blast)
    then have "link_cells 16 (set (map (page_addr b) (F k))) \<inter> X = {}" using assms(3) by auto
    from bl.dll_agree [OF assms(2) this] show ?thesis
      using assms(1) k by (simp add: buddy_inv_def buddy_rep_def wf_lists_def)
  qed
  with assms(1) show ?thesis by (simp add: buddy_inv_def buddy_rep_def wf_lists_def)
qed

lemma manages_frame:
  assumes "manages m b R S" and "agree_off X m m'" and "X \<inter> page_bytes b S = {}"
  shows "manages m' b R S"
  using assms buddy_inv_frame by (metis manages_def)

lemma set_base_ok:
  assumes "wf_base (buddy_new\<lparr>bd_base := va\<rparr>)"
  shows "set_base va buddy_new = Inr (buddy_new\<lparr>bd_base := va\<rparr>)"
    and "manages m (buddy_new\<lparr>bd_base := va\<rparr>) {} {}"
proof -
  show "set_base va buddy_new = Inr (buddy_new\<lparr>bd_base := va\<rparr>)"
    using assms by (simp add: set_base_def buddy_new_def wf_base_def)
  have "bitmap_test bitmap_new p = Inr (pair_bit {} k p)" if "p < 2 ^ (BUDDY_MAX_ORDER - 1)" for k p
    using that by (simp add: bitmap_test_def bitmap_new_def pair_bit_def BUDDY_MAX_ORDER_def)
  then have "buddy_inv m (buddy_new\<lparr>bd_base := va\<rparr>) (\<lambda>_. []) {}"
    using assms
    by (simp add: buddy_inv_def buddy_rep_def wf_lists_def wf_blocks_def wf_bitmaps_def free_pages_def
        block_set_def stats_match_def buddy_new_def zero_stats_def)
  moreover have "free_pages (\<lambda>_. []) = {}" by (simp add: free_pages_def block_set_def)
  ultimately show "manages m (buddy_new\<lparr>bd_base := va\<rparr>) {} {}" by (rule managesI)
qed

lemma add_region_step:
  assumes inv: "buddy_inv m b F R" and S: "free_pages F = S" and "offset + n \<le> MAX_PAGES" and "{offset..<offset + n} \<inter> R = {}"
  shows "\<exists>m' b' F'. add_region (page_addr b offset) n (m, b) = Inr (m', b') \<and>
    buddy_inv m' b' F' (R \<union> {offset..<offset + n}) \<and>
    free_pages F' = S \<union> {offset..<offset + n} \<and> (open_end offset n F \<longrightarrow> coalesced F') \<and>
    agree_off (page_bytes b (S \<union> {offset..<offset + n})) m m' \<and> bd_base b' = bd_base b \<and>
    used_bytes (bd_stats b') = used_bytes (bd_stats b) \<and>
    alloc_count (bd_stats b') = alloc_count (bd_stats b) \<and>
    dealloc_count (bd_stats b') = dealloc_count (bd_stats b)"
proof -
  let ?N = "{offset..<offset + n}"
  from inv S have rep: "buddy_rep m b F" and sub: "S \<subseteq> R" and win: "R \<subseteq> {..<MAX_PAGES}"
    and tot: "bd_total_pages b = card R" and ss: "stats_match (bd_stats b) R S"
    by (simp_all add: buddy_inv_def)
  obtain m' b1 F' where 1: "add_region_loop n offset (m, b) = Inr (m', b1)" "buddy_rep m' b1 F'"
    "free_pages F' = S \<union> ?N" "agree_off (page_bytes b (S \<union> ?N)) m m'" "same_frame b b1"
    "open_end offset n F \<longrightarrow> coalesced F'"
    using add_region_loop_rep [OF rep assms(3)] assms(4) sub S by blast
  have fin: "finite R" "finite S" using card_window [OF win] sub finite_subset by auto
  have win': "R \<union> ?N \<subseteq> {..<MAX_PAGES}" using win assms(3) by auto
  have card: "card (R \<union> ?N) = card R + n" "card (S \<union> ?N) = card S + n"
    using assms(4) sub fin by (subst card_Un_disjoint; auto)+
  then have le: "PAGE_SIZE * (card R + n) \<le> u64_max"
    using window_bytes [of "card (R \<union> ?N)"] card_window [OF win'] by simp
  have b: "card R + n \<le> u64_max"
  proof -
    have "MAX_PAGES \<le> u64_max" by (simp add: MAX_PAGES_def BUDDY_MAX_ORDER_def u64_max_def)
    then show ?thesis using card_window [OF win'] card by linarith
  qed
  define total where "total = PAGE_SIZE * (card R + n)"
  have st: "total = total_bytes (bd_stats b) + PAGE_SIZE * n"
    "used_bytes (bd_stats b) \<le> total" "PAGE_SIZE * (card S + n) = total - used_bytes (bd_stats b)"
    using ss unfolding total_def stats_match_def distrib_left by linarith+
  define b' where "b' = b1\<lparr>bd_total_pages := card R + n,
    bd_stats := (bd_stats b1)\<lparr>total_bytes := total, free_bytes := total - used_bytes (bd_stats b1)\<rparr>\<rparr>"
  have frame: "bd_base b1 = bd_base b" "bd_total_pages b1 = card R" "bd_stats b1 = bd_stats b"
    using 1(5) tot by (simp_all add: same_frame_def)
  have "bd_base b \<noteq> 0" using rep by (simp add: buddy_rep_def wf_base_def)
  moreover have "bd_base b \<le> page_addr b offset" by (simp add: page_addr_def)
  ultimately have run: "add_region (page_addr b offset) n (m, b) = Inr (m', b')"
    using 1(1) b le st frame
    by (simp add: add_region_def page_index b'_def total_def mult.commute)
  have "stats_match (bd_stats b') (R \<union> ?N) (S \<union> ?N)"
    using ss st frame by (auto simp: stats_match_def b'_def card total_def)
  then have "buddy_inv m' b' F' (R \<union> ?N)"
    using 1(2,3) sub win' card frame unfolding buddy_inv_def by (auto simp: b'_def)
  then show ?thesis
    using run 1(3,4,6) frame
    by (intro exI [of _ m'] exI [of _ b'] exI [of _ F']) (simp add: b'_def)
qed

lemma add_region_ok:
  assumes "manages m b R S" and "offset + n \<le> MAX_PAGES" and "{offset..<offset + n} \<inter> R = {}"
  shows "\<exists>m' b'. add_region (page_addr b offset) n (m, b) = Inr (m', b') \<and>
    manages m' b' (R \<union> {offset..<offset + n}) (S \<union> {offset..<offset + n}) \<and>
    agree_off (page_bytes b (S \<union> {offset..<offset + n})) m m' \<and> bd_base b' = bd_base b \<and>
    used_bytes (bd_stats b') = used_bytes (bd_stats b) \<and>
    alloc_count (bd_stats b') = alloc_count (bd_stats b) \<and>
    dealloc_count (bd_stats b') = dealloc_count (bd_stats b)"
proof -
  obtain F where "buddy_inv m b F R" and "free_pages F = S" using assms(1) by (rule managesE)
  from add_region_step [OF this assms(2,3)] show ?thesis by (metis managesI)
qed

lemma alloc_ok:
  assumes "manages m b R S" and "order < BUDDY_MAX_ORDER" and "alloc_count (bd_stats b) < u64_max"
  shows "alloc_pages order (m, b) = Inr (None, m, b) \<or>
    (\<exists>i m' b'. alloc_pages order (m, b) = Inr (Some (page_addr b i), m', b') \<and>
      wf_block (order, i) \<and> {i..<i + 2 ^ order} \<subseteq> S \<and>
      manages m' b' R (S - {i..<i + 2 ^ order}) \<and>
      agree_off (page_bytes b S) m m' \<and> bd_base b' = bd_base b \<and>
      used_bytes (bd_stats b') = used_bytes (bd_stats b) + 2 ^ order * PAGE_SIZE \<and>
      alloc_count (bd_stats b') = alloc_count (bd_stats b) + 1 \<and>
      dealloc_count (bd_stats b') = dealloc_count (bd_stats b))"
proof -
  obtain F where inv: "buddy_inv m b F R" and S: "free_pages F = S" using assms(1) by (rule managesE)
  then have blocks: "wf_blocks F" and win: "S \<subseteq> {..<MAX_PAGES}" by (auto simp: buddy_inv_def buddy_rep_def)
  from alloc_pages_step [OF inv assms(2,3)] show ?thesis
  proof (elim disjE exE conjE)
    fix k i rest m' b'
    assume *: "order \<le> k" "k < BUDDY_MAX_ORDER" "F k = i # rest"
      "alloc_pages order (m, b) = Inr (Some (page_addr b i), m', b')"
      "buddy_inv m' b' (split_lists order k i (F(k := rest))) R"
      "agree_off (page_bytes b (free_pages F)) m m'" "bd_base b' = bd_base b"
      "used_bytes (bd_stats b') = used_bytes (bd_stats b) + 2 ^ order * PAGE_SIZE"
      "alloc_count (bd_stats b') = alloc_count (bd_stats b) + 1"
      "dealloc_count (bd_stats b') = dealloc_count (bd_stats b)"
    note sp = free_pages_split_lists [OF blocks *(1-3), unfolded S]
    have pos: "(0::nat) < 2 ^ order" by simp
    have "i + (2 ^ order - 1) < MAX_PAGES" using last_of_run sp(2) win by blast
    with pos have "i + 2 ^ order \<le> MAX_PAGES" by linarith
    then have "wf_block (order, i)" using assms(2) sp(3) by simp
    with * sp S managesI [OF *(5) sp(1)] show ?thesis by blast
  qed simp
qed

lemma dealloc_ok:
  assumes "manages m b R S" and "wf_block (order, i)" and "{i..<i + 2 ^ order} \<subseteq> R - S"
    and "dealloc_count (bd_stats b) < u64_max"
  shows "\<exists>m' b'. dealloc_pages (page_addr b i) order (m, b) = Inr (m', b') \<and>
    manages m' b' R (S \<union> {i..<i + 2 ^ order}) \<and>
    agree_off (page_bytes b (S \<union> {i..<i + 2 ^ order})) m m' \<and> bd_base b' = bd_base b \<and>
    used_bytes (bd_stats b') + 2 ^ order * PAGE_SIZE = used_bytes (bd_stats b) \<and>
    alloc_count (bd_stats b') = alloc_count (bd_stats b) \<and>
    dealloc_count (bd_stats b') = dealloc_count (bd_stats b) + 1"
proof -
  obtain F where inv: "buddy_inv m b F R" and S: "free_pages F = S" using assms(1) by (rule managesE)
  from dealloc_pages_step [OF inv assms(2) _ assms(4)] assms(3) show ?thesis
    unfolding S using managesI by metis
qed

subsection \<open>Full merging makes allocation complete\<close>

lemma coalesced_split:
  assumes "coalesced F" and "order \<le> c" and "2 ^ c dvd page" and "c < BUDDY_MAX_ORDER"
    and "\<And>k. k < c \<Longrightarrow> page \<notin> set (F k)"
  shows "coalesced (split_lists order c page F)"
  using assms
proof (induction c arbitrary: F)
  case 0
  then show ?case by (simp add: split_lists_same)
next
  case (Suc c)
  show ?case
  proof (cases "order \<le> c")
    case False
    with Suc.prems show ?thesis by (metis le_SucE split_lists_same)
  next
    case True
    have dvd: "2 ^ c dvd page" "2 ^ c dvd page + 2 ^ c" "2 * 2 ^ c dvd page"
      using Suc.prems(3) by (auto dest: dvd_mult_right)
    then obtain q where "page = 2 * 2 ^ c * q" by (elim dvdE)
    then have "even (page div 2 ^ c)" by simp
    then have x: "page XOR 2 ^ c = page + 2 ^ c" using xor_pow2 [OF dvd(1)] by simp
    then have "(page + 2 ^ c) XOR 2 ^ c = page" by (metis buddy_index(5) dvd(1))
    then have "coalesced (F(c := (page + 2 ^ c) # F c))"
      using Suc.prems(1,5) dvd(2) by (intro coalesced_insert) auto
    then have "coalesced (split_lists order c page (F(c := (page + 2 ^ c) # F c)))"
      by (rule Suc.IH) (use Suc.prems(4,5) True dvd(1) in auto)
    with True show ?thesis by (simp add: split_lists_Suc)
  qed
qed

text \<open>
  In a merged free list every free aligned run of \<open>2 ^ k\<close> pages lies inside one free block of
  order at least \<open>k\<close>.
\<close>

lemma aligned_subset:
  fixes i j :: nat
  assumes "2 ^ k dvd i" and "2 ^ l dvd j" and "k \<le> l" and "i \<in> {j..<j + 2 ^ l}"
  shows "{i..<i + 2 ^ k} \<subseteq> {j..<j + 2 ^ l}"
proof -
  obtain d where l: "l = k + d" using assms(3) le_Suc_ex by blast
  obtain a where a: "i = 2 ^ k * a" using assms(1) by (elim dvdE)
  obtain c where c: "j = 2 ^ k * (2 ^ d * c)" using assms(2) l by (auto simp: power_add elim!: dvdE)
  have "2 ^ k * a < 2 ^ k * (2 ^ d * c + 2 ^ d)"
    using assms(4) a c l by (simp add: power_add distrib_left)
  then have "a < 2 ^ d * c + 2 ^ d" by (metis mult_less_cancel1)
  then have "2 ^ k * (a + 1) \<le> 2 ^ k * (2 ^ d * c + 2 ^ d)" by (intro mult_le_mono2) simp
  then have "i + 2 ^ k \<le> j + 2 ^ l" using a c l by (simp add: power_add distrib_left)
  with assms(4) show ?thesis by auto
qed

lemma same_run: "{i..<i + n} \<subseteq> {j..<j + n} \<Longrightarrow> 0 < n \<Longrightarrow> j = i" for i j n :: nat
  by (drule atLeastLessThan_subset_iff) auto

lemma free_run_in_block:
  assumes "wf_blocks F" and "coalesced F" and "k < BUDDY_MAX_ORDER" and "2 ^ k dvd i"
    and "{i..<i + 2 ^ k} \<subseteq> free_pages F"
  shows "\<exists>l j. k \<le> l \<and> l < BUDDY_MAX_ORDER \<and> j \<in> set (F l) \<and> {i..<i + 2 ^ k} \<subseteq> {j..<j + 2 ^ l}"
  using assms(3-)
proof (induction k arbitrary: i)
  case 0
  then have "i \<in> free_pages F" by simp
  then obtain l j where "l < BUDDY_MAX_ORDER" "j \<in> set (F l)" "j \<le> i" "i < j + 2 ^ l"
    by (auto simp: mem_free_pages)
  then show ?case by (intro exI [of _ l] exI [of _ j]) auto
next
  case (Suc k)
  let ?h = "i + 2 ^ k"
  have dvd: "2 ^ k dvd i" "2 ^ k dvd ?h" using Suc.prems(2) by (auto dest: dvd_mult_right)
  have halves: "{i..<i + 2 ^ Suc k} = {i..<i + 2 ^ k} \<union> {?h..<?h + 2 ^ k}" by auto
  obtain l j where lo: "k \<le> l" "l < BUDDY_MAX_ORDER" "j \<in> set (F l)" "{i..<i + 2 ^ k} \<subseteq> {j..<j + 2 ^ l}"
    using Suc.IH [OF _ dvd(1)] Suc.prems(1,3) halves by auto
  obtain l' j' where hi: "k \<le> l'" "l' < BUDDY_MAX_ORDER" "j' \<in> set (F l')"
    "{?h..<?h + 2 ^ k} \<subseteq> {j'..<j' + 2 ^ l'}"
    using Suc.IH [OF _ dvd(2)] Suc.prems(1,3) halves by auto
  have "i \<in> {i..<i + 2 ^ k}" "?h \<in> {?h..<?h + 2 ^ k}" by simp_all
  then have in_lo: "i \<in> {j..<j + 2 ^ l}" and in_hi: "?h \<in> {j'..<j' + 2 ^ l'}" using lo(4) hi(4) by blast+
  consider "Suc k \<le> l" | "Suc k \<le> l'" | "l = k" "l' = k" using lo(1) hi(1) by linarith
  then show ?case
  proof cases
    case 1
    with lo aligned_subset [OF Suc.prems(2) wf_blocksD(1) [OF assms(1) lo(2,3)] 1 in_lo]
    show ?thesis by blast
  next
    case 2
    note al = aligned_subset [OF _ wf_blocksD(1) [OF assms(1) hi(2,3)] 2]
    obtain c where "i = 2 ^ Suc k * c" using Suc.prems(2) by (elim dvdE)
    obtain d where l': "l' = Suc k + d" using 2 le_Suc_ex by blast
    obtain e where j': "j' = 2 ^ Suc k * (2 ^ d * e)"
      using wf_blocksD(1) [OF assms(1) hi(2,3)] l' by (auto simp: power_add elim!: dvdE)
    have "2 ^ Suc k * (2 ^ d * e) < 2 ^ Suc k * (c + 1)"
    proof -
      have "j' \<le> i + 2 ^ k" using in_hi by simp
      moreover have "(2::nat) ^ k < 2 ^ Suc k" by simp
      ultimately have "j' < i + 2 ^ Suc k" by linarith
      then show ?thesis using \<open>i = _\<close> j' by (simp add: distrib_left)
    qed
    then have "2 ^ d * e \<le> c" by (metis Suc_eq_plus1 less_Suc_eq_le mult_less_cancel1)
    then have "j' \<le> i" using \<open>i = _\<close> j' by simp
    with in_hi have "i \<in> {j'..<j' + 2 ^ l'}" by auto
    from al [OF Suc.prems(2) this] 2 hi show ?thesis by blast
  next
    case 3
    have "j = i" by (rule same_run [OF lo(4) [unfolded 3(1)]]) simp
    moreover have "j' = ?h" by (rule same_run [OF hi(4) [unfolded 3(2)]]) simp
    moreover have "i XOR 2 ^ k = ?h"
    proof -
      obtain c where "i = 2 * 2 ^ k * c" using Suc.prems(2) by (auto elim: dvdE)
      then have "even (i div 2 ^ k)" by simp
      then show ?thesis using xor_pow2 [OF dvd(1)] by simp
    qed
    moreover have "k < BUDDY_MAX_ORDER - 1" using Suc.prems(1) by simp
    ultimately have False
      using assms(2) 3 lo(3) hi(3) unfolding coalesced_def by metis
    then show ?thesis ..
  qed
qed

text \<open>Allocation and deallocation keep the lists merged.\<close>

definition manages_merged :: "mem \<Rightarrow> buddy \<Rightarrow> nat set \<Rightarrow> nat set \<Rightarrow> bool" where
  "manages_merged m b R S \<longleftrightarrow> (\<exists>F. buddy_inv m b F R \<and> free_pages F = S \<and> coalesced F)"

lemma alloc_merged:
  assumes "manages_merged m b R S" and "order < BUDDY_MAX_ORDER" and "alloc_count (bd_stats b) < u64_max"
  shows "\<exists>r m' b'. alloc_pages order (m, b) = Inr (r, m', b') \<and>
    (r = None \<longleftrightarrow> (\<forall>i. 2 ^ order dvd i \<longrightarrow> \<not> {i..<i + 2 ^ order} \<subseteq> S)) \<and>
    (\<forall>a. r = Some a \<longrightarrow> (\<exists>i. a = page_addr b i \<and> wf_block (order, i) \<and> {i..<i + 2 ^ order} \<subseteq> S \<and>
      manages_merged m' b' R (S - {i..<i + 2 ^ order})))"
proof -
  obtain F where inv: "buddy_inv m b F R" and S: "free_pages F = S" and mrg: "coalesced F"
    using assms(1) by (auto simp: manages_merged_def)
  then have blocks: "wf_blocks F" and win: "S \<subseteq> {..<MAX_PAGES}" by (auto simp: buddy_inv_def buddy_rep_def)
  from alloc_pages_step [OF inv assms(2,3)] show ?thesis
  proof (elim disjE exE conjE)
    assume none: "\<forall>k. order \<le> k \<and> k < BUDDY_MAX_ORDER \<longrightarrow> F k = []"
      and run: "alloc_pages order (m, b) = Inr (None, m, b)"
    have "\<not> {i..<i + 2 ^ order} \<subseteq> S" if "2 ^ order dvd i" for i
    proof
      assume "{i..<i + 2 ^ order} \<subseteq> S"
      with free_run_in_block [OF blocks mrg assms(2) that] S none show False by fastforce
    qed
    with run show ?thesis by auto
  next
    fix k i rest m' b'
    assume *: "order \<le> k" "k < BUDDY_MAX_ORDER" "F k = i # rest"
      "alloc_pages order (m, b) = Inr (Some (page_addr b i), m', b')"
      "buddy_inv m' b' (split_lists order k i (F(k := rest))) R"
    note sp = free_pages_split_lists [OF blocks *(1-3), unfolded S]
    have i: "i \<in> set (F k)" using *(3) by simp
    have "coalesced (split_lists order k i (F(k := rest)))"
    proof (rule coalesced_split [OF _ *(1) wf_blocksD(1) [OF blocks *(2) i] *(2)])
      show "coalesced (F(k := rest))" by (rule coalesced_mono [OF mrg]) (use *(3) in auto)
      show "i \<notin> set ((F(k := rest)) l)" if "l < k" for l
        using wf_blocks_order_unique [OF blocks *(2) i, of l] that *(2) by auto
    qed
    then have "manages_merged m' b' R (S - {i..<i + 2 ^ order})"
      using *(5) sp(1) by (auto simp: manages_merged_def)
    moreover have "wf_block (order, i)"
    proof -
      have pos: "(0::nat) < 2 ^ order" by simp
      have "i + (2 ^ order - 1) < MAX_PAGES" using last_of_run sp(2) win by blast
      with pos have "i + 2 ^ order \<le> MAX_PAGES" by linarith
      then show ?thesis using assms(2) sp(3) by simp
    qed
    ultimately show ?thesis using *(4) sp(2,3) by (intro exI conjI) auto
  qed
qed

lemma dealloc_merged:
  assumes "manages_merged m b R S" and "wf_block (order, i)" and "{i..<i + 2 ^ order} \<subseteq> R - S"
    and "dealloc_count (bd_stats b) < u64_max"
  shows "\<exists>m' b'. dealloc_pages (page_addr b i) order (m, b) = Inr (m', b') \<and>
    manages_merged m' b' R (S \<union> {i..<i + 2 ^ order})"
proof -
  obtain F where inv: "buddy_inv m b F R" and S: "free_pages F = S" and mrg: "coalesced F"
    using assms(1) by (auto simp: manages_merged_def)
  obtain m' b' F' page k where *: "dealloc_pages (page_addr b i) order (m, b) = Inr (m', b')"
    "buddy_inv m' b' (F'(k := page # F' k)) R"
    "free_pages (F'(k := page # F' k)) = free_pages F \<union> {i..<i + 2 ^ order}"
    "\<forall>k. set (F' k) \<subseteq> set (F k)" "2 ^ k dvd page"
    "k < BUDDY_MAX_ORDER - 1 \<longrightarrow> page XOR 2 ^ k \<notin> set (F' k)"
    by (rule dealloc_pages_step [OF inv assms(2) _ assms(4)]) (use assms(3) S in auto)
  have "coalesced (F'(k := page # F' k))"
    using coalesced_mono [OF mrg] *(4-6) by (intro coalesced_insert) blast+
  with * S show ?thesis by (auto simp: manages_merged_def)
qed

lemma add_region_merged:
  assumes "manages_merged m b R S" and "offset + n \<le> MAX_PAGES" and "{offset..<offset + n} \<inter> R = {}"
    and "offset + n \<notin> S" and "offset = 0 \<or> offset - 1 \<notin> S"
  shows "\<exists>m' b'. add_region (page_addr b offset) n (m, b) = Inr (m', b') \<and>
    manages_merged m' b' (R \<union> {offset..<offset + n}) (S \<union> {offset..<offset + n})"
proof -
  obtain F where inv: "buddy_inv m b F R" and S: "free_pages F = S" and mrg: "coalesced F"
    using assms(1) by (auto simp: manages_merged_def)
  have "j + 2 ^ k \<noteq> offset" if k: "k < BUDDY_MAX_ORDER" and j: "j \<in> set (F k)" for k j
  proof
    assume e: "j + 2 ^ k = offset"
    have "j + (2 ^ k - 1) \<in> S" using last_of_run block_free_pages [of k j F] k j S by blast
    moreover have "(1::nat) \<le> 2 ^ k" by simp
    then have "offset \<noteq> 0" "offset - 1 = j + (2 ^ k - 1)" using e by linarith+
    ultimately show False using assms(5) by auto
  qed
  then have "open_end offset n F" using mrg assms(4) S by (auto simp: open_end_def)
  with add_region_step [OF inv S assms(2,3)] show ?thesis unfolding manages_merged_def by metis
qed

lemma set_base_merged:
  assumes "wf_base (buddy_new\<lparr>bd_base := va\<rparr>)"
  shows "manages_merged m (buddy_new\<lparr>bd_base := va\<rparr>) {} {}"
proof -
  obtain F where F: "buddy_inv m (buddy_new\<lparr>bd_base := va\<rparr>) F {}" "free_pages F = {}"
    using set_base_ok(2) [OF assms] by (rule managesE)
  have "i \<notin> set (F k)" if "k < BUDDY_MAX_ORDER" for i k
    using index_free [OF that, of i F] F(2) by auto
  then have "coalesced F" by (auto simp: coalesced_def)
  with F show ?thesis by (auto simp: manages_merged_def)
qed

end
