(* ===== verification/Buddy_Client.thy ===== *)
theory Buddy_Client
  imports Buddy_Contract
begin

text \<open>
  The buddy allocator under an arbitrary client: the client asks for blocks, gives back blocks it
  holds, and writes into blocks it holds, in any order. \<open>live\<close> is the client's bookkeeping, the
  order of the block it holds at each address.
\<close>

type_synonym client_state = "mem \<times> buddy \<times> (nat \<rightharpoonup> nat)"

inductive client_step :: "client_state \<Rightarrow> client_state \<Rightarrow> bool" where
  Alloc: "order < BUDDY_MAX_ORDER \<Longrightarrow> alloc_count (bd_stats b) < u64_max \<Longrightarrow>
    alloc_pages order (m, b) = Inr (Some a, m', b') \<Longrightarrow>
    client_step (m, b, live) (m', b', live(a \<mapsto> order))"
| Alloc_fail: "order < BUDDY_MAX_ORDER \<Longrightarrow> alloc_count (bd_stats b) < u64_max \<Longrightarrow>
    alloc_pages order (m, b) = Inr (None, m', b') \<Longrightarrow>
    client_step (m, b, live) (m', b', live)"
| Dealloc: "live a = Some order \<Longrightarrow> dealloc_count (bd_stats b) < u64_max \<Longrightarrow>
    dealloc_pages a order (m, b) = Inr (m', b') \<Longrightarrow>
    client_step (m, b, live) (m', b', live(a := None))"
| Write: "live a = Some order \<Longrightarrow> a \<le> x \<Longrightarrow> x < a + 2 ^ order * PAGE_SIZE \<Longrightarrow>
    client_step (m, b, live) (m(x := v), b, live)"

inductive client_run :: "client_state \<Rightarrow> client_state \<Rightarrow> bool" where
  run_refl: "client_run s s"
| run_step: "client_run s t \<Longrightarrow> client_step t u \<Longrightarrow> client_run s u"

inductive_cases client_stepE: "client_step (m, b, live) s"

definition live_block :: "buddy \<Rightarrow> nat set \<Rightarrow> nat set \<Rightarrow> nat \<Rightarrow> nat \<Rightarrow> bool" where
  "live_block b R S a order \<longleftrightarrow>
     (\<exists>i. a = page_addr b i \<and> wf_block (order, i) \<and> {i..<i + 2 ^ order} \<subseteq> R - S)"

definition client_inv :: "nat set \<Rightarrow> client_state \<Rightarrow> bool" where
  "client_inv R = (\<lambda>(m, b, live).
     finite (dom live) \<and>
     (\<exists>S. manages_merged m b R S \<and> (\<forall>a order. live a = Some order \<longrightarrow> live_block b R S a order)) \<and>
     (\<forall>a order a' order'. live a = Some order \<and> live a' = Some order' \<and> a \<noteq> a' \<longrightarrow>
        block_range a order \<inter> block_range a' order' = {}) \<and>
     used_bytes (bd_stats b) = (\<Sum>a\<in>dom live. 2 ^ the (live a) * PAGE_SIZE))"

subsection \<open>Blocks as byte ranges\<close>

lemma block_range_pages: "block_range (page_addr b i) k = page_bytes b {i..<i + 2 ^ k}"
proof (rule set_eqI)
  fix x
  have "x \<in> page_bytes b {i..<i + 2 ^ k} \<longleftrightarrow>
      (\<exists>j. i \<le> j \<and> j < i + 2 ^ k \<and> bd_base b + j * PAGE_SIZE \<le> x \<and> x < bd_base b + (j + 1) * PAGE_SIZE)"
    by (auto simp: page_bytes_def page_addr_def)
  also have "\<dots> \<longleftrightarrow> bd_base b + i * PAGE_SIZE \<le> x \<and> x < bd_base b + i * PAGE_SIZE + 2 ^ k * PAGE_SIZE"
  proof
    assume "\<exists>j. i \<le> j \<and> j < i + 2 ^ k \<and> bd_base b + j * PAGE_SIZE \<le> x \<and> x < bd_base b + (j + 1) * PAGE_SIZE"
    then obtain j where j: "i \<le> j" "j + 1 \<le> i + 2 ^ k" "bd_base b + j * PAGE_SIZE \<le> x"
      "x < bd_base b + (j + 1) * PAGE_SIZE" by auto
    have "i * PAGE_SIZE \<le> j * PAGE_SIZE" "(j + 1) * PAGE_SIZE \<le> (i + 2 ^ k) * PAGE_SIZE"
      using j(1,2) by (intro mult_le_mono1; simp)+
    then show "bd_base b + i * PAGE_SIZE \<le> x \<and> x < bd_base b + i * PAGE_SIZE + 2 ^ k * PAGE_SIZE"
      using j(3,4) unfolding distrib_right by linarith
  next
    assume x: "bd_base b + i * PAGE_SIZE \<le> x \<and> x < bd_base b + i * PAGE_SIZE + 2 ^ k * PAGE_SIZE"
    define j where "j = (x - bd_base b) div PAGE_SIZE"
    have ps: "0 < PAGE_SIZE" by (simp add: PAGE_SIZE_def)
    have "i * PAGE_SIZE \<le> x - bd_base b" using x by linarith
    then have "i \<le> j" unfolding j_def using ps by (simp add: less_eq_div_iff_mult_less_eq)
    moreover have "x - bd_base b < (i + 2 ^ k) * PAGE_SIZE" using x unfolding distrib_right by linarith
    then have "j < i + 2 ^ k" unfolding j_def by (rule less_mult_imp_div_less)
    moreover have "j * PAGE_SIZE \<le> x - bd_base b" "x - bd_base b < (j + 1) * PAGE_SIZE"
      unfolding j_def using ps dividend_less_div_times [of PAGE_SIZE "x - bd_base b"]
      by (simp_all add: add.commute)
    ultimately show "\<exists>j. i \<le> j \<and> j < i + 2 ^ k \<and> bd_base b + j * PAGE_SIZE \<le> x \<and>
        x < bd_base b + (j + 1) * PAGE_SIZE"
      using x by (intro exI [of _ j]) linarith
  qed
  finally show "x \<in> block_range (page_addr b i) k \<longleftrightarrow> x \<in> page_bytes b {i..<i + 2 ^ k}"
    by (simp add: block_range_def page_addr_def)
qed

lemma live_block_bytes: "live_block b R S a k \<Longrightarrow> block_range a k \<inter> page_bytes b S = {}"
  unfolding live_block_def using page_bytes_disjoint [of _ S b] block_range_pages by (metis Diff_disjoint
      disjoint_iff inf.commute subset_iff)

lemma manages_mergedD: "manages_merged m b R S \<Longrightarrow> manages m b R S"
  by (auto simp: manages_merged_def manages_def)

lemma same_base: "bd_base b' = bd_base b \<Longrightarrow> page_addr b' = page_addr b"
  by (simp add: page_addr_def fun_eq_iff)

lemma live_block_base: "bd_base b' = bd_base b \<Longrightarrow> live_block b' R S a k = live_block b R S a k"
  by (metis live_block_def same_base)

lemma live_block_mono: "live_block b R S a k \<Longrightarrow> T \<subseteq> S \<Longrightarrow> live_block b R T a k"
  unfolding live_block_def by blast

subsection \<open>Every step keeps the invariant\<close>

lemma client_invI:
  assumes "manages_merged m b R S" and "finite (dom live)"
    and "\<And>a k. live a = Some k \<Longrightarrow> live_block b R S a k"
    and "\<And>a k a' k'. live a = Some k \<Longrightarrow> live a' = Some k' \<Longrightarrow> a \<noteq> a' \<Longrightarrow>
      block_range a k \<inter> block_range a' k' = {}"
    and "used_bytes (bd_stats b) = (\<Sum>a\<in>dom live. 2 ^ the (live a) * PAGE_SIZE)"
  shows "client_inv R (m, b, live)"
  unfolding client_inv_def prod.case using assms by blast

lemma live_blocks_apart:
  assumes "live_block b R S a k" and "T \<inter> (R - S) = {}"
  shows "block_range a k \<inter> page_bytes b T = {}"
proof -
  obtain i where "a = page_addr b i" "{i..<i + 2 ^ k} \<subseteq> R - S" using assms(1) by (auto simp: live_block_def)
  with assms(2) show ?thesis by (metis block_range_pages inf.commute inf.orderE inf_assoc inf_bot_left
        page_bytes_disjoint)
qed

lemma alloc_step_inv:
  assumes inv: "client_inv R (m, b, live)" and order: "order < BUDDY_MAX_ORDER"
    and count: "alloc_count (bd_stats b) < u64_max"
    and run: "alloc_pages order (m, b) = Inr (Some a, m', b')"
  shows "client_inv R (m', b', live(a \<mapsto> order))" and "live a = None"
    and "live c = Some k \<Longrightarrow> x \<in> block_range c k \<Longrightarrow> m' x = m x"
proof -
  from inv obtain S where fin: "finite (dom live)" and S: "manages_merged m b R S"
    and blks: "\<And>a k. live a = Some k \<Longrightarrow> live_block b R S a k"
    and apart: "\<And>a k a' k'. live a = Some k \<Longrightarrow> live a' = Some k' \<Longrightarrow> a \<noteq> a' \<Longrightarrow>
        block_range a k \<inter> block_range a' k' = {}"
    and used: "used_bytes (bd_stats b) = (\<Sum>a\<in>dom live. 2 ^ the (live a) * PAGE_SIZE)"
    by (auto simp: client_inv_def)
  obtain i where i: "a = page_addr b i" "wf_block (order, i)" "{i..<i + 2 ^ order} \<subseteq> S"
    "manages_merged m' b' R (S - {i..<i + 2 ^ order})"
    using alloc_merged [OF S order count] run by auto
  obtain j where j: "agree_off (page_bytes b S) m m'" "bd_base b' = bd_base b"
    "used_bytes (bd_stats b') = used_bytes (bd_stats b) + 2 ^ order * PAGE_SIZE"
    using alloc_ok [OF manages_mergedD [OF S] order count] run by auto
  have sub: "S \<subseteq> R" using manages_bounds [OF manages_mergedD [OF S]] by simp
  let ?B = "{i..<i + 2 ^ order}"
  have new: "block_range c k \<inter> block_range a order = {}" if "live c = Some k" for c k
    using live_block_bytes [OF blks [OF that]] i(1,3) page_bytes_mono [OF i(3), of b]
    by (auto simp: block_range_pages)
  have "a \<in> block_range a order" by (simp add: block_range_def PAGE_SIZE_def)
  moreover have "a \<in> block_range a k" for k by (simp add: block_range_def PAGE_SIZE_def)
  ultimately show fresh: "live a = None" using new [of a] by (cases "live a") auto
  have "live_block b' R (S - ?B) c k" if "(live(a \<mapsto> order)) c = Some k" for c k
  proof (cases "c = a")
    case True
    then have k: "k = order" using that by simp
    have "?B \<subseteq> R - (S - ?B)" using i(3) sub by blast
    then show ?thesis
      unfolding live_block_base [OF j(2)] True k unfolding live_block_def using i(1,2) by blast
  next
    case False
    with that have "live c = Some k" by simp
    then show ?thesis
      using live_block_mono [OF blks] by (simp add: live_block_base [OF j(2)] Diff_subset)
  qed
  moreover have "block_range c k \<inter> block_range c' k' = {}"
    if "(live(a \<mapsto> order)) c = Some k" "(live(a \<mapsto> order)) c' = Some k'" "c \<noteq> c'" for c k c' k'
    using that new apart by (auto simp: Int_commute split: if_splits)
  moreover have "used_bytes (bd_stats b') = (\<Sum>c\<in>dom (live(a \<mapsto> order)). 2 ^ the ((live(a \<mapsto> order)) c) * PAGE_SIZE)"
  proof -
    have "(\<Sum>c\<in>dom live. 2 ^ the ((live(a \<mapsto> order)) c) * PAGE_SIZE) = (\<Sum>c\<in>dom live. 2 ^ the (live c) * PAGE_SIZE)"
      using fresh by (intro sum.cong) auto
    then show ?thesis using fin fresh used j(3) by (simp add: domIff)
  qed
  ultimately show "client_inv R (m', b', live(a \<mapsto> order))"
    using fin by (intro client_invI [OF i(4)]) simp_all
  show "live c = Some k \<Longrightarrow> x \<in> block_range c k \<Longrightarrow> m' x = m x"
    using live_block_bytes [OF blks] j(1) unfolding agree_off_def by blast
qed

lemma dealloc_step_inv:
  assumes inv: "client_inv R (m, b, live)" and held: "live a = Some order"
    and count: "dealloc_count (bd_stats b) < u64_max"
  obtains m' b' where "dealloc_pages a order (m, b) = Inr (m', b')"
    and "client_inv R (m', b', live(a := None))"
    and "\<And>c k x. live c = Some k \<Longrightarrow> c \<noteq> a \<Longrightarrow> x \<in> block_range c k \<Longrightarrow> m' x = m x"
proof -
  from inv obtain S where fin: "finite (dom live)" and S: "manages_merged m b R S"
    and blks: "\<And>a k. live a = Some k \<Longrightarrow> live_block b R S a k"
    and apart: "\<And>a k a' k'. live a = Some k \<Longrightarrow> live a' = Some k' \<Longrightarrow> a \<noteq> a' \<Longrightarrow>
        block_range a k \<inter> block_range a' k' = {}"
    and used: "used_bytes (bd_stats b) = (\<Sum>a\<in>dom live. 2 ^ the (live a) * PAGE_SIZE)"
    by (auto simp: client_inv_def)
  obtain i where i: "a = page_addr b i" "wf_block (order, i)" "{i..<i + 2 ^ order} \<subseteq> R - S"
    using blks [OF held] by (auto simp: live_block_def)
  let ?B = "{i..<i + 2 ^ order}"
  obtain m' b' where 1: "dealloc_pages a order (m, b) = Inr (m', b')" "manages_merged m' b' R (S \<union> ?B)"
    using dealloc_merged [OF S i(2,3) count] i(1) by auto
  have 2: "agree_off (page_bytes b (S \<union> ?B)) m m'" "bd_base b' = bd_base b"
    "used_bytes (bd_stats b') + 2 ^ order * PAGE_SIZE = used_bytes (bd_stats b)"
    using dealloc_ok [OF manages_mergedD [OF S] i(2,3) count] i(1) 1(1) by auto
  have rest: "live_block b R (S \<union> ?B) c k" if "live c = Some k" "c \<noteq> a" for c k
  proof -
    note live_c = blks [OF that(1)] and other = apart [OF that(1) held that(2)]
    obtain l where l: "c = page_addr b l" "wf_block (k, l)" "{l..<l + 2 ^ k} \<subseteq> R - S"
      using live_c by (auto simp: live_block_def)
    have "page_bytes b {l..<l + 2 ^ k} \<inter> page_bytes b ?B = {}"
      using other i(1) l(1) by (simp add: block_range_pages)
    moreover have "page_addr b x \<in> page_bytes b T" if "x \<in> T" for x T
      using that by (auto simp: page_bytes_def PAGE_SIZE_def)
    ultimately have "{l..<l + 2 ^ k} \<inter> ?B = {}" by blast
    with l show ?thesis unfolding live_block_def by blast
  qed
  show thesis
  proof (rule that)
    show "dealloc_pages a order (m, b) = Inr (m', b')" by (rule 1)
    have "used_bytes (bd_stats b') = (\<Sum>c\<in>dom (live(a := None)). 2 ^ the ((live(a := None)) c) * PAGE_SIZE)"
    proof -
      have "(\<Sum>c\<in>dom live. 2 ^ the (live c) * PAGE_SIZE)
          = 2 ^ order * PAGE_SIZE + (\<Sum>c\<in>dom live - {a}. 2 ^ the (live c) * PAGE_SIZE)"
        using held fin by (subst sum.remove [of _ a]) (auto simp: domI)
      moreover have "(\<Sum>c\<in>dom live - {a}. 2 ^ the (live c) * PAGE_SIZE)
          = (\<Sum>c\<in>dom (live(a := None)). 2 ^ the ((live(a := None)) c) * PAGE_SIZE)"
        by (intro sum.cong) auto
      ultimately show ?thesis using used 2(3) by linarith
    qed
    moreover have "live_block b' R (S \<union> ?B) c k" if "(live(a := None)) c = Some k" for c k
      using that rest by (simp add: live_block_base [OF 2(2)] split: if_splits)
    moreover have "block_range c k \<inter> block_range c' k' = {}"
      if "(live(a := None)) c = Some k" "(live(a := None)) c' = Some k'" "c \<noteq> c'" for c k c' k'
      using that apart by (auto split: if_splits)
    ultimately show "client_inv R (m', b', live(a := None))"
      using fin by (intro client_invI [OF 1(2)]) simp_all
    show "m' x = m x" if "live c = Some k" "c \<noteq> a" "x \<in> block_range c k" for c k x
      using live_block_bytes [OF rest [OF that(1,2)]] that(3) 2(1) unfolding agree_off_def by blast
  qed
qed

lemma write_step_inv:
  assumes inv: "client_inv R (m, b, live)" and held: "live a = Some order" and x: "x \<in> block_range a order"
  shows "client_inv R (m(x := v), b, live)"
proof -
  from inv obtain S where S: "manages_merged m b R S"
    and blks: "\<forall>a k. live a = Some k \<longrightarrow> live_block b R S a k"
    unfolding client_inv_def prod.case by blast
  have ag: "agree_off {x} m (m(x := v))" by (simp add: agree_off_def)
  have "{x} \<inter> page_bytes b S = {}" using live_block_bytes blks held x by blast
  then have "manages_merged (m(x := v)) b R S"
    using S buddy_inv_frame [OF _ ag] unfolding manages_merged_def by metis
  with blks inv show ?thesis unfolding client_inv_def prod.case by blast
qed

end
