(* ===== verification/Buddy_Theorems.thy ===== *)
theory Buddy_Theorems
  imports Buddy_Client
begin

text \<open>
  The properties of the buddy allocator, each with a concrete instance: an allocator with base
  address \<open>0x1000\<close> and four pages of zeroed memory.
\<close>

definition fresh_buddy :: buddy where
  "fresh_buddy = buddy_new\<lparr>bd_base := 4096\<rparr>"

definition demo_run :: "(mem \<times> buddy) res" where
  "demo_run = and_then (set_base 4096 buddy_new) (\<lambda>b. add_region 4096 4 (\<lambda>_. 0, b))"

definition demo_mem :: mem where
  "demo_mem = (case demo_run of Inr (m, b) \<Rightarrow> m | Inl _ \<Rightarrow> \<lambda>_. 0)"

definition demo_buddy :: buddy where
  "demo_buddy = (case demo_run of Inr (m, b) \<Rightarrow> b | Inl _ \<Rightarrow> fresh_buddy)"

lemma wf_base_4096: "wf_base (buddy_new\<lparr>bd_base := 4096\<rparr>)"
  by (simp add: wf_base_def PAGE_SIZE_def MAX_PAGES_def BUDDY_MAX_ORDER_def u64_max_def)

lemma demo_facts:
  "demo_run = Inr (demo_mem, demo_buddy)" "manages_merged demo_mem demo_buddy {0..<4} {0..<4}"
  "bd_base demo_buddy = 4096" "used_bytes (bd_stats demo_buddy) = 0"
  "alloc_count (bd_stats demo_buddy) = 0" "dealloc_count (bd_stats demo_buddy) = 0"
proof -
  let ?b = "buddy_new\<lparr>bd_base := 4096\<rparr>" and ?m = "\<lambda>_. 0 :: u8"
  note mrg = set_base_merged [OF wf_base_4096, of ?m]
  have a: "page_addr ?b 0 = 4096" by (simp add: page_addr_def)
  have w: "0 + 4 \<le> MAX_PAGES" by (simp add: MAX_PAGES_def BUDDY_MAX_ORDER_def)
  obtain m b where 1: "add_region 4096 4 (?m, ?b) = Inr (m, b)"
    "manages_merged m b ({} \<union> {0..<0 + 4}) ({} \<union> {0..<0 + 4})"
    using add_region_merged [OF mrg w] a by auto
  have stats: "bd_base b = bd_base ?b \<and> used_bytes (bd_stats b) = used_bytes (bd_stats ?b) \<and>
      alloc_count (bd_stats b) = alloc_count (bd_stats ?b) \<and>
      dealloc_count (bd_stats b) = dealloc_count (bd_stats ?b)"
    using add_region_ok [OF manages_mergedD [OF mrg] w] 1(1) a by auto
  have run: "demo_run = Inr (m, b)"
    using set_base_ok(1) [OF wf_base_4096] 1(1) by (simp add: demo_run_def)
  have "demo_mem = m" "demo_buddy = b" unfolding demo_mem_def demo_buddy_def run by simp_all
  with stats show "demo_run = Inr (demo_mem, demo_buddy)"
    "manages_merged demo_mem demo_buddy {0..<4} {0..<4}"
    "bd_base demo_buddy = 4096" "used_bytes (bd_stats demo_buddy) = 0"
    "alloc_count (bd_stats demo_buddy) = 0" "dealloc_count (bd_stats demo_buddy) = 0"
    using 1(2) run by (simp_all add: buddy_new_def zero_stats_def)
qed

lemma demo_manages: "manages demo_mem demo_buddy {0..<4} {0..<4}"
  using demo_facts(2) by (rule manages_mergedD)

lemma demo_page_addr: "page_addr demo_buddy i = 4096 + i * PAGE_SIZE"
  by (simp add: page_addr_def demo_facts)

subsection \<open>Properties\<close>

lemma client_run_inv:
  assumes "client_run s t" and "client_inv R s"
  shows "client_inv R t"
  using assms
proof (induction rule: client_run.induct)
  case (run_step s t u)
  then have "client_inv R t" by simp
  with run_step.hyps(2) show ?case
  proof (cases rule: client_step.cases)
    case (Alloc order b m a m' b' live)
    then show ?thesis using alloc_step_inv(1) \<open>client_inv R t\<close> by auto
  next
    case (Alloc_fail order b m m' b' live)
    from \<open>client_inv R t\<close> Alloc_fail obtain S where "manages_merged m b R S"
      by (auto simp: client_inv_def)
    from alloc_ok [OF manages_mergedD [OF this] Alloc_fail(3,4)] Alloc_fail(5)
    have "m' = m \<and> b' = b" by auto
    with Alloc_fail \<open>client_inv R t\<close> show ?thesis by simp
  next
    case (Dealloc live a order b m m' b')
    with \<open>client_inv R t\<close> show ?thesis
      using dealloc_step_inv [of R m b live a order] by (metis Inr_inject prod.inject)
  next
    case (Write live a order x m b v)
    with \<open>client_inv R t\<close> show ?thesis
      using write_step_inv [of R m b live a order x v] by (simp add: block_range_def)
  qed
qed simp

lemma client_inv_init:
  assumes "manages_merged m b R R" and "used_bytes (bd_stats b) = 0"
  shows "client_inv R (m, b, Map.empty)"
  using assms by (intro client_invI) simp_all

text \<open>
  C1. Memory safety of the buddy allocator under any client. From an allocator whose pages are
  all free, after any sequence of allocations, deallocations of held blocks and writes into held
  blocks: two live blocks never overlap, \<open>used_bytes\<close> is exactly the total size of the live
  blocks, a further allocation returns a block (or \<open>None\<close>) that overlaps no live block and leaves
  the live blocks' contents alone, and a deallocation of a live block succeeds and leaves all
  other live blocks' contents alone.
\<close>
theorem buddy_client_safety:
  assumes "manages_merged m0 b0 R R" and "used_bytes (bd_stats b0) = 0"
    and "client_run (m0, b0, Map.empty) (m, b, live)"
  shows "(\<forall>a k a' k'. live a = Some k \<and> live a' = Some k' \<and> a \<noteq> a' \<longrightarrow>
        block_range a k \<inter> block_range a' k' = {}) \<and>
    used_bytes (bd_stats b) = (\<Sum>a\<in>dom live. 2 ^ the (live a) * PAGE_SIZE) \<and>
    (\<forall>order<BUDDY_MAX_ORDER. alloc_count (bd_stats b) < u64_max \<longrightarrow>
      (\<exists>r m' b'. alloc_pages order (m, b) = Inr (r, m', b') \<and>
        (\<forall>a k. live a = Some k \<longrightarrow> (\<forall>x\<in>block_range a k. m' x = m x)) \<and>
        (\<forall>a. r = Some a \<longrightarrow> (\<forall>a' k. live a' = Some k \<longrightarrow> block_range a order \<inter> block_range a' k = {})))) \<and>
    (\<forall>a k. live a = Some k \<and> dealloc_count (bd_stats b) < u64_max \<longrightarrow>
      (\<exists>m' b'. dealloc_pages a k (m, b) = Inr (m', b') \<and>
        (\<forall>a' k'. live a' = Some k' \<and> a' \<noteq> a \<longrightarrow> (\<forall>x\<in>block_range a' k'. m' x = m x))))"
proof -
  have inv: "client_inv R (m, b, live)"
    using client_run_inv [OF assms(3)] client_inv_init [OF assms(1,2)] .
  then obtain S where S: "manages_merged m b R S"
    and apart: "\<forall>a k a' k'. live a = Some k \<and> live a' = Some k' \<and> a \<noteq> a' \<longrightarrow>
        block_range a k \<inter> block_range a' k' = {}"
    and used: "used_bytes (bd_stats b) = (\<Sum>a\<in>dom live. 2 ^ the (live a) * PAGE_SIZE)"
    by (auto simp: client_inv_def)
  have "\<exists>r m' b'. alloc_pages order (m, b) = Inr (r, m', b') \<and>
      (\<forall>a k. live a = Some k \<longrightarrow> (\<forall>x\<in>block_range a k. m' x = m x)) \<and>
      (\<forall>a. r = Some a \<longrightarrow> (\<forall>a' k. live a' = Some k \<longrightarrow> block_range a order \<inter> block_range a' k = {}))"
    if o: "order < BUDDY_MAX_ORDER" and c: "alloc_count (bd_stats b) < u64_max" for order
  proof -
    obtain r m' b' where run: "alloc_pages order (m, b) = Inr (r, m', b')"
      using alloc_merged [OF S o c] by blast
    show ?thesis
    proof (cases r)
      case None
      with run alloc_ok [OF manages_mergedD [OF S] o c] show ?thesis by auto
    next
      case (Some a)
      note run = run [unfolded Some]
      note step = alloc_step_inv [OF inv o c run]
      have "block_range a order \<inter> block_range a' k = {}" if "live a' = Some k" for a' k
      proof -
        have "a' \<noteq> a" using that step(2) by auto
        then have "(live(a \<mapsto> order)) a = Some order" "(live(a \<mapsto> order)) a' = Some k"
          using that by simp_all
        with \<open>a' \<noteq> a\<close> step(1) show ?thesis unfolding client_inv_def prod.case by metis
      qed
      with run step(3) show ?thesis by blast
    qed
  qed
  moreover have "\<exists>m' b'. dealloc_pages a k (m, b) = Inr (m', b') \<and>
      (\<forall>a' k'. live a' = Some k' \<and> a' \<noteq> a \<longrightarrow> (\<forall>x\<in>block_range a' k'. m' x = m x))"
    if "live a = Some k" "dealloc_count (bd_stats b) < u64_max" for a k
    by (rule dealloc_step_inv [OF inv that]) blast
  ultimately show ?thesis using apart used by blast
qed

lemma demo_alloc:
  assumes "order \<le> 2"
  obtains i m b where "alloc_pages order (demo_mem, demo_buddy) = Inr (Some (page_addr demo_buddy i), m, b)"
    and "wf_block (order, i)" and "{i..<i + 2 ^ order} \<subseteq> {0..<4}"
    and "manages_merged m b {0..<4} ({0..<4} - {i..<i + 2 ^ order})"
proof -
  have o: "order < BUDDY_MAX_ORDER" using assms by (simp add: BUDDY_MAX_ORDER_def)
  have c: "alloc_count (bd_stats demo_buddy) < u64_max" by (simp add: demo_facts u64_max_def)
  have "(2::nat) ^ order \<le> 2 ^ 2" using assms by (rule power_increasing) simp
  then have fits: "{0..<0 + 2 ^ order} \<subseteq> {0..<4::nat}" by auto
  from alloc_merged [OF demo_facts(2) o c] show thesis
  proof (elim exE conjE)
    fix r m' b'
    assume run: "alloc_pages order (demo_mem, demo_buddy) = Inr (r, m', b')"
      and none: "(r = None) = (\<forall>i. 2 ^ order dvd i \<longrightarrow> \<not> {i..<i + 2 ^ order} \<subseteq> {0..<4::nat})"
      and some: "\<forall>a. r = Some a \<longrightarrow> (\<exists>i. a = page_addr demo_buddy i \<and> wf_block (order, i) \<and>
        {i..<i + 2 ^ order} \<subseteq> {0..<4} \<and> manages_merged m' b' {0..<4} ({0..<4} - {i..<i + 2 ^ order}))"
    have "r \<noteq> None"
      unfolding none using fits by (metis dvd_0_right)
    then obtain a where r: "r = Some a" by blast
    then obtain i where "a = page_addr demo_buddy i" "wf_block (order, i)"
      "{i..<i + 2 ^ order} \<subseteq> {0..<4}" "manages_merged m' b' {0..<4} ({0..<4} - {i..<i + 2 ^ order})"
      using some by blast
    with run r that show thesis by blast
  qed
qed

lemma buddy_client_safety_witness:
  "\<exists>a m b. client_run (demo_mem, demo_buddy, Map.empty) (m, b, [a \<mapsto> 1]) \<and>
     used_bytes (bd_stats b) = 2 * PAGE_SIZE"
proof -
  have o: "1 < BUDDY_MAX_ORDER" by (simp add: BUDDY_MAX_ORDER_def)
  have c: "alloc_count (bd_stats demo_buddy) < u64_max" by (simp add: demo_facts u64_max_def)
  obtain i m b where a: "alloc_pages 1 (demo_mem, demo_buddy) = Inr (Some (page_addr demo_buddy i), m, b)"
    by (rule demo_alloc [of 1]) auto
  have run: "client_run (demo_mem, demo_buddy, Map.empty) (m, b, [page_addr demo_buddy i \<mapsto> 1])"
    by (rule run_step [OF run_refl client_step.Alloc [OF o c a]])
  have "used_bytes (bd_stats b) = 2 * PAGE_SIZE"
    using buddy_client_safety [OF demo_facts(2,4) run] by simp
  with run show ?thesis by blast
qed

text \<open>
  C12. Allocation of \<open>2 ^ order\<close> pages never panics on a well-formed merged allocator. It fails
  exactly when no naturally aligned run of \<open>2 ^ order\<close> pages is free, and then changes nothing.
  Otherwise the block it returns is aligned relative to the base, was free, is free no longer;
  only bytes of free pages are written; the statistics follow; the allocator stays well-formed
  and merged.
\<close>
theorem buddy_alloc:
  assumes "manages_merged m b R S" and "order < BUDDY_MAX_ORDER" and "alloc_count (bd_stats b) < u64_max"
  shows "(\<forall>i. 2 ^ order dvd i \<longrightarrow> \<not> {i..<i + 2 ^ order} \<subseteq> S) \<and>
      alloc_pages order (m, b) = Inr (None, m, b) \<or>
    (\<exists>i m' b'. alloc_pages order (m, b) = Inr (Some (page_addr b i), m', b') \<and>
      2 ^ order dvd i \<and> {i..<i + 2 ^ order} \<subseteq> S \<and>
      manages_merged m' b' R (S - {i..<i + 2 ^ order}) \<and>
      agree_off (page_bytes b S) m m' \<and> bd_base b' = bd_base b \<and>
      used_bytes (bd_stats b') = used_bytes (bd_stats b) + 2 ^ order * PAGE_SIZE)"
proof -
  from alloc_merged [OF assms] obtain r m' b' where r: "alloc_pages order (m, b) = Inr (r, m', b')"
    "(r = None) = (\<forall>i. 2 ^ order dvd i \<longrightarrow> \<not> {i..<i + 2 ^ order} \<subseteq> S)"
    "\<forall>a. r = Some a \<longrightarrow> (\<exists>i. a = page_addr b i \<and> wf_block (order, i) \<and> {i..<i + 2 ^ order} \<subseteq> S \<and>
      manages_merged m' b' R (S - {i..<i + 2 ^ order}))"
    by blast
  note ok = alloc_ok [OF manages_mergedD [OF assms(1)] assms(2,3)]
  show ?thesis
  proof (cases r)
    case None
    with r ok show ?thesis by auto
  next
    case (Some a)
    with r obtain i where i: "a = page_addr b i" "wf_block (order, i)" "{i..<i + 2 ^ order} \<subseteq> S"
      "manages_merged m' b' R (S - {i..<i + 2 ^ order})" by blast
    moreover from ok have "agree_off (page_bytes b S) m m' \<and> bd_base b' = bd_base b \<and>
        used_bytes (bd_stats b') = used_bytes (bd_stats b) + 2 ^ order * PAGE_SIZE"
      using r(1) Some by auto
    ultimately show ?thesis using r(1) Some by auto
  qed
qed

lemma buddy_alloc_witness:
  "\<exists>m b. alloc_pages 2 (demo_mem, demo_buddy) = Inr (Some 4096, m, b) \<and> manages_merged m b {0..<4} {}"
proof -
  have o: "2 < BUDDY_MAX_ORDER" by (simp add: BUDDY_MAX_ORDER_def)
  have c: "alloc_count (bd_stats demo_buddy) < u64_max" by (simp add: demo_facts u64_max_def)
  have no: "\<not> (\<forall>i. 2 ^ 2 dvd i \<longrightarrow> \<not> {i..<i + 2 ^ 2} \<subseteq> {0..<4::nat})"
    by (auto intro!: exI [of _ 0])
  from buddy_alloc [OF demo_facts(2) o c] no
  obtain i m b where "alloc_pages 2 (demo_mem, demo_buddy) = Inr (Some (page_addr demo_buddy i), m, b)"
    "{i..<i + 2 ^ 2} \<subseteq> {0..<4}" "manages_merged m b {0..<4} ({0..<4} - {i..<i + 2 ^ 2})"
    by blast
  moreover from this(2) have "i = 0" by (auto dest: atLeastLessThan_subset_iff)
  ultimately show ?thesis by (auto simp: demo_page_addr)
qed

text \<open>
  C13. Deallocation of a block that is not free never panics, makes exactly its pages free again,
  merges it with its free buddies (so that every free aligned run is again one allocation away),
  writes only bytes of free pages and of the block, and returns the bytes to the statistics.
\<close>
theorem buddy_dealloc:
  assumes "manages_merged m b R S" and "wf_block (order, i)" and "{i..<i + 2 ^ order} \<subseteq> R - S"
    and "dealloc_count (bd_stats b) < u64_max"
  shows "\<exists>m' b'. dealloc_pages (page_addr b i) order (m, b) = Inr (m', b') \<and>
    manages_merged m' b' R (S \<union> {i..<i + 2 ^ order}) \<and>
    agree_off (page_bytes b (S \<union> {i..<i + 2 ^ order})) m m' \<and> bd_base b' = bd_base b \<and>
    used_bytes (bd_stats b') + 2 ^ order * PAGE_SIZE = used_bytes (bd_stats b)"
  using dealloc_merged [OF assms] dealloc_ok [OF manages_mergedD [OF assms(1)] assms(2-4)] by auto

lemma demo_taken:
  obtains i m b where "alloc_pages 2 (demo_mem, demo_buddy) = Inr (Some (page_addr demo_buddy 0), m, b)"
    and "manages_merged m b {0..<4} {}" and "bd_base b = 4096" and "dealloc_count (bd_stats b) = 0"
    and "alloc_count (bd_stats b) = 1"
proof -
  have o: "2 < BUDDY_MAX_ORDER" by (simp add: BUDDY_MAX_ORDER_def)
  have c: "alloc_count (bd_stats demo_buddy) < u64_max" by (simp add: demo_facts u64_max_def)
  obtain i m b where 1: "alloc_pages 2 (demo_mem, demo_buddy) = Inr (Some (page_addr demo_buddy i), m, b)"
    "{i..<i + 2 ^ 2} \<subseteq> {0..<4}" "manages_merged m b {0..<4} ({0..<4} - {i..<i + 2 ^ 2})"
    by (rule demo_alloc [of 2]) auto
  from 1(2) have i: "i = 0" by (auto dest: atLeastLessThan_subset_iff)
  have "bd_base b = 4096 \<and> dealloc_count (bd_stats b) = 0 \<and> alloc_count (bd_stats b) = 1"
    using alloc_ok [OF demo_manages o c] 1(1) by (auto simp: demo_facts)
  with 1 i that show thesis by simp
qed

lemma buddy_dealloc_witness:
  "\<exists>m b m' b'. alloc_pages 2 (demo_mem, demo_buddy) = Inr (Some 4096, m, b) \<and>
     dealloc_pages 4096 2 (m, b) = Inr (m', b') \<and> manages_merged m' b' {0..<4} {0..<4}"
proof -
  obtain m b where 1: "alloc_pages 2 (demo_mem, demo_buddy) = Inr (Some (page_addr demo_buddy 0), m, b)"
    "manages_merged m b {0..<4} {}" "bd_base b = 4096" "dealloc_count (bd_stats b) = 0"
    by (rule demo_taken)
  have blk: "wf_block (2, 0)" by (simp add: MAX_PAGES_def BUDDY_MAX_ORDER_def)
  have "{0..<0 + 2 ^ 2} \<subseteq> {0..<4} - ({}::nat set)" by simp
  from buddy_dealloc [OF 1(2) blk this] 1 show ?thesis
    by (auto simp: demo_facts(3) page_addr_def u64_max_def)
qed

text \<open>
  C14. Allocating and giving the block straight back restores the allocator: the same pages are
  free, \<open>used_bytes\<close> is what it was, and no byte outside the free pages has changed.
\<close>
theorem buddy_roundtrip:
  assumes "manages_merged m b R S" and "order < BUDDY_MAX_ORDER"
    and "alloc_count (bd_stats b) < u64_max" and "dealloc_count (bd_stats b) < u64_max"
    and "alloc_pages order (m, b) = Inr (Some a, m1, b1)"
  shows "\<exists>m2 b2. dealloc_pages a order (m1, b1) = Inr (m2, b2) \<and> manages_merged m2 b2 R S \<and>
    agree_off (page_bytes b S) m m2 \<and> used_bytes (bd_stats b2) = used_bytes (bd_stats b)"
proof -
  obtain i where i: "a = page_addr b i" "wf_block (order, i)" "{i..<i + 2 ^ order} \<subseteq> S"
    "manages_merged m1 b1 R (S - {i..<i + 2 ^ order})"
    using alloc_merged [OF assms(1-3)] assms(5) by auto
  have 1: "agree_off (page_bytes b S) m m1" "bd_base b1 = bd_base b"
    "used_bytes (bd_stats b1) = used_bytes (bd_stats b) + 2 ^ order * PAGE_SIZE"
    "dealloc_count (bd_stats b1) = dealloc_count (bd_stats b)"
    using alloc_ok [OF manages_mergedD [OF assms(1)] assms(2,3)] assms(5) by auto
  let ?B = "{i..<i + 2 ^ order}"
  have "S \<subseteq> R" using manages_bounds [OF manages_mergedD [OF assms(1)]] by simp
  then have own: "?B \<subseteq> R - (S - ?B)" and un: "S - ?B \<union> ?B = S" using i(3) by blast+
  have c: "dealloc_count (bd_stats b1) < u64_max" using assms(4) 1(4) by simp
  have a: "a = page_addr b1 i" using i(1) same_base [OF 1(2)] by simp
  obtain m2 b2 where 2: "dealloc_pages a order (m1, b1) = Inr (m2, b2)" "manages_merged m2 b2 R S"
    using dealloc_merged [OF i(4,2) own c] a un by auto
  have 3: "agree_off (page_bytes b1 S) m1 m2"
    "used_bytes (bd_stats b2) + 2 ^ order * PAGE_SIZE = used_bytes (bd_stats b1)"
    using dealloc_ok [OF manages_mergedD [OF i(4)] i(2) own c] 2(1) a un by auto
  have "page_bytes b1 = page_bytes b" using same_base [OF 1(2)] by (simp add: page_bytes_def fun_eq_iff)
  then show ?thesis using 2 3 1(1,3) agree_off_trans by auto
qed

lemma buddy_roundtrip_witness:
  "\<exists>m1 b1 m2 b2. alloc_pages 2 (demo_mem, demo_buddy) = Inr (Some 4096, m1, b1) \<and>
     dealloc_pages 4096 2 (m1, b1) = Inr (m2, b2) \<and> manages_merged m2 b2 {0..<4} {0..<4}"
proof -
  obtain m b where 1: "alloc_pages 2 (demo_mem, demo_buddy) = Inr (Some (page_addr demo_buddy 0), m, b)"
    by (rule demo_taken)
  have o: "2 < BUDDY_MAX_ORDER" by (simp add: BUDDY_MAX_ORDER_def)
  have c: "alloc_count (bd_stats demo_buddy) < u64_max" "dealloc_count (bd_stats demo_buddy) < u64_max"
    by (simp_all add: demo_facts u64_max_def)
  from buddy_roundtrip [OF demo_facts(2) o c 1] 1 show ?thesis
    by (auto simp: demo_facts(3) page_addr_def)
qed

text \<open>
  C15. Handing the allocator a region of \<open>n\<close> pages inside the 512 MiB window, disjoint from the
  pages it already manages, never panics; afterwards exactly those pages are managed and free in
  addition, the totals count them, and only free pages and the region itself have been written.
  A region whose neighbouring pages are not free is cut so that the allocator stays merged.
\<close>
theorem buddy_add_region:
  assumes "manages_merged m b R S" and "offset + n \<le> MAX_PAGES" and "{offset..<offset + n} \<inter> R = {}"
    and "offset + n \<notin> S" and "offset = 0 \<or> offset - 1 \<notin> S"
  shows "\<exists>m' b'. add_region (page_addr b offset) n (m, b) = Inr (m', b') \<and>
    manages_merged m' b' (R \<union> {offset..<offset + n}) (S \<union> {offset..<offset + n}) \<and>
    agree_off (page_bytes b (S \<union> {offset..<offset + n})) m m' \<and>
    total_bytes (bd_stats b') = PAGE_SIZE * card (R \<union> {offset..<offset + n}) \<and>
    used_bytes (bd_stats b') = used_bytes (bd_stats b)"
proof -
  obtain m' b' where 1: "add_region (page_addr b offset) n (m, b) = Inr (m', b')"
    "manages_merged m' b' (R \<union> {offset..<offset + n}) (S \<union> {offset..<offset + n})"
    using add_region_merged [OF assms] by blast
  moreover have "agree_off (page_bytes b (S \<union> {offset..<offset + n})) m m' \<and>
      used_bytes (bd_stats b') = used_bytes (bd_stats b)"
    using add_region_ok [OF manages_mergedD [OF assms(1)] assms(2,3)] 1(1) by auto
  moreover have "total_bytes (bd_stats b') = PAGE_SIZE * card (R \<union> {offset..<offset + n})"
    using 1(2) by (auto simp: manages_merged_def buddy_inv_def stats_match_def)
  ultimately show ?thesis by blast
qed

lemma buddy_add_region_witness:
  "\<exists>m b. and_then (set_base 4096 buddy_new) (\<lambda>b. add_region 4096 4 (\<lambda>_. 0, b)) = Inr (m, b) \<and>
     total_bytes (bd_stats b) = 4 * PAGE_SIZE"
proof -
  have w: "0 + 4 \<le> MAX_PAGES" by (simp add: MAX_PAGES_def BUDDY_MAX_ORDER_def)
  have a: "page_addr (buddy_new\<lparr>bd_base := 4096\<rparr>) 0 = 4096" by (simp add: page_addr_def)
  from buddy_add_region [OF set_base_merged [OF wf_base_4096, of "\<lambda>_. 0"] w] a
  obtain m b where "add_region 4096 4 (\<lambda>_. 0, buddy_new\<lparr>bd_base := 4096\<rparr>) = Inr (m, b)"
    "total_bytes (bd_stats b) = PAGE_SIZE * card ({} \<union> {0..<0 + 4::nat})"
    by auto
  with set_base_ok(1) [OF wf_base_4096] show ?thesis by simp
qed

subsection \<open>Memory beyond the window\<close>

lemma bitmap_out_of_range:
  "length (words bm) * 64 \<le> p \<Longrightarrow> bitmap_toggle bm p = Inl Index_out_of_bounds"
  by (simp add: bitmap_toggle_def at_index_def)

text \<open>The shape every buddy allocator built by \<open>buddy_new\<close> keeps, window or not.\<close>

definition shaped :: "nat \<Rightarrow> buddy \<Rightarrow> bool" where
  "shaped v b \<longleftrightarrow> bd_base b = v \<and> length (bd_free_lists b) = BUDDY_MAX_ORDER \<and>
     length (bd_bitmaps b) = BUDDY_MAX_ORDER \<and> (\<forall>k<BUDDY_MAX_ORDER. length (words (bd_bitmaps b ! k)) = 1025)"

lemma toggle_pair_shaped:
  assumes "shaped v b" and "k < BUDDY_MAX_ORDER" and "p < 1025 * 64"
  obtains b' where "toggle_pair k p b = Inr b'" and "shaped v b'" and "bd_free_lists b' = bd_free_lists b"
    and "same_frame b b'"
proof -
  have "p div 64 < 1025" using assms(3) by (rule less_mult_imp_div_less)
  then obtain bm where bm: "bitmap_toggle (bd_bitmaps b ! k) p = Inr bm" "length (words bm) = 1025"
    using assms(1,2) by (simp add: bitmap_toggle_def shaped_def)
  show thesis
  proof
    show "toggle_pair k p b = Inr (b\<lparr>bd_bitmaps := (bd_bitmaps b)[k := bm]\<rparr>)"
      using assms(1,2) bm by (simp add: toggle_pair_def shaped_def)
    show "shaped v (b\<lparr>bd_bitmaps := (bd_bitmaps b)[k := bm]\<rparr>)"
      using assms(1,2) bm by (simp add: shaped_def nth_list_update)
  qed (simp_all add: same_frame_def)
qed

lemma free_block_shaped:
  assumes "shaped v b" and "k < BUDDY_MAX_ORDER" and "v + i * PAGE_SIZE \<le> u64_max"
    and "i div 2 ^ (k + 1) < 1025 * 64"
  obtains m' b' where "free_block i k (m, b) = Inr (m', b')" and "shaped v b'"
    and "bd_free_lists b' = (bd_free_lists b)[k := v + i * PAGE_SIZE]" and "same_frame b b'"
proof -
  let ?b = "b\<lparr>bd_free_lists := (bd_free_lists b)[k := v + i * PAGE_SIZE]\<rparr>"
  have "shaped v ?b" using assms(1) by (simp add: shaped_def)
  from toggle_pair_shaped [OF this assms(2,4)] obtain b' where
    "toggle_pair k (i div 2 ^ (k + 1)) ?b = Inr b'" "shaped v b'"
    "bd_free_lists b' = bd_free_lists ?b" "same_frame ?b b'" .
  then show thesis
    using assms(1-3) that by (simp add: free_block_def shaped_def Let_def drop_bit_eq_div same_frame_def)
qed

lemma free_block_beyond:
  assumes "shaped v b" and "k < BUDDY_MAX_ORDER" and "v + i * PAGE_SIZE \<le> u64_max"
    and "1025 * 64 \<le> i div 2 ^ (k + 1)"
  shows "free_block i k (m, b) = Inl Index_out_of_bounds"
  using assms
  by (simp add: free_block_def shaped_def Let_def drop_bit_eq_div toggle_pair_def bitmap_out_of_range)

lemma split_beyond:
  assumes "shaped v b" and "0 < c" and "c < BUDDY_MAX_ORDER" and "v + 262144 * PAGE_SIZE \<le> u64_max"
  shows "split_block 0 c 196608 (m, b) = Inl Index_out_of_bounds"
  using assms
proof (induction c arbitrary: m b)
  case (Suc c)
  have pow: "(2::nat) ^ c \<le> 2 ^ 15" using Suc.prems(3) by (intro power_increasing) (simp_all add: BUDDY_MAX_ORDER_def)
  then have small: "196608 + 2 ^ c \<le> (262144::nat)" by simp
  then have "(196608 + 2 ^ c) * PAGE_SIZE \<le> 262144 * PAGE_SIZE" by (rule mult_le_mono1)
  with Suc.prems(4) have addr: "v + (196608 + 2 ^ c) * PAGE_SIZE \<le> u64_max" by linarith
  have add: "checked_add 196608 (2 ^ c) = Inr (196608 + 2 ^ c)"
    using small by (intro checked_add_ok) (simp add: u64_max_def)
  have k: "c < BUDDY_MAX_ORDER" using Suc.prems(3) by simp
  show ?case
  proof (cases "c = 0")
    case True
    have "free_block 196609 0 (m, b) = Inl Index_out_of_bounds"
      using addr True by (intro free_block_beyond [OF Suc.prems(1)]) (simp_all add: BUDDY_MAX_ORDER_def)
    with True add show ?thesis by simp
  next
    case False
    then obtain d where d: "c = Suc d" by (cases c) auto
    have "(2::nat) ^ (c + 1) = 4 * 2 ^ d" by (simp add: d)
    then have "(196608 + 2 ^ c) div 2 ^ (c + 1) \<le> (196608 + 2 ^ c) div (4::nat)"
      by (intro div_le_mono2) simp_all
    also have "\<dots> < 1025 * 64" using small by simp
    finally obtain m' b' where "free_block (196608 + 2 ^ c) c (m, b) = Inr (m', b')" "shaped v b'"
      by (rule free_block_shaped [OF Suc.prems(1) k addr])
    with Suc.IH [of b' m'] False k Suc.prems(4) add show ?thesis by simp
  qed
qed simp

lemma region_order_top:
  assumes "2 ^ 16 dvd offset" and "2 ^ 16 \<le> remaining" and "remaining \<le> u64_max"
  shows "region_order remaining offset = 16"
proof -
  have "16 \<le> region_order remaining offset"
    using assms by (intro region_order_max) (simp_all add: BUDDY_MAX_ORDER_def)
  moreover have "region_order remaining offset < 17"
    using region_order_bounds(1) [of remaining offset] assms(2,3) by (simp add: BUDDY_MAX_ORDER_def)
  ultimately show ?thesis by simp
qed

lemma add_region_loop_top:
  assumes "shaped v b" and "offset = j * 2 ^ 16" and "remaining = n * 2 ^ 16" and "j + n \<le> 4"
    and "v + 262144 * PAGE_SIZE \<le> u64_max"
  shows "\<exists>m' b'. add_region_loop remaining offset (m, b) = Inr (m', b') \<and> shaped v b' \<and> same_frame b b' \<and>
    (bd_free_lists b' = (if n = 0 then bd_free_lists b
      else (bd_free_lists b)[16 := v + (j + n - 1) * 2 ^ 16 * PAGE_SIZE]))"
  using assms
proof (induction n arbitrary: offset j remaining m b)
  case 0
  then show ?case by (subst add_region_loop.simps) simp
next
  case (Suc n)
  have off: "offset \<le> 262144" and rem: "remaining \<le> u64_max" "2 ^ 16 \<le> remaining"
    using Suc.prems(2-4) by (simp_all add: u64_max_def)
  have "offset * PAGE_SIZE \<le> 262144 * PAGE_SIZE" using off by (rule mult_le_mono1)
  with Suc.prems(5) have addr: "v + offset * PAGE_SIZE \<le> u64_max" by linarith
  have top: "16 < BUDDY_MAX_ORDER" by (simp add: BUDDY_MAX_ORDER_def)
  have "offset div 2 ^ (16 + 1) < 1025 * 64" using off by simp
  then obtain m1 b1 where 1: "free_block offset 16 (m, b) = Inr (m1, b1)" "shaped v b1"
    "bd_free_lists b1 = (bd_free_lists b)[16 := v + offset * PAGE_SIZE]" "same_frame b b1"
    by (rule free_block_shaped [OF Suc.prems(1) top addr])
  have ro: "region_order remaining offset = 16"
    using rem Suc.prems(2) by (intro region_order_top) simp_all
  obtain m' b' where 2: "add_region_loop (n * 2 ^ 16) (Suc j * 2 ^ 16) (m1, b1) = Inr (m', b')"
    "shaped v b'" "same_frame b1 b'"
    "bd_free_lists b' = (if n = 0 then bd_free_lists b1
      else (bd_free_lists b1)[16 := v + (Suc j + n - 1) * 2 ^ 16 * PAGE_SIZE])"
    using Suc.IH [OF 1(2) refl refl _ Suc.prems(5), of "Suc j" m1] Suc.prems(4) by auto
  have "add_region_loop remaining offset (m, b) = Inr (m', b')"
    using 1(1) 2(1) ro rem off Suc.prems(2,3)
    by (subst add_region_loop.simps) (simp add: u64_max_def add.commute)
  then show ?case
    using 1(3,4) 2 Suc.prems(2) same_frame_trans [OF 1(4) 2(3)] by auto
qed

text \<open>
  C21. The bitmaps cover \<open>2 ^ 17\<close> pages, but neither \<open>set_base\<close> nor \<open>add_region\<close> refuses
  memory beyond them (the constant \<open>MAX_PAGES\<close> of the code is unused). With 1 GiB of memory in one
  region, registered without complaint, the first single-page allocation panics with an
  out-of-bounds index: splitting the last 256 MiB block down to order 0 needs bit 98304 of a bitmap
  that has 65600 bits.
\<close>
theorem buddy_large_memory_panics:
  "\<exists>m b. and_then (set_base 0x100000 buddy_new) (\<lambda>b. add_region 0x100000 262144 (\<lambda>_. 0, b)) = Inr (m, b) \<and>
     alloc_pages 0 (m, b) = Inl Index_out_of_bounds"
proof -
  define v where "v = (0x100000::nat)"
  let ?b = "buddy_new\<lparr>bd_base := v\<rparr>" and ?m = "\<lambda>_. 0 :: u8"
  have fits: "v + 262144 * PAGE_SIZE \<le> u64_max" by (simp add: v_def PAGE_SIZE_def u64_max_def)
  have new: "shaped v ?b"
    by (simp add: shaped_def buddy_new_def bitmap_new_def BUDDY_MAX_ORDER_def)
  obtain m1 b1 where 1: "add_region_loop 262144 0 (?m, ?b) = Inr (m1, b1)" "shaped v b1" "same_frame ?b b1"
    "bd_free_lists b1 = (bd_free_lists ?b)[16 := v + (0 + 4 - 1) * 2 ^ 16 * PAGE_SIZE]"
    using add_region_loop_top [OF new, of 0 0 262144 4 ?m] fits by auto
  define b where "b = b1\<lparr>bd_total_pages := 262144,
    bd_stats := (bd_stats b1)\<lparr>total_bytes := 262144 * PAGE_SIZE, free_bytes := 262144 * PAGE_SIZE\<rparr>\<rparr>"
  have "262144 * PAGE_SIZE \<le> u64_max" using fits by linarith
  then have "add_region v 262144 (?m, ?b) = Inr (m1, b)"
    using 1(1,3) by (simp add: add_region_def b_def buddy_new_def zero_stats_def same_frame_def v_def u64_max_def)
  moreover have "set_base v buddy_new = Inr ?b"
    by (simp add: set_base_def buddy_new_def v_def PAGE_SIZE_def)
  moreover have "alloc_pages 0 (m1, b) = Inl Index_out_of_bounds"
  proof -
    have lists: "bd_free_lists b = (replicate 17 0)[16 := v + 196608 * PAGE_SIZE]"
      using 1(4) by (simp add: b_def buddy_new_def BUDDY_MAX_ORDER_def)
    have shp: "shaped v b" using 1(2) by (simp add: shaped_def b_def)
    have found: "find (\<lambda>k. bd_free_lists b ! k \<noteq> 0) [0..<BUDDY_MAX_ORDER] = Some 16"
    proof -
      have head: "bd_free_lists b ! k \<noteq> 0 \<longleftrightarrow> k = 16" if "k < 17" for k
        using that by (cases "k = 16") (simp_all add: lists v_def)
      show ?thesis
      proof (cases "find (\<lambda>k. bd_free_lists b ! k \<noteq> 0) [0..<BUDDY_MAX_ORDER]")
        case None
        then show ?thesis using head [of 16] by (auto simp: find_upt_None BUDDY_MAX_ORDER_def)
      next
        case (Some l)
        with find_upt_Some [OF Some] head [of l] show ?thesis by (simp add: BUDDY_MAX_ORDER_def)
      qed
    qed
    define A where "A = v + 196608 * PAGE_SIZE"
    have A: "v \<le> A" "(A - v) div PAGE_SIZE = 196608" by (simp_all add: A_def PAGE_SIZE_def)
    define nxt where "nxt = ld64 m1 (A + 8)"
    let ?b2 = "b\<lparr>bd_free_lists := (bd_free_lists b)[16 := nxt]\<rparr>"
    have "shaped v ?b2" using shp by (simp add: shaped_def)
    then obtain b3 where 3: "toggle_pair 16 1 ?b2 = Inr b3" "shaped v b3"
      by (rule toggle_pair_shaped [of v _ 16 1]) (simp_all add: BUDDY_MAX_ORDER_def)
    have "split_block 0 16 196608 (if nxt \<noteq> 0 then st64 nxt 0 m1 else m1, b3) = Inl Index_out_of_bounds"
      by (rule split_beyond [OF 3(2) _ _ fits]) (simp_all add: BUDDY_MAX_ORDER_def)
    moreover have "bd_free_lists b ! 16 = A" by (simp add: lists A_def)
    moreover have "0 < BUDDY_MAX_ORDER" "16 < BUDDY_MAX_ORDER" by (simp_all add: BUDDY_MAX_ORDER_def)
    ultimately show ?thesis
      using found shp 3(1) A unfolding nxt_def
      by (simp add: alloc_pages_def Let_def shaped_def drop_bit_eq_div split del: if_split)
  qed
  ultimately show ?thesis unfolding v_def by simp
qed

end
