(* ===== verification/Page_Provider.thy ===== *)
theory Page_Provider
  imports Abalone
begin

text \<open>
  The interfaces of a source of pages. \<open>frame_source\<close> is what the page tables need: fresh pages that
  do not overlap the ones held. \<open>page_provider\<close> adds giving pages back; it is the interface between the
  slab allocator and the two function pointers \<open>alloc_page\<close> and \<open>dealloc_page\<close> of \<^verbatim>\<open>SlabCacheInner\<close>.
  \<open>owned m p B\<close> says that the blocks in the map \<open>B\<close> (address to order) are the caller's; \<open>can_alloc\<close>
  and \<open>can_free\<close> that the provider's operation counters have not run out.
\<close>

locale frame_source =
  fixes alloc_page :: "nat \<Rightarrow> mem \<times> 'p \<Rightarrow> (nat option \<times> mem \<times> 'p) res"
    and owned :: "mem \<Rightarrow> 'p \<Rightarrow> (nat \<rightharpoonup> nat) \<Rightarrow> bool"
    and can_alloc :: "'p \<Rightarrow> bool"
  assumes alloc_total: "owned m p B \<Longrightarrow> can_alloc p \<Longrightarrow> k < BUDDY_MAX_ORDER \<Longrightarrow>
      \<exists>r m' p'. alloc_page k (m, p) = Inr (r, m', p')"
    and alloc_some: "owned m p B \<Longrightarrow> can_alloc p \<Longrightarrow> k < BUDDY_MAX_ORDER \<Longrightarrow>
      alloc_page k (m, p) = Inr (Some a, m', p') \<Longrightarrow>
      owned m' p' (B(a \<mapsto> k)) \<and> B a = None \<and> a \<noteq> 0 \<and> a + 2 ^ k * PAGE_SIZE \<le> u64_max"
    and alloc_none: "owned m p B \<Longrightarrow> can_alloc p \<Longrightarrow> k < BUDDY_MAX_ORDER \<Longrightarrow>
      alloc_page k (m, p) = Inr (None, m', p') \<Longrightarrow> owned m' p' B"
    and alloc_frame: "owned m p B \<Longrightarrow> can_alloc p \<Longrightarrow> k < BUDDY_MAX_ORDER \<Longrightarrow>
      alloc_page k (m, p) = Inr (r, m', p') \<Longrightarrow> B c = Some l \<Longrightarrow> x \<in> block_range c l \<Longrightarrow> m' x = m x"
    and write_owned: "owned m p B \<Longrightarrow> B a = Some k \<Longrightarrow> x \<in> block_range a k \<Longrightarrow>
      owned (m(x := v)) p B"
    and owned_apart: "owned m p B \<Longrightarrow> B a = Some k \<Longrightarrow> B c = Some l \<Longrightarrow> a \<noteq> c \<Longrightarrow>
      block_range a k \<inter> block_range c l = {}"
begin

text \<open>Any change confined to the caller's blocks keeps the ownership.\<close>

lemma agree_owned:
  assumes "owned m p B" and "agree_off X m m'" and "finite X"
    and "\<And>x. x \<in> X \<Longrightarrow> \<exists>a k. B a = Some k \<and> x \<in> block_range a k"
  shows "owned m' p B"
  using assms(3,1,2,4)
proof (induction X arbitrary: m)
  case empty
  then have "m' = m" by (auto simp: agree_off_def)
  with empty show ?case by simp
next
  case (insert x X)
  obtain a k where "B a = Some k" "x \<in> block_range a k" using insert.prems(3) by blast
  then have "owned (m(x := m' x)) p B" using insert.prems(1) by (intro write_owned)
  moreover have "agree_off X (m(x := m' x)) m'" using insert.prems(2) by (auto simp: agree_off_def)
  ultimately show ?case using insert by auto
qed

end

locale page_provider = frame_source alloc_page owned can_alloc
  for alloc_page :: "nat \<Rightarrow> mem \<times> 'p \<Rightarrow> (nat option \<times> mem \<times> 'p) res"
    and owned :: "mem \<Rightarrow> 'p \<Rightarrow> (nat \<rightharpoonup> nat) \<Rightarrow> bool"
    and can_alloc :: "'p \<Rightarrow> bool" +
  fixes dealloc_page :: "nat \<Rightarrow> nat \<Rightarrow> mem \<times> 'p \<Rightarrow> (mem \<times> 'p) res"
    and can_free :: "'p \<Rightarrow> bool"
  assumes alloc_can_free: "owned m p B \<Longrightarrow> can_alloc p \<Longrightarrow> k < BUDDY_MAX_ORDER \<Longrightarrow>
      alloc_page k (m, p) = Inr (r, m', p') \<Longrightarrow> can_free p' = can_free p"
    and dealloc_total: "owned m p B \<Longrightarrow> can_free p \<Longrightarrow> B a = Some k \<Longrightarrow>
      \<exists>m' p'. dealloc_page a k (m, p) = Inr (m', p')"
    and dealloc_owned: "owned m p B \<Longrightarrow> can_free p \<Longrightarrow> B a = Some k \<Longrightarrow>
      dealloc_page a k (m, p) = Inr (m', p') \<Longrightarrow> owned m' p' (B(a := None))"
    and dealloc_frame: "owned m p B \<Longrightarrow> can_free p \<Longrightarrow> B a = Some k \<Longrightarrow>
      dealloc_page a k (m, p) = Inr (m', p') \<Longrightarrow> B c = Some l \<Longrightarrow> c \<noteq> a \<Longrightarrow> x \<in> block_range c l \<Longrightarrow>
      m' x = m x"

end
