(* ===== verification/Buddy_Provider.thy ===== *)
theory Buddy_Provider
  imports Page_Provider Buddy_Client
begin

text \<open>
  The buddy allocator as a provider of pages: \<open>buddy_owned m b B\<close> says that the allocator is in a
  state some client reached in which the client holds exactly the blocks \<open>B\<close>. The interpretation
  \<open>bp\<close> discharges the laws of \<open>page_provider\<close>; \<open>frame_alloc\<close> is what the page-table code needs of a
  single page.
\<close>

definition buddy_owned :: "mem \<Rightarrow> buddy \<Rightarrow> (nat \<rightharpoonup> nat) \<Rightarrow> bool" where
  "buddy_owned m b B \<longleftrightarrow> (\<exists>R. client_inv R (m, b, B))"

definition can_alloc :: "buddy \<Rightarrow> bool" where
  "can_alloc b \<longleftrightarrow> alloc_count (bd_stats b) < u64_max"

definition can_free :: "buddy \<Rightarrow> bool" where
  "can_free b \<longleftrightarrow> dealloc_count (bd_stats b) < u64_max"

lemma client_inv_manages:
  assumes "client_inv R (m, b, B)"
  obtains S where "manages m b R S"
proof -
  obtain S where "manages_merged m b R S" using assms by (auto simp: client_inv_def)
  then show thesis by (rule that [OF manages_mergedD])
qed

interpretation bp: page_provider alloc_pages buddy_owned can_alloc dealloc_pages can_free
proof
  fix m m' :: mem and b b' :: buddy and B :: "nat \<rightharpoonup> nat" and k l a c x :: nat and r and v :: u8
  assume "buddy_owned m b B"
  then obtain R where inv: "client_inv R (m, b, B)" by (auto simp: buddy_owned_def)
  obtain S where mg: "manages m b R S" by (rule client_inv_manages [OF inv])
  {
    assume can: "can_alloc b" and k: "k < BUDDY_MAX_ORDER"
    then have cnt: "alloc_count (bd_stats b) < u64_max" by (simp add: can_alloc_def)
    note ok = alloc_ok [OF mg k cnt]
    then show "\<exists>r m' p'. alloc_pages k (m, b) = Inr (r, m', p')" by blast
    show "buddy_owned m' b' (B(a \<mapsto> k)) \<and> B a = None \<and> a \<noteq> 0 \<and> a + 2 ^ k * PAGE_SIZE \<le> u64_max"
      if run: "alloc_pages k (m, b) = Inr (Some a, m', b')"
    proof (intro conjI)
      note st = alloc_step_inv [OF inv k cnt run]
      then show "buddy_owned m' b' (B(a \<mapsto> k))" "B a = None" by (auto simp: buddy_owned_def)
      obtain i where i: "a = page_addr b i" "wf_block (k, i)" using ok run by auto
      have base: "wf_base b" using manages_bounds [OF mg] by simp
      with i show "a \<noteq> 0" by (simp add: page_addr_nonzero)
      have "(i + 2 ^ k) * PAGE_SIZE \<le> MAX_PAGES * PAGE_SIZE" using i(2) by (intro mult_le_mono1) simp
      then show "a + 2 ^ k * PAGE_SIZE \<le> u64_max"
        using base i(1) unfolding wf_base_def page_addr_def distrib_right by linarith
    qed
    show "buddy_owned m' b' B" if "alloc_pages k (m, b) = Inr (None, m', b')"
      using ok that inv by (auto simp: buddy_owned_def)
    show "m' x = m x" if run: "alloc_pages k (m, b) = Inr (r, m', b')"
      and c: "B c = Some l" "x \<in> block_range c l"
    proof (cases r)
      case None
      with ok run show ?thesis by auto
    next
      case (Some a)
      with alloc_step_inv(3) [OF inv k cnt, of a m' b' c l x] run c show ?thesis by simp
    qed
    show "can_free b' = can_free b" if "alloc_pages k (m, b) = Inr (r, m', b')"
      using ok that by (auto simp: can_free_def)
  }
  {
    assume can: "can_free b" and a: "B a = Some k"
    then have cnt: "dealloc_count (bd_stats b) < u64_max" by (simp add: can_free_def)
    obtain m1 b1 where run: "dealloc_pages a k (m, b) = Inr (m1, b1)"
      "client_inv R (m1, b1, B(a := None))"
      "\<And>c k x. B c = Some k \<Longrightarrow> c \<noteq> a \<Longrightarrow> x \<in> block_range c k \<Longrightarrow> m1 x = m x"
      by (rule dealloc_step_inv [OF inv a cnt]) blast
    then show "\<exists>m' p'. dealloc_pages a k (m, b) = Inr (m', p')" by blast
    show "buddy_owned m' b' (B(a := None))" if "dealloc_pages a k (m, b) = Inr (m', b')"
      using run that by (auto simp: buddy_owned_def)
    show "m' x = m x" if "dealloc_pages a k (m, b) = Inr (m', b')" "B c = Some l" "c \<noteq> a" "x \<in> block_range c l"
      using run that by auto
  }
  show "buddy_owned (m(x := v)) b B" if "B a = Some k" "x \<in> block_range a k"
    using write_step_inv [OF inv that] by (auto simp: buddy_owned_def)
  show "block_range a k \<inter> block_range c l = {}" if "B a = Some k" "B c = Some l" "a \<noteq> c"
    using inv that by (auto simp: client_inv_def)
qed

subsection \<open>Pages from outside\<close>

text \<open>
  The page tables that the boot loader built lie in memory the buddy allocator does not manage yet.
  An area is the set of pages the allocator manages and a map \<open>X\<close> of foreign blocks outside them.
  \<open>frames_owned (R, X) m b B\<close> says that \<open>B\<close> holds the foreign blocks and beside them blocks that the
  allocator handed out.
\<close>

type_synonym area = "nat set \<times> (nat \<rightharpoonup> nat)"

definition frames_owned :: "area \<Rightarrow> mem \<Rightarrow> buddy \<Rightarrow> (nat \<rightharpoonup> nat) \<Rightarrow> bool" where
  "frames_owned = (\<lambda>(R, X) m b B.
     client_inv R (m, b, B |` (- dom X)) \<and> X \<subseteq>\<^sub>m B \<and>
     (\<forall>a k. X a = Some k \<longrightarrow> block_range a k \<inter> page_bytes b R = {}) \<and>
     (\<forall>a k c l. B a = Some k \<longrightarrow> B c = Some l \<longrightarrow> a \<noteq> c \<longrightarrow> block_range a k \<inter> block_range c l = {}))"

lemma client_apart:
  "client_inv R (m, b, B) \<Longrightarrow> B a = Some k \<Longrightarrow> B c = Some l \<Longrightarrow> a \<noteq> c \<Longrightarrow> block_range a k \<inter> block_range c l = {}"
  unfolding client_inv_def prod.case by blast

lemma client_frames_owned: "client_inv R (m, b, B) \<longleftrightarrow> frames_owned (R, Map.empty) m b B"
proof -
  have "B |` UNIV = B" by (simp add: restrict_map_def)
  then show ?thesis using client_apart [of R m b B] unfolding frames_owned_def by simp blast
qed

lemma foreign_block: "frames_owned (R, X) m b B \<Longrightarrow> X a = Some k \<Longrightarrow> B a = Some k"
  unfolding frames_owned_def prod.case map_le_def by (metis domI)

lemma frames_owned_client: "frames_owned (R, X) m b B \<Longrightarrow> client_inv R (m, b, B |` (- dom X))"
  by (simp add: frames_owned_def)

lemma frames_free_pages:
  assumes own: "frames_owned (R, X) m b B"
  obtains S where "manages_merged m b R S" and "manages m b R S"
    and "\<forall>a k. (B |` (- dom X)) a = Some k \<longrightarrow> live_block b R S a k"
  using frames_owned_client [OF own] manages_mergedD unfolding client_inv_def by auto

lemma frames_of_kept:
  assumes own: "frames_owned (R, X) m b B" and c: "B c = Some l" and S: "manages m b R S"
    and blks: "\<forall>a k. (B |` (- dom X)) a = Some k \<longrightarrow> live_block b R S a k"
  shows "block_range c l \<inter> page_bytes b S = {}"
proof (cases "X c")
  case None
  then have "(B |` (- dom X)) c = Some l" using c by (simp add: domIff)
  with blks live_block_bytes show ?thesis by blast
next
  case (Some k)
  then have "k = l" using foreign_block [OF own] c by simp
  then have "block_range c l \<inter> page_bytes b R = {}" using own Some by (simp add: frames_owned_def)
  moreover have "page_bytes b S \<subseteq> page_bytes b R" using manages_bounds [OF S] by (intro page_bytes_mono) simp
  ultimately show ?thesis by blast
qed

text \<open>A block of any order, with its place in the buddy's window and the count of free pages.\<close>

lemma frames_alloc:
  assumes own: "frames_owned A m b B" and can: "can_alloc b" and k: "k < BUDDY_MAX_ORDER"
  shows "alloc_pages k (m, b) = Inr (None, m, b) \<and> (k = 0 \<longrightarrow> free_bytes (bd_stats b) = 0) \<or>
    (\<exists>a m' b'. alloc_pages k (m, b) = Inr (Some a, m', b') \<and> frames_owned A m' b' (B(a \<mapsto> k)) \<and> B a = None \<and>
      bd_base b' = bd_base b \<and> a mod PAGE_SIZE = 0 \<and> bd_base b \<le> a \<and> bd_base b \<noteq> 0 \<and>
      a + 2 ^ k * PAGE_SIZE \<le> bd_base b + MAX_PAGES * PAGE_SIZE \<and> a + 2 ^ k * PAGE_SIZE \<le> u64_max \<and>
      free_bytes (bd_stats b) = free_bytes (bd_stats b') + 2 ^ k * PAGE_SIZE \<and>
      alloc_count (bd_stats b') = alloc_count (bd_stats b) + 1 \<and>
      (\<forall>c l x. B c = Some l \<longrightarrow> x \<in> block_range c l \<longrightarrow> m' x = m x))"
proof -
  obtain R X where A: "A = (R, X)" by (cases A)
  let ?H = "B |` (- dom X)"
  note fr = own [unfolded A]
  note inv = frames_owned_client [OF fr]
  obtain S where mm: "manages_merged m b R S" and mg: "manages m b R S"
    and blks: "\<forall>a k. ?H a = Some k \<longrightarrow> live_block b R S a k" by (rule frames_free_pages [OF fr])
  have cnt: "alloc_count (bd_stats b) < u64_max" using can by (simp add: can_alloc_def)
  have fin: "finite S" using manages_bounds [OF mg] finite_subset by blast
  have free: "free_bytes (bd_stats b) = PAGE_SIZE * card S"
    using mg by (auto simp: manages_def buddy_inv_def stats_match_def)
  from alloc_ok [OF mg k cnt] show ?thesis
  proof (elim disjE exE conjE)
    assume none: "alloc_pages k (m, b) = Inr (None, m, b)"
    have "i \<notin> S" if "k = 0" for i
      using alloc_merged [OF mm k cnt] none that by auto
    then have "k = 0 \<longrightarrow> S = {}" by auto
    with none free show ?thesis by simp
  next
    fix i m' b'
    let ?a = "page_addr b i"
    assume *: "alloc_pages k (m, b) = Inr (Some ?a, m', b')" "wf_block (k, i)"
      "{i..<i + 2 ^ k} \<subseteq> S" "manages m' b' R (S - {i..<i + 2 ^ k})" "agree_off (page_bytes b S) m m'" "bd_base b' = bd_base b"
      "alloc_count (bd_stats b') = alloc_count (bd_stats b) + 1"
    note st = alloc_step_inv [OF inv k cnt *(1)]
    have pb: "page_bytes b' = page_bytes b" using *(6) by (simp add: page_bytes_def page_addr_def fun_eq_iff)
    have rng: "block_range ?a k \<subseteq> page_bytes b S" unfolding block_range_pages by (rule page_bytes_mono [OF *(3)])
    have apart: "block_range c l \<inter> block_range ?a k = {}" if "B c = Some l" for c l
      using frames_of_kept [OF fr that mg blks] rng by blast
    have self: "c \<in> block_range c l" for c l by (simp add: block_range_def PAGE_SIZE_def)
    have new: "B ?a = None"
    proof (rule ccontr)
      assume "B ?a \<noteq> None"
      then obtain l where "B ?a = Some l" by blast
      from apart [OF this] self [of ?a l] self [of ?a k] show False by blast
    qed
    have kept: "m' x = m x" if "B c = Some l" "x \<in> block_range c l" for c l x
      using frames_of_kept [OF fr that(1) mg blks] *(5) that(2) by (auto simp: agree_off_def)
    have xa: "?a \<notin> dom X" using foreign_block [OF fr] new by force
    then have eq: "(B(?a \<mapsto> k)) |` (- dom X) = ?H(?a \<mapsto> k)" by (auto simp: restrict_map_def fun_eq_iff)
    have "X \<subseteq>\<^sub>m B(?a \<mapsto> k)" using fr xa by (auto simp: frames_owned_def map_le_def)
    then have own': "frames_owned A m' b' (B(?a \<mapsto> k))"
      using fr st(1) apart unfolding frames_owned_def A prod.case eq pb by (auto simp: Int_commute)
    have base: "wf_base b" using manages_bounds [OF mg] by simp
    have "i + 2 ^ k \<le> MAX_PAGES" using *(2) by simp
    then have "(i + 2 ^ k) * PAGE_SIZE \<le> MAX_PAGES * PAGE_SIZE" by (rule mult_le_mono1)
    then have hi: "?a + 2 ^ k * PAGE_SIZE \<le> bd_base b + MAX_PAGES * PAGE_SIZE" by (simp add: page_addr_def distrib_right)
    have "free_bytes (bd_stats b') = PAGE_SIZE * card (S - {i..<i + 2 ^ k})"
      using *(4) by (auto simp: manages_def buddy_inv_def stats_match_def)
    moreover have "card (S - {i..<i + 2 ^ k}) + 2 ^ k = card S"
      using card_Diff_subset [OF _ *(3)] card_mono [OF fin *(3)] by simp
    ultimately have "free_bytes (bd_stats b) = free_bytes (bd_stats b') + 2 ^ k * PAGE_SIZE"
      using free by (metis add_mult_distrib2 mult.commute)
    moreover have "?a mod PAGE_SIZE = 0" "?a + 2 ^ k * PAGE_SIZE \<le> u64_max" "bd_base b \<noteq> 0" "bd_base b \<le> ?a"
      using base hi by (auto simp: wf_base_def page_addr_def)
    ultimately show ?thesis using *(1,6,7) own' new hi kept
      by (intro disjI2 exI [of _ ?a] exI [of _ m'] exI [of _ b'] conjI allI impI) simp_all
  qed
qed

interpretation fo: frame_source alloc_pages "frames_owned A" can_alloc for A
proof
  fix m m' :: mem and b b' :: buddy and B :: "nat \<rightharpoonup> nat" and k l a c x :: nat and r and v :: u8
  assume own: "frames_owned A m b B"
  {
    assume can: "can_alloc b" and k: "k < BUDDY_MAX_ORDER"
    note al = frames_alloc [OF own can k]
    then show "\<exists>r m' p'. alloc_pages k (m, b) = Inr (r, m', p')" by blast
    show "frames_owned A m' b' (B(a \<mapsto> k)) \<and> B a = None \<and> a \<noteq> 0 \<and> a + 2 ^ k * PAGE_SIZE \<le> u64_max"
      if "alloc_pages k (m, b) = Inr (Some a, m', b')"
      using al that by auto
    show "frames_owned A m' b' B" if "alloc_pages k (m, b) = Inr (None, m', b')" using al that own by auto
    show "m' x = m x" if "alloc_pages k (m, b) = Inr (r, m', b')" "B c = Some l" "x \<in> block_range c l"
      using al that by auto
  }
  obtain R X where A: "A = (R, X)" by (cases A)
  let ?H = "B |` (- dom X)"
  note fr = own [unfolded A]
  obtain S where mm: "manages_merged m b R S" and mg: "manages m b R S"
    and blks: "\<forall>a k. ?H a = Some k \<longrightarrow> live_block b R S a k" by (rule frames_free_pages [OF fr])
  show "frames_owned A (m(x := v)) b B" if a: "B a = Some k" "x \<in> block_range a k"
  proof -
    have "{x} \<inter> page_bytes b S = {}" using frames_of_kept [OF fr a(1) mg blks] a(2) by blast
    moreover have "agree_off {x} m (m(x := v))" by (simp add: agree_off_def)
    ultimately have mm': "manages_merged (m(x := v)) b R S" using mm buddy_inv_frame unfolding manages_merged_def by metis
    have "client_inv R (m(x := v), b, ?H)"
      using frames_owned_client [OF fr] mm' blks unfolding client_inv_def prod.case by blast
    then show ?thesis using fr unfolding A frames_owned_def by simp
  qed
  show "block_range a k \<inter> block_range c l = {}" if "B a = Some k" "B c = Some l" "a \<noteq> c"
    using fr that unfolding frames_owned_def by auto
qed

lemma frame_alloc:
  assumes own: "frames_owned A m b B" and can: "can_alloc b"
  shows "alloc_pages 0 (m, b) = Inr (None, m, b) \<and> free_bytes (bd_stats b) = 0 \<or>
    (\<exists>a m' b'. alloc_pages 0 (m, b) = Inr (Some a, m', b') \<and> frames_owned A m' b' (B(a \<mapsto> 0)) \<and> B a = None \<and>
      bd_base b' = bd_base b \<and> a mod PAGE_SIZE = 0 \<and> bd_base b \<le> a \<and> bd_base b \<noteq> 0 \<and>
      a + PAGE_SIZE \<le> bd_base b + MAX_PAGES * PAGE_SIZE \<and> a + PAGE_SIZE \<le> u64_max \<and>
      free_bytes (bd_stats b) = free_bytes (bd_stats b') + PAGE_SIZE \<and>
      alloc_count (bd_stats b') = alloc_count (bd_stats b) + 1 \<and>
      (\<forall>c l x. B c = Some l \<longrightarrow> x \<in> block_range c l \<longrightarrow> m' x = m x))"
  using frames_alloc [OF own can, of 0] by (simp add: BUDDY_MAX_ORDER_def)

end
