(* ===== verification/Slab.thy ===== *)
theory Slab
  imports Buddy_Provider
begin

text \<open>
  \<^verbatim>\<open>abalone/src/slab.rs\<close>: the slab allocator for objects of one type. The type's size and alignment
  are the record \<open>elem\<close>. A slab is one block from the page provider: a 32-byte header
  (\<open>free_head\<close> at 0, \<open>in_use\<close> at 8, \<open>capacity\<close> at 12, \<open>prev\<close> at 16, \<open>next\<close> at 24) and the slots;
  the first 8 bytes of a free slot hold the index of the next free slot. The operations take the
  cache's two function pointers as arguments; the state is the memory, the provider's state and
  the cache.
\<close>

record elem =
  el_size :: nat
  el_align :: nat

record slab_cache =
  sl_order :: nat
  sl_capacity :: nat
  sl_partial :: nat
  sl_stats :: alloc_stats

subsection \<open>Layout\<close>

definition slab_bytes :: "nat \<Rightarrow> nat" where
  "slab_bytes order = take_bit 64 (push_bit order PAGE_SIZE)"

definition header_stride :: "elem \<Rightarrow> nat" where
  "header_stride e =
     (let h_align = 8;
          t_align = el_align e;
          align = (if t_align > h_align then t_align else h_align)
      in and_not (32 + align - 1) (align - 1))"

definition capacity_for :: "elem \<Rightarrow> nat \<Rightarrow> nat" where
  "capacity_for e order =
     (let slab_bytes = slab_bytes order;
          stride = header_stride e;
          obj_size = el_size e
      in if obj_size = 0 \<or> stride \<ge> slab_bytes then 0 else (slab_bytes - stride) div obj_size)"

definition slab_new :: "elem \<Rightarrow> nat \<Rightarrow> slab_cache res" where
  "slab_new e slab_order =
     and_then (guard (el_size e \<ge> 8)
       (Assertion ''SlabCache<T>: T must be at least as large as usize'')) (\<lambda>_.
     and_then (guard (el_align e \<le> PAGE_SIZE)
       (Assertion ''SlabCache<T>: T alignment exceeds PAGE_SIZE'')) (\<lambda>_.
     Inr \<lparr>sl_order = slab_order, sl_capacity = capacity_for e slab_order, sl_partial = 0,
          sl_stats = zero_stats\<rparr>))"

definition assert_slab_compatible :: "elem \<Rightarrow> unit res" where
  "assert_slab_compatible e =
     and_then (guard (el_size e \<ge> 8)
       (Assertion ''SlabCache<T>: T must be at least as large as usize'')) (\<lambda>_.
     guard (el_align e \<le> PAGE_SIZE) (Assertion ''SlabCache<T>: T alignment exceeds PAGE_SIZE''))"

definition slot_addr :: "elem \<Rightarrow> nat \<Rightarrow> nat \<Rightarrow> nat res" where
  "slot_addr e slab_base i =
     and_then (checked_add slab_base (header_stride e)) (\<lambda>first.
     and_then (checked_mul i (el_size e)) (\<lambda>off.
     checked_add first off))"

subsection \<open>The partial list\<close>

definition link_partial :: "nat \<Rightarrow> mem \<times> slab_cache \<Rightarrow> mem \<times> slab_cache" where
  "link_partial header = (\<lambda>(m, c).
     (list_push 16 24 header m (sl_partial c), c\<lparr>sl_partial := header\<rparr>))"

definition unlink_partial :: "nat \<Rightarrow> mem \<times> slab_cache \<Rightarrow> mem \<times> slab_cache" where
  "unlink_partial header = (\<lambda>(m, c).
     let (m, head) = list_unlink 16 24 header m (sl_partial c)
     in (m, c\<lparr>sl_partial := head\<rparr>))"

subsection \<open>Growing\<close>

function thread_slots :: "elem \<Rightarrow> nat \<Rightarrow> nat \<Rightarrow> nat \<Rightarrow> mem \<Rightarrow> mem res" where
  "thread_slots e slab_base capacity i m =
     (if i < capacity then
        and_then (slot_addr e slab_base i) (\<lambda>slot_ptr.
        let next = (if i + 1 < capacity then i + 1 else u64_max)
        in thread_slots e slab_base capacity (i + 1) (st64 slot_ptr next m))
      else Inr m)"
  by pat_completeness auto
termination
  by (relation "measure (\<lambda>(e, slab_base, capacity, i, m). capacity - i)") auto

declare thread_slots.simps [simp del]

definition write_header :: "nat \<Rightarrow> nat \<Rightarrow> mem \<Rightarrow> mem" where
  "write_header h capacity m =
     (let m = st64 h 0 m;
          m = st32 (h + 8) 0 m;
          m = st32 (h + 12) (capacity mod 2 ^ 32) m;
          m = st64 (h + 16) 0 m
      in st64 (h + 24) 0 m)"

definition slab_grow ::
  "(nat \<Rightarrow> mem \<times> 'p \<Rightarrow> (nat option \<times> mem \<times> 'p) res) \<Rightarrow>
   (nat \<Rightarrow> nat \<Rightarrow> mem \<times> 'p \<Rightarrow> (mem \<times> 'p) res) \<Rightarrow> elem \<Rightarrow>
   mem \<times> 'p \<times> slab_cache \<Rightarrow> (unit option \<times> mem \<times> 'p \<times> slab_cache) res" where
  "slab_grow alloc_page dealloc_page e = (\<lambda>(m, p, c).
     let slab_bytes = slab_bytes (sl_order c);
         capacity = sl_capacity c
     in and_then (guard (capacity > 0) (Assertion ''SlabCache<T>: zero capacity'')) (\<lambda>_.
        and_then (alloc_page (sl_order c) (m, p)) (\<lambda>(r, m, p).
        case r of None \<Rightarrow> Inr (None, m, p, c)
        | Some slab_base \<Rightarrow>
            if and_not slab_base (slab_bytes - 1) \<noteq> slab_base then
              and_then (dealloc_page slab_base (sl_order c) (m, p)) (\<lambda>(m, p).
              Inr (None, m, p, c))
            else
              and_then (thread_slots e slab_base capacity 0 m) (\<lambda>m.
              let (m, c) = link_partial slab_base (write_header slab_base capacity m, c)
              in and_then (checked_add (total_bytes (sl_stats c)) slab_bytes) (\<lambda>total.
                 and_then (checked_mul capacity (el_size e)) (\<lambda>bytes.
                 and_then (checked_add (free_bytes (sl_stats c)) bytes) (\<lambda>free.
                 Inr (Some (), m, p,
                   c\<lparr>sl_stats := (sl_stats c)\<lparr>total_bytes := total, free_bytes := free\<rparr>\<rparr>))))))))"

subsection \<open>Allocation\<close>

definition slab_take :: "elem \<Rightarrow> mem \<times> slab_cache \<Rightarrow> (nat \<times> mem \<times> slab_cache) res" where
  "slab_take e = (\<lambda>(m, c).
     let header_ptr = sl_partial c;
         slot_idx = ld64 m header_ptr
     in and_then (guard (slot_idx \<noteq> u64_max) (Assertion ''alloc called on full slab'')) (\<lambda>_.
        and_then (slot_addr e header_ptr slot_idx) (\<lambda>obj_ptr.
        let m = st64 header_ptr (ld64 m obj_ptr) m
        in and_then (if ld32 m (header_ptr + 8) + 1 < 2 ^ 32 then Inr (ld32 m (header_ptr + 8) + 1)
                     else Inl Arithmetic_overflow) (\<lambda>in_use.
           let m = st32 (header_ptr + 8) in_use m;
               (m, c) = (if ld32 m (header_ptr + 8) = ld32 m (header_ptr + 12)
                         then unlink_partial header_ptr (m, c) else (m, c))
           in and_then (checked_add (alloc_count (sl_stats c)) 1) (\<lambda>count.
              and_then (checked_add (used_bytes (sl_stats c)) (el_size e)) (\<lambda>used.
              Inr (obj_ptr, m, c\<lparr>sl_stats := (sl_stats c)\<lparr>alloc_count := count, used_bytes := used,
                peak_bytes := (if used > peak_bytes (sl_stats c) then used
                               else peak_bytes (sl_stats c))\<rparr>\<rparr>)))))))"

definition slab_alloc ::
  "(nat \<Rightarrow> mem \<times> 'p \<Rightarrow> (nat option \<times> mem \<times> 'p) res) \<Rightarrow>
   (nat \<Rightarrow> nat \<Rightarrow> mem \<times> 'p \<Rightarrow> (mem \<times> 'p) res) \<Rightarrow> elem \<Rightarrow>
   mem \<times> 'p \<times> slab_cache \<Rightarrow> (nat option \<times> mem \<times> 'p \<times> slab_cache) res" where
  "slab_alloc alloc_page dealloc_page e = (\<lambda>(m, p, c).
     and_then (if sl_partial c = 0 then slab_grow alloc_page dealloc_page e (m, p, c)
               else Inr (Some (), m, p, c)) (\<lambda>(r, m, p, c).
     case r of None \<Rightarrow> Inr (None, m, p, c)
     | Some _ \<Rightarrow>
         and_then (slab_take e (m, c)) (\<lambda>(obj, m, c).
         Inr (Some obj, m, p, c))))"

subsection \<open>Deallocation\<close>

definition slab_dealloc ::
  "(nat \<Rightarrow> nat \<Rightarrow> mem \<times> 'p \<Rightarrow> (mem \<times> 'p) res) \<Rightarrow> elem \<Rightarrow> nat \<Rightarrow>
   mem \<times> 'p \<times> slab_cache \<Rightarrow> (mem \<times> 'p \<times> slab_cache) res" where
  "slab_dealloc dealloc_page e obj_ptr = (\<lambda>(m, p, c).
     let obj_size = el_size e;
         slab_bytes = slab_bytes (sl_order c);
         stride = header_stride e;
         slab_base = and_not obj_ptr (slab_bytes - 1)
     in and_then (guard (ld32 m (slab_base + 8) > 0) (Assertion ''dealloc on empty slab'')) (\<lambda>_.
        and_then (checked_add slab_base stride) (\<lambda>first.
        and_then (guard (obj_ptr \<ge> first) (Assertion ''obj_ptr precedes object region'')) (\<lambda>_.
        and_then (checked_add obj_ptr obj_size) (\<lambda>obj_end.
        and_then (checked_add slab_base slab_bytes) (\<lambda>slab_end.
        and_then (guard (obj_end \<le> slab_end) (Assertion ''obj_ptr outside slab bounds'')) (\<lambda>_.
        let slot_idx = (obj_ptr - first) div obj_size;
            was_full = (ld32 m (slab_base + 8) = ld32 m (slab_base + 12));
            m = st64 obj_ptr (ld64 m slab_base) m;
            m = st64 slab_base slot_idx m;
            m = st32 (slab_base + 8) (ld32 m (slab_base + 8) - 1) m
        in and_then
             (if was_full then
                (let (m, c) = link_partial slab_base (m, c) in Inr (m, p, c))
              else if ld32 m (slab_base + 8) = 0 then
                (let (m, c) = unlink_partial slab_base (m, c)
                 in and_then (dealloc_page slab_base (sl_order c) (m, p)) (\<lambda>(m, p).
                    and_then (checked_sub (total_bytes (sl_stats c)) slab_bytes) (\<lambda>total.
                    and_then (checked_mul (sl_capacity c) obj_size) (\<lambda>bytes.
                    and_then (checked_sub (free_bytes (sl_stats c)) bytes) (\<lambda>free.
                    Inr (m, p,
                      c\<lparr>sl_stats := (sl_stats c)\<lparr>total_bytes := total, free_bytes := free\<rparr>\<rparr>)))))
                )
              else Inr (m, p, c)) (\<lambda>(m, p, c).
           and_then (checked_add (dealloc_count (sl_stats c)) 1) (\<lambda>count.
           and_then (checked_sub (used_bytes (sl_stats c)) obj_size) (\<lambda>used.
           and_then (checked_add (free_bytes (sl_stats c)) obj_size) (\<lambda>free.
           Inr (m, p, c\<lparr>sl_stats := (sl_stats c)
             \<lparr>dealloc_count := count, used_bytes := used, free_bytes := free\<rparr>\<rparr>))))))))))))"

end
