(* ===== verification/Slab_Inv.thy ===== *)
theory Slab_Inv
  imports Slab
begin

text \<open>
  What a slab cache keeps true. \<open>fr\<close> maps the base of every slab to the sequence of its free slot
  indices, \<open>ps\<close> is the partial list. \<open>slab_rep\<close> says that memory and cache represent them.
\<close>

interpretation sl: link_layout 16 24 32
  by unfold_locales simp_all

definition elem_ok :: "elem \<Rightarrow> bool" where
  "elem_ok e \<longleftrightarrow> 8 \<le> el_size e \<and> (\<exists>j\<le>12. el_align e = 2 ^ j) \<and> el_align e dvd el_size e"

definition slot :: "elem \<Rightarrow> nat \<Rightarrow> nat \<Rightarrow> nat" where
  "slot e s i = s + header_stride e + i * el_size e"

primrec idx_chain :: "elem \<Rightarrow> mem \<Rightarrow> nat \<Rightarrow> nat \<Rightarrow> nat list \<Rightarrow> bool" where
  "idx_chain e m s h [] \<longleftrightarrow> h = u64_max"
| "idx_chain e m s h (x # xs) \<longleftrightarrow> h = x \<and> idx_chain e m s (ld64 m (slot e s x)) xs"

definition slab_ok :: "elem \<Rightarrow> nat \<Rightarrow> mem \<Rightarrow> nat \<Rightarrow> nat list \<Rightarrow> bool" where
  "slab_ok e cap m s xs \<longleftrightarrow>
     idx_chain e m s (ld64 m s) xs \<and> distinct xs \<and> set xs \<subseteq> {..<cap} \<and>
     ld32 m (s + 8) = cap - length xs \<and> ld32 m (s + 12) = cap"

definition slab_foot :: "elem \<Rightarrow> nat \<Rightarrow> nat list \<Rightarrow> nat set" where
  "slab_foot e s xs = {s..<s + 16} \<union> (\<Union>i\<in>set xs. {slot e s i..<slot e s i + 8})"

definition slab_geometry :: "elem \<Rightarrow> slab_cache \<Rightarrow> bool" where
  "slab_geometry e c \<longleftrightarrow> elem_ok e \<and> sl_order c < BUDDY_MAX_ORDER \<and>
     sl_capacity c = capacity_for e (sl_order c) \<and> 0 < sl_capacity c"

definition slab_rep :: "elem \<Rightarrow> mem \<Rightarrow> slab_cache \<Rightarrow> (nat \<rightharpoonup> nat list) \<Rightarrow> nat list \<Rightarrow> bool" where
  "slab_rep e m c fr ps \<longleftrightarrow>
     slab_geometry e c \<and> finite (dom fr) \<and>
     (\<forall>s xs. fr s = Some xs \<longrightarrow> slab_bytes (sl_order c) dvd s \<and> s \<noteq> 0 \<and>
        s + slab_bytes (sl_order c) \<le> u64_max \<and> slab_ok e (sl_capacity c) m s xs) \<and>
     dll 16 24 m 0 (sl_partial c) ps \<and> distinct ps \<and>
     set ps = {s. \<exists>xs. fr s = Some xs \<and> xs \<noteq> []}"

text \<open>The objects handed out: every slot of every slab that is not free.\<close>

definition live_slots :: "slab_cache \<Rightarrow> (nat \<rightharpoonup> nat list) \<Rightarrow> (nat \<times> nat) set" where
  "live_slots c fr = {(s, i). \<exists>xs. fr s = Some xs \<and> i < sl_capacity c \<and> i \<notin> set xs}"

definition live_objs :: "elem \<Rightarrow> slab_cache \<Rightarrow> (nat \<rightharpoonup> nat list) \<Rightarrow> nat set" where
  "live_objs e c fr = (\<lambda>(s, i). slot e s i) ` live_slots c fr"

subsection \<open>Layout\<close>

lemma slab_bytes_eq: "order < BUDDY_MAX_ORDER \<Longrightarrow> slab_bytes order = 2 ^ order * PAGE_SIZE"
proof -
  assume "order < BUDDY_MAX_ORDER"
  then have "(2::nat) ^ order \<le> 2 ^ 16" by (intro power_increasing) (simp_all add: BUDDY_MAX_ORDER_def)
  then show ?thesis
    by (simp add: slab_bytes_def push_bit_eq_mult PAGE_SIZE_def take_bit_nat_eq_self mult.commute)
qed

lemma slab_bytes_bounds:
  assumes "order < BUDDY_MAX_ORDER"
  shows "4096 \<le> slab_bytes order" and "slab_bytes order \<le> 2 ^ 28" and "slab_bytes order = 2 ^ (order + 12)"
proof -
  have "(2::nat) ^ order \<le> 2 ^ 16"
    using assms by (intro power_increasing) (simp_all add: BUDDY_MAX_ORDER_def)
  moreover have "(1::nat) \<le> 2 ^ order" by simp
  ultimately show "4096 \<le> slab_bytes order" "slab_bytes order \<le> 2 ^ 28" "slab_bytes order = 2 ^ (order + 12)"
    using slab_bytes_eq [OF assms] by (simp_all add: PAGE_SIZE_def power_add)
qed

lemma header_stride_facts:
  assumes "elem_ok e"
  shows "32 \<le> header_stride e" and "el_align e dvd header_stride e" and "8 dvd header_stride e"
    and "header_stride e \<le> 4096"
proof -
  obtain j where j: "j \<le> 12" "el_align e = 2 ^ j" using assms by (auto simp: elem_ok_def)
  define k where "k = max j 3"
  have al: "(if el_align e > 8 then el_align e else 8) = 2 ^ k"
    using j power_increasing_iff [of "2::nat" 3 j] power_strict_increasing_iff [of "2::nat" 3 j]
    by (auto simp: k_def max_def)
  have k: "3 \<le> k" "k \<le> 12" "j \<le> k" using j by (auto simp: k_def)
  have pow: "(2::nat) ^ 3 \<le> 2 ^ k" "(2::nat) ^ k \<le> 2 ^ 12" using k by (intro power_increasing; simp)+
  define n where "n = 32 + 2 ^ k - (1::nat)"
  have st: "header_stride e = n - n mod 2 ^ k"
    unfolding header_stride_def Let_def al n_def using pow k by (intro and_not_mask) (simp_all add: u64_max_def)
  have r: "n mod 2 ^ k < 2 ^ k" by simp
  then show "32 \<le> header_stride e" unfolding st n_def using pow by linarith
  have d: "2 ^ k dvd header_stride e" unfolding st by (rule dvd_minus_mod)
  show "el_align e dvd header_stride e" "8 dvd header_stride e"
    using dvd_trans [OF le_imp_power_dvd [OF k(3)] d] dvd_trans [OF le_imp_power_dvd [OF k(1)] d] j(2)
    by simp_all
  show "header_stride e \<le> 4096"
  proof (cases "5 \<le> k")
    case True
    then have "(2::nat) ^ 5 dvd 2 ^ k" by (rule le_imp_power_dvd)
    have "(2::nat) ^ 5 \<le> 2 ^ k" using True by (rule power_increasing) simp
    then have "n div 2 ^ k = 1"
    proof -
      have "1 * 2 ^ k \<le> n" "n < 2 * 2 ^ k" unfolding n_def using \<open>2 ^ 5 \<le> 2 ^ k\<close> by simp_all
      then show ?thesis by (intro div_nat_eqI) (simp_all add: mult.commute)
    qed
    then have "n - n mod 2 ^ k = 2 ^ k" by (metis minus_mod_eq_div_mult mult_1)
    then show ?thesis unfolding st using pow by simp
  next
    case False
    then have "(2::nat) ^ k \<le> 2 ^ 4" by (intro power_increasing) simp_all
    then show ?thesis unfolding st n_def by simp
  qed
qed

lemma capacity_facts:
  assumes "slab_geometry e c"
  shows "header_stride e + sl_capacity c * el_size e \<le> slab_bytes (sl_order c)"
    and "sl_capacity c < 2 ^ 32" and "sl_capacity c * el_size e \<le> u64_max" and "8 \<le> el_size e"
proof -
  have cap: "sl_capacity c = (slab_bytes (sl_order c) - header_stride e) div el_size e"
    and lt: "header_stride e < slab_bytes (sl_order c)" and sz: "8 \<le> el_size e"
    and order: "sl_order c < BUDDY_MAX_ORDER"
    using assms by (auto simp: slab_geometry_def capacity_for_def Let_def elem_ok_def split: if_splits)
  have "sl_capacity c * el_size e \<le> slab_bytes (sl_order c) - header_stride e"
    unfolding cap by (rule div_times_less_eq_dividend)
  with lt show fit: "header_stride e + sl_capacity c * el_size e \<le> slab_bytes (sl_order c)" by linarith
  have "sl_capacity c * 8 \<le> sl_capacity c * el_size e" using sz by (rule mult_le_mono2)
  then have "sl_capacity c * 8 \<le> 2 ^ 28" "sl_capacity c * el_size e \<le> 2 ^ 28"
    using fit slab_bytes_bounds(2) [OF order] by linarith+
  then show "sl_capacity c < 2 ^ 32" "sl_capacity c * el_size e \<le> u64_max"
    by (simp_all add: u64_max_def)
  show "8 \<le> el_size e" by (rule sz)
qed

lemma slot_range:
  assumes "slab_geometry e c" and "i < sl_capacity c"
  shows "s + 32 \<le> slot e s i" and "slot e s i + el_size e \<le> s + slab_bytes (sl_order c)"
proof -
  have "elem_ok e" using assms(1) by (simp add: slab_geometry_def)
  then show "s + 32 \<le> slot e s i" using header_stride_facts(1) by (simp add: slot_def trans_le_add1)
  have "(i + 1) * el_size e \<le> sl_capacity c * el_size e" using assms(2) by (intro mult_le_mono1) simp
  then show "slot e s i + el_size e \<le> s + slab_bytes (sl_order c)"
    using capacity_facts(1) [OF assms(1)] unfolding slot_def distrib_right by linarith
qed

lemma slot_apart:
  assumes "i \<noteq> j"
  shows "slot e s i + el_size e \<le> slot e s j \<or> slot e s j + el_size e \<le> slot e s i"
proof -
  have "i + 1 \<le> j \<or> j + 1 \<le> i" using assms by linarith
  then have "(i + 1) * el_size e \<le> j * el_size e \<or> (j + 1) * el_size e \<le> i * el_size e"
    using mult_le_mono1 by blast
  then show ?thesis unfolding slot_def distrib_right by linarith
qed

lemma slot_addr_ok:
  assumes "slab_geometry e c" and "i < sl_capacity c" and "s + slab_bytes (sl_order c) \<le> u64_max"
  shows "slot_addr e s i = Inr (slot e s i)"
proof -
  have "slot e s i \<le> u64_max" using slot_range(2) [OF assms(1,2), of s] assms(3) by linarith
  then have "s + header_stride e \<le> u64_max" "i * el_size e \<le> u64_max" "s + header_stride e + i * el_size e \<le> u64_max"
    by (simp_all add: slot_def)
  then show ?thesis by (simp add: slot_addr_def slot_def)
qed

lemma slabs_apart:
  assumes "n dvd s" and "n dvd t" and "s \<noteq> t" and "0 < n"
  shows "s + n \<le> t \<or> t + n \<le> (s::nat)"
proof -
  obtain a b where "s = n * a" "t = n * b" using assms(1,2) by (auto elim!: dvdE)
  moreover have "a + 1 \<le> b \<or> b + 1 \<le> a" using assms(3) calculation by (cases "a = b") auto
  then have "n * (a + 1) \<le> n * b \<or> n * (b + 1) \<le> n * a" using mult_le_mono2 by blast
  ultimately show ?thesis by (simp add: distrib_left add.commute)
qed

subsection \<open>One slab\<close>

lemma idx_chain_frame:
  assumes "\<And>x. x \<in> set xs \<Longrightarrow> ld64 m' (slot e s x) = ld64 m (slot e s x)"
  shows "idx_chain e m' s h xs = idx_chain e m s h xs"
  using assms by (induction xs arbitrary: h) auto

lemma slab_ok_frame:
  assumes "slab_ok e cap m s xs" and "agree_off X m m'" and "slab_foot e s xs \<inter> X = {}"
  shows "slab_ok e cap m' s xs"
proof -
  have cell: "ld64 m' (slot e s x) = ld64 m (slot e s x)" if "x \<in> set xs" for x
    by (rule ld_agree [OF assms(2)]) (use assms(3) that in \<open>auto simp: slab_foot_def\<close>)
  have off: "ld n m' (s + d) = ld n m (s + d)" if "d + n \<le> 16" for d n
  proof (rule ld_agree [OF assms(2)])
    have "{s + d..<s + d + n} \<subseteq> slab_foot e s xs" using that by (auto simp: slab_foot_def)
    with assms(3) show "{s + d..<s + d + n} \<inter> X = {}" by blast
  qed
  have "ld64 m' s = ld64 m s" "ld32 m' (s + 8) = ld32 m (s + 8)" "ld32 m' (s + 12) = ld32 m (s + 12)"
    using off [of 0 8] off [of 8 4] off [of 12 4] by simp_all
  then show ?thesis
    using assms(1) idx_chain_frame [OF cell] by (simp add: slab_ok_def)
qed

lemma slab_foot_block:
  assumes "slab_geometry e c" and "set xs \<subseteq> {..<sl_capacity c}"
  shows "slab_foot e s xs \<subseteq> {s..<s + slab_bytes (sl_order c)}"
proof -
  have "{slot e s i..<slot e s i + 8} \<subseteq> {s..<s + slab_bytes (sl_order c)}" if "i \<in> set xs" for i
  proof -
    have "i < sl_capacity c" using assms(2) that by auto
    from slot_range [OF assms(1) this, of s] capacity_facts(4) [OF assms(1)]
    have "s \<le> slot e s i" "slot e s i + 8 \<le> s + slab_bytes (sl_order c)" by linarith+
    then show ?thesis by auto
  qed
  moreover have "4096 \<le> slab_bytes (sl_order c)"
    using assms(1) by (intro slab_bytes_bounds) (simp add: slab_geometry_def)
  then have "{s..<s + 16} \<subseteq> {s..<s + slab_bytes (sl_order c)}" by auto
  ultimately show ?thesis unfolding slab_foot_def by blast
qed

subsection \<open>Building a slab\<close>

lemma thread_slots_ok:
  assumes "slab_geometry e c" and "i \<le> sl_capacity c" and "s + slab_bytes (sl_order c) \<le> u64_max"
  shows "\<exists>m'. thread_slots e s (sl_capacity c) i m = Inr m' \<and>
    agree_off (\<Union>j\<in>{i..<sl_capacity c}. {slot e s j..<slot e s j + 8}) m m' \<and>
    (\<forall>j. i \<le> j \<and> j < sl_capacity c \<longrightarrow>
       ld64 m' (slot e s j) = (if j + 1 < sl_capacity c then j + 1 else u64_max))"
  using assms(2)
proof (induction "sl_capacity c - i" arbitrary: i m)
  case 0
  then show ?case by (subst thread_slots.simps) simp
next
  case (Suc n)
  let ?cap = "sl_capacity c"
  let ?v = "if i + 1 < ?cap then i + 1 else u64_max"
  let ?m = "st64 (slot e s i) ?v m"
  from Suc.hyps(2) have i: "i < ?cap" by simp
  obtain m' where 1: "thread_slots e s ?cap (i + 1) ?m = Inr m'"
    "agree_off (\<Union>j\<in>{i + 1..<?cap}. {slot e s j..<slot e s j + 8}) ?m m'"
    "\<forall>j. i + 1 \<le> j \<and> j < ?cap \<longrightarrow> ld64 m' (slot e s j) = (if j + 1 < ?cap then j + 1 else u64_max)"
  proof -
    have "n = ?cap - (i + 1)" "i + 1 \<le> ?cap" using Suc.hyps(2) by simp_all
    from Suc.hyps(1) [OF this, of ?m] that show thesis by blast
  qed
  have sz: "8 \<le> el_size e" using assms(1) by (rule capacity_facts)
  have v: "?v \<le> u64_max" using capacity_facts(2) [OF assms(1)] by (simp add: u64_max_def)
  have "{slot e s i..<slot e s i + 8} \<inter> {slot e s j..<slot e s j + 8} = {}" if "i < j" for j
    using slot_apart [of i j e s] that sz by auto
  then have "ld64 m' (slot e s i) = ld64 ?m (slot e s i)"
    by (intro ld_agree [OF 1(2)]) (simp add: Int_UN_distrib Suc_le_eq)
  then have "ld64 m' (slot e s i) = ?v" using v by simp
  then have "\<forall>j. i \<le> j \<and> j < ?cap \<longrightarrow> ld64 m' (slot e s j) = (if j + 1 < ?cap then j + 1 else u64_max)"
    using 1(3) by (metis Suc_eq_plus1 Suc_leI le_neq_implies_less)
  moreover have "agree_off (\<Union>j\<in>{i..<?cap}. {slot e s j..<slot e s j + 8}) m m'"
  proof (rule agree_off_trans [of _ _ ?m])
    show "agree_off (\<Union>j\<in>{i..<?cap}. {slot e s j..<slot e s j + 8}) m ?m"
      using i by (intro agree_off_st agree_off_refl UN_upper [of i]) simp
    show "agree_off (\<Union>j\<in>{i..<?cap}. {slot e s j..<slot e s j + 8}) ?m m'"
      by (rule agree_off_mono [OF 1(2)]) (intro UN_mono, auto)
  qed
  moreover have "thread_slots e s ?cap i m = Inr m'"
    using i 1(1) slot_addr_ok [OF assms(1) i assms(3)] by (subst thread_slots.simps) (simp add: Let_def)
  ultimately show ?case by blast
qed

lemma chain_upt:
  assumes "\<forall>j. i \<le> j \<and> j < cap \<longrightarrow> ld64 m (slot e s j) = (if j + 1 < cap then j + 1 else u64_max)"
    and "i < cap"
  shows "idx_chain e m s i [i..<cap]"
  using assms
proof (induction "cap - i" arbitrary: i)
  case (Suc n)
  have up: "[i..<cap] = i # [i + 1..<cap]" using Suc.prems(2) by (simp add: upt_conv_Cons)
  show ?case
  proof (cases "i + 1 < cap")
    case True
    have "idx_chain e m s (i + 1) [i + 1..<cap]" using Suc.hyps Suc.prems True by (intro Suc.hyps(1)) auto
    with True Suc.prems show ?thesis unfolding up by simp
  next
    case False
    with Suc.prems show ?thesis unfolding up by simp
  qed
qed simp

lemma write_header_facts:
  assumes "cap < 2 ^ 32"
  shows "ld64 (write_header s cap m) s = 0" and "ld32 (write_header s cap m) (s + 8) = 0"
    and "ld32 (write_header s cap m) (s + 12) = cap"
    and "agree_off {s..<s + 32} m (write_header s cap m)"
proof -
  show "ld64 (write_header s cap m) s = 0" "ld32 (write_header s cap m) (s + 8) = 0"
    "ld32 (write_header s cap m) (s + 12) = cap"
    using assms by (simp_all add: write_header_def Let_def)
  show "agree_off {s..<s + 32} m (write_header s cap m)"
    unfolding write_header_def Let_def by (intro agree_off_st agree_off_refl) auto
qed

end
