(* ===== verification/Slab_Steps.thy ===== *)
theory Slab_Steps
  imports Slab_Inv
begin

text \<open>
  The steps of the slab cache on the abstract state: taking a slot, giving one back, adding a
  slab, dropping a slab.
\<close>

definition headers :: "nat set \<Rightarrow> nat set" where
  "headers S = (\<Union>s\<in>S. {s..<s + 32})"

lemma headers_mono: "S \<subseteq> T \<Longrightarrow> headers S \<subseteq> headers T"
  by (auto simp: headers_def)

lemma ptr_headers: "ptr_cells 16 24 S \<subseteq> headers S"
  by (auto simp: ptr_cells_def headers_def)

lemma ptr_upper: "x \<in> ptr_cells 16 24 S \<Longrightarrow> \<exists>s\<in>S. s + 16 \<le> x \<and> x < s + 32"
  by (auto simp: ptr_cells_def intro!: bexI)

lemma foot_cases:
  assumes "slab_geometry e c" and "set xs \<subseteq> {..<sl_capacity c}" and "x \<in> slab_foot e s xs"
  shows "s \<le> x" and "x < s + slab_bytes (sl_order c)" and "x < s + 16 \<or> s + 32 \<le> x"
proof -
  show "s \<le> x" "x < s + slab_bytes (sl_order c)" using slab_foot_block [OF assms(1,2), of s] assms(3) by auto
  show "x < s + 16 \<or> s + 32 \<le> x"
  proof -
    from assms(3) consider "x < s + 16" | i where "i \<in> set xs" "slot e s i \<le> x"
      by (auto simp: slab_foot_def)
    then show ?thesis
    proof cases
      case (2 i)
      then show ?thesis using slot_range(1) [OF assms(1), of i s] assms(2) by auto
    qed simp
  qed
qed

lemma other_block:
  assumes "slab_geometry e c" and "slab_bytes (sl_order c) dvd s" and "slab_bytes (sl_order c) dvd t"
    and "s \<le> x" and "x < s + slab_bytes (sl_order c)" and "t \<le> x" and "x < t + slab_bytes (sl_order c)"
  shows "s = t"
proof (rule ccontr)
  assume "s \<noteq> t"
  have "0 < slab_bytes (sl_order c)"
    using assms(1) slab_bytes_bounds(1) [of "sl_order c"] by (simp add: slab_geometry_def)
  from slabs_apart [OF assms(2,3) \<open>s \<noteq> t\<close> this] assms(4-7) show False by linarith
qed

lemma geometry_big: "slab_geometry e c \<Longrightarrow> 4096 \<le> slab_bytes (sl_order c)"
  by (intro slab_bytes_bounds) (simp add: slab_geometry_def)

lemma foot_ptr:
  assumes "slab_geometry e c" and "set xs \<subseteq> {..<sl_capacity c}" and "slab_bytes (sl_order c) dvd s"
    and "\<And>t. t \<in> S \<Longrightarrow> slab_bytes (sl_order c) dvd t"
  shows "slab_foot e s xs \<inter> ptr_cells 16 24 S = {}"
proof (rule ccontr)
  assume "slab_foot e s xs \<inter> ptr_cells 16 24 S \<noteq> {}"
  then obtain x t where x: "x \<in> slab_foot e s xs" and t: "t \<in> S" "t + 16 \<le> x" "x < t + 32"
    using ptr_upper by blast
  have "x < t + slab_bytes (sl_order c)" using t(3) geometry_big [OF assms(1)] by linarith
  then have "s = t"
    using foot_cases [OF assms(1,2) x] t by (intro other_block [OF assms(1,3) assms(4)]) auto
  with foot_cases(3) [OF assms(1,2) x] t show False by linarith
qed

lemma foot_foot:
  assumes "slab_geometry e c" and "set xs \<subseteq> {..<sl_capacity c}" and "slab_bytes (sl_order c) dvd s"
    and "slab_bytes (sl_order c) dvd t" and "s \<noteq> t" and "X \<subseteq> {t..<t + slab_bytes (sl_order c)}"
  shows "slab_foot e s xs \<inter> X = {}"
proof (rule ccontr)
  assume "slab_foot e s xs \<inter> X \<noteq> {}"
  then obtain x where x: "x \<in> slab_foot e s xs" "x \<in> X" by blast
  then have "t \<le> x" "x < t + slab_bytes (sl_order c)" using assms(6) by auto
  with x foot_cases [OF assms(1,2)] other_block [OF assms(1,3,4)] assms(5) show False by blast
qed

lemma ptr_off:
  assumes "slab_geometry e c" and "\<And>s. s \<in> S \<Longrightarrow> slab_bytes (sl_order c) dvd s"
    and "slab_bytes (sl_order c) dvd t"
    and "X \<subseteq> {t..<t + 16} \<union> {t + 32..<t + slab_bytes (sl_order c)}"
  shows "ptr_cells 16 24 S \<inter> X = {}"
proof (rule ccontr)
  note big = geometry_big [OF assms(1)]
  assume "ptr_cells 16 24 S \<inter> X \<noteq> {}"
  then obtain x s where s: "s \<in> S" "s + 16 \<le> x" "x < s + 32" and x: "x \<in> X" using ptr_upper by blast
  have "t \<le> x" "x < t + slab_bytes (sl_order c)" "x < t + 16 \<or> t + 32 \<le> x"
    using x assms(4) big by auto
  moreover from this have "s = t"
    using s big by (intro other_block [OF assms(1) assms(2) assms(3)]) auto
  ultimately show False using s by auto
qed

text \<open>What the parts of \<open>slab_rep\<close> say about one slab.\<close>

lemma slab_repD:
  assumes "slab_rep e m c fr ps" and "fr s = Some xs"
  shows "slab_bytes (sl_order c) dvd s" and "s \<noteq> 0" and "s + slab_bytes (sl_order c) \<le> u64_max"
    and "slab_ok e (sl_capacity c) m s xs" and "set xs \<subseteq> {..<sl_capacity c}" and "distinct xs"
    and "length xs \<le> sl_capacity c"
proof -
  show "slab_bytes (sl_order c) dvd s" and "s \<noteq> 0" and "s + slab_bytes (sl_order c) \<le> u64_max"
    and *: "slab_ok e (sl_capacity c) m s xs"
    using assms by (auto simp: slab_rep_def)
  from * show "set xs \<subseteq> {..<sl_capacity c}" "distinct xs" by (auto simp: slab_ok_def)
  then show "length xs \<le> sl_capacity c"
    using card_mono [of "{..<sl_capacity c}" "set xs"] by (simp add: distinct_card)
qed

lemma slab_rep_stats [simp]: "slab_rep e m (c\<lparr>sl_stats := z\<rparr>) fr ps = slab_rep e m c fr ps"
  by (simp add: slab_rep_def slab_geometry_def)

lemma slab_rep_geometry: "slab_rep e m c fr ps \<Longrightarrow> slab_geometry e c"
  by (simp add: slab_rep_def)

lemma slab_rep_partial:
  assumes "slab_rep e m c fr ps" and "s \<in> set ps"
  shows "slab_bytes (sl_order c) dvd s"
  using assms slab_repD(1) [OF assms(1)] by (auto simp: slab_rep_def)

lemma partial_apart:
  assumes "slab_rep e m c fr ps" and "S \<subseteq> dom fr"
  shows "apart 32 S"
  unfolding apart_def
proof (intro ballI impI)
  fix x y assume "x \<in> S" "y \<in> S" "x \<noteq> y"
  then have "slab_bytes (sl_order c) dvd x" "slab_bytes (sl_order c) dvd y"
    using assms slab_repD(1) [OF assms(1)] by (auto simp: subset_iff domIff)
  moreover note geometry_big [OF slab_rep_geometry [OF assms(1)]]
  ultimately show "x + 32 \<le> y \<or> y + 32 \<le> x"
    using slabs_apart [of "slab_bytes (sl_order c)" x y] \<open>x \<noteq> y\<close> by linarith
qed

text \<open>Replacing the free list of one slab, with the memory changed inside that slab's footprint and
  in link cells only.\<close>

lemma slab_rep_update:
  assumes rep: "slab_rep e m c fr ps" and s: "fr s = Some xs"
    and new: "slab_ok e (sl_capacity c) m1 s ys"
    and ag1: "agree_off X m m1" and X: "X \<subseteq> {s..<s + 16} \<union> {s + 32..<s + slab_bytes (sl_order c)}"
    and ag2: "agree_off (ptr_cells 16 24 S) m1 m2"
    and S: "S \<subseteq> dom fr"
    and list: "dll 16 24 m2 0 h qs" and qs: "distinct qs" "set qs = {t. \<exists>xs. (fr(s \<mapsto> ys)) t = Some xs \<and> xs \<noteq> []}"
  shows "slab_rep e m2 (c\<lparr>sl_partial := h\<rparr>) (fr(s \<mapsto> ys)) qs"
proof -
  note geo = slab_rep_geometry [OF rep] and big = geometry_big [OF slab_rep_geometry [OF rep]]
  have Sd: "\<And>t. t \<in> S \<Longrightarrow> slab_bytes (sl_order c) dvd t"
    using S slab_repD(1) [OF rep] by (auto simp: subset_iff domIff)
  have "slab_ok e (sl_capacity c) m2 t zs" if t: "(fr(s \<mapsto> ys)) t = Some zs" for t zs
  proof (cases "t = s")
    case True
    have "set ys \<subseteq> {..<sl_capacity c}" using new by (simp add: slab_ok_def)
    from slab_ok_frame [OF new ag2 foot_ptr [OF geo this slab_repD(1) [OF rep s] Sd]] True that
    show ?thesis by simp
  next
    case False
    with t have tf: "fr t = Some zs" by simp
    note D = slab_repD [OF rep tf]
    have "X \<subseteq> {s..<s + slab_bytes (sl_order c)}" using X big by auto
    then have "slab_ok e (sl_capacity c) m1 t zs"
      using foot_foot [OF geo D(5,1) slab_repD(1) [OF rep s] False]
      by (intro slab_ok_frame [OF D(4) ag1]) simp
    then show ?thesis
      using slab_ok_frame [OF _ ag2 foot_ptr [OF geo D(5,1) Sd]] by simp
  qed
  moreover have "finite (dom (fr(s \<mapsto> ys)))" using rep by (simp add: slab_rep_def)
  moreover have "slab_geometry e (c\<lparr>sl_partial := h\<rparr>)" using geo by (simp add: slab_geometry_def)
  moreover have "slab_bytes (sl_order c) dvd t \<and> t \<noteq> 0 \<and> t + slab_bytes (sl_order c) \<le> u64_max"
    if "(fr(s \<mapsto> ys)) t = Some zs" for t zs
    using that slab_repD(1-3) [OF rep] s by (auto split: if_splits)
  ultimately show ?thesis
    using list qs unfolding slab_rep_def by auto
qed

subsection \<open>Taking a slot\<close>

definition slab_room :: "elem \<Rightarrow> slab_cache \<Rightarrow> bool" where
  "slab_room e c \<longleftrightarrow>
     alloc_count (sl_stats c) < u64_max \<and> dealloc_count (sl_stats c) < u64_max \<and>
     used_bytes (sl_stats c) + el_size e \<le> u64_max \<and>
     total_bytes (sl_stats c) + slab_bytes (sl_order c) \<le> u64_max \<and>
     free_bytes (sl_stats c) + sl_capacity c * el_size e + el_size e \<le> u64_max"

definition take_room :: "elem \<Rightarrow> slab_cache \<Rightarrow> bool" where
  "take_room e c \<longleftrightarrow> alloc_count (sl_stats c) < u64_max \<and> used_bytes (sl_stats c) + el_size e \<le> u64_max"

lemma live_take:
  assumes "fr s = Some xs" and "set ys = set xs - {x}" and "x \<in> set xs" and "x < sl_capacity c"
  shows "live_slots c (fr(s \<mapsto> ys)) = insert (s, x) (live_slots c fr)" and "(s, x) \<notin> live_slots c fr"
  using assms by (auto simp: live_slots_def split: if_splits)

lemma live_give:
  assumes "fr s = Some xs" and "set ys = insert x (set xs)"
  shows "live_slots c (fr(s \<mapsto> ys)) = live_slots c fr - {(s, x)}"
  using assms by (auto simp: live_slots_def split: if_splits)

lemma live_cong: "sl_capacity c' = sl_capacity c \<Longrightarrow> live_slots c' fr = live_slots c fr"
  by (simp add: live_slots_def)

lemma take_step:
  assumes rep: "slab_rep e m c fr (s # ps)" and s: "fr s = Some (x # xs)"
    and room: "take_room e c"
  obtains m' c' where "slab_take e (m, c) = Inr (slot e s x, m', c')"
    and "slab_rep e m' c' (fr(s \<mapsto> xs)) (if xs = [] then ps else s # ps)"
    and "agree_off (headers (dom fr)) m m'"
    and "c' = c\<lparr>sl_partial := sl_partial c', sl_stats := (sl_stats c)
      \<lparr>alloc_count := alloc_count (sl_stats c) + 1, used_bytes := used_bytes (sl_stats c) + el_size e,
       peak_bytes := max (peak_bytes (sl_stats c)) (used_bytes (sl_stats c) + el_size e)\<rparr>\<rparr>"
proof -
  let ?cap = "sl_capacity c"
  note geo = slab_rep_geometry [OF rep] and D = slab_repD [OF rep s] and big = geometry_big [OF slab_rep_geometry [OF rep]]
  have dll: "dll 16 24 m 0 (sl_partial c) (s # ps)" and dist: "distinct (s # ps)"
    and ps: "set (s # ps) = {s. \<exists>xs. fr s = Some xs \<and> xs \<noteq> []}"
    using rep by (simp_all add: slab_rep_def)
  have head: "sl_partial c = s" using dll by simp
  have ok: "ld64 m s = x" "idx_chain e m s (ld64 m (slot e s x)) xs" "x < ?cap" "x \<notin> set xs"
    "distinct xs" "set xs \<subseteq> {..<?cap}" "ld32 m (s + 8) = ?cap - Suc (length xs)" "ld32 m (s + 12) = ?cap"
    using D(4) by (auto simp: slab_ok_def)
  have cap32: "?cap < 2 ^ 32" using geo by (rule capacity_facts)
  have len: "Suc (length xs) \<le> ?cap" using D(7) by simp
  have sr: "s + 32 \<le> slot e s x" "slot e s x + el_size e \<le> s + slab_bytes (sl_order c)"
    using slot_range [OF geo ok(3)] by auto
  define m1 where "m1 = st32 (s + 8) (?cap - length xs) (st64 s (ld64 m (slot e s x)) m)"
  have ag1: "agree_off {s..<s + 16} m m1"
    unfolding m1_def by (intro agree_off_st agree_off_refl) auto
  have new: "slab_ok e ?cap m1 s xs"
  proof -
    have "ld64 m1 (slot e s y) = ld64 m (slot e s y)" if "y \<in> set xs" for y
    proof (rule ld_agree [OF ag1])
      have "y < ?cap" using ok(6) that by auto
      then show "{slot e s y..<slot e s y + 8} \<inter> {s..<s + 16} = {}"
        using slot_range(1) [OF geo, of y s] by auto
    qed
    then have "idx_chain e m1 s (ld64 m (slot e s x)) xs" using ok(2) idx_chain_frame by blast
    moreover have "ld64 m1 s = ld64 m (slot e s x)" "ld32 m1 (s + 8) = ?cap - length xs" "ld32 m1 (s + 12) = ?cap"
      using cap32 ok(8) by (simp_all add: m1_def)
    ultimately show ?thesis using ok(5,6) by (simp add: slab_ok_def)
  qed
  have Sd: "\<And>t. t \<in> set (s # ps) \<Longrightarrow> slab_bytes (sl_order c) dvd t"
    using slab_rep_partial [OF rep] by blast
  have dll1: "dll 16 24 m1 0 s (s # ps)"
  proof -
    have "ptr_cells 16 24 (set (s # ps)) \<inter> {s..<s + 16} = {}"
      by (rule ptr_off [OF geo Sd D(1)]) simp_all
    from sl.dll_ptr_agree [OF ag1 this] dll head show ?thesis by metis
  qed
  obtain m2 h2 where un: "list_unlink 16 24 s m1 s = (m2, h2)" by fastforce
  define m' where "m' = (if xs = [] then m2 else m1)"
  define h' where "h' = (if xs = [] then h2 else s)"
  have ag2: "agree_off (ptr_cells 16 24 (set ps)) m1 m'"
    using sl.unlink_ptr_agree [of m1 s "[]" s ps] dll1 un by (simp add: m'_def)
  have psd: "set ps \<subseteq> dom fr" using ps by auto
  have list: "dll 16 24 m' 0 h' (if xs = [] then ps else s # ps)"
  proof (cases "xs = []")
    case True
    have "dll 16 24 m2 0 h2 ([] @ ps)"
    proof (rule sl.unlink_dll [of m1 s "[]" s ps])
      have "set (s # ps) \<subseteq> dom fr" using ps by auto
      then show "apart 32 (set ([] @ s # ps))" using partial_apart [OF rep] by simp
      show "\<forall>y\<in>set ([] @ ps). y \<le> u64_max"
        using psd slab_repD(3) [OF rep] by (fastforce simp: subset_iff domIff)
    qed (use dll1 dist un in simp_all)
    with True show ?thesis by (simp add: m'_def h'_def)
  next
    case False
    with dll1 show ?thesis by (simp add: m'_def h'_def)
  qed
  have qs: "distinct (if xs = [] then ps else s # ps)"
    "set (if xs = [] then ps else s # ps) = {t. \<exists>zs. (fr(s \<mapsto> xs)) t = Some zs \<and> zs \<noteq> []}"
    using dist ps by (auto split: if_splits)
  define c' where "c' = c\<lparr>sl_partial := h', sl_stats := (sl_stats c)
      \<lparr>alloc_count := alloc_count (sl_stats c) + 1, used_bytes := used_bytes (sl_stats c) + el_size e,
       peak_bytes := max (peak_bytes (sl_stats c)) (used_bytes (sl_stats c) + el_size e)\<rparr>\<rparr>"
  show thesis
  proof
    have i: "?cap - Suc (length xs) + 1 = ?cap - length xs" using len by simp
    have full: "?cap - length xs = ?cap \<longleftrightarrow> xs = []" using len by (cases xs) simp_all
    have same: "c\<lparr>sl_partial := s\<rparr> = c" using head by (cases c) simp
    have "x \<noteq> u64_max" using ok(3) cap32 by (simp add: u64_max_def)
    moreover have "ld32 m1 (s + 8) = ?cap - length xs" "ld32 m1 (s + 12) = ?cap"
      using new by (simp_all add: slab_ok_def)
    moreover have "slot_addr e s x = Inr (slot e s x)" using slot_addr_ok [OF geo ok(3) D(3)] .
    moreover have "ld32 (st64 s (ld64 m (slot e s x)) m) (s + 8) = ?cap - Suc (length xs)" using ok(7) by simp
    moreover have "unlink_partial s (m1, c) = (m2, c\<lparr>sl_partial := h2\<rparr>)"
      using un head by (simp add: unlink_partial_def)
    moreover have "?cap - length xs < 2 ^ 32" using cap32 by simp
    moreover note unl = calculation(6)
    moreover have "xs = [] \<Longrightarrow> st32 (s + 8) ?cap (st64 s (ld64 m (slot e s x)) m) = m1"
      by (simp add: m1_def)
    ultimately have "slab_take e (m, c) =
      (case (if xs = [] then unlink_partial s (m1, c) else (m1, c)) of (m, c) \<Rightarrow>
        and_then (checked_add (alloc_count (sl_stats c)) 1) (\<lambda>count.
        and_then (checked_add (used_bytes (sl_stats c)) (el_size e)) (\<lambda>used.
        Inr (slot e s x, m, c\<lparr>sl_stats := (sl_stats c)\<lparr>alloc_count := count, used_bytes := used,
          peak_bytes := (if used > peak_bytes (sl_stats c) then used else peak_bytes (sl_stats c))\<rparr>\<rparr>))))"
      using ok(1,8) head i full
      by (simp add: slab_take_def Let_def m1_def [symmetric] split del: if_split cong: if_cong)
    then show "slab_take e (m, c) = Inr (slot e s x, m', c')"
      using room same unl
      by (cases "xs = []") (simp_all add: take_room_def c'_def m'_def h'_def max_def)
    have r: "slab_rep e m' (c\<lparr>sl_partial := h'\<rparr>) (fr(s \<mapsto> xs)) (if xs = [] then ps else s # ps)"
      by (rule slab_rep_update [OF rep s new ag1 _ ag2 psd list qs]) simp
    then show "slab_rep e m' c' (fr(s \<mapsto> xs)) (if xs = [] then ps else s # ps)"
      by (simp add: c'_def)
    have "{s..<s + 16} \<subseteq> headers (dom fr)" using s by (force simp: headers_def)
    moreover have "ptr_cells 16 24 (set ps) \<subseteq> headers (dom fr)"
      using ptr_headers headers_mono [OF psd] by blast
    ultimately show "agree_off (headers (dom fr)) m m'"
      using agree_off_trans [OF agree_off_mono [OF ag1] agree_off_mono [OF ag2]] by blast
    show "c' = c\<lparr>sl_partial := sl_partial c', sl_stats := (sl_stats c)
      \<lparr>alloc_count := alloc_count (sl_stats c) + 1, used_bytes := used_bytes (sl_stats c) + el_size e,
       peak_bytes := max (peak_bytes (sl_stats c)) (used_bytes (sl_stats c) + el_size e)\<rparr>\<rparr>"
      by (simp add: c'_def)
  qed
qed

subsection \<open>Giving a slot back\<close>

lemma slab_base_of_slot:
  assumes "slab_geometry e c" and "slab_bytes (sl_order c) dvd s" and "x < sl_capacity c"
    and "s + slab_bytes (sl_order c) \<le> u64_max"
  shows "and_not (slot e s x) (slab_bytes (sl_order c) - 1) = s"
proof -
  let ?SB = "slab_bytes (sl_order c)"
  have order: "sl_order c < BUDDY_MAX_ORDER" using assms(1) by (simp add: slab_geometry_def)
  note r = slot_range [OF assms(1,3), of s] and sz = capacity_facts(4) [OF assms(1)]
  have le: "slot e s x \<le> u64_max" using r assms(4) by linarith
  have lt: "s \<le> slot e s x" "slot e s x < s + ?SB" using r sz by linarith+
  have "and_not (slot e s x) (?SB - 1) = slot e s x - slot e s x mod ?SB"
    unfolding slab_bytes_bounds(3) [OF order]
    using le order by (intro and_not_mask) (simp_all add: BUDDY_MAX_ORDER_def)
  moreover obtain q where q: "s = ?SB * q" using assms(2) by (elim dvdE)
  have "slot e s x div ?SB = q"
    by (rule div_nat_eqI) (use lt q in \<open>simp_all add: mult.commute\<close>)
  then have "slot e s x - slot e s x mod ?SB = s" using q by (simp add: minus_mod_eq_mult_div)
  ultimately show ?thesis by simp
qed

text \<open>Writing the slot's link and the header of its slab.\<close>

lemma give_slot:
  assumes rep: "slab_rep e m c fr ps" and s: "fr s = Some xs" and x: "x < sl_capacity c" "x \<notin> set xs"
  defines "m1 \<equiv> st32 (s + 8) (sl_capacity c - Suc (length xs)) (st64 s x (st64 (slot e s x) (ld64 m s) m))"
  shows "slab_ok e (sl_capacity c) m1 s (x # xs)"
    and "agree_off ({s..<s + 16} \<union> {slot e s x..<slot e s x + 8}) m m1"
    and "Suc (length xs) \<le> sl_capacity c"
    and "{s..<s + 16} \<union> {slot e s x..<slot e s x + 8} \<subseteq> {s..<s + 16} \<union> {s + 32..<s + slab_bytes (sl_order c)}"
proof -
  let ?cap = "sl_capacity c" and ?X = "{s..<s + 16} \<union> {slot e s x..<slot e s x + 8}"
  note geo = slab_rep_geometry [OF rep] and D = slab_repD [OF rep s]
  have ok: "idx_chain e m s (ld64 m s) xs" "distinct xs" "set xs \<subseteq> {..<?cap}"
    "ld32 m (s + 12) = ?cap"
    using D(4) by (auto simp: slab_ok_def)
  have sz: "8 \<le> el_size e" and cap32: "?cap < 2 ^ 32" using geo by (rule capacity_facts)+
  note sr = slot_range [OF geo x(1), of s]
  show X: "?X \<subseteq> {s..<s + 16} \<union> {s + 32..<s + slab_bytes (sl_order c)}" using sr sz by auto
  have "insert x (set xs) \<subseteq> {..<?cap}" using ok(3) x(1) by simp
  then have "card (insert x (set xs)) \<le> ?cap" using card_mono [of "{..<?cap}"] by fastforce
  then show len: "Suc (length xs) \<le> ?cap" using x(2) ok(2) by (simp add: distinct_card)
  show ag: "agree_off ?X m m1"
    unfolding m1_def by (intro agree_off_st agree_off_refl) auto
  have "ld64 m1 (slot e s y) = ld64 m (slot e s y)" if "y \<in> set xs" for y
  proof (rule ld_agree [OF ag])
    have "y < ?cap" "x \<noteq> y" using ok(3) x(2) that by auto
    then show "{slot e s y..<slot e s y + 8} \<inter> ?X = {}"
      using slot_range(1) [OF geo, of y s] slot_apart [of x y e s] sz by auto
  qed
  then have "idx_chain e m1 s (ld64 m s) xs" using ok(1) idx_chain_frame by blast
  moreover have "ld64 m1 s = x" "ld32 m1 (s + 8) = ?cap - Suc (length xs)" "ld32 m1 (s + 12) = ?cap"
    using cap32 ok(4) sr(1) x(1) by (simp_all add: m1_def u64_max_def)
  moreover have "ld64 m1 (slot e s x) = ld64 m s" using sr(1) by (simp add: m1_def)
  ultimately show "slab_ok e ?cap m1 s (x # xs)"
    using ok(2,3) x by (simp add: slab_ok_def)
qed

lemma give_link:
  assumes rep: "slab_rep e m c fr ps" and s: "fr s = Some xs" and none: "xs = []"
    and x: "x < sl_capacity c" "x \<notin> set xs"
  defines "m1 \<equiv> st32 (s + 8) (sl_capacity c - Suc (length xs)) (st64 s x (st64 (slot e s x) (ld64 m s) m))"
  obtains m' where "link_partial s (m1, c) = (m', c\<lparr>sl_partial := s\<rparr>)"
    and "slab_rep e m' (c\<lparr>sl_partial := s\<rparr>) (fr(s \<mapsto> x # xs)) (s # ps)"
    and "agree_off (headers (dom fr) \<union> {slot e s x..<slot e s x + 8}) m m'"
proof -
  note geo = slab_rep_geometry [OF rep] and D = slab_repD [OF rep s]
  note g = give_slot [OF rep s x, folded m1_def]
  have dll: "dll 16 24 m 0 (sl_partial c) ps" and dist: "distinct ps"
    and ps: "set ps = {s. \<exists>xs. fr s = Some xs \<and> xs \<noteq> []}"
    using rep by (simp_all add: slab_rep_def)
  have psd: "set ps \<subseteq> dom fr" "insert s (set ps) \<subseteq> dom fr" and fresh: "s \<notin> set ps"
    using ps s none by auto
  let ?X = "{s..<s + 16} \<union> {slot e s x..<slot e s x + 8}"
  have Sd: "\<And>t. t \<in> set ps \<Longrightarrow> slab_bytes (sl_order c) dvd t" using slab_rep_partial [OF rep] .
  have dll1: "dll 16 24 m1 0 (sl_partial c) ps"
    using sl.dll_ptr_agree [OF g(2) ptr_off [OF geo Sd D(1) g(4)]] dll by metis
  define m' where "m' = list_push 16 24 s m1 (sl_partial c)"
  have ag2: "agree_off (ptr_cells 16 24 (insert s (set ps))) m1 m'"
    unfolding m'_def by (rule sl.push_ptr_agree [OF dll1])
  have bound: "\<forall>y\<in>insert s (set ps). y \<le> u64_max"
    using psd(2) slab_repD(3) [OF rep] by (fastforce simp: subset_iff domIff)
  have list: "dll 16 24 m' 0 s (s # ps)"
    unfolding m'_def
    by (rule sl.push_dll [OF dll1 partial_apart [OF rep psd(2)] fresh dist D(2)]) (use bound in simp_all)
  show thesis
  proof
    show "link_partial s (m1, c) = (m', c\<lparr>sl_partial := s\<rparr>)" by (simp add: link_partial_def m'_def)
    show "slab_rep e m' (c\<lparr>sl_partial := s\<rparr>) (fr(s \<mapsto> x # xs)) (s # ps)"
      by (rule slab_rep_update [OF rep s g(1,2,4) ag2 psd(2) list]) (use dist fresh ps in auto)
    have "{s..<s + 16} \<subseteq> headers (dom fr)" using s by (force simp: headers_def)
    moreover have "ptr_cells 16 24 (insert s (set ps)) \<subseteq> headers (dom fr)"
      using ptr_headers headers_mono [OF psd(2)] by blast
    ultimately show "agree_off (headers (dom fr) \<union> {slot e s x..<slot e s x + 8}) m m'"
      using agree_off_trans [OF agree_off_mono [OF g(2)] agree_off_mono [OF ag2]] by blast
  qed
qed

lemma give_keep:
  assumes rep: "slab_rep e m c fr ps" and s: "fr s = Some xs" and ne: "xs \<noteq> []"
    and x: "x < sl_capacity c" "x \<notin> set xs"
  defines "m1 \<equiv> st32 (s + 8) (sl_capacity c - Suc (length xs)) (st64 s x (st64 (slot e s x) (ld64 m s) m))"
  shows "slab_rep e m1 c (fr(s \<mapsto> x # xs)) ps"
    and "agree_off (headers (dom fr) \<union> {slot e s x..<slot e s x + 8}) m m1"
proof -
  note geo = slab_rep_geometry [OF rep] and D = slab_repD [OF rep s]
  note g = give_slot [OF rep s x, folded m1_def]
  have dll: "dll 16 24 m 0 (sl_partial c) ps" and dist: "distinct ps"
    and ps: "set ps = {s. \<exists>xs. fr s = Some xs \<and> xs \<noteq> []}"
    using rep by (simp_all add: slab_rep_def)
  have Sd: "\<And>t. t \<in> set ps \<Longrightarrow> slab_bytes (sl_order c) dvd t" using slab_rep_partial [OF rep] .
  have dll1: "dll 16 24 m1 0 (sl_partial c) ps"
    using sl.dll_ptr_agree [OF g(2) ptr_off [OF geo Sd D(1) g(4)]] dll by metis
  have "slab_rep e m1 (c\<lparr>sl_partial := sl_partial c\<rparr>) (fr(s \<mapsto> x # xs)) ps"
    by (rule slab_rep_update [OF rep s g(1,2,4) agree_off_refl, of "{}" "sl_partial c" ps])
      (use dll1 dist ps s ne in auto)
  then show "slab_rep e m1 c (fr(s \<mapsto> x # xs)) ps" by simp
  have "{s..<s + 16} \<subseteq> headers (dom fr)" using s by (force simp: headers_def)
  then show "agree_off (headers (dom fr) \<union> {slot e s x..<slot e s x + 8}) m m1"
    by (intro agree_off_mono [OF g(2)]) blast
qed

text \<open>Taking an empty slab off the partial list and out of the cache.\<close>

lemma drop_slab:
  assumes rep: "slab_rep e m c fr ps" and s: "fr s = Some xs" and ne: "xs \<noteq> []"
  obtains m' h where "unlink_partial s (m, c) = (m', c\<lparr>sl_partial := h\<rparr>)"
    and "slab_rep e m' (c\<lparr>sl_partial := h\<rparr>) (fr(s := None)) (remove1 s ps)"
    and "agree_off (headers (dom fr)) m m'"
proof -
  note geo = slab_rep_geometry [OF rep]
  have dll: "dll 16 24 m 0 (sl_partial c) ps" and dist: "distinct ps"
    and ps: "set ps = {s. \<exists>xs. fr s = Some xs \<and> xs \<noteq> []}"
    using rep by (simp_all add: slab_rep_def)
  have "s \<in> set ps" using ps s ne by auto
  then obtain as bs where sp: "ps = as @ s # bs" by (meson split_list)
  with dist have rm: "remove1 s ps = as @ bs" by (simp add: remove1_append)
  obtain m' h where un: "list_unlink 16 24 s m (sl_partial c) = (m', h)" by fastforce
  have psd: "set ps \<subseteq> dom fr" using ps by auto
  have list: "dll 16 24 m' 0 h (as @ bs)"
  proof (rule sl.unlink_dll [OF dll [unfolded sp] _ _ _ un])
    show "apart 32 (set (as @ s # bs))" using partial_apart [OF rep psd] sp by simp
    show "distinct (as @ s # bs)" using dist sp by simp
    show "\<forall>y\<in>set (as @ bs). y \<le> u64_max"
      using psd slab_repD(3) [OF rep] sp by (fastforce simp: subset_iff domIff)
  qed
  have ag: "agree_off (ptr_cells 16 24 (set (as @ bs))) m m'"
    by (rule sl.unlink_ptr_agree [OF dll [unfolded sp] un])
  have Sd: "\<And>t. t \<in> set (as @ bs) \<Longrightarrow> slab_bytes (sl_order c) dvd t"
    using slab_rep_partial [OF rep] sp by auto
  have ok: "slab_ok e (sl_capacity c) m' t zs" if t: "fr t = Some zs" for t zs
    using slab_ok_frame [OF slab_repD(4) [OF rep t] ag foot_ptr [OF geo slab_repD(5,1) [OF rep t] Sd]] .
  show thesis
  proof
    show "unlink_partial s (m, c) = (m', c\<lparr>sl_partial := h\<rparr>)" using un by (simp add: unlink_partial_def)
    have "set (remove1 s ps) = {t. \<exists>xs. (fr(s := None)) t = Some xs \<and> xs \<noteq> []}"
      using dist ps by (auto simp: set_remove1_eq split: if_splits)
    then show "slab_rep e m' (c\<lparr>sl_partial := h\<rparr>) (fr(s := None)) (remove1 s ps)"
      using rep ok list dist unfolding rm slab_rep_def
      by (auto simp: slab_geometry_def sp split: if_splits)
    show "agree_off (headers (dom fr)) m m'"
    proof (rule agree_off_mono [OF ag])
      show "ptr_cells 16 24 (set (as @ bs)) \<subseteq> headers (dom fr)"
        using ptr_headers [of "set (as @ bs)"] headers_mono [OF psd] headers_mono [of "set (as @ bs)" "set ps"] sp
        by auto
    qed
  qed
qed

end
