(* ===== verification/Slab_Correct.thy ===== *)
theory Slab_Correct
  imports Slab_Steps
begin

text \<open>
  The slab allocator over any page provider: growing, and the two public operations, on the
  abstract state. \<open>B\<close> is everything the provider has handed out, the slabs among it.
\<close>

lemma slab_rep_frame:
  assumes rep: "slab_rep e m c fr ps"
    and same: "\<And>s x. s \<in> dom fr \<Longrightarrow> s \<le> x \<Longrightarrow> x < s + slab_bytes (sl_order c) \<Longrightarrow> m' x = m x"
  shows "slab_rep e m' c fr ps"
proof -
  note geo = slab_rep_geometry [OF rep]
  define X where "X = {x. \<forall>s\<in>dom fr. \<not> (s \<le> x \<and> x < s + slab_bytes (sl_order c))}"
  have ag: "agree_off X m m'" unfolding agree_off_def X_def using same by auto
  have "slab_ok e (sl_capacity c) m' s xs" if s: "fr s = Some xs" for s xs
  proof (rule slab_ok_frame [OF slab_repD(4) [OF rep s] ag])
    show "slab_foot e s xs \<inter> X = {}"
      using slab_foot_block [OF geo slab_repD(5) [OF rep s], of s] s by (fastforce simp: X_def)
  qed
  moreover have "ptr_cells 16 24 (set ps) \<inter> X = {}"
  proof -
    have "x \<notin> X" if "x \<in> ptr_cells 16 24 (set ps)" for x
    proof -
      from ptr_upper [OF that] obtain s where s: "s \<in> set ps" "s + 16 \<le> x" "x < s + 32" by blast
      then have "s \<in> dom fr" using rep by (auto simp: slab_rep_def)
      with s geometry_big [OF geo] show ?thesis unfolding X_def by (auto intro!: bexI [of _ s])
    qed
    then show ?thesis by blast
  qed
  then have "dll 16 24 m' 0 (sl_partial c) ps = dll 16 24 m 0 (sl_partial c) ps"
    by (rule sl.dll_ptr_agree [OF ag])
  ultimately show ?thesis using rep by (simp add: slab_rep_def)
qed

lemma add_slab:
  assumes rep: "slab_rep e m c fr ps" and new: "fr s = None" and ne: "xs \<noteq> []"
    and al: "slab_bytes (sl_order c) dvd s" "s \<noteq> 0" "s + slab_bytes (sl_order c) \<le> u64_max"
    and ok: "slab_ok e (sl_capacity c) m s xs"
  obtains m' where "link_partial s (m, c) = (m', c\<lparr>sl_partial := s\<rparr>)"
    and "slab_rep e m' (c\<lparr>sl_partial := s\<rparr>) (fr(s \<mapsto> xs)) (s # ps)"
    and "agree_off (headers (insert s (dom fr))) m m'"
proof -
  note geo = slab_rep_geometry [OF rep]
  have dll: "dll 16 24 m 0 (sl_partial c) ps" and dist: "distinct ps"
    and ps: "set ps = {s. \<exists>xs. fr s = Some xs \<and> xs \<noteq> []}"
    using rep by (simp_all add: slab_rep_def)
  have psd: "set ps \<subseteq> dom fr" and fresh: "s \<notin> set ps" using ps new by auto
  have Sd: "\<And>t. t \<in> insert s (set ps) \<Longrightarrow> slab_bytes (sl_order c) dvd t"
    using slab_rep_partial [OF rep] al(1) by auto
  have apart: "apart 32 (insert s (set ps))"
    unfolding apart_def
  proof (intro ballI impI)
    fix x y assume "x \<in> insert s (set ps)" "y \<in> insert s (set ps)" "x \<noteq> y"
    then show "x + 32 \<le> y \<or> y + 32 \<le> x"
      using slabs_apart [OF Sd Sd, of x y] geometry_big [OF geo] by fastforce
  qed
  have bound: "\<forall>y\<in>set ps. y \<le> u64_max"
    using psd slab_repD(3) [OF rep] by (fastforce simp: subset_iff domIff)
  define m' where "m' = list_push 16 24 s m (sl_partial c)"
  have list: "dll 16 24 m' 0 s (s # ps)"
    unfolding m'_def by (rule sl.push_dll [OF dll apart fresh dist al(2) _ bound]) (use al(3) in simp)
  have ag: "agree_off (ptr_cells 16 24 (insert s (set ps))) m m'"
    unfolding m'_def by (rule sl.push_ptr_agree [OF dll])
  have "slab_ok e (sl_capacity c) m' t zs" if t: "(fr(s \<mapsto> xs)) t = Some zs" for t zs
  proof -
    have "slab_ok e (sl_capacity c) m t zs" "slab_bytes (sl_order c) dvd t"
      using t ok al(1) slab_repD(1,4) [OF rep] by (auto split: if_splits)
    moreover from this(1) have "set zs \<subseteq> {..<sl_capacity c}" by (simp add: slab_ok_def)
    ultimately show ?thesis using slab_ok_frame [OF _ ag foot_ptr [OF geo _ _ Sd]] by blast
  qed
  moreover have "slab_bytes (sl_order c) dvd t \<and> t \<noteq> 0 \<and> t + slab_bytes (sl_order c) \<le> u64_max"
    if "(fr(s \<mapsto> xs)) t = Some zs" for t zs
    using that al slab_repD(1-3) [OF rep] by (auto split: if_splits)
  moreover have "set (s # ps) = {t. \<exists>zs. (fr(s \<mapsto> xs)) t = Some zs \<and> zs \<noteq> []}"
    using ps ne new by auto
  moreover have "finite (dom fr)" "slab_geometry e (c\<lparr>sl_partial := s\<rparr>)"
    using rep by (simp_all add: slab_rep_def slab_geometry_def)
  ultimately have "slab_rep e m' (c\<lparr>sl_partial := s\<rparr>) (fr(s \<mapsto> xs)) (s # ps)"
    using list dist fresh unfolding slab_rep_def by auto
  moreover have "agree_off (headers (insert s (dom fr))) m m'"
    by (rule agree_off_mono [OF ag subset_trans [OF ptr_headers headers_mono]]) (use psd in auto)
  ultimately show thesis using that by (simp add: link_partial_def m'_def)
qed

lemma block_slab:
  assumes "slab_geometry e c"
  shows "block_range s (sl_order c) = {s..<s + slab_bytes (sl_order c)}"
  using assms slab_bytes_eq by (simp add: block_range_def slab_geometry_def)

text \<open>Building the slab in the page block just received.\<close>

lemma fresh_slab:
  assumes rep: "slab_rep e m c fr ps" and new: "fr s = None"
    and al: "slab_bytes (sl_order c) dvd s" "s \<noteq> 0" "s + slab_bytes (sl_order c) \<le> u64_max"
  obtains m1 m' where "thread_slots e s (sl_capacity c) 0 m = Inr m1"
    and "link_partial s (write_header s (sl_capacity c) m1, c) = (m', c\<lparr>sl_partial := s\<rparr>)"
    and "slab_rep e m' (c\<lparr>sl_partial := s\<rparr>) (fr(s \<mapsto> [0..<sl_capacity c])) (s # ps)"
    and "agree_off ({s..<s + slab_bytes (sl_order c)} \<union> headers (dom fr)) m m'"
proof -
  let ?cap = "sl_capacity c" and ?blk = "{s..<s + slab_bytes (sl_order c)}"
  note geo = slab_rep_geometry [OF rep] and big = geometry_big [OF slab_rep_geometry [OF rep]]
  have cap: "0 < ?cap" "?cap < 2 ^ 32" and sz: "8 \<le> el_size e"
    using geo capacity_facts [OF geo] by (auto simp: slab_geometry_def)
  obtain m1 where 1: "thread_slots e s ?cap 0 m = Inr m1"
    "agree_off (\<Union>j\<in>{0..<?cap}. {slot e s j..<slot e s j + 8}) m m1"
    "\<forall>j. 0 \<le> j \<and> j < ?cap \<longrightarrow> ld64 m1 (slot e s j) = (if j + 1 < ?cap then j + 1 else u64_max)"
    using thread_slots_ok [OF geo _ al(3), of 0 m] by auto
  define m2 where "m2 = write_header s ?cap m1"
  note wh = write_header_facts [OF cap(2), of s m1, folded m2_def]
  have slots: "{slot e s j..<slot e s j + 8} \<subseteq> ?blk - {s..<s + 32}" if "j < ?cap" for j
  proof
    fix x assume "x \<in> {slot e s j..<slot e s j + 8}"
    with slot_range [OF geo that, of s] sz have "s + 32 \<le> x" "x < s + slab_bytes (sl_order c)" by auto
    then show "x \<in> ?blk - {s..<s + 32}" by auto
  qed
  have ag: "agree_off ?blk m m2"
  proof (rule agree_off_trans)
    show "agree_off ?blk m m1" by (rule agree_off_mono [OF 1(2)]) (use slots in force)
    show "agree_off ?blk m1 m2" by (rule agree_off_mono [OF wh(4)]) (use big in auto)
  qed
  have "ld64 m2 (slot e s j) = (if j + 1 < ?cap then j + 1 else u64_max)" if "j < ?cap" for j
  proof -
    have "ld64 m2 (slot e s j) = ld64 m1 (slot e s j)"
      by (rule ld_agree [OF wh(4)]) (use slots [OF that] in blast)
    with 1(3) that show ?thesis by simp
  qed
  then have "idx_chain e m2 s 0 [0..<?cap]" using cap by (intro chain_upt) auto
  then have ok: "slab_ok e ?cap m2 s [0..<?cap]" using wh by (auto simp: slab_ok_def)
  have rep2: "slab_rep e m2 c fr ps"
  proof (rule slab_rep_frame [OF rep])
    fix t x assume t: "t \<in> dom fr" "t \<le> x" "x < t + slab_bytes (sl_order c)"
    have "slab_bytes (sl_order c) dvd t" "t \<noteq> s" using t(1) new slab_repD(1) [OF rep] by auto
    then have "x \<notin> ?blk" using other_block [OF geo _ al(1), of t x] t by auto
    with ag show "m2 x = m x" by (simp add: agree_off_def)
  qed
  have ne: "[0..<?cap] \<noteq> []" using cap by simp
  obtain m' where 2: "link_partial s (m2, c) = (m', c\<lparr>sl_partial := s\<rparr>)"
    "slab_rep e m' (c\<lparr>sl_partial := s\<rparr>) (fr(s \<mapsto> [0..<?cap])) (s # ps)"
    "agree_off (headers (insert s (dom fr))) m2 m'"
    by (rule add_slab [OF rep2 new ne al ok])
  have "headers (insert s (dom fr)) \<subseteq> ?blk \<union> headers (dom fr)"
    using big by (auto simp: headers_def)
  with agree_off_trans [OF agree_off_mono [OF ag] agree_off_mono [OF 2(3)]] 1(1) 2(1,2) that
  show thesis unfolding m2_def by blast
qed

lemma rep_keep:
  assumes "slab_rep e m c fr ps" and "\<forall>s\<in>dom fr. B s = Some (sl_order c)"
    and "\<And>a l x. B a = Some l \<Longrightarrow> x \<in> block_range a l \<Longrightarrow> m' x = m x"
  shows "slab_rep e m' c fr ps"
proof (rule slab_rep_frame [OF assms(1)])
  fix s x assume s: "s \<in> dom fr" and x: "s \<le> x" "x < s + slab_bytes (sl_order c)"
  then have "x \<in> block_range s (sl_order c)" using block_slab [OF slab_rep_geometry [OF assms(1)]] by simp
  with bspec [OF assms(2) s] show "m' x = m x" by (rule assms(3))
qed

lemma take_room_grown [simp]:
  "slab_room e c \<Longrightarrow> take_room e (c\<lparr>sl_partial := h, sl_stats := (sl_stats c)
    \<lparr>total_bytes := t, free_bytes := f\<rparr>\<rparr>)"
  "slab_room e c \<Longrightarrow> take_room e c"
  by (auto simp: slab_room_def take_room_def)

lemma live_grown:
  assumes "fr s = None"
  shows "live_slots c (fr(s \<mapsto> [0..<sl_capacity c])) = live_slots c fr"
  using assms by (auto simp: live_slots_def split: if_splits)

text \<open>
  What the statistics of a cache say: \<open>used_bytes\<close> and \<open>total_bytes\<close> are exact; \<open>free_bytes\<close> grows
  by one object with every deallocation and never shrinks on allocation.
\<close>

definition slab_stats :: "elem \<Rightarrow> slab_cache \<Rightarrow> (nat \<rightharpoonup> nat list) \<Rightarrow> bool" where
  "slab_stats e c fr \<longleftrightarrow>
     used_bytes (sl_stats c) = card (live_slots c fr) * el_size e \<and>
     total_bytes (sl_stats c) = card (dom fr) * slab_bytes (sl_order c) \<and>
     free_bytes (sl_stats c) =
       card (dom fr) * (sl_capacity c * el_size e) + dealloc_count (sl_stats c) * el_size e"

lemma finite_live: "finite (dom fr) \<Longrightarrow> finite (live_slots c fr)"
  by (rule finite_subset [of _ "dom fr \<times> {..<sl_capacity c}"]) (auto simp: live_slots_def)

lemma slab_stats_grow:
  assumes "slab_stats e c fr" and "finite (dom fr)" and "fr s = None"
  shows "slab_stats e (c\<lparr>sl_partial := h, sl_stats := (sl_stats c)
    \<lparr>total_bytes := total_bytes (sl_stats c) + slab_bytes (sl_order c),
     free_bytes := free_bytes (sl_stats c) + sl_capacity c * el_size e\<rparr>\<rparr>) (fr(s \<mapsto> [0..<sl_capacity c]))"
proof -
  have "card (insert s (dom fr)) = Suc (card (dom fr))" using assms(2,3) by (simp add: domIff)
  moreover have "live_slots (c\<lparr>sl_partial := h, sl_stats := z\<rparr>) fr' = live_slots c fr'" for z fr'
    by (rule live_cong) simp
  ultimately show ?thesis
    using assms(1) live_grown [of fr s c, OF assms(3)] by (simp add: slab_stats_def del: fun_upd_apply)
qed

lemma slab_stats_take:
  assumes "slab_stats e c fr" and "finite (dom fr)" and "fr s = Some (i # xs)"
    and "live_slots c (fr(s \<mapsto> xs)) = insert (s, i) (live_slots c fr)" and "(s, i) \<notin> live_slots c fr"
  shows "slab_stats e (c\<lparr>sl_partial := h, sl_stats := (sl_stats c)
    \<lparr>alloc_count := n, used_bytes := used_bytes (sl_stats c) + el_size e, peak_bytes := k\<rparr>\<rparr>) (fr(s \<mapsto> xs))"
proof -
  have "insert s (dom fr) = dom fr" using assms(3) by auto
  moreover have "live_slots (c\<lparr>sl_partial := h, sl_stats := z\<rparr>) fr' = live_slots c fr'" for z fr'
    by (rule live_cong) simp
  ultimately show ?thesis
    using assms(1,4,5) finite_live [OF assms(2), of c] by (simp add: slab_stats_def del: fun_upd_apply)
qed

lemma aligned_check:
  assumes "slab_geometry e c" and "s \<le> u64_max"
  shows "and_not s (slab_bytes (sl_order c) - 1) = s \<longleftrightarrow> slab_bytes (sl_order c) dvd s"
proof -
  have order: "sl_order c < BUDDY_MAX_ORDER" using assms(1) by (simp add: slab_geometry_def)
  have "and_not s (slab_bytes (sl_order c) - 1) = s - s mod slab_bytes (sl_order c)"
    unfolding slab_bytes_bounds(3) [OF order]
    using assms(2) order by (intro and_not_mask) (simp_all add: BUDDY_MAX_ORDER_def)
  moreover have "s mod slab_bytes (sl_order c) \<le> s" by simp
  ultimately show ?thesis unfolding dvd_eq_mod_eq_0 by linarith
qed

lemma finite_headers: "finite S \<Longrightarrow> finite (headers S)"
  by (simp add: headers_def)

lemma slab_stats_give:
  assumes "slab_stats e c fr" and "finite (dom fr)" and "(s, x) \<in> live_slots c fr"
    and "live_slots c fr' = live_slots c fr - {(s, x)}" and "dom fr' = dom fr"
  shows "slab_stats e (c\<lparr>sl_partial := h, sl_stats := (sl_stats c)
    \<lparr>dealloc_count := dealloc_count (sl_stats c) + 1,
     used_bytes := used_bytes (sl_stats c) - el_size e,
     free_bytes := free_bytes (sl_stats c) + el_size e\<rparr>\<rparr>) fr'"
proof -
  have "card (live_slots c fr) = Suc (card (live_slots c fr'))"
    using card.remove [OF finite_live [OF assms(2)] assms(3)] assms(4) by simp
  moreover have "live_slots (c\<lparr>sl_partial := h, sl_stats := z\<rparr>) fr' = live_slots c fr'" for z
    by (rule live_cong) simp
  ultimately show ?thesis using assms(1,5) by (simp add: slab_stats_def)
qed

lemma slab_stats_drop:
  assumes "slab_stats e c fr" and "finite (dom fr)" and "(s, x) \<in> live_slots c fr"
    and "live_slots c fr' = live_slots c fr - {(s, x)}" and "fr' = fr(s := None)" and "s \<in> dom fr"
  shows "slab_stats e (c\<lparr>sl_partial := h, sl_stats := (sl_stats c)
    \<lparr>total_bytes := total_bytes (sl_stats c) - slab_bytes (sl_order c),
     dealloc_count := dealloc_count (sl_stats c) + 1,
     used_bytes := used_bytes (sl_stats c) - el_size e,
     free_bytes := free_bytes (sl_stats c) - sl_capacity c * el_size e + el_size e\<rparr>\<rparr>) fr'"
    and "slab_bytes (sl_order c) \<le> total_bytes (sl_stats c)"
    and "sl_capacity c * el_size e \<le> free_bytes (sl_stats c)"
proof -
  have 1: "card (live_slots c fr) = Suc (card (live_slots c fr'))"
    using card.remove [OF finite_live [OF assms(2)] assms(3)] assms(4) by simp
  have 2: "card (dom fr) = Suc (card (dom fr'))"
    unfolding assms(5) using card.remove [OF assms(2,6)] by simp
  have "live_slots (c\<lparr>sl_partial := h, sl_stats := z\<rparr>) fr' = live_slots c fr'" for z
    by (rule live_cong) simp
  then show "slab_stats e (c\<lparr>sl_partial := h, sl_stats := (sl_stats c)
    \<lparr>total_bytes := total_bytes (sl_stats c) - slab_bytes (sl_order c),
     dealloc_count := dealloc_count (sl_stats c) + 1,
     used_bytes := used_bytes (sl_stats c) - el_size e,
     free_bytes := free_bytes (sl_stats c) - sl_capacity c * el_size e + el_size e\<rparr>\<rparr>) fr'"
    "slab_bytes (sl_order c) \<le> total_bytes (sl_stats c)"
    "sl_capacity c * el_size e \<le> free_bytes (sl_stats c)"
    using assms(1) 1 2 by (simp_all add: slab_stats_def)
qed

text \<open>What the first half of \<open>slab_dealloc\<close> computes for a live object.\<close>

definition dealloc_tail :: "elem \<Rightarrow> mem \<times> 'p \<times> slab_cache \<Rightarrow> (mem \<times> 'p \<times> slab_cache) res" where
  "dealloc_tail e = (\<lambda>(m, p, c).
     and_then (checked_add (dealloc_count (sl_stats c)) 1) (\<lambda>count.
     and_then (checked_sub (used_bytes (sl_stats c)) (el_size e)) (\<lambda>used.
     and_then (checked_add (free_bytes (sl_stats c)) (el_size e)) (\<lambda>free.
     Inr (m, p, c\<lparr>sl_stats := (sl_stats c)
       \<lparr>dealloc_count := count, used_bytes := used, free_bytes := free\<rparr>\<rparr>)))))"

lemma slab_dealloc_unfold:
  assumes rep: "slab_rep e m c fr ps" and s: "fr s = Some xs" and x: "x < sl_capacity c" "x \<notin> set xs"
  defines "m1 \<equiv> st32 (s + 8) (sl_capacity c - Suc (length xs)) (st64 s x (st64 (slot e s x) (ld64 m s) m))"
  shows "slab_dealloc dealloc_page e (slot e s x) (m, p, c) =
    and_then
      (if xs = [] then (let (m, c) = link_partial s (m1, c) in Inr (m, p, c))
       else if sl_capacity c = Suc (length xs) then
         (let (m, c1) = unlink_partial s (m1, c)
          in and_then (dealloc_page s (sl_order c1) (m, p)) (\<lambda>(m, p).
             and_then (checked_sub (total_bytes (sl_stats c1)) (slab_bytes (sl_order c))) (\<lambda>total.
             and_then (checked_mul (sl_capacity c1) (el_size e)) (\<lambda>bytes.
             and_then (checked_sub (free_bytes (sl_stats c1)) bytes) (\<lambda>free.
             Inr (m, p, c1\<lparr>sl_stats := (sl_stats c1)\<lparr>total_bytes := total, free_bytes := free\<rparr>\<rparr>))))))
       else Inr (m1, p, c)) (dealloc_tail e)"
proof -
  note geo = slab_rep_geometry [OF rep] and D = slab_repD [OF rep s]
  note g = give_slot [OF rep s x, folded m1_def]
  have sz: "8 \<le> el_size e" and cap32: "sl_capacity c < 2 ^ 32" using geo by (rule capacity_facts)+
  note r = slot_range [OF geo x(1), of s]
  have base: "and_not (slot e s x) (slab_bytes (sl_order c) - 1) = s"
    by (rule slab_base_of_slot [OF geo D(1) x(1) D(3)])
  have hd: "ld32 m (s + 8) = sl_capacity c - length xs" "ld32 m (s + 12) = sl_capacity c"
    using D(4) by (simp_all add: slab_ok_def)
  have stride: "s + header_stride e \<le> slot e s x" by (simp add: slot_def)
  have idx: "(slot e s x - (s + header_stride e)) div el_size e = x" using sz by (simp add: slot_def)
  have full: "sl_capacity c - length xs = sl_capacity c \<longleftrightarrow> xs = []" using x(1) g(3) by (cases xs) simp_all
  have empty: "sl_capacity c - Suc (length xs) = 0 \<longleftrightarrow> sl_capacity c = Suc (length xs)" using g(3) by auto
  have bounds: "s + header_stride e \<le> u64_max" "slot e s x + el_size e \<le> u64_max"
    using stride r D(3) by linarith+
  let ?w = "st64 s x (st64 (slot e s x) (ld64 m s) m)"
  have w: "ld32 (st64 (slot e s x) (ld64 m s) m) (s + 8) = sl_capacity c - length xs" using hd(1) r(1) by simp
  have m1': "ld32 m1 (s + 8) = sl_capacity c - Suc (length xs)" using cap32 by (simp add: m1_def)
  have step: "sl_capacity c - length xs - 1 = sl_capacity c - Suc (length xs)" by simp
  have fold: "xs = [] \<Longrightarrow> st32 (s + 8) (sl_capacity c - Suc 0) ?w = m1"
    "sl_capacity c = Suc (length xs) \<Longrightarrow> st32 (s + 8) 0 ?w = m1" by (simp_all add: m1_def)
  show ?thesis
    unfolding slab_dealloc_def Let_def prod.case base hd w step m1_def [symmetric] m1' full empty idx
    using g(3) bounds stride r(2) D(3)
    by (simp add: dealloc_tail_def idx w step m1_def [symmetric] m1' full empty fold
        split del: if_split cong: if_cong)
qed

context page_provider
begin

text \<open>The blocks of \<open>B\<close> hold the slabs; the others belong to somebody else.\<close>

lemma header_owned:
  assumes "slab_geometry e c" and "\<And>s. s \<in> S \<Longrightarrow> B s = Some (sl_order c)" and "x \<in> headers S"
  shows "\<exists>a k. B a = Some k \<and> x \<in> block_range a k"
proof -
  obtain s where s: "s \<in> S" "s \<le> x" "x < s + 32" using assms(3) by (auto simp: headers_def)
  then have "x \<in> block_range s (sl_order c)"
    using block_slab [OF assms(1)] geometry_big [OF assms(1)] by auto
  with assms(2) [OF s(1)] show ?thesis by blast
qed

lemma grow_step:
  assumes rep: "slab_rep e m c fr ps" and own: "owned m p B"
    and sub: "\<forall>s\<in>dom fr. B s = Some (sl_order c)"
    and can: "can_alloc p" "can_free p" and room: "slab_room e c"
  shows "(\<exists>m' p'. slab_grow alloc_page dealloc_page e (m, p, c) = Inr (None, m', p', c) \<and>
      slab_rep e m' c fr ps \<and> owned m' p' B \<and>
      (\<forall>a k. B a = Some k \<longrightarrow> (\<forall>x\<in>block_range a k. m' x = m x))) \<or>
    (\<exists>s m' p' c'. slab_grow alloc_page dealloc_page e (m, p, c) = Inr (Some (), m', p', c') \<and>
      fr s = None \<and> slab_rep e m' c' (fr(s \<mapsto> [0..<sl_capacity c])) (s # ps) \<and>
      owned m' p' (B(s \<mapsto> sl_order c)) \<and> B s = None \<and>
      (\<forall>a k. B a = Some k \<longrightarrow> (\<forall>x\<in>block_range a k - headers (dom fr). m' x = m x)) \<and>
      c' = c\<lparr>sl_partial := s, sl_stats := (sl_stats c)
        \<lparr>total_bytes := total_bytes (sl_stats c) + slab_bytes (sl_order c),
         free_bytes := free_bytes (sl_stats c) + sl_capacity c * el_size e\<rparr>\<rparr>)"
proof -
  note geo = slab_rep_geometry [OF rep]
  have k: "sl_order c < BUDDY_MAX_ORDER" and cap: "0 < sl_capacity c"
    using geo by (simp_all add: slab_geometry_def)
  obtain r m1 p1 where run: "alloc_page (sl_order c) (m, p) = Inr (r, m1, p1)"
    using alloc_total [OF own can(1) k] by blast
  note frame = alloc_frame [OF own can(1) k run]
  have rep1: "slab_rep e m1 c fr ps"
    by (rule rep_keep [OF rep sub frame])
  show ?thesis
  proof (cases r)
    case None
    with run cap alloc_none [OF own can(1) k] frame rep1 show ?thesis
      by (intro disjI1 exI [of _ m1] exI [of _ p1]) (auto simp: slab_grow_def)
  next
    case (Some s)
    note new = alloc_some [OF own can(1) k run [unfolded Some]]
    have s: "B s = None" "s \<noteq> 0" "s + slab_bytes (sl_order c) \<le> u64_max"
      and own1: "owned m1 p1 (B(s \<mapsto> sl_order c))"
      using new slab_bytes_eq [OF k] by auto
    have fresh: "fr s = None" 
    proof (rule ccontr)
      assume "fr s \<noteq> None"
      then have "s \<in> dom fr" by blast
      with sub s(1) show False by simp
    qed
    show ?thesis
    proof (cases "slab_bytes (sl_order c) dvd s")
      case False
      have chk: "and_not s (slab_bytes (sl_order c) - 1) \<noteq> s" using aligned_check [OF geo, of s] False s(3) by simp
      have cf: "can_free p1" using alloc_can_free [OF own can(1) k run] can(2) by simp
      obtain m2 p2 where d: "dealloc_page s (sl_order c) (m1, p1) = Inr (m2, p2)"
        using dealloc_total [OF own1 cf, of s "sl_order c"] by auto
      have keep: "m2 x = m x" if "B a = Some l" "x \<in> block_range a l" for a l x
      proof -
        have "a \<noteq> s" using that(1) s(1) by auto
        then show ?thesis
          using dealloc_frame [OF own1 cf _ d, of a l x] that frame [OF that] by simp
      qed
      have "owned m2 p2 B"
        using dealloc_owned [OF own1 cf _ d] s(1) by (simp add: fun_upd_idem)
      moreover have "slab_rep e m2 c fr ps"
        by (rule rep_keep [OF rep sub keep])
      moreover have "slab_grow alloc_page dealloc_page e (m, p, c) = Inr (None, m2, p2, c)"
        using run cap chk d Some by (simp add: slab_grow_def)
      ultimately show ?thesis using keep by blast
    next
      case True
      have chk: "and_not s (slab_bytes (sl_order c) - 1) = s" using aligned_check [OF geo, of s] True s(3) by simp
      let ?c = "c\<lparr>sl_partial := s, sl_stats := (sl_stats c)
        \<lparr>total_bytes := total_bytes (sl_stats c) + slab_bytes (sl_order c),
         free_bytes := free_bytes (sl_stats c) + sl_capacity c * el_size e\<rparr>\<rparr>"
      obtain m2 m' where 2: "thread_slots e s (sl_capacity c) 0 m1 = Inr m2"
        "link_partial s (write_header s (sl_capacity c) m2, c) = (m', c\<lparr>sl_partial := s\<rparr>)"
        "slab_rep e m' (c\<lparr>sl_partial := s\<rparr>) (fr(s \<mapsto> [0..<sl_capacity c])) (s # ps)"
        "agree_off ({s..<s + slab_bytes (sl_order c)} \<union> headers (dom fr)) m1 m'"
        by (rule fresh_slab [OF rep1 fresh True s(2,3)])
      have "slab_grow alloc_page dealloc_page e (m, p, c) = Inr (Some (), m', p1, ?c)"
        using run cap chk Some 2(1,2) room capacity_facts(3) [OF geo]
        by (simp add: slab_grow_def slab_room_def)
      moreover have "slab_rep e m' ?c (fr(s \<mapsto> [0..<sl_capacity c])) (s # ps)" using 2(3) by simp
      moreover have "owned m' p1 (B(s \<mapsto> sl_order c))"
      proof (rule agree_owned [OF own1 2(4)])
        show "finite ({s..<s + slab_bytes (sl_order c)} \<union> headers (dom fr))"
          using rep by (simp add: finite_headers slab_rep_def)
        fix x assume "x \<in> {s..<s + slab_bytes (sl_order c)} \<union> headers (dom fr)"
        then show "\<exists>a k. (B(s \<mapsto> sl_order c)) a = Some k \<and> x \<in> block_range a k"
        proof
          assume "x \<in> {s..<s + slab_bytes (sl_order c)}"
          then show ?thesis using block_slab [OF geo] by (intro exI [of _ s] exI [of _ "sl_order c"]) simp
        next
          assume "x \<in> headers (dom fr)"
          then show ?thesis by (intro header_owned [OF geo]) (use sub fresh in auto)
        qed
      qed
      moreover have "m' x = m x" if "B a = Some l" "x \<in> block_range a l" "x \<notin> headers (dom fr)" for a l x
      proof -
        have "a \<noteq> s" using that(1) s(1) by auto
        then have "block_range a l \<inter> block_range s (sl_order c) = {}"
          using owned_apart [OF own1, of a l s "sl_order c"] that(1) by simp
        then have "x \<notin> {s..<s + slab_bytes (sl_order c)}" using that(2) block_slab [OF geo] by auto
        then show ?thesis using 2(4) that(3) frame [OF that(1,2)] by (simp add: agree_off_def)
      qed
      ultimately show ?thesis using fresh s(1)
        by (intro disjI2 exI [of _ s] exI [of _ m'] exI [of _ p1] exI [of _ ?c]) auto
    qed
  qed
qed

text \<open>Getting a slab with a free slot to the front of the partial list, growing if there is none.\<close>

definition ensure_partial :: "elem \<Rightarrow> mem \<times> 'p \<times> slab_cache \<Rightarrow> (unit option \<times> mem \<times> 'p \<times> slab_cache) res" where
  "ensure_partial e = (\<lambda>(m, p, c).
     if sl_partial c = 0 then slab_grow alloc_page dealloc_page e (m, p, c) else Inr (Some (), m, p, c))"

lemma ensure_step:
  assumes rep: "slab_rep e m c fr ps" and own: "owned m p B"
    and sub: "\<forall>s\<in>dom fr. B s = Some (sl_order c)"
    and can: "can_alloc p" "can_free p" and room: "slab_room e c"
  shows "(\<exists>m' p'. ensure_partial e (m, p, c) = Inr (None, m', p', c) \<and>
      slab_rep e m' c fr ps \<and> owned m' p' B \<and>
      (\<forall>a k. B a = Some k \<longrightarrow> (\<forall>x\<in>block_range a k. m' x = m x))) \<or>
    (\<exists>m' p' c' fr' B' s x xs ps'. ensure_partial e (m, p, c) = Inr (Some (), m', p', c') \<and>
      fr' s = Some (x # xs) \<and> slab_rep e m' c' fr' (s # ps') \<and> owned m' p' B' \<and> B \<subseteq>\<^sub>m B' \<and>
      (\<forall>s\<in>dom fr'. B' s = Some (sl_order c)) \<and> live_slots c fr' = live_slots c fr \<and>
      (\<forall>a k. B a = Some k \<longrightarrow> (\<forall>x\<in>block_range a k - headers (dom fr'). m' x = m x)) \<and>
      sl_capacity c' = sl_capacity c \<and> sl_order c' = sl_order c \<and> take_room e c' \<and>
      (slab_stats e c fr \<longrightarrow> slab_stats e c' fr') \<and>
      used_bytes (sl_stats c') = used_bytes (sl_stats c))"
proof (cases "sl_partial c = 0")
  case False
  have "dll 16 24 m 0 (sl_partial c) ps" using rep by (simp add: slab_rep_def)
  with False obtain s ps' where ps: "ps = s # ps'" by (cases ps) auto
  then have "s \<in> {s. \<exists>xs. fr s = Some xs \<and> xs \<noteq> []}" using rep by (auto simp: slab_rep_def)
  then obtain x xs where "fr s = Some (x # xs)" by (auto simp: neq_Nil_conv)
  with False rep own sub room ps show ?thesis
    by - (rule disjI2, rule exI [of _ m], rule exI [of _ p], rule exI [of _ c], rule exI [of _ fr],
        rule exI [of _ B], rule exI [of _ s], rule exI [of _ x], rule exI [of _ xs], rule exI [of _ ps'],
        intro conjI, (auto simp: ensure_partial_def)+)
next
  case True
  then have run: "ensure_partial e (m, p, c) = slab_grow alloc_page dealloc_page e (m, p, c)"
    by (simp add: ensure_partial_def)
  from grow_step [OF rep own sub can room] show ?thesis
  proof (elim disjE exE conjE)
    fix s m' p' c'
    assume *: "slab_grow alloc_page dealloc_page e (m, p, c) = Inr (Some (), m', p', c')" "fr s = None"
      "slab_rep e m' c' (fr(s \<mapsto> [0..<sl_capacity c])) (s # ps)"
      "owned m' p' (B(s \<mapsto> sl_order c))" "B s = None"
      "\<forall>a k. B a = Some k \<longrightarrow> (\<forall>x\<in>block_range a k - headers (dom fr). m' x = m x)"
      "c' = c\<lparr>sl_partial := s, sl_stats := (sl_stats c)
        \<lparr>total_bytes := total_bytes (sl_stats c) + slab_bytes (sl_order c),
         free_bytes := free_bytes (sl_stats c) + sl_capacity c * el_size e\<rparr>\<rparr>"
    have "finite (dom fr)" using rep by (simp add: slab_rep_def)
    then have "slab_stats e c fr \<longrightarrow> slab_stats e c' (fr(s \<mapsto> [0..<sl_capacity c]))"
      unfolding *(7) using slab_stats_grow *(2) by blast
    moreover have "0 < sl_capacity c" using slab_rep_geometry [OF rep] by (simp add: slab_geometry_def)
    then have up: "[0..<sl_capacity c] = 0 # [1..<sl_capacity c]" by (simp add: upt_conv_Cons)
    have "headers (dom fr) \<subseteq> headers (dom (fr(s \<mapsto> [0..<sl_capacity c])))"
      by (rule headers_mono) auto
    then have keep: "\<forall>a k. B a = Some k \<longrightarrow>
        (\<forall>x\<in>block_range a k - headers (dom (fr(s \<mapsto> [0..<sl_capacity c]))). m' x = m x)"
      using *(6) by blast
    moreover have "take_room e c'" using room unfolding *(7) by (rule take_room_grown)
    moreover have "B \<subseteq>\<^sub>m B(s \<mapsto> sl_order c)" using *(5) by (auto simp: map_le_def)
    moreover have "\<forall>t\<in>dom (fr(s \<mapsto> [0..<sl_capacity c])). (B(s \<mapsto> sl_order c)) t = Some (sl_order c)"
      using sub by auto
    moreover have "sl_capacity c' = sl_capacity c" "sl_order c' = sl_order c"
      "used_bytes (sl_stats c') = used_bytes (sl_stats c)" by (simp_all add: *(7))
    moreover have "(fr(s \<mapsto> [0..<sl_capacity c])) s = Some (0 # [1..<sl_capacity c])" by (simp add: up)
    ultimately show ?thesis
      using run *(1,3,4) keep live_grown [of fr s c, OF *(2)]
      by - (rule disjI2, rule exI [of _ m'], rule exI [of _ p'], rule exI [of _ c'],
        rule exI [of _ "fr(s \<mapsto> [0..<sl_capacity c])"], rule exI [of _ "B(s \<mapsto> sl_order c)"],
        rule exI [of _ s], rule exI [of _ 0], rule exI [of _ "[1..<sl_capacity c]"], rule exI [of _ ps],
        intro conjI, (simp_all del: fun_upd_apply)+)
  qed (use run in auto)
qed

lemma slab_alloc_step:
  assumes rep: "slab_rep e m c fr ps" and own: "owned m p B"
    and sub: "\<forall>s\<in>dom fr. B s = Some (sl_order c)"
    and can: "can_alloc p" "can_free p" and room: "slab_room e c"
  shows "(\<exists>m' p'. slab_alloc alloc_page dealloc_page e (m, p, c) = Inr (None, m', p', c) \<and>
      slab_rep e m' c fr ps \<and> owned m' p' B \<and>
      (\<forall>a k. B a = Some k \<longrightarrow> (\<forall>x\<in>block_range a k. m' x = m x))) \<or>
    (\<exists>m' p' c' fr' B' s i ps'. slab_alloc alloc_page dealloc_page e (m, p, c) = Inr (Some (slot e s i), m', p', c') \<and>
      slab_rep e m' c' fr' ps' \<and> owned m' p' B' \<and> B \<subseteq>\<^sub>m B' \<and>
      (\<forall>s\<in>dom fr'. B' s = Some (sl_order c')) \<and> s \<in> dom fr' \<and> i < sl_capacity c \<and>
      live_slots c' fr' = insert (s, i) (live_slots c fr) \<and> (s, i) \<notin> live_slots c fr \<and>
      (\<forall>a k. B a = Some k \<longrightarrow> (\<forall>x\<in>block_range a k - headers (dom fr'). m' x = m x)) \<and>
      sl_capacity c' = sl_capacity c \<and> sl_order c' = sl_order c \<and>
      (slab_stats e c fr \<longrightarrow> slab_stats e c' fr') \<and>
      used_bytes (sl_stats c') = used_bytes (sl_stats c) + el_size e)"
proof -
  have alloc: "slab_alloc alloc_page dealloc_page e (m, p, c) =
      and_then (ensure_partial e (m, p, c)) (\<lambda>(r, m, p, c). case r of None \<Rightarrow> Inr (None, m, p, c)
        | Some _ \<Rightarrow> and_then (slab_take e (m, c)) (\<lambda>(obj, m, c). Inr (Some obj, m, p, c)))"
    by (simp add: slab_alloc_def ensure_partial_def)
  from ensure_step [OF rep own sub can room] show ?thesis
  proof (elim disjE exE conjE)
    fix m' p'
    assume "ensure_partial e (m, p, c) = Inr (None, m', p', c)" "slab_rep e m' c fr ps" "owned m' p' B"
      "\<forall>a k. B a = Some k \<longrightarrow> (\<forall>x\<in>block_range a k. m' x = m x)"
    then show ?thesis unfolding alloc by (intro disjI1 exI [of _ m'] exI [of _ p']) simp
  next
    fix m1 p1 c1 fr1 B1 s i xs ps1
    assume *: "ensure_partial e (m, p, c) = Inr (Some (), m1, p1, c1)" "fr1 s = Some (i # xs)"
      "slab_rep e m1 c1 fr1 (s # ps1)" "owned m1 p1 B1" "B \<subseteq>\<^sub>m B1"
      "\<forall>s\<in>dom fr1. B1 s = Some (sl_order c)" "live_slots c fr1 = live_slots c fr"
      "\<forall>a k. B a = Some k \<longrightarrow> (\<forall>x\<in>block_range a k - headers (dom fr1). m1 x = m x)"
      "sl_capacity c1 = sl_capacity c" "sl_order c1 = sl_order c" "take_room e c1"
      "slab_stats e c fr \<longrightarrow> slab_stats e c1 fr1"
      "used_bytes (sl_stats c1) = used_bytes (sl_stats c)"
    obtain m' c' where 2: "slab_take e (m1, c1) = Inr (slot e s i, m', c')"
      "slab_rep e m' c' (fr1(s \<mapsto> xs)) (if xs = [] then ps1 else s # ps1)"
      "agree_off (headers (dom fr1)) m1 m'"
      "c' = c1\<lparr>sl_partial := sl_partial c', sl_stats := (sl_stats c1)
        \<lparr>alloc_count := alloc_count (sl_stats c1) + 1, used_bytes := used_bytes (sl_stats c1) + el_size e,
         peak_bytes := max (peak_bytes (sl_stats c1)) (used_bytes (sl_stats c1) + el_size e)\<rparr>\<rparr>"
      by (rule take_step [OF *(3,2,11)])
    have c': "sl_capacity c' = sl_capacity c" "sl_order c' = sl_order c"
      "used_bytes (sl_stats c') = used_bytes (sl_stats c) + el_size e"
      using *(9,10,13) by (subst 2(4), simp)+
    have i: "i < sl_capacity c" "distinct (i # xs)"
      using slab_repD(5,6) [OF *(3,2)] *(9) by auto
    have live: "live_slots c' (fr1(s \<mapsto> xs)) = insert (s, i) (live_slots c fr)" "(s, i) \<notin> live_slots c fr"
      using live_take [of fr1 s "i # xs" xs i c, OF *(2)] i *(7) live_cong [OF c'(1)] by auto
    have fin1: "finite (dom fr1)" using *(3) by (simp add: slab_rep_def)
    have live1: "live_slots c1 (fr1(s \<mapsto> xs)) = insert (s, i) (live_slots c1 fr1)" "(s, i) \<notin> live_slots c1 fr1"
      using live *(7) live_cong [of c' c1] live_cong [of c c1] c'(1) *(9) by auto
    have st: "slab_stats e c fr \<longrightarrow> slab_stats e c' (fr1(s \<mapsto> xs))"
      by (subst 2(4)) (use *(12) slab_stats_take [OF _ fin1 *(2) live1] in blast)
    have d: "insert s (dom fr1) = dom fr1" using *(2) by auto
    have "owned m' p1 B1"
    proof (rule agree_owned [OF *(4) 2(3)])
      show "finite (headers (dom fr1))" using *(3) by (simp add: finite_headers slab_rep_def)
      show "\<exists>a k. B1 a = Some k \<and> x \<in> block_range a k" if "x \<in> headers (dom fr1)" for x
        by (rule header_owned [OF slab_rep_geometry [OF *(3)] _ that]) (use *(6,10) in simp)
    qed
    moreover have "\<forall>a k. B a = Some k \<longrightarrow> (\<forall>x\<in>block_range a k - headers (dom fr1). m' x = m x)"
      using *(8) 2(3) by (simp add: agree_off_def)
    moreover have "slab_alloc alloc_page dealloc_page e (m, p, c) = Inr (Some (slot e s i), m', p1, c')"
      unfolding alloc using *(1) 2(1) by simp
    ultimately show ?thesis
      using 2(2) *(2,5,6) c' live i(1) st
      by - (rule disjI2, rule exI [of _ m'], rule exI [of _ p1], rule exI [of _ c'],
        rule exI [of _ "fr1(s \<mapsto> xs)"], rule exI [of _ B1], rule exI [of _ s], rule exI [of _ i],
        rule exI [of _ "if xs = [] then ps1 else s # ps1"], intro conjI, (simp_all add: d del: fun_upd_apply,
        auto)+)
  qed
qed

lemma slab_dealloc_step:
  assumes rep: "slab_rep e m c fr ps" and stats: "slab_stats e c fr" and own: "owned m p B"
    and sub: "\<forall>s\<in>dom fr. B s = Some (sl_order c)" and can: "can_free p"
    and live: "(s, x) \<in> live_slots c fr"
    and room: "dealloc_count (sl_stats c) < u64_max" "free_bytes (sl_stats c) + el_size e \<le> u64_max"
  shows "\<exists>m' p' c' fr' ps' B'. slab_dealloc dealloc_page e (slot e s x) (m, p, c) = Inr (m', p', c') \<and>
      slab_rep e m' c' fr' ps' \<and> slab_stats e c' fr' \<and> owned m' p' B' \<and> B' \<subseteq>\<^sub>m B \<and>
      (\<forall>s\<in>dom fr'. B' s = Some (sl_order c')) \<and> live_slots c' fr' = live_slots c fr - {(s, x)} \<and>
      (\<forall>a k. B' a = Some k \<longrightarrow>
        (\<forall>y\<in>block_range a k - headers (dom fr) - {slot e s x..<slot e s x + 8}. m' y = m y)) \<and>
      sl_capacity c' = sl_capacity c \<and> sl_order c' = sl_order c"
proof -
  obtain xs where s: "fr s = Some xs" and x: "x < sl_capacity c" "x \<notin> set xs"
    using live by (auto simp: live_slots_def)
  define m1 where "m1 = st32 (s + 8) (sl_capacity c - Suc (length xs)) (st64 s x (st64 (slot e s x) (ld64 m s) m))"
  note geo = slab_rep_geometry [OF rep] and D = slab_repD [OF rep s]
  note unf = slab_dealloc_unfold [OF rep s x, of dealloc_page p, folded m1_def]
  have fin: "finite (dom fr)" using rep by (simp add: slab_rep_def)
  have sz: "8 \<le> el_size e" using geo by (rule capacity_facts)
  note r = slot_range [OF geo x(1), of s]
  let ?cell = "{slot e s x..<slot e s x + 8}" and ?fr = "fr(s \<mapsto> x # xs)"
  have lv: "live_slots c ?fr = live_slots c fr - {(s, x)}" by (rule live_give [of fr s xs, OF s]) simp
  have d: "insert s (dom fr) = dom fr" using s by auto
  have used: "el_size e \<le> used_bytes (sl_stats c)"
  proof -
    have "card (live_slots c fr) \<noteq> 0" using finite_live [OF fin, of c] live by auto
    then show ?thesis using stats by (cases "card (live_slots c fr)") (simp_all add: slab_stats_def)
  qed
  have own_agree: "owned m' p B" if "agree_off (headers (dom fr) \<union> ?cell) m m'" for m'
  proof (rule agree_owned [OF own that])
    show "finite (headers (dom fr) \<union> ?cell)" using fin by (simp add: finite_headers)
    fix y assume "y \<in> headers (dom fr) \<union> ?cell"
    then show "\<exists>a k. B a = Some k \<and> y \<in> block_range a k"
    proof
      assume "y \<in> headers (dom fr)"
      then show ?thesis by (intro header_owned [OF geo]) (use sub in auto)
    next
      assume "y \<in> ?cell"
      then have "y \<in> block_range s (sl_order c)" using r sz block_slab [OF geo] by auto
      moreover have "s \<in> dom fr" using s by blast
      ultimately show ?thesis using sub by blast
    qed
  qed
  text \<open>The two cases that keep the slab.\<close>
  have keep: ?thesis
    if st: "agree_off (headers (dom fr) \<union> ?cell) m m'" "slab_rep e m' (c\<lparr>sl_partial := h\<rparr>) ?fr ps'"
      and run: "slab_dealloc dealloc_page e (slot e s x) (m, p, c) =
        dealloc_tail e (m', p, c\<lparr>sl_partial := h\<rparr>)" for m' h ps'
  proof -
    let ?c = "c\<lparr>sl_partial := h, sl_stats := (sl_stats c)
      \<lparr>dealloc_count := dealloc_count (sl_stats c) + 1,
       used_bytes := used_bytes (sl_stats c) - el_size e,
       free_bytes := free_bytes (sl_stats c) + el_size e\<rparr>\<rparr>"
    have "slab_dealloc dealloc_page e (slot e s x) (m, p, c) = Inr (m', p, ?c)"
      unfolding run using room used by (simp add: dealloc_tail_def)
    moreover have "slab_rep e m' ?c ?fr ps'"
      using st(2) by simp
    moreover have "slab_stats e ?c ?fr"
      by (rule slab_stats_give [OF stats fin live lv]) (use d in simp)
    moreover have "live_slots ?c ?fr = live_slots c fr - {(s, x)}" using lv live_cong [of ?c c] by simp
    moreover have "\<forall>t\<in>dom ?fr. B t = Some (sl_order c)" using sub d by (simp del: fun_upd_apply)
    ultimately show ?thesis
      using own_agree [OF st(1)] st(1)
      by - (rule exI [of _ m'], rule exI [of _ p], rule exI [of _ ?c], rule exI [of _ ?fr],
        rule exI [of _ ps'], rule exI [of _ B], intro conjI,
        (simp_all add: agree_off_def del: fun_upd_apply)+)
  qed
  consider (full) "xs = []" | (last) "xs \<noteq> []" "sl_capacity c = Suc (length xs)"
    | (mid) "xs \<noteq> []" "sl_capacity c \<noteq> Suc (length xs)" by blast
  then show ?thesis
  proof cases
    case full
    obtain m' where 1: "link_partial s (m1, c) = (m', c\<lparr>sl_partial := s\<rparr>)"
      "slab_rep e m' (c\<lparr>sl_partial := s\<rparr>) ?fr (s # ps)" "agree_off (headers (dom fr) \<union> ?cell) m m'"
      by (rule give_link [OF rep s full x, folded m1_def])
    show ?thesis by (rule keep [OF 1(3,2)]) (use unf full 1(1) in simp)
  next
    case mid
    note g = give_keep [OF rep s mid(1) x, folded m1_def]
    have "c\<lparr>sl_partial := sl_partial c\<rparr> = c" by simp
    with g unf mid show ?thesis by (intro keep [of m1 "sl_partial c" ps]) simp_all
  next
    case last
    note g = give_keep [OF rep s last(1) x, folded m1_def]
    obtain m2 h where 2: "unlink_partial s (m1, c) = (m2, c\<lparr>sl_partial := h\<rparr>)"
      "slab_rep e m2 (c\<lparr>sl_partial := h\<rparr>) (?fr(s := None)) (remove1 s ps)"
      "agree_off (headers (dom ?fr)) m1 m2"
      by (rule drop_slab [OF g(1), of s "x # xs"]) simp_all
    have ag: "agree_off (headers (dom fr) \<union> ?cell) m m2"
      using agree_off_trans [OF g(2) agree_off_mono [OF 2(3)]] d by (auto simp del: fun_upd_apply)
    have sB: "B s = Some (sl_order c)" using sub s by blast
    obtain m3 p3 where 3: "dealloc_page s (sl_order c) (m2, p) = Inr (m3, p3)"
      using dealloc_total [OF own_agree [OF ag] can sB] by blast
    note own3 = dealloc_owned [OF own_agree [OF ag] can sB 3]
    have frame3: "m3 y = m2 y" if "(B(s := None)) a = Some k" "y \<in> block_range a k" for a k y
      using dealloc_frame [OF own_agree [OF ag] can sB 3, of a k y] that by (auto split: if_splits)
    let ?fr' = "fr(s := None)"
    have fr': "?fr(s := None) = ?fr'" by auto
    have rep3: "slab_rep e m3 (c\<lparr>sl_partial := h\<rparr>) ?fr' (remove1 s ps)"
      by (rule rep_keep [OF 2(2) [unfolded fr'], of "B(s := None)"]) (use sub frame3 in auto)
    have only: "i = x" if "i < sl_capacity c" "i \<notin> set xs" for i
    proof (rule ccontr)
      assume "i \<noteq> x"
      have "insert i (insert x (set xs)) \<subseteq> {..<sl_capacity c}" using that(1) x(1) D(5) by auto
      then have "card (insert i (insert x (set xs))) \<le> sl_capacity c"
        using card_mono [of "{..<sl_capacity c}"] by fastforce
      then show False using \<open>i \<noteq> x\<close> that(2) x(2) D(6) last(2) by (simp add: distinct_card)
    qed
    have lv': "live_slots c ?fr' = live_slots c fr - {(s, x)}"
    proof -
      have "(t, i) \<in> live_slots c ?fr' \<longleftrightarrow> (t, i) \<in> live_slots c fr - {(s, x)}" for t i
        using s only [of i] by (cases "t = s") (auto simp: live_slots_def)
      then show ?thesis by auto
    qed
    have sd: "s \<in> dom fr" using s by blast
    note drop = slab_stats_drop [OF stats fin live lv' refl sd]
    let ?c = "c\<lparr>sl_partial := h, sl_stats := (sl_stats c)
      \<lparr>total_bytes := total_bytes (sl_stats c) - slab_bytes (sl_order c),
       dealloc_count := dealloc_count (sl_stats c) + 1,
       used_bytes := used_bytes (sl_stats c) - el_size e,
       free_bytes := free_bytes (sl_stats c) - sl_capacity c * el_size e + el_size e\<rparr>\<rparr>"
    have "slab_dealloc dealloc_page e (slot e s x) (m, p, c) = Inr (m3, p3, ?c)"
      unfolding unf using last 2(1) 3 drop(2,3) room used capacity_facts(3) [OF geo]
      by (simp add: dealloc_tail_def)
    moreover have "slab_rep e m3 ?c ?fr' (remove1 s ps)" using rep3 by simp
    moreover have "live_slots ?c ?fr' = live_slots c fr - {(s, x)}" using lv' live_cong [of ?c c] by simp
    moreover have "\<forall>t\<in>dom ?fr'. (B(s := None)) t = Some (sl_order c)" using sub by auto
    moreover have "B(s := None) \<subseteq>\<^sub>m B" by (auto simp: map_le_def)
    moreover have "m3 y = m y"
      if "(B(s := None)) a = Some k" "y \<in> block_range a k - headers (dom fr) - ?cell" for a k y
      using frame3 [OF that(1)] that(2) ag by (simp add: agree_off_def)
    ultimately show ?thesis
      using own3 drop(1)
      by - (rule exI [of _ m3], rule exI [of _ p3], rule exI [of _ ?c], rule exI [of _ ?fr'],
        rule exI [of _ "remove1 s ps"], rule exI [of _ "B(s := None)"], intro conjI,
        (simp_all del: fun_upd_apply)+)
  qed
qed

end

end
