(* ===== verification/Slab_Theorems.thy ===== *)
theory Slab_Theorems
  imports Slab_Correct Buddy_Provider Buddy_Theorems
begin

text \<open>
  The slab allocator on the buddy allocator, as \<open>SlabCacheInner::new\<close> wires it: the buddy allocator
  provides the pages, and the properties of the slab cache rest on the facts of that
  interpretation.
\<close>

subsection \<open>Objects\<close>

text \<open>
  A cache in use: its representation, exact statistics, and its slabs among the blocks \<open>B\<close> that
  the buddy allocator has handed out.
\<close>

definition slab_cache_inv ::
  "elem \<Rightarrow> mem \<Rightarrow> buddy \<Rightarrow> slab_cache \<Rightarrow> (nat \<rightharpoonup> nat) \<Rightarrow> (nat \<rightharpoonup> nat list) \<Rightarrow> bool" where
  "slab_cache_inv e m b c B fr \<longleftrightarrow> (\<exists>ps. slab_rep e m c fr ps) \<and> slab_stats e c fr \<and>
     buddy_owned m b B \<and> (\<forall>s\<in>dom fr. B s = Some (sl_order c))"

definition obj_bytes :: "elem \<Rightarrow> nat \<Rightarrow> nat set" where
  "obj_bytes e a = {a..<a + el_size e}"

lemma slab_cache_invE:
  assumes "slab_cache_inv e m b c B fr"
  obtains ps where "slab_rep e m c fr ps" and "slab_stats e c fr" and "buddy_owned m b B"
    and "\<forall>s\<in>dom fr. B s = Some (sl_order c)"
  using assms by (auto simp: slab_cache_inv_def)

lemma slot_aligned:
  assumes "elem_ok e" and "el_align e dvd s"
  shows "el_align e dvd slot e s i"
  using assms header_stride_facts(2) [OF assms(1)] by (simp add: slot_def elem_ok_def)

lemma live_slotD:
  assumes "slab_rep e m c fr ps" and "(s, i) \<in> live_slots c fr"
  shows "slab_bytes (sl_order c) dvd s" and "i < sl_capacity c" and "s \<in> dom fr"
    and "obj_bytes e (slot e s i) \<subseteq> {s + 32..<s + slab_bytes (sl_order c)}"
proof -
  obtain xs where s: "fr s = Some xs" and i: "i < sl_capacity c" using assms(2) by (auto simp: live_slots_def)
  then show "slab_bytes (sl_order c) dvd s" "i < sl_capacity c" "s \<in> dom fr"
    using slab_repD(1) [OF assms(1)] by auto
  show "obj_bytes e (slot e s i) \<subseteq> {s + 32..<s + slab_bytes (sl_order c)}"
    using slot_range [OF slab_rep_geometry [OF assms(1)] i, of s] by (auto simp: obj_bytes_def)
qed

lemma slots_disjoint:
  assumes "slab_rep e m c fr ps" and "(s, i) \<in> live_slots c fr" and "(t, j) \<in> live_slots c fr"
    and "(s, i) \<noteq> (t, j)"
  shows "obj_bytes e (slot e s i) \<inter> obj_bytes e (slot e t j) = {}"
proof (cases "s = t")
  case True
  with assms(4) slot_apart [of i j e s] show ?thesis by (auto simp: obj_bytes_def)
next
  case False
  note a = live_slotD [OF assms(1,2)] and b = live_slotD [OF assms(1,3)]
  have "x \<notin> obj_bytes e (slot e t j)" if "x \<in> obj_bytes e (slot e s i)" for x
  proof
    assume "x \<in> obj_bytes e (slot e t j)"
    with that a(4) b(4) have "s + 32 \<le> x" "x < s + slab_bytes (sl_order c)" "t + 32 \<le> x"
      "x < t + slab_bytes (sl_order c)" by (meson atLeastLessThan_iff subsetD)+
    then have "s = t"
      by (intro other_block [OF slab_rep_geometry [OF assms(1)] a(1) b(1), of x]) simp_all
    with False show False ..
  qed
  then show ?thesis by blast
qed

lemma obj_off_headers:
  assumes "slab_rep e m c fr ps" and "(s, i) \<in> live_slots c fr"
  shows "obj_bytes e (slot e s i) \<inter> headers (dom fr) = {}"
    and "obj_bytes e (slot e s i) \<subseteq> block_range s (sl_order c)"
proof -
  note geo = slab_rep_geometry [OF assms(1)] and a = live_slotD [OF assms]
  show "obj_bytes e (slot e s i) \<subseteq> block_range s (sl_order c)"
    using a(4) block_slab [OF geo] by auto
  have "x \<notin> headers (dom fr)" if "x \<in> obj_bytes e (slot e s i)" for x
  proof
    assume "x \<in> headers (dom fr)"
    then obtain t where t: "t \<in> dom fr" "t \<le> x" "x < t + 32" by (auto simp: headers_def)
    then have d: "slab_bytes (sl_order c) dvd t" using slab_repD(1) [OF assms(1)] by auto
    have x: "s + 32 \<le> x" "x < s + slab_bytes (sl_order c)" using a(4) that by auto
    have "s = t" using t x geometry_big [OF geo] by (intro other_block [OF geo a(1) d, of x]) auto
    with t x show False by simp
  qed
  then show "obj_bytes e (slot e s i) \<inter> headers (dom fr) = {}" by blast
qed

subsection \<open>Properties\<close>


definition demo_elem :: elem where
  "demo_elem = \<lparr>el_size = 64, el_align = 8\<rparr>"

definition demo_cache :: slab_cache where
  "demo_cache = \<lparr>sl_order = 0, sl_capacity = 63, sl_partial = 0, sl_stats = zero_stats\<rparr>"

lemma header_stride_8: "el_align e \<le> 8 \<Longrightarrow> header_stride e = 32"
  using and_not_mask [of 39 3] by (simp add: header_stride_def Let_def u64_max_def)

lemma demo_geometry: "slab_geometry demo_elem demo_cache" "elem_ok demo_elem"
proof -
  have "2 ^ 3 = (8::nat)" by simp
  then show "elem_ok demo_elem" by (auto simp: elem_ok_def demo_elem_def intro!: exI [of _ 3])
  moreover have "header_stride demo_elem = 32" by (rule header_stride_8) (simp add: demo_elem_def)
  moreover have "slab_bytes 0 = 4096" by (simp add: slab_bytes_eq BUDDY_MAX_ORDER_def PAGE_SIZE_def)
  ultimately show "slab_geometry demo_elem demo_cache"
    by (simp add: slab_geometry_def capacity_for_def demo_cache_def demo_elem_def BUDDY_MAX_ORDER_def)
qed

lemma demo_cache_inv: "slab_cache_inv demo_elem demo_mem demo_buddy demo_cache Map.empty Map.empty"
proof -
  have "client_inv {0..<4} (demo_mem, demo_buddy, Map.empty)"
    using demo_facts by (intro client_inv_init)
  then have "buddy_owned demo_mem demo_buddy Map.empty" by (auto simp: buddy_owned_def)
  moreover have "slab_rep demo_elem demo_mem demo_cache Map.empty []"
    using demo_geometry by (simp add: slab_rep_def) (simp add: demo_cache_def)
  moreover have "slab_stats demo_elem demo_cache Map.empty"
    by (simp add: slab_stats_def live_slots_def demo_cache_def zero_stats_def)
  ultimately show ?thesis by (auto simp: slab_cache_inv_def)
qed

lemma demo_room: "slab_room demo_elem demo_cache"
  by (simp add: slab_room_def demo_cache_def demo_elem_def zero_stats_def u64_max_def slab_bytes_eq
      BUDDY_MAX_ORDER_def PAGE_SIZE_def)

lemma demo_can: "can_alloc demo_buddy" "can_free demo_buddy"
  by (simp_all add: can_alloc_def can_free_def demo_facts u64_max_def)



lemma demo_grown:
  obtains s m b c where "slab_cache_inv demo_elem m b c [s \<mapsto> 0] [s \<mapsto> [1..<63]]"
    and "live_objs demo_elem c [s \<mapsto> [1..<63]] = {slot demo_elem s 0}"
    and "slab_alloc alloc_pages dealloc_pages demo_elem (demo_mem, demo_buddy, demo_cache)
      = Inr (Some (slot demo_elem s 0), m, b, c)"
    and "can_free b" and "dealloc_count (sl_stats c) = 0" and "free_bytes (sl_stats c) = 4032"
proof -
  obtain ps where rep: "slab_rep demo_elem demo_mem demo_cache Map.empty ps"
    and st: "slab_stats demo_elem demo_cache Map.empty"
    and own: "buddy_owned demo_mem demo_buddy Map.empty"
    using demo_cache_inv by (auto elim: slab_cache_invE)
  have k: "0 < BUDDY_MAX_ORDER" by (simp add: BUDDY_MAX_ORDER_def)
  have cnt: "alloc_count (bd_stats demo_buddy) < u64_max" using demo_can by (simp add: can_alloc_def)
  obtain i m1 b1 where a: "alloc_pages 0 (demo_mem, demo_buddy) = Inr (Some (page_addr demo_buddy i), m1, b1)"
    by (rule demo_alloc [of 0]) simp
  have small: "page_addr demo_buddy i + 2 ^ 0 * PAGE_SIZE \<le> u64_max"
    using bp.alloc_some [OF own demo_can(1) k a] by blast
  have sb: "slab_bytes (sl_order demo_cache) = 4096"
    by (simp add: demo_cache_def slab_bytes_eq BUDDY_MAX_ORDER_def PAGE_SIZE_def)
  have "4096 dvd page_addr demo_buddy i"
    by (simp add: demo_page_addr PAGE_SIZE_def)
  then have al: "and_not (page_addr demo_buddy i) (4096 - 1) = page_addr demo_buddy i"
    using aligned_check [OF demo_geometry(1), of "page_addr demo_buddy i"] small sb by simp
  have notnone: "slab_grow alloc_pages dealloc_pages demo_elem (demo_mem, demo_buddy, demo_cache) \<noteq> Inr (None, m', b', c')"
    for m' b' c'
    using a al by (simp add: slab_grow_def sb)
      (simp add: demo_cache_def res_elims split: prod.splits)
  have bf: "can_free b1" using bp.alloc_can_free [OF own demo_can(1) k a] demo_can(2) by simp
  obtain s m2 b2 c2 where g: "slab_grow alloc_pages dealloc_pages demo_elem (demo_mem, demo_buddy, demo_cache)
      = Inr (Some (), m2, b2, c2)"
    "slab_rep demo_elem m2 c2 [s \<mapsto> [0..<63]] (s # ps)" "buddy_owned m2 b2 [s \<mapsto> 0]"
    "c2 = demo_cache\<lparr>sl_partial := s, sl_stats := (sl_stats demo_cache)
      \<lparr>total_bytes := total_bytes (sl_stats demo_cache) + slab_bytes (sl_order demo_cache),
       free_bytes := free_bytes (sl_stats demo_cache) + sl_capacity demo_cache * el_size demo_elem\<rparr>\<rparr>"
    using bp.grow_step [OF rep own _ demo_can demo_room] notnone
    by (auto simp: demo_cache_def)
  have cap2: "sl_capacity c2 = 63" "take_room demo_elem c2" "slab_stats demo_elem c2 [s \<mapsto> [0..<63]]"
    using slab_stats_grow [OF st, of s s] demo_room
    by (simp_all add: g(4) take_room_grown) (simp_all add: demo_cache_def)
  have up: "[0..<63] = 0 # [1..<63]" by (simp add: upt_conv_Cons)
  have fr: "[s \<mapsto> [0..<63]] s = Some (0 # [1..<63])" by (simp add: up)
  obtain m3 c3 where t: "slab_take demo_elem (m2, c2) = Inr (slot demo_elem s 0, m3, c3)"
    "slab_rep demo_elem m3 c3 ([s \<mapsto> [0..<63]](s \<mapsto> [1..<63])) (if [1..<63] = ([]::nat list) then ps else s # ps)"
    "agree_off (headers (dom [s \<mapsto> [0..<63]])) m2 m3"
    "c3 = c2\<lparr>sl_partial := sl_partial c3, sl_stats := (sl_stats c2)
      \<lparr>alloc_count := alloc_count (sl_stats c2) + 1, used_bytes := used_bytes (sl_stats c2) + el_size demo_elem,
       peak_bytes := max (peak_bytes (sl_stats c2)) (used_bytes (sl_stats c2) + el_size demo_elem)\<rparr>\<rparr>"
    by (rule take_step [OF g(2) fr cap2(2)])
  have lv: "live_slots c2 ([s \<mapsto> [0..<63]](s \<mapsto> [1..<63])) = insert (s, 0) (live_slots c2 [s \<mapsto> [0..<63]])"
    "(s, 0) \<notin> live_slots c2 [s \<mapsto> [0..<63]]"
    using live_take [of "[s \<mapsto> [0..<63]]" s "0 # [1..<63]" "[1..<63]" 0 c2, OF fr] cap2(1)
    by (auto simp del: fun_upd_apply)
  have lv0: "live_slots c2 [s \<mapsto> [0..<63]] = {}" using cap2(1) by (auto simp: live_slots_def split: if_splits)
  have c3: "sl_order c3 = 0" "sl_capacity c3 = 63" "dealloc_count (sl_stats c3) = 0" "free_bytes (sl_stats c3) = 4032"
    by (subst t(4), simp add: g(4) demo_cache_def zero_stats_def demo_elem_def)+
  have st3: "slab_stats demo_elem c3 [s \<mapsto> [1..<63]]"
    by (subst t(4)) (use slab_stats_take [OF cap2(3) _ fr lv] in simp)
  have own3: "buddy_owned m3 b2 [s \<mapsto> 0]"
  proof (rule bp.agree_owned [OF g(3) t(3)])
    show "finite (headers (dom [s \<mapsto> [0..<63]]))" by (simp add: headers_def)
    show "\<exists>a k. [s \<mapsto> 0] a = Some k \<and> x \<in> block_range a k" if "x \<in> headers (dom [s \<mapsto> [0..<63]])" for x
      using that by (intro exI [of _ s] exI [of _ 0]) (auto simp: headers_def block_range_def PAGE_SIZE_def)
  qed
  have "b2 = b1"
    using g(1) a al by (simp add: slab_grow_def sb)
      (auto simp: demo_cache_def res_elims link_partial_def split: prod.splits)
  moreover have "slab_cache_inv demo_elem m3 b2 c3 [s \<mapsto> 0] [s \<mapsto> [1..<63]]"
    using t(2) st3 own3 c3(1) by (auto simp: slab_cache_inv_def)
  moreover have "live_objs demo_elem c3 [s \<mapsto> [1..<63]] = {slot demo_elem s 0}"
    using lv lv0 live_cong [of c3 c2] c3(2) cap2(1) by (simp add: live_objs_def)
  moreover have "slab_alloc alloc_pages dealloc_pages demo_elem (demo_mem, demo_buddy, demo_cache)
      = Inr (Some (slot demo_elem s 0), m3, b2, c3)"
    using g(1) t(1) by (simp add: slab_alloc_def) (simp add: demo_cache_def)
  ultimately show thesis using that bf c3 by blast
qed




text \<open>
  The cache's \<open>free_bytes\<close> statistic drifts: \<open>alloc\<close> never takes the object's bytes out of it
  while \<open>dealloc\<close> puts them in. In every reachable state it exceeds the free bytes really there,
  by one object for every object live and every deallocation ever made.
\<close>
theorem slab_free_bytes_drift:
  assumes "slab_cache_inv e m b c B fr"
  shows "free_bytes (sl_stats c) =
    (\<Sum>s\<in>dom fr. length (the (fr s)) * el_size e) +
    (card (live_objs e c fr) + dealloc_count (sl_stats c)) * el_size e"
proof -
  obtain ps where rep: "slab_rep e m c fr ps" and st: "slab_stats e c fr"
    using assms by (rule slab_cache_invE)
  have fin: "finite (dom fr)" using rep by (simp add: slab_rep_def)
  have "live_slots c fr = (SIGMA s:dom fr. {..<sl_capacity c} - set (the (fr s)))"
    by (auto simp: live_slots_def)
  then have "card (live_slots c fr) = (\<Sum>s\<in>dom fr. card ({..<sl_capacity c} - set (the (fr s))))"
    using fin by simp
  also have "\<dots> = (\<Sum>s\<in>dom fr. sl_capacity c - length (the (fr s)))"
  proof (rule sum.cong)
    fix s assume "s \<in> dom fr"
    then obtain xs where xs: "fr s = Some xs" by blast
    note D = slab_repD [OF rep xs]
    show "card ({..<sl_capacity c} - set (the (fr s))) = sl_capacity c - length (the (fr s))"
      using D(5,6) xs by (simp add: card_Diff_subset distinct_card)
  qed simp
  finally have lv: "card (live_slots c fr) = (\<Sum>s\<in>dom fr. sl_capacity c - length (the (fr s)))" .
  have "(\<Sum>s\<in>dom fr. length (the (fr s))) + card (live_slots c fr) = card (dom fr) * sl_capacity c"
  proof -
    have "(\<Sum>s\<in>dom fr. length (the (fr s)) + (sl_capacity c - length (the (fr s)))) = (\<Sum>s\<in>dom fr. sl_capacity c)"
    proof (rule sum.cong)
      fix s assume "s \<in> dom fr"
      then obtain xs where "fr s = Some xs" by blast
      with slab_repD(7) [OF rep this] show "length (the (fr s)) + (sl_capacity c - length (the (fr s))) = sl_capacity c"
        by simp
    qed simp
    then show ?thesis unfolding lv by (simp add: sum.distrib)
  qed
  moreover have "card (live_objs e c fr) = card (live_slots c fr)"
  proof -
    have "inj_on (\<lambda>(s, i). slot e s i) (live_slots c fr)"
    proof (rule inj_onI, clarify)
      fix s i t j assume *: "(s, i) \<in> live_slots c fr" "(t, j) \<in> live_slots c fr" "slot e s i = slot e t j"
      have sz: "8 \<le> el_size e" by (rule capacity_facts(4) [OF slab_rep_geometry [OF rep]])
      then have "slot e s i \<in> obj_bytes e (slot e s i) \<inter> obj_bytes e (slot e t j)"
        using *(3) by (simp add: obj_bytes_def)
      then show "s = t \<and> i = j" using slots_disjoint [OF rep *(1,2)] by fastforce
    qed
    then show ?thesis unfolding live_objs_def by (rule card_image)
  qed
  ultimately have "card (dom fr) * sl_capacity c
      = (\<Sum>s\<in>dom fr. length (the (fr s))) + card (live_objs e c fr)" by simp
  then have "card (dom fr) * (sl_capacity c * el_size e)
      = ((\<Sum>s\<in>dom fr. length (the (fr s))) + card (live_objs e c fr)) * el_size e"
    by (metis mult.assoc)
  then show ?thesis
    using st by (simp add: slab_stats_def distrib_right sum_distrib_right)
qed

lemma slab_free_bytes_drift_witness:
  "\<exists>s m b c. slab_alloc alloc_pages dealloc_pages demo_elem (demo_mem, demo_buddy, demo_cache)
      = Inr (Some (slot demo_elem s 0), m, b, c) \<and> free_bytes (sl_stats c) = 62 * 64 + 64"
proof (rule demo_grown)
  fix s m b c
  assume *: "slab_cache_inv demo_elem m b c [s \<mapsto> 0] [s \<mapsto> [1..<63]]"
    "live_objs demo_elem c [s \<mapsto> [1..<63]] = {slot demo_elem s 0}"
    "slab_alloc alloc_pages dealloc_pages demo_elem (demo_mem, demo_buddy, demo_cache)
      = Inr (Some (slot demo_elem s 0), m, b, c)" "dealloc_count (sl_stats c) = 0"
  have "free_bytes (sl_stats c) = 62 * 64 + 64"
    using slab_free_bytes_drift [OF *(1)] *(2,4) by (simp add: demo_elem_def)
  with *(3) show ?thesis by blast
qed

text \<open>
  The compile-time guard \<open>assert_slab_compatible\<close> accepts types whose slots cannot hold an
  aligned link: a 9-byte type of alignment 1 passes it and \<open>new\<close>, and its second slot, where the
  allocator reads and writes a \<open>usize\<close> link, lies 41 bytes after the 4 KiB-aligned slab base.
\<close>
theorem slab_guard_admits_misaligned_links:
  "assert_slab_compatible \<lparr>el_size = 9, el_align = 1\<rparr> = Inr () \<and>
   (\<exists>c. slab_new \<lparr>el_size = 9, el_align = 1\<rparr> 0 = Inr c \<and> sl_capacity c = 451) \<and>
   slot_addr \<lparr>el_size = 9, el_align = 1\<rparr> 4096 1 = Inr 4137 \<and> 4137 mod 8 \<noteq> (0::nat)"
proof -
  have sb: "slab_bytes 0 = 4096" by (simp add: slab_bytes_eq BUDDY_MAX_ORDER_def PAGE_SIZE_def)
  have "capacity_for \<lparr>el_size = 9, el_align = 1\<rparr> 0 = 451"
    by (simp add: capacity_for_def Let_def header_stride_8 sb)
  then show ?thesis
    by (simp add: assert_slab_compatible_def slab_new_def slot_addr_def header_stride_8 PAGE_SIZE_def u64_max_def)
qed

end
