(* ===== verification/Bitwise.thy ===== *)
theory Bitwise
  imports Prelude
begin

text \<open>
  The \<^verbatim>\<open>bitwise\<close> crate, which is not part of the repository: a record of the functions and
  constants the kernel calls, passed to every definition that uses them. \<open>bitwise_laws\<close> is what
  the kernel relies on, the documented x86-64 page-table entry format seen through the crate's
  functions; \<open>x86_bits\<close> is a concrete instance, which satisfies the laws.
\<close>

record bitwise =
  pf_PRESENT :: nat
  pf_WRITABLE :: nat
  pf_NO_EXECUTE :: nat
  pf_HUGE_PAGE :: nat
  pf_GLOBAL :: nat
  pf_CACHE_DISABLE :: nat
  pf_WRITE_THROUGH :: nat
  pf_PAT :: nat
  pte_encode :: "nat \<Rightarrow> nat \<Rightarrow> nat \<Rightarrow> nat"
  pte_is_present :: "nat \<Rightarrow> bool"
  pte_is_huge :: "nat \<Rightarrow> bool"
  pte_phys_addr :: "nat \<Rightarrow> nat \<Rightarrow> nat"
  vaddr_pt_index :: "nat \<Rightarrow> nat \<Rightarrow> nat"
  align_down :: "nat \<Rightarrow> nat \<Rightarrow> nat"
  align_up :: "nat \<Rightarrow> nat \<Rightarrow> nat"

definition flag_list :: "bitwise \<Rightarrow> nat list" where
  "flag_list w =
     [pf_PRESENT w, pf_WRITABLE w, pf_NO_EXECUTE w, pf_HUGE_PAGE w, pf_GLOBAL w,
      pf_CACHE_DISABLE w, pf_WRITE_THROUGH w, pf_PAT w]"

definition or_all :: "nat list \<Rightarrow> nat" where
  "or_all fs = foldr (OR) fs 0"

definition page_sizes :: "nat set" where
  "page_sizes = {2 ^ 12, 2 ^ 21, 2 ^ 30}"

definition phys_limit :: nat where
  "phys_limit = 2 ^ 51"

text \<open>
  No entry reads an address beyond the physical address space, and 0 is not present. A present entry built from an address aligned to the page size and some of the flags reads back
  as built; an index at a level is the nine bits of the address there; aligning rounds.
\<close>

definition entry_laws :: "bitwise \<Rightarrow> bool" where
  "entry_laws w \<longleftrightarrow>
     (\<forall>p sz fs. sz \<in> page_sizes \<longrightarrow> p mod sz = 0 \<longrightarrow> p < phys_limit \<longrightarrow> set fs \<subseteq> set (flag_list w) \<longrightarrow>
        pf_PRESENT w \<in> set fs \<longrightarrow>
        pte_is_present w (pte_encode w p sz (or_all fs)) \<and>
        pte_phys_addr w (pte_encode w p sz (or_all fs)) sz = p \<and>
        pte_encode w p sz (or_all fs) \<le> u64_max \<and>
        (pf_HUGE_PAGE w \<in> set fs \<longrightarrow> pte_is_huge w (pte_encode w p sz (or_all fs))) \<and>
        (pf_HUGE_PAGE w \<notin> set fs \<longrightarrow> pf_PAT w \<notin> set fs \<longrightarrow>
           \<not> pte_is_huge w (pte_encode w p sz (or_all fs)))) \<and>
     \<not> pte_is_present w 0 \<and> (\<forall>e sz. pte_phys_addr w e sz < phys_limit) \<and>
     pf_PRESENT w \<notin> {pf_HUGE_PAGE w, pf_PAT w} \<and> pf_WRITABLE w \<notin> {pf_HUGE_PAGE w, pf_PAT w}"

definition index_laws :: "bitwise \<Rightarrow> bool" where
  "index_laws w \<longleftrightarrow>
     (\<forall>v l. 1 \<le> l \<longrightarrow> l \<le> 4 \<longrightarrow> vaddr_pt_index w v l = v div 2 ^ (12 + 9 * (l - 1)) mod 512)"

definition align_laws :: "bitwise \<Rightarrow> bool" where
  "align_laws w \<longleftrightarrow>
     (\<forall>k x. x + 2 ^ k \<le> u64_max \<longrightarrow>
        align_down w x (2 ^ k) = x div 2 ^ k * 2 ^ k \<and>
        align_up w x (2 ^ k) = (x + 2 ^ k - 1) div 2 ^ k * 2 ^ k)"

definition bitwise_laws :: "bitwise \<Rightarrow> bool" where
  "bitwise_laws w \<longleftrightarrow> entry_laws w \<and> index_laws w \<and> align_laws w"

lemma encode_laws:
  assumes "bitwise_laws w" and "sz \<in> page_sizes" and "p mod sz = 0" and "p < phys_limit"
    and "set fs \<subseteq> set (flag_list w)" and "pf_PRESENT w \<in> set fs"
  shows "pte_is_present w (pte_encode w p sz (or_all fs))"
    and "pte_phys_addr w (pte_encode w p sz (or_all fs)) sz = p"
    and "pte_encode w p sz (or_all fs) \<le> u64_max"
    and "pf_HUGE_PAGE w \<in> set fs \<Longrightarrow> pte_is_huge w (pte_encode w p sz (or_all fs))"
    and "pf_HUGE_PAGE w \<notin> set fs \<Longrightarrow> pf_PAT w \<notin> set fs \<Longrightarrow> \<not> pte_is_huge w (pte_encode w p sz (or_all fs))"
  using assms unfolding bitwise_laws_def entry_laws_def by simp_all

lemma bitwise_lawsD:
  assumes "bitwise_laws w"
  shows "\<not> pte_is_present w 0" and "pte_phys_addr w e sz < phys_limit"
    and "1 \<le> l \<Longrightarrow> l \<le> 4 \<Longrightarrow> vaddr_pt_index w v l = v div 2 ^ (12 + 9 * (l - 1)) mod 512"
    and "pf_PRESENT w \<notin> {pf_HUGE_PAGE w, pf_PAT w}" and "pf_WRITABLE w \<notin> {pf_HUGE_PAGE w, pf_PAT w}"
  using assms by (simp_all add: bitwise_laws_def entry_laws_def index_laws_def)

subsection \<open>The x86-64 instance\<close>

definition x86_bits :: bitwise where
  "x86_bits = \<lparr>
     pf_PRESENT = 2 ^ 0, pf_WRITABLE = 2 ^ 1, pf_NO_EXECUTE = 2 ^ 63, pf_HUGE_PAGE = 2 ^ 7,
     pf_GLOBAL = 2 ^ 8, pf_CACHE_DISABLE = 2 ^ 4, pf_WRITE_THROUGH = 2 ^ 3, pf_PAT = 2 ^ 7,
     pte_encode = (\<lambda>p sz f. p OR f),
     pte_is_present = (\<lambda>e. bit e 0),
     pte_is_huge = (\<lambda>e. bit e 7),
     pte_phys_addr = (\<lambda>e sz. e mod 2 ^ 51 div sz * sz),
     vaddr_pt_index = (\<lambda>v l. v div 2 ^ (12 + 9 * (l - 1)) mod 512),
     align_down = (\<lambda>x a. x div a * a),
     align_up = (\<lambda>x a. (x + a - 1) div a * a)\<rparr>"

lemma bit_or_all: "bit (or_all fs) n \<longleftrightarrow> (\<exists>f\<in>set fs. bit f n)"
  by (induction fs) (auto simp: or_all_def bit_or_iff)

lemma bit_pow2_nat: "bit ((2::nat) ^ k) n \<longleftrightarrow> n = k"
  by (auto simp: bit_exp_iff)

lemma x86_flags:
  assumes "f \<in> set (flag_list x86_bits)"
  obtains k where "f = 2 ^ k" and "k < 12 \<or> k = 63" and "k = 7 \<longrightarrow> f = pf_HUGE_PAGE x86_bits"
proof -
  have "f = 2 ^ 0 \<or> f = 2 ^ 1 \<or> f = 2 ^ 63 \<or> f = 2 ^ 7 \<or> f = 2 ^ 8 \<or> f = 2 ^ 4 \<or> f = 2 ^ 3"
    using assms by (simp only: flag_list_def x86_bits_def bitwise.simps set_simps insert_iff empty_iff) blast
  then show thesis
    by (elim disjE) (rule that, assumption, simp, simp add: x86_bits_def)+
qed

lemma x86_flag_bits:
  assumes "set fs \<subseteq> set (flag_list x86_bits)" and "bit (or_all fs) n"
  shows "n < 12 \<or> n = 63"
proof -
  obtain f where f: "f \<in> set fs" "bit f n" using assms(2) by (auto simp: bit_or_all)
  with assms(1) have "f \<in> set (flag_list x86_bits)" by auto
  then obtain k where "f = 2 ^ k" "k < 12 \<or> k = 63" by (rule x86_flags)
  with f(2) show ?thesis by (simp only: bit_pow2_nat)
qed

lemma x86_entry:
  assumes "sz = 2 ^ k" and "12 \<le> k" and "k \<le> 51" and "p mod sz = 0" and "p < 2 ^ 51"
    and "set fs \<subseteq> set (flag_list x86_bits)"
  shows "(p OR or_all fs) mod 2 ^ 51 div sz * sz = p" and "p OR or_all fs \<le> u64_max"
    and "n < 12 \<Longrightarrow> bit (p OR or_all fs) n \<longleftrightarrow> bit (or_all fs) n"
proof -
  have lo: "\<not> bit p n" if "n < k" for n
  proof -
    have "take_bit k p = 0" using assms(1,4) by (simp add: take_bit_eq_mod)
    then have "\<not> bit (take_bit k p) n" by simp
    with that show ?thesis by (simp add: bit_take_bit_iff)
  qed
  have hi: "n < 51" if "bit p n" for n
  proof -
    have "take_bit 51 p = p" using assms(5) by (simp add: take_bit_nat_eq_self)
    with that show ?thesis by (metis bit_take_bit_iff)
  qed
  note fl = x86_flag_bits [OF assms(6)]
  have "push_bit k (drop_bit k (take_bit 51 (p OR or_all fs))) = p"
  proof (rule bit_eqI)
    fix n
    have "bit (or_all fs) n \<Longrightarrow> k \<le> n \<Longrightarrow> n < 51 \<Longrightarrow> False" using fl [of n] assms(2) by auto
    then show "bit (push_bit k (drop_bit k (take_bit 51 (p OR or_all fs)))) n \<longleftrightarrow> bit p n"
      using lo [of n] hi [of n]
      by (cases "k \<le> n") (auto simp: bit_push_bit_iff bit_drop_bit_eq bit_take_bit_iff bit_or_iff)
  qed
  then show "(p OR or_all fs) mod 2 ^ 51 div sz * sz = p"
    by (simp add: assms(1) take_bit_eq_mod drop_bit_eq_div push_bit_eq_mult)
  have "take_bit 64 (p OR or_all fs) = p OR or_all fs"
  proof (rule bit_eqI)
    fix n
    show "bit (take_bit 64 (p OR or_all fs)) n \<longleftrightarrow> bit (p OR or_all fs) n"
      using hi [of n] fl [of n] by (auto simp: bit_take_bit_iff bit_or_iff)
  qed
  then have "p OR or_all fs < 2 ^ 64" by (metis take_bit_nat_less_exp)
  then show "p OR or_all fs \<le> u64_max" by (simp add: u64_max_def)
  show "bit (p OR or_all fs) n \<longleftrightarrow> bit (or_all fs) n" if "n < 12"
    using lo that assms(2) by (simp add: bit_or_iff)
qed

lemma x86_laws: "bitwise_laws x86_bits"
proof -
  have "entry_laws x86_bits"
    unfolding entry_laws_def
  proof (intro conjI allI impI)
    fix p sz :: nat and fs
    assume a: "sz \<in> page_sizes" "p mod sz = 0" "p < phys_limit" "set fs \<subseteq> set (flag_list x86_bits)"
      "pf_PRESENT x86_bits \<in> set fs"
    obtain k where k: "sz = 2 ^ k" "12 \<le> k" "k \<le> 51"
    proof -
      from a(1) have "sz = 2 ^ 12 \<or> sz = 2 ^ 21 \<or> sz = 2 ^ 30" by (simp add: page_sizes_def)
      then show thesis by (elim disjE) (rule that, assumption, simp, simp)+
    qed
    note e = x86_entry [OF k a(2) a(3) [unfolded phys_limit_def] a(4)]
    let ?e = "pte_encode x86_bits p sz (or_all fs)"
    show "pte_phys_addr x86_bits ?e sz = p" "?e \<le> u64_max"
      using e(1,2) by (simp_all add: x86_bits_def)
    have bits: "bit ?e n \<longleftrightarrow> (\<exists>f\<in>set fs. bit f n)" if "n < 12" for n
      using e(3) [OF that] by (simp add: x86_bits_def bit_or_all)
    have "pf_PRESENT x86_bits = 2 ^ 0" by (simp add: x86_bits_def)
    with a(5) have "\<exists>f\<in>set fs. bit f 0" by (metis bit_pow2_nat)
    then have "bit ?e 0" using bits [of 0] by simp
    then show "pte_is_present x86_bits ?e" by (simp add: x86_bits_def)
    have huge: "pte_is_huge x86_bits ?e \<longleftrightarrow> (\<exists>f\<in>set fs. bit f 7)"
      using bits [of 7] by (simp add: x86_bits_def)
    show "pte_is_huge x86_bits ?e" if "pf_HUGE_PAGE x86_bits \<in> set fs"
      using that unfolding huge by (rule bexI [rotated]) (simp only: x86_bits_def bitwise.simps bit_pow2_nat)
    show "\<not> pte_is_huge x86_bits ?e" if "pf_HUGE_PAGE x86_bits \<notin> set fs" "pf_PAT x86_bits \<notin> set fs"
    proof
      assume "pte_is_huge x86_bits ?e"
      then obtain f where f: "f \<in> set fs" "bit f 7" by (auto simp: huge)
      with a(4) have "f \<in> set (flag_list x86_bits)" by auto
      then obtain k where "f = 2 ^ k" "k = 7 \<longrightarrow> f = pf_HUGE_PAGE x86_bits" by (rule x86_flags)
      with f(2) have "f = pf_HUGE_PAGE x86_bits" by (simp only: bit_pow2_nat)
      with f(1) that show False by (simp add: x86_bits_def)
    qed
  next
    fix e sz :: nat
    have "e mod 2 ^ 51 div sz * sz \<le> e mod 2 ^ 51" by (rule div_times_less_eq_dividend)
    also have "\<dots> < 2 ^ 51" by simp
    finally show "pte_phys_addr x86_bits e sz < phys_limit" by (simp add: x86_bits_def phys_limit_def)
  qed (simp_all add: x86_bits_def)
  moreover have "index_laws x86_bits" by (simp add: index_laws_def x86_bits_def)
  moreover have "align_laws x86_bits" by (simp add: align_laws_def x86_bits_def)
  ultimately show ?thesis by (simp add: bitwise_laws_def)
qed

end
