(* ===== verification/Mantle.thy ===== *)
theory Mantle
  imports Bitwise Buddy
begin

text \<open>
  The page-table crate \<^verbatim>\<open>mantle\<close>: protections (\<^verbatim>\<open>prot.rs\<close>), a table as 512 entries in memory
  (\<^verbatim>\<open>table.rs\<close>), the walker (\<^verbatim>\<open>walker.rs\<close>) and the construction of the kernel's own tables
  (\<^verbatim>\<open>pml4.rs\<close>). The state \<open>mmu\<close> is the memory, the buddy allocator that supplies table frames,
  the registers the code writes (\<open>CR3\<close>, the \<open>PAT\<close> register) and the list of \<open>invlpg\<close>
  invalidations, newest first. Entries and addresses are natural numbers in checked 64-bit
  arithmetic; the entry format is the parameter \<open>w :: bitwise\<close>.
\<close>

record mmu =
  mu_mem :: mem
  mu_frames :: buddy
  mu_cr3 :: nat
  mu_pat :: nat
  mu_invlpg :: "nat list"

subsection \<open>Protections\<close>

definition KERNEL_RO :: "bitwise \<Rightarrow> nat" where
  "KERNEL_RO w = pf_NO_EXECUTE w OR pf_GLOBAL w"

definition KERNEL_RW :: "bitwise \<Rightarrow> nat" where
  "KERNEL_RW w = pf_WRITABLE w OR pf_NO_EXECUTE w OR pf_GLOBAL w"

definition KERNEL_RX :: "bitwise \<Rightarrow> nat" where
  "KERNEL_RX w = pf_GLOBAL w"

definition KERNEL_RWX_BOOT :: "bitwise \<Rightarrow> nat" where
  "KERNEL_RWX_BOOT w = pf_WRITABLE w OR pf_GLOBAL w"

definition KERNEL_RWX :: "bitwise \<Rightarrow> nat" where
  "KERNEL_RWX w = pf_WRITABLE w"

definition MMIO_UC :: "bitwise \<Rightarrow> nat" where
  "MMIO_UC w = pf_WRITABLE w OR pf_NO_EXECUTE w OR pf_CACHE_DISABLE w OR pf_WRITE_THROUGH w"

definition MMIO_WC :: "bitwise \<Rightarrow> nat" where
  "MMIO_WC w =
     pf_WRITABLE w OR pf_NO_EXECUTE w OR pf_CACHE_DISABLE w OR pf_WRITE_THROUGH w OR pf_PAT w"

subsection \<open>Tables\<close>

definition table_read :: "mem \<Rightarrow> nat \<Rightarrow> nat \<Rightarrow> nat res" where
  "table_read m table index =
     and_then (guard (index < 512) Index_out_of_bounds) (\<lambda>_. Inr (ld64 m (table + 8 * index)))"

definition table_write :: "nat \<Rightarrow> nat \<Rightarrow> nat \<Rightarrow> mem \<Rightarrow> mem res" where
  "table_write table index v m =
     and_then (guard (index < 512) Index_out_of_bounds) (\<lambda>_. Inr (st64 (table + 8 * index) v m))"

definition table_zero :: "nat \<Rightarrow> mem \<Rightarrow> mem" where
  "table_zero table m = st (8 * 512) table 0 m"

subsection \<open>The walker\<close>

datatype map_error = OutOfFrames | Misaligned

definition init_pat :: "mmu \<Rightarrow> mmu" where
  "init_pat s =
     s\<lparr>mu_pat :=
        0x06 OR push_bit 8 0x04 OR push_bit 16 0x07 OR push_bit 24 0x00 OR
        push_bit 32 0x06 OR push_bit 40 0x04 OR push_bit 48 0x07 OR push_bit 56 0x01\<rparr>"

definition current_pml4 :: "mmu \<Rightarrow> nat" where
  "current_pml4 s = and_not (mu_cr3 s) 0xFFF"

definition table_at_phys :: "nat \<Rightarrow> nat \<Rightarrow> nat res" where
  "table_at_phys hhdm phys = checked_add phys hhdm"

definition alloc_table_frame :: "nat \<Rightarrow> mmu \<Rightarrow> (nat option \<times> mmu) res" where
  "alloc_table_frame hhdm s =
     and_then (alloc_pages 0 (mu_mem s, mu_frames s)) (\<lambda>(r, m, b).
     case r of
       None \<Rightarrow> Inr (None, s\<lparr>mu_mem := m, mu_frames := b\<rparr>)
     | Some virt \<Rightarrow>
         and_then (guard (virt \<ge> hhdm) (Assertion ''buddy returned address below HHDM'')) (\<lambda>_.
         Inr (Some virt, s\<lparr>mu_mem := table_zero virt m, mu_frames := b\<rparr>)))"

text \<open>\<open>?\<close> on a \<open>Result\<close>: an error ends the function with the state as it is.\<close>

definition or_return ::
  "((map_error + 'a) \<times> mmu) res \<Rightarrow> ('a \<Rightarrow> mmu \<Rightarrow> ((map_error + 'b) \<times> mmu) res) \<Rightarrow>
   ((map_error + 'b) \<times> mmu) res" where
  "or_return r f =
     and_then r (\<lambda>(x, s). case x of Inl e \<Rightarrow> Inr (Inl e, s) | Inr y \<Rightarrow> f y s)"

definition descend_or_create ::
  "bitwise \<Rightarrow> nat \<Rightarrow> nat \<Rightarrow> nat \<Rightarrow> nat \<Rightarrow> mmu \<Rightarrow> ((map_error + nat) \<times> mmu) res" where
  "descend_or_create w hhdm table_phys vaddr level s =
     and_then (table_at_phys hhdm table_phys) (\<lambda>table.
     let idx = vaddr_pt_index w vaddr level
     in and_then (table_read (mu_mem s) table idx) (\<lambda>entry.
        if pte_is_present w entry then Inr (Inr (pte_phys_addr w entry 0x1000), s)
        else
          and_then (alloc_table_frame hhdm s) (\<lambda>(r, s).
          case r of
            None \<Rightarrow> Inr (Inl OutOfFrames, s)
          | Some frame_virt \<Rightarrow>
              and_then (checked_sub frame_virt hhdm) (\<lambda>frame_phys.
              let new_entry = pte_encode w frame_phys 0x1000 (pf_PRESENT w OR pf_WRITABLE w)
              in and_then (table_write table idx new_entry (mu_mem s)) (\<lambda>m.
                 Inr (Inr frame_phys, s\<lparr>mu_mem := m\<rparr>))))))"

definition map_page ::
  "bitwise \<Rightarrow> nat \<Rightarrow> nat \<Rightarrow> nat \<Rightarrow> nat \<Rightarrow> mmu \<Rightarrow> ((map_error + nat option) \<times> mmu) res" where
  "map_page w hhdm vaddr phys prot s =
     (if vaddr AND (0x1000 - 1) \<noteq> 0 \<or> phys AND (0x1000 - 1) \<noteq> 0 then Inr (Inl Misaligned, s)
      else
        or_return (descend_or_create w hhdm (current_pml4 s) vaddr 4 s) (\<lambda>pdpt_phys s.
        or_return (descend_or_create w hhdm pdpt_phys vaddr 3 s) (\<lambda>pd_phys s.
        or_return (descend_or_create w hhdm pd_phys vaddr 2 s) (\<lambda>pt_phys s.
        and_then (table_at_phys hhdm pt_phys) (\<lambda>pt.
        let idx = vaddr_pt_index w vaddr 1
        in and_then (table_read (mu_mem s) pt idx) (\<lambda>old.
           let old_frame = (if pte_is_present w old then Some (pte_phys_addr w old 0x1000) else None);
               leaf = pte_encode w phys 0x1000 (pf_PRESENT w OR prot)
           in and_then (table_write pt idx leaf (mu_mem s)) (\<lambda>m.
              Inr (Inr old_frame, s\<lparr>mu_mem := m, mu_invlpg := vaddr # mu_invlpg s\<rparr>))))))))"

definition walk_existing :: "bitwise \<Rightarrow> nat \<Rightarrow> nat \<Rightarrow> nat \<Rightarrow> nat \<Rightarrow> mmu \<Rightarrow> nat option res" where
  "walk_existing w hhdm table_phys vaddr level s =
     and_then (table_at_phys hhdm table_phys) (\<lambda>table.
     and_then (table_read (mu_mem s) table (vaddr_pt_index w vaddr level)) (\<lambda>entry.
     Inr (if pte_is_present w entry \<and> \<not> pte_is_huge w entry
          then Some (pte_phys_addr w entry 0x1000) else None)))"

text \<open>\<open>let Some(x) = \<dots> else { return }\<close>.\<close>

definition some_or_return :: "nat option res \<Rightarrow> mmu \<Rightarrow> (nat \<Rightarrow> mmu res) \<Rightarrow> mmu res" where
  "some_or_return r s f = and_then r (\<lambda>x. case x of None \<Rightarrow> Inr s | Some y \<Rightarrow> f y)"

definition unmap_page :: "bitwise \<Rightarrow> nat \<Rightarrow> nat \<Rightarrow> mmu \<Rightarrow> mmu res" where
  "unmap_page w hhdm vaddr s =
     some_or_return (walk_existing w hhdm (current_pml4 s) vaddr 4 s) s (\<lambda>pdpt_phys.
     some_or_return (walk_existing w hhdm pdpt_phys vaddr 3 s) s (\<lambda>pd_phys.
     some_or_return (walk_existing w hhdm pd_phys vaddr 2 s) s (\<lambda>pt_phys.
     and_then (table_at_phys hhdm pt_phys) (\<lambda>pt.
     and_then (table_write pt (vaddr_pt_index w vaddr 1) 0 (mu_mem s)) (\<lambda>m.
     Inr (s\<lparr>mu_mem := m, mu_invlpg := vaddr # mu_invlpg s\<rparr>))))))"

definition translate :: "bitwise \<Rightarrow> nat \<Rightarrow> nat \<Rightarrow> mmu \<Rightarrow> nat option res" where
  "translate w hhdm vaddr s =
     and_then (table_at_phys hhdm (current_pml4 s)) (\<lambda>pml4.
     and_then (table_read (mu_mem s) pml4 (vaddr_pt_index w vaddr 4)) (\<lambda>pdpt_entry.
     if \<not> pte_is_present w pdpt_entry then Inr None
     else
     and_then (table_at_phys hhdm (pte_phys_addr w pdpt_entry 0x1000)) (\<lambda>pdpt.
     and_then (table_read (mu_mem s) pdpt (vaddr_pt_index w vaddr 3)) (\<lambda>pd_entry.
     if \<not> pte_is_present w pd_entry then Inr None
     else if pte_is_huge w pd_entry then
       and_then (checked_add (pte_phys_addr w pd_entry 0x40000000) (vaddr AND 0x3FFFFFFF)) (\<lambda>p. Inr (Some p))
     else
     and_then (table_at_phys hhdm (pte_phys_addr w pd_entry 0x1000)) (\<lambda>pd.
     and_then (table_read (mu_mem s) pd (vaddr_pt_index w vaddr 2)) (\<lambda>pt_entry.
     if \<not> pte_is_present w pt_entry then Inr None
     else if pte_is_huge w pt_entry then
       and_then (checked_add (pte_phys_addr w pt_entry 0x200000) (vaddr AND 0x1FFFFF)) (\<lambda>p. Inr (Some p))
     else
     and_then (table_at_phys hhdm (pte_phys_addr w pt_entry 0x1000)) (\<lambda>pt.
     and_then (table_read (mu_mem s) pt (vaddr_pt_index w vaddr 1)) (\<lambda>leaf.
     if \<not> pte_is_present w leaf then Inr None
     else
       and_then (checked_add (pte_phys_addr w leaf 0x1000) (vaddr AND (0x1000 - 1))) (\<lambda>p.
       Inr (Some p))))))))))"

text \<open>\<open>for i in 0..pages\<close>, from page \<open>i\<close> with \<open>n\<close> pages to go.\<close>

fun map_mmio_from ::
  "bitwise \<Rightarrow> nat \<Rightarrow> nat \<Rightarrow> nat \<Rightarrow> nat \<Rightarrow> nat \<Rightarrow> nat \<Rightarrow> mmu \<Rightarrow> ((map_error + unit) \<times> mmu) res" where
  "map_mmio_from w hhdm virt_start phys_start prot i 0 s = Inr (Inr (), s)"
| "map_mmio_from w hhdm virt_start phys_start prot i (Suc n) s =
     and_then (checked_mul i 0x1000) (\<lambda>off.
     and_then (checked_add virt_start off) (\<lambda>virt.
     and_then (checked_add phys_start off) (\<lambda>phys.
     or_return (map_page w hhdm virt phys prot s) (\<lambda>_ s.
     map_mmio_from w hhdm virt_start phys_start prot (i + 1) n s))))"

definition map_mmio ::
  "bitwise \<Rightarrow> nat \<Rightarrow> nat \<Rightarrow> nat \<Rightarrow> nat \<Rightarrow> nat \<Rightarrow> mmu \<Rightarrow> ((map_error + unit) \<times> mmu) res" where
  "map_mmio w hhdm virt_start phys_start len prot s =
     and_then (checked_add len 0x1000) (\<lambda>n.
     and_then (checked_sub n 1) (\<lambda>n.
     map_mmio_from w hhdm virt_start phys_start prot 0 (n div 0x1000) s))"

subsection \<open>The kernel's own page tables\<close>

definition alloc_zero_frame :: "nat \<Rightarrow> mmu \<Rightarrow> (nat \<times> mmu) res" where
  "alloc_zero_frame hhdm s =
     and_then (alloc_pages 0 (mu_mem s, mu_frames s)) (\<lambda>(r, m, b).
     case r of
       None \<Rightarrow> Inl (Expect ''pml4: buddy OOM during page table construction'')
     | Some virt \<Rightarrow>
         and_then (checked_sub virt hhdm) (\<lambda>phys.
         Inr (phys, s\<lparr>mu_mem := table_zero virt m, mu_frames := b\<rparr>)))"

definition descend_boot :: "bitwise \<Rightarrow> nat \<Rightarrow> nat \<Rightarrow> nat \<Rightarrow> nat \<Rightarrow> mmu \<Rightarrow> (nat \<times> mmu) res" where
  "descend_boot w hhdm table_phys vaddr level s =
     and_then (checked_add hhdm table_phys) (\<lambda>table.
     let idx = vaddr_pt_index w vaddr level
     in and_then (table_read (mu_mem s) table idx) (\<lambda>entry.
        if pte_is_present w entry then Inr (pte_phys_addr w entry 0x1000, s)
        else
          and_then (alloc_zero_frame hhdm s) (\<lambda>(child_phys, s).
          let e = pte_encode w child_phys 0x1000 (pf_PRESENT w OR pf_WRITABLE w)
          in and_then (table_write table idx e (mu_mem s)) (\<lambda>m.
             Inr (child_phys, s\<lparr>mu_mem := m\<rparr>)))))"

definition map_huge :: "bitwise \<Rightarrow> nat \<Rightarrow> nat \<Rightarrow> nat \<Rightarrow> mmu \<Rightarrow> mmu res" where
  "map_huge w hhdm pml4_phys i s =
     and_then (checked_mul i 0x200000) (\<lambda>phys.
     and_then (checked_add hhdm phys) (\<lambda>virt.
     and_then (descend_boot w hhdm pml4_phys virt 4 s) (\<lambda>(pdpt_phys, s).
     and_then (descend_boot w hhdm pdpt_phys virt 3 s) (\<lambda>(pd_phys, s).
     and_then (checked_add hhdm pd_phys) (\<lambda>pd.
     let idx = vaddr_pt_index w virt 2;
         pde = pte_encode w phys 0x200000
           (pf_PRESENT w OR pf_WRITABLE w OR pf_NO_EXECUTE w OR pf_HUGE_PAGE w OR pf_GLOBAL w)
     in and_then (table_write pd idx pde (mu_mem s)) (\<lambda>m. Inr (s\<lparr>mu_mem := m\<rparr>)))))))"

fun map_hhdm_from :: "bitwise \<Rightarrow> nat \<Rightarrow> nat \<Rightarrow> nat \<Rightarrow> nat \<Rightarrow> mmu \<Rightarrow> mmu res" where
  "map_hhdm_from w hhdm pml4_phys i 0 s = Inr s"
| "map_hhdm_from w hhdm pml4_phys i (Suc n) s =
     and_then (map_huge w hhdm pml4_phys i s) (\<lambda>s. map_hhdm_from w hhdm pml4_phys (i + 1) n s)"

definition map_hhdm_2m :: "bitwise \<Rightarrow> nat \<Rightarrow> nat \<Rightarrow> nat \<Rightarrow> mmu \<Rightarrow> mmu res" where
  "map_hhdm_2m w hhdm pml4_phys phys_mem_size s =
     and_then (checked_add phys_mem_size 0x200000) (\<lambda>n.
     and_then (checked_sub n 1) (\<lambda>n.
     map_hhdm_from w hhdm pml4_phys 0 (n div 0x200000) s))"

definition map_small ::
  "bitwise \<Rightarrow> nat \<Rightarrow> nat \<Rightarrow> nat \<Rightarrow> nat \<Rightarrow> nat \<Rightarrow> nat \<Rightarrow> mmu \<Rightarrow> mmu res" where
  "map_small w hhdm pml4_phys virt_start phys_start prot i s =
     and_then (checked_mul i 0x1000) (\<lambda>off.
     and_then (checked_add virt_start off) (\<lambda>virt.
     and_then (checked_add phys_start off) (\<lambda>phys.
     and_then (descend_boot w hhdm pml4_phys virt 4 s) (\<lambda>(pdpt_phys, s).
     and_then (descend_boot w hhdm pdpt_phys virt 3 s) (\<lambda>(pd_phys, s).
     and_then (descend_boot w hhdm pd_phys virt 2 s) (\<lambda>(pt_phys, s).
     and_then (checked_add hhdm pt_phys) (\<lambda>pt.
     let idx = vaddr_pt_index w virt 1;
         leaf = pte_encode w phys 0x1000 (pf_PRESENT w OR prot)
     in and_then (table_write pt idx leaf (mu_mem s)) (\<lambda>m. Inr (s\<lparr>mu_mem := m\<rparr>)))))))))"

fun map_range_from ::
  "bitwise \<Rightarrow> nat \<Rightarrow> nat \<Rightarrow> nat \<Rightarrow> nat \<Rightarrow> nat \<Rightarrow> nat \<Rightarrow> nat \<Rightarrow> mmu \<Rightarrow> mmu res" where
  "map_range_from w hhdm pml4_phys virt_start phys_start prot i 0 s = Inr s"
| "map_range_from w hhdm pml4_phys virt_start phys_start prot i (Suc n) s =
     and_then (map_small w hhdm pml4_phys virt_start phys_start prot i s) (\<lambda>s.
     map_range_from w hhdm pml4_phys virt_start phys_start prot (i + 1) n s)"

definition map_range_4k ::
  "bitwise \<Rightarrow> nat \<Rightarrow> nat \<Rightarrow> nat \<Rightarrow> nat \<Rightarrow> nat \<Rightarrow> nat \<Rightarrow> mmu \<Rightarrow> mmu res" where
  "map_range_4k w hhdm pml4_phys virt_start phys_start pages prot s =
     map_range_from w hhdm pml4_phys virt_start phys_start prot 0 pages s"

definition install_kernel_pml4 ::
  "bitwise \<Rightarrow> nat \<Rightarrow> nat \<Rightarrow> nat \<Rightarrow> nat \<Rightarrow> nat \<Rightarrow> mmu \<Rightarrow> mmu res" where
  "install_kernel_pml4 w hhdm kernel_virt_start kernel_virt_end kernel_phys_start phys_mem_size s =
     and_then (alloc_zero_frame hhdm s) (\<lambda>(pml4_phys, s).
     and_then (map_hhdm_2m w hhdm pml4_phys phys_mem_size s) (\<lambda>s.
     and_then (checked_sub kernel_virt_end kernel_virt_start) (\<lambda>n.
     and_then (checked_add n 0x1000) (\<lambda>n.
     and_then (checked_sub n 1) (\<lambda>n.
     and_then (map_range_4k w hhdm pml4_phys kernel_virt_start kernel_phys_start (n div 0x1000)
       (KERNEL_RWX_BOOT w) s) (\<lambda>s.
     Inr (s\<lparr>mu_cr3 := pml4_phys\<rparr>)))))))"

end
