(* ===== verification/Mantle_Walk.thy ===== *)
theory Mantle_Walk
  imports Mantle Buddy_Provider
begin

text \<open>
  The invariant of a page-table tree and the meaning of a walk. A ghost map \<open>T\<close> records the
  frame of the table at a level for a slot, the number of the region of the address space that a
  table of this level covers (addresses modulo \<open>2 ^ 48\<close>). \<open>pt_inv\<close> says that the tables in memory
  are this tree and that every table is a page the buddy allocator has handed out; \<open>walk\<close> is the
  translation that the entries in memory define.
\<close>

type_synonym table_map = "nat \<Rightarrow> nat \<Rightarrow> nat option"

definition slot :: "nat \<Rightarrow> nat \<Rightarrow> nat" where
  "slot l v = v mod 2 ^ 48 div 2 ^ (12 + 9 * l)"

definition index :: "nat \<Rightarrow> nat \<Rightarrow> nat" where
  "index l v = v div 2 ^ (12 + 9 * (l - 1)) mod 512"

definition entry :: "nat \<Rightarrow> mem \<Rightarrow> nat \<Rightarrow> nat \<Rightarrow> nat" where
  "entry hh m f i = ld64 m (f + hh + 8 * i)"

definition frame_ok :: "nat \<Rightarrow> nat \<Rightarrow> bool" where
  "frame_ok hh f \<longleftrightarrow> f mod PAGE_SIZE = 0 \<and> f + hh \<noteq> 0 \<and> f + hh + PAGE_SIZE \<le> u64_max \<and> f < phys_limit"

definition window_ok :: "nat \<Rightarrow> buddy \<Rightarrow> bool" where
  "window_ok hh b \<longleftrightarrow> hh mod PAGE_SIZE = 0 \<and> hh \<le> bd_base b \<and>
     bd_base b - hh + MAX_PAGES * PAGE_SIZE \<le> phys_limit"

definition pt_tree :: "bitwise \<Rightarrow> nat \<Rightarrow> nat \<Rightarrow> table_map \<Rightarrow> mem \<Rightarrow> bool" where
  "pt_tree w hh root T m \<longleftrightarrow>
     T 4 0 = Some root \<and>
     (\<forall>l p f. T l p = Some f \<longrightarrow> 1 \<le> l \<and> l \<le> 4 \<and> (l = 4 \<longrightarrow> p = 0) \<and> frame_ok hh f \<and>
        (l < 4 \<longrightarrow> T (l + 1) (p div 512) \<noteq> None)) \<and>
     (\<forall>l p l' p' f. T l p = Some f \<longrightarrow> T l' p' = Some f \<longrightarrow> l = l' \<and> p = p') \<and>
     (\<forall>l p f i. T l p = Some f \<longrightarrow> 2 \<le> l \<longrightarrow> i < 512 \<longrightarrow>
        T (l - 1) (512 * p + i) =
          (if pte_is_present w (entry hh m f i) \<and> \<not> pte_is_huge w (entry hh m f i)
           then Some (pte_phys_addr w (entry hh m f i) 0x1000) else None) \<and>
        (l = 4 \<longrightarrow> pte_is_present w (entry hh m f i) \<longrightarrow> \<not> pte_is_huge w (entry hh m f i)))"

definition holds_tables :: "nat \<Rightarrow> table_map \<Rightarrow> (nat \<rightharpoonup> nat) \<Rightarrow> bool" where
  "holds_tables hh T B \<longleftrightarrow> (\<forall>l p f. T l p = Some f \<longrightarrow> B (f + hh) = Some 0)"

definition pt_inv :: "bitwise \<Rightarrow> nat \<Rightarrow> area \<Rightarrow> nat \<Rightarrow> table_map \<Rightarrow> (nat \<rightharpoonup> nat) \<Rightarrow> mmu \<Rightarrow> bool" where
  "pt_inv w hh A root T B s \<longleftrightarrow>
     pt_tree w hh root T (mu_mem s) \<and> holds_tables hh T B \<and>
     frames_owned A (mu_mem s) (mu_frames s) B \<and> window_ok hh (mu_frames s)"

primrec walk :: "bitwise \<Rightarrow> nat \<Rightarrow> mem \<Rightarrow> nat \<Rightarrow> nat \<Rightarrow> nat \<Rightarrow> nat option" where
  "walk w hh m v 0 f = Some (f + v mod 2 ^ 12)"
| "walk w hh m v (Suc n) f =
     (let e = entry hh m f (index (Suc n) v)
      in if \<not> pte_is_present w e then None
         else if pte_is_huge w e \<and> (n = 1 \<or> n = 2)
         then Some (pte_phys_addr w e (2 ^ (12 + 9 * n)) + v mod 2 ^ (12 + 9 * n))
         else walk w hh m v n (pte_phys_addr w e 0x1000))"

lemma pt_treeD:
  assumes "pt_tree w hh root T m"
  shows "T 4 0 = Some root"
    and "T l p = Some f \<Longrightarrow> 1 \<le> l \<and> l \<le> 4 \<and> (l = 4 \<longrightarrow> p = 0) \<and> frame_ok hh f"
    and "T l p = Some f \<Longrightarrow> l < 4 \<Longrightarrow> \<exists>g. T (l + 1) (p div 512) = Some g"
    and "T l p = Some f \<Longrightarrow> T l' p' = Some f \<Longrightarrow> l = l' \<and> p = p'"
    and "T l p = Some f \<Longrightarrow> 2 \<le> l \<Longrightarrow> i < 512 \<Longrightarrow> T (l - 1) (512 * p + i) =
          (if pte_is_present w (entry hh m f i) \<and> \<not> pte_is_huge w (entry hh m f i)
           then Some (pte_phys_addr w (entry hh m f i) 0x1000) else None)"
    and "T 4 p = Some f \<Longrightarrow> i < 512 \<Longrightarrow> pte_is_present w (entry hh m f i) \<Longrightarrow>
          \<not> pte_is_huge w (entry hh m f i)"
  using assms unfolding pt_tree_def by (blast+, auto)

subsection \<open>Slots and indices\<close>

lemma index_bound [simp]: "index l v < 512"
  by (simp add: index_def)

lemma slot_4 [simp]: "slot 4 v = 0"
  by (simp add: slot_def)

lemma slot_step:
  assumes "1 \<le> l" and "l \<le> 4"
  shows "slot (l - 1) v = 512 * slot l v + index l v"
proof -
  define a where "a = 12 + 9 * (l - 1)"
  have a: "a + 9 \<le> 48" "12 + 9 * l = a + 9" using assms by (auto simp: a_def)
  define x where "x = v mod 2 ^ 48 div 2 ^ a"
  have "take_bit 9 (drop_bit a (take_bit 48 v)) = take_bit 9 (drop_bit a v)"
    using a(1) by (auto simp: bit_eq_iff bit_take_bit_iff bit_drop_bit_eq)
  then have "x mod 2 ^ 9 = v div 2 ^ a mod 2 ^ 9"
    by (simp add: x_def take_bit_eq_mod drop_bit_eq_div)
  moreover have "slot l v = x div 2 ^ 9"
    unfolding slot_def a(2) x_def by (simp add: power_add div_mult2_eq)
  moreover have "slot (l - 1) v = x" by (simp add: slot_def x_def a_def)
  moreover have "x = 512 * (x div 2 ^ 9) + x mod 2 ^ 9" by simp
  ultimately show ?thesis unfolding index_def a_def [symmetric] by simp
qed

lemma slot_div: "1 \<le> l \<Longrightarrow> l \<le> 4 \<Longrightarrow> slot (l - 1) v div 512 = slot l v"
  unfolding slot_step by simp

lemma digits_eq: "i < n \<Longrightarrow> j < n \<Longrightarrow> n * a + i = n * b + j \<longleftrightarrow> a = b \<and> i = j" for a b n i j :: nat
  by (metis add.commute div_mult_self2 add_left_cancel div_less gr_implies_not0 add_0)

lemma multiple_gap: "a mod n = 0 \<Longrightarrow> b mod n = 0 \<Longrightarrow> a < b \<Longrightarrow> a + n \<le> b" for a b n :: nat
  by (metis add.commute add_le_cancel_left div_mult_mod_eq add_0_right mod_0_imp_dvd dvd_diff_nat dvd_imp_le
      zero_less_diff le_diff_conv2 less_imp_le_nat)

lemma slot_eq_iff:
  "1 \<le> l \<Longrightarrow> l \<le> 4 \<Longrightarrow> slot (l - 1) u = slot (l - 1) v \<longleftrightarrow> slot l u = slot l v \<and> index l u = index l v"
  unfolding slot_step by (rule digits_eq) simp_all

subsection \<open>A walk only reads the tables of its path\<close>

lemma walk_agree:
  assumes tree: "pt_tree w hh root T m" and "l \<le> 4" and "T l (slot l v) = Some f"
    and "\<And>k g. 1 \<le> k \<Longrightarrow> k \<le> l \<Longrightarrow> T k (slot k v) = Some g \<Longrightarrow>
      entry hh m' g (index k v) = entry hh m g (index k v)"
  shows "walk w hh m' v l f = walk w hh m v l f"
  using assms(2-)
proof (induction l arbitrary: f)
  case (Suc n)
  let ?e = "entry hh m f (index (Suc n) v)"
  have same: "entry hh m' f (index (Suc n) v) = ?e" using Suc.prems by simp
  show ?case
  proof (cases "n \<noteq> 0 \<and> pte_is_present w ?e \<and> \<not> pte_is_huge w ?e")
    case True
    have "T n (slot n v) = Some (pte_phys_addr w ?e 0x1000)"
      using pt_treeD(5) [OF tree Suc.prems(2), of "index (Suc n) v"] True slot_step [of "Suc n" v] Suc.prems(1)
      by simp
    with Suc.prems have "walk w hh m' v n (pte_phys_addr w ?e 0x1000) = walk w hh m v n (pte_phys_addr w ?e 0x1000)"
      by (intro Suc.IH) auto
    then show ?thesis using True by (simp add: same Let_def)
  next
    case False
    have "n \<noteq> 0 \<Longrightarrow> n \<noteq> 1 \<Longrightarrow> n \<noteq> 2 \<Longrightarrow> pte_is_present w ?e \<Longrightarrow> \<not> pte_is_huge w ?e"
      using Suc.prems(1,2) pt_treeD(6) [OF tree] by (cases "n = 3") auto
    then show ?thesis using False same by (cases "n = 0") (auto simp: Let_def)
  qed
qed simp

lemma walk_down:
  assumes tree: "pt_tree w hh root T m" and "T l (slot l v) = Some f"
  shows "walk w hh m v 4 root = walk w hh m v l f"
proof -
  have up: "walk w hh m v 4 root = walk w hh m v l f" if "l \<le> 4" "T l (slot l v) = Some f" for l f
    using that
  proof (induction "4 - l" arbitrary: l f)
    case 0
    then have "l = 4" by simp
    with 0 pt_treeD(1) [OF tree] show ?case by simp
  next
    case (Suc n)
    then have l: "l < 4" "n = 4 - (l + 1)" by auto
    have "slot l v div 512 = slot (l + 1) v" using slot_div [of "l + 1" v] l by simp
    then obtain g where g: "T (l + 1) (slot (l + 1) v) = Some g"
      using pt_treeD(3) [OF tree Suc.prems(2) l(1)] by auto
    let ?e = "entry hh m g (index (l + 1) v)"
    have "1 \<le> l" using pt_treeD(2) [OF tree Suc.prems(2)] by simp
    then have "T l (slot l v) = (if pte_is_present w ?e \<and> \<not> pte_is_huge w ?e
        then Some (pte_phys_addr w ?e 0x1000) else None)"
      using pt_treeD(5) [OF tree g, of "index (l + 1) v"] slot_step [of "l + 1" v] l(1) by simp
    then have "pte_is_present w ?e" "\<not> pte_is_huge w ?e" "f = pte_phys_addr w ?e 0x1000"
      using Suc.prems(2) by (auto split: if_splits)
    then have "walk w hh m v (l + 1) g = walk w hh m v l f" by simp
    moreover have "walk w hh m v 4 root = walk w hh m v (l + 1) g"
      using Suc.hyps(1) [OF l(2) _ g] l by simp
    ultimately show ?case by simp
  qed
  show ?thesis using up assms(2) pt_treeD(2) [OF tree assms(2)] by blast
qed

end
