(* ===== verification/Mantle_Steps.thy ===== *)
theory Mantle_Steps
  imports Mantle_Walk
begin

text \<open>
  The two ways the page-table code changes memory: writing a leaf (a 4 KiB entry, a huge entry or
  0), and hanging a fresh zeroed table into an empty entry. Each keeps the invariant; the first
  changes the translation of exactly the region of that entry, the second changes none.
\<close>

lemma pt_invD:
  assumes "pt_inv w hh A root T B s"
  shows "pt_tree w hh root T (mu_mem s)" and "holds_tables hh T B"
    and "frames_owned A (mu_mem s) (mu_frames s) B" and "window_ok hh (mu_frames s)"
  using assms by (simp_all add: pt_inv_def)

lemma frame_cells: "i < 512 \<Longrightarrow> {f + hh + 8 * i..<f + hh + 8 * i + 8} \<subseteq> block_range (f + hh) 0"
  by (auto simp: block_range_def PAGE_SIZE_def)

lemma frames_apart:
  assumes "frames_owned A m b B" and "B (f + hh) = Some 0" and "B (g + hh) = Some 0" and "f \<noteq> g"
    and "i < 512" and "j < 512"
  shows "g + hh + 8 * j + 8 \<le> f + hh + 8 * i \<or> f + hh + 8 * i + 8 \<le> g + hh + 8 * j"
proof -
  have "block_range (f + hh) 0 \<inter> block_range (g + hh) 0 = {}"
    using fo.owned_apart [OF assms(1-3)] assms(4) by simp
  then have "f + hh \<notin> block_range (g + hh) 0" "g + hh \<notin> block_range (f + hh) 0"
    by (auto simp: block_range_def PAGE_SIZE_def)
  with assms(5,6) show ?thesis by (auto simp: block_range_def PAGE_SIZE_def)
qed

lemma entry_write:
  assumes "frames_owned A m b B" and "B (f + hh) = Some 0" and "B (g + hh) = Some 0"
    and "i < 512" and "j < 512" and "x \<le> u64_max"
  shows "entry hh (st64 (f + hh + 8 * i) x m) g j = (if g = f \<and> j = i then x else entry hh m g j)"
proof (cases "g = f \<and> j = i")
  case False
  have "g + hh + 8 * j + 8 \<le> f + hh + 8 * i \<or> f + hh + 8 * i + 8 \<le> g + hh + 8 * j"
  proof (cases "g = f")
    case True
    with False show ?thesis by auto
  next
    case False
    from frames_apart [OF assms(1-3) False [symmetric] assms(4,5)] show ?thesis .
  qed
  then have "ld64 (st64 (f + hh + 8 * i) x m) (g + hh + 8 * j) = ld64 m (g + hh + 8 * j)"
    by (rule ld_st_other)
  with False show ?thesis by (auto simp: entry_def)
qed (simp add: entry_def assms(6))

text \<open>A change inside one owned block keeps the ownership and the other blocks.\<close>

lemma owned_st:
  assumes "frames_owned A m b B" and "B a = Some 0" and "{c..<c + n} \<subseteq> block_range a 0"
  shows "frames_owned A (st n c x m) b B"
proof (rule fo.agree_owned [OF assms(1)])
  show "agree_off {c..<c + n} m (st n c x m)" by (auto simp: agree_off_def st_def)
  show "\<exists>a k. B a = Some k \<and> y \<in> block_range a k" if "y \<in> {c..<c + n}" for y
    using assms(2,3) that by blast
qed simp

definition others_kept :: "nat \<Rightarrow> table_map \<Rightarrow> (nat \<rightharpoonup> nat) \<Rightarrow> mmu \<Rightarrow> mmu \<Rightarrow> bool" where
  "others_kept hh T B s s' \<longleftrightarrow>
     (\<forall>c k x. B c = Some k \<longrightarrow> x \<in> block_range c k \<longrightarrow> (\<forall>l p. T l p \<noteq> Some (c - hh) \<or> c < hh) \<longrightarrow>
        mu_mem s' x = mu_mem s x)"

lemma others_kept_refl: "others_kept hh T B s s"
  by (simp add: others_kept_def)

lemma others_kept_trans:
  assumes "others_kept hh T B s s'" and "others_kept hh T' B' s' s''" and "B \<subseteq>\<^sub>m B'"
    and "\<And>l p f. T' l p = Some f \<Longrightarrow> T l p = Some f \<or> B (f + hh) = None"
  shows "others_kept hh T B s s''"
  unfolding others_kept_def
proof (intro allI impI)
  fix c k x
  assume c: "B c = Some k" "x \<in> block_range c k" "\<forall>l p. T l p \<noteq> Some (c - hh) \<or> c < hh"
  have "T' l p \<noteq> Some (c - hh) \<or> c < hh" for l p
    using assms(4) [of l p "c - hh"] c(1,3) by (cases "c < hh") auto
  moreover have "B' c = Some k" using assms(3) c(1) by (metis domI map_le_def)
  ultimately have "mu_mem s'' x = mu_mem s' x" using assms(2) c(2) unfolding others_kept_def by blast
  also have "\<dots> = mu_mem s x" using assms(1) c unfolding others_kept_def by blast
  finally show "mu_mem s'' x = mu_mem s x" .
qed

subsection \<open>Writing a leaf\<close>

definition leaf_target :: "bitwise \<Rightarrow> nat \<Rightarrow> nat \<Rightarrow> nat \<Rightarrow> nat option" where
  "leaf_target w l e u =
     (if pte_is_present w e
      then Some (pte_phys_addr w e (2 ^ (12 + 9 * (l - 1))) + u mod 2 ^ (12 + 9 * (l - 1))) else None)"

lemma leaf_write:
  assumes inv: "pt_inv w hh A root T B s" and f: "T l (slot l v) = Some f" and l: "1 \<le> l" "l \<le> 3"
    and leaf: "l = 1 \<or> \<not> pte_is_present w e \<or> pte_is_huge w e"
    and none: "T (l - 1) (slot (l - 1) v) = None" and e: "e \<le> u64_max"
    and s': "mu_mem s' = st64 (f + hh + 8 * index l v) e (mu_mem s)" "mu_frames s' = mu_frames s"
  shows "pt_inv w hh A root T B s'"
    and "walk w hh (mu_mem s') u 4 root =
      (if slot (l - 1) u = slot (l - 1) v then leaf_target w l e u else walk w hh (mu_mem s) u 4 root)"
    and "others_kept hh T B s s'"
proof -
  note tree = pt_invD(1) [OF inv] and own = pt_invD(3) [OF inv]
  have Bf: "B (f + hh) = Some 0" using pt_invD(2) [OF inv] f by (auto simp: holds_tables_def)
  have ent: "entry hh (mu_mem s') g j = (if g = f \<and> j = index l v then e else entry hh (mu_mem s) g j)"
    if g: "T k p = Some g" and j: "j < 512" for k p g j
  proof -
    have "B (g + hh) = Some 0" using pt_invD(2) [OF inv] g by (auto simp: holds_tables_def)
    from entry_write [OF own Bf this index_bound j e] show ?thesis unfolding s' .
  qed
  have slot_l: "slot (l - 1) v = 512 * slot l v + index l v" using slot_step l by simp
  have tree': "pt_tree w hh root T (mu_mem s')"
    unfolding pt_tree_def
  proof (intro conjI allI impI)
    show "T 4 0 = Some root" using pt_treeD(1) [OF tree] .
    fix k p g
    assume g: "T k p = Some g"
    show "1 \<le> k" "k \<le> 4" "frame_ok hh g" using pt_treeD(2) [OF tree g] by auto
    show "p = 0" if "k = 4" using pt_treeD(2) [OF tree g] that by auto
    show "T (k + 1) (p div 512) \<noteq> None" if "k < 4" using pt_treeD(3) [OF tree g that] by auto
    show "k = k'" "p = p'" if "T k' p' = Some g" for k' p' using pt_treeD(4) [OF tree g that] by auto
    fix i :: nat
    assume k: "2 \<le> k" and i: "i < 512"
    let ?e = "entry hh (mu_mem s) g i"
    show "T (k - 1) (512 * p + i) =
        (if pte_is_present w (entry hh (mu_mem s') g i) \<and> \<not> pte_is_huge w (entry hh (mu_mem s') g i)
         then Some (pte_phys_addr w (entry hh (mu_mem s') g i) 0x1000) else None)"
    proof (cases "g = f \<and> i = index l v")
      case True
      then have "k = l" "p = slot l v" using pt_treeD(4) [OF tree g] f by auto
      moreover have "entry hh (mu_mem s') g i = e" using True ent [OF g i] by simp
      ultimately show ?thesis using True none slot_l leaf k by auto
    next
      case False
      then show ?thesis using pt_treeD(5) [OF tree g k i] by (auto simp: ent [OF g i])
    qed
    assume "k = 4" and "pte_is_present w (entry hh (mu_mem s') g i)"
    moreover have "g \<noteq> f" using pt_treeD(4) [OF tree, of k p g l "slot l v"] g f l(2) \<open>k = 4\<close> by auto
    ultimately show "\<not> pte_is_huge w (entry hh (mu_mem s') g i)"
      using pt_treeD(6) [OF tree, of p g i] g i by (simp add: ent [OF g i])
  qed
  have own': "frames_owned A (mu_mem s') (mu_frames s') B"
    unfolding s' by (rule owned_st [OF own Bf]) (rule frame_cells, simp)
  show "pt_inv w hh A root T B s'"
    using tree' own' inv s'(2) by (simp add: pt_inv_def)
  show "walk w hh (mu_mem s') u 4 root =
      (if slot (l - 1) u = slot (l - 1) v then leaf_target w l e u else walk w hh (mu_mem s) u 4 root)"
  proof (cases "slot (l - 1) u = slot (l - 1) v")
    case True
    have "slot l u = slot l v" "index l u = index l v" using True l slot_eq_iff [of l u v] by auto
    with f have fu: "T l (slot l u) = Some f" by simp
    from l obtain n where n: "l = Suc n" "n \<le> 2" by (cases l) auto
    have ef: "entry hh (mu_mem s') f (index l u) = e" using ent [OF f, of "index l u"] \<open>index l u = _\<close> by simp
    have "walk w hh (mu_mem s') u 4 root = walk w hh (mu_mem s') u l f" by (rule walk_down [OF tree' fu])
    also have "\<dots> = leaf_target w l e u"
      using ef leaf n by (cases "n = 0") (auto simp: Let_def leaf_target_def)
    finally show ?thesis using True by simp
  next
    case False
    have "walk w hh (mu_mem s') u 4 root = walk w hh (mu_mem s) u 4 root"
    proof (rule walk_agree [OF tree])
      show "T 4 (slot 4 u) = Some root" using pt_treeD(1) [OF tree] by simp
      fix k g
      assume k: "1 \<le> k" "k \<le> 4" "T k (slot k u) = Some g"
      have "\<not> (g = f \<and> index k u = index l v)"
      proof
        assume eq: "g = f \<and> index k u = index l v"
        then have "k = l \<and> slot k u = slot l v" using pt_treeD(4) [OF tree k(3)] f by auto
        with eq False l slot_eq_iff [of l u v] show False by auto
      qed
      then show "entry hh (mu_mem s') g (index k u) = entry hh (mu_mem s) g (index k u)"
        using ent [OF k(3), of "index k u"] by auto
    qed simp
    with False show ?thesis by simp
  qed
  show "others_kept hh T B s s'"
    unfolding others_kept_def
  proof (intro allI impI)
    fix c k x
    assume c: "B c = Some k" "x \<in> block_range c k" "\<forall>l p. T l p \<noteq> Some (c - hh) \<or> c < hh"
    have "c \<noteq> f + hh" using c(3) f by auto
    then have "x \<notin> block_range (f + hh) 0" using fo.owned_apart [OF own c(1) Bf] c(2) by auto
    then have "x \<notin> {f + hh + 8 * index l v..<f + hh + 8 * index l v + 8}"
      using frame_cells [of "index l v" f hh] by auto
    then show "mu_mem s' x = mu_mem s x" unfolding s' by (auto intro: st_other)
  qed
qed

subsection \<open>A fresh table\<close>

definition add_table :: "nat \<Rightarrow> nat \<Rightarrow> nat \<Rightarrow> table_map \<Rightarrow> table_map" where
  "add_table k q c T = T(k := (T k)(q \<mapsto> c))"

lemma add_table_simps [simp]:
  "add_table k q c T k q = Some c"
  "(k', q') \<noteq> (k, q) \<Longrightarrow> add_table k q c T k' q' = T k' q'"
  by (auto simp: add_table_def)

lemma add_table_cases:
  assumes "add_table k q c T k' q' = Some g"
  obtains "k' = k" and "q' = q" and "g = c" | "T k' q' = Some g" and "(k', q') \<noteq> (k, q)"
proof (cases "k' = k \<and> q' = q")
  case True
  then show thesis using assms that(1) by (simp add: add_table_def)
next
  case False
  then show thesis using assms that(2) by (auto simp: add_table_def split: if_splits)
qed

lemma entry_zeroed:
  assumes "c + hh = a" and "j < 512"
  shows "entry hh (table_zero a m) c j = 0"
proof -
  have "table_zero a m (a + 8 * j + i) = 0" if "i < 8" for i
    using assms(2) that by (simp add: table_zero_def st_def)
  then have "ld64 (table_zero a m) (a + 8 * j) = ld64 (\<lambda>_. 0) (a + 8 * j)"
    by (intro ld_cong) simp
  then show ?thesis by (simp add: entry_def assms(1))
qed

lemma encode_table:
  assumes "bitwise_laws w" and "c mod PAGE_SIZE = 0" and "c < phys_limit"
  defines "e \<equiv> pte_encode w c 0x1000 (pf_PRESENT w OR pf_WRITABLE w)"
  shows "pte_is_present w e" and "pte_phys_addr w e 0x1000 = c" and "\<not> pte_is_huge w e" and "e \<le> u64_max"
proof -
  let ?fs = "[pf_PRESENT w, pf_WRITABLE w]"
  have fs: "set ?fs \<subseteq> set (flag_list w)" "pf_PRESENT w \<in> set ?fs" by (simp_all add: flag_list_def)
  have sz: "0x1000 \<in> page_sizes" by (simp add: page_sizes_def)
  have "c mod 0x1000 = 0" using assms(2) by (simp add: PAGE_SIZE_def)
  note laws = encode_laws [OF assms(1) sz this assms(3) fs]
  have e: "e = pte_encode w c 0x1000 (or_all ?fs)" by (simp add: e_def or_all_def)
  show "pte_is_present w e" "pte_phys_addr w e 0x1000 = c" "e \<le> u64_max"
    using laws(1-3) by (simp_all only: e)
  have "pf_HUGE_PAGE w \<notin> set ?fs" "pf_PAT w \<notin> set ?fs" using bitwise_lawsD(4,5) [OF assms(1)] by auto
  then show "\<not> pte_is_huge w e" unfolding e by (rule laws(5))
qed

text \<open>
  The child \<open>c\<close> of an empty entry: its page \<open>a\<close> comes from the buddy allocator, is zeroed, and the
  entry is set to point to it.
\<close>

lemma fresh_table:
  assumes laws: "bitwise_laws w" and inv: "pt_inv w hh A root T B s"
    and f: "T l (slot l v) = Some f" and l: "2 \<le> l" "l \<le> 4"
    and absent: "\<not> pte_is_present w (entry hh (mu_mem s) f (index l v))"
    and own1: "frames_owned A m1 b1 (B(a \<mapsto> 0))" and new: "B a = None" and base: "bd_base b1 = bd_base (mu_frames s)"
    and kept: "\<And>c k x. B c = Some k \<Longrightarrow> x \<in> block_range c k \<Longrightarrow> m1 x = mu_mem s x"
    and c: "c + hh = a" "frame_ok hh c"
    and s': "mu_mem s' = st64 (f + hh + 8 * index l v)
        (pte_encode w c 0x1000 (pf_PRESENT w OR pf_WRITABLE w)) (table_zero a m1)" "mu_frames s' = b1"
  shows "pt_inv w hh A root (add_table (l - 1) (slot (l - 1) v) c T) (B(a \<mapsto> 0)) s'"
    and "walk w hh (mu_mem s') u 4 root = walk w hh (mu_mem s) u 4 root"
    and "others_kept hh T B s s'"
    and "add_table (l - 1) (slot (l - 1) v) c T k p = Some g \<Longrightarrow> j < 512 \<Longrightarrow>
      entry hh (mu_mem s') g j =
        (if g = f \<and> j = index l v then pte_encode w c 0x1000 (pf_PRESENT w OR pf_WRITABLE w)
         else if g = c then 0 else entry hh (mu_mem s) g j)"
proof -
  note tree = pt_invD(1) [OF inv] and own = pt_invD(3) [OF inv]
  define e where "e = pte_encode w c 0x1000 (pf_PRESENT w OR pf_WRITABLE w)"
  have cp: "c mod PAGE_SIZE = 0" "c < phys_limit" using c(2) by (simp_all add: frame_ok_def)
  note enc = encode_table [OF laws cp, folded e_def]
  let ?q = "slot (l - 1) v" and ?B = "B(a \<mapsto> 0)"
  let ?T = "add_table (l - 1) ?q c T"
  have q: "?q = 512 * slot l v + index l v" using slot_step l by simp
  have Bt: "B (g + hh) = Some 0" if "T k p = Some g" for k p g
    using pt_invD(2) [OF inv] that by (auto simp: holds_tables_def)
  have ca: "g \<noteq> c" if "T k p = Some g" for k p g using Bt [OF that] new c(1) by auto
  have none: "T (l - 1) ?q = None"
    using pt_treeD(5) [OF tree f l(1) index_bound [of l v]] absent q by simp
  have holds: "holds_tables hh ?T ?B"
    unfolding holds_tables_def
  proof (intro allI impI)
    fix k p g
    assume "?T k p = Some g"
    then show "?B (g + hh) = Some 0"
      by (rule add_table_cases) (use Bt new c(1) in auto)
  qed
  \<comment> \<open>the zeroed page\<close>
  have own2: "frames_owned A (table_zero a m1) b1 ?B"
    unfolding table_zero_def by (rule owned_st [OF own1]) (auto simp: block_range_def PAGE_SIZE_def)
  have zero_other: "table_zero a m1 x = mu_mem s x" if "B d = Some k" "x \<in> block_range d k" for d k x
  proof -
    have "block_range a 0 \<inter> block_range d k = {}"
    proof (rule fo.owned_apart [OF own1])
      show "a \<noteq> d" using that(1) new by auto
      then show "?B d = Some k" using that(1) by simp
    qed simp
    with that(2) have "x < a \<or> a + 8 * 512 \<le> x" by (auto simp: block_range_def PAGE_SIZE_def)
    then have "table_zero a m1 x = m1 x" unfolding table_zero_def by (rule st_other)
    with kept [OF that] show ?thesis by simp
  qed
  have ent2: "entry hh (table_zero a m1) g j = entry hh (mu_mem s) g j" if "T k p = Some g" "j < 512" for k p g j
    unfolding entry_def
  proof (rule ld_cong)
    fix i :: nat
    assume "i < 8"
    then have "g + hh + 8 * j + i \<in> block_range (g + hh) 0"
      using that(2) by (simp add: block_range_def PAGE_SIZE_def)
    then show "table_zero a m1 (g + hh + 8 * j + i) = mu_mem s (g + hh + 8 * j + i)"
      by (rule zero_other [OF Bt [OF that(1)]])
  qed
  have ent: "entry hh (mu_mem s') g j = (if g = f \<and> j = index l v then e
      else if g = c then 0 else entry hh (mu_mem s) g j)"
    if "?T k p = Some g" "j < 512" for k p g j
  proof -
    have fa: "?B (f + hh) = Some 0" "?B (g + hh) = Some 0"
      using holds that(1) Bt [OF f] new by (auto simp: holds_tables_def)
    from entry_write [OF own2 fa index_bound that(2) enc(4), of l v]
    have "entry hh (mu_mem s') g j = (if g = f \<and> j = index l v then e else entry hh (table_zero a m1) g j)"
      by (simp add: s' e_def)
    moreover have "entry hh (table_zero a m1) g j = (if g = c then 0 else entry hh (mu_mem s) g j)"
      using that(1)
    proof (rule add_table_cases)
      assume "g = c"
      then show ?thesis using entry_zeroed [OF c(1) that(2)] by simp
    next
      assume "T k p = Some g"
      then show ?thesis using ent2 [OF _ that(2)] ca by auto
    qed
    ultimately show ?thesis by auto
  qed
  have tree': "pt_tree w hh root ?T (mu_mem s')"
    unfolding pt_tree_def
  proof (intro conjI allI impI)
    show "?T 4 0 = Some root" using pt_treeD(1) [OF tree] l by (subst add_table_simps) auto
    fix k p g
    assume g: "?T k p = Some g"
    then show "1 \<le> k" "k \<le> 4" "frame_ok hh g"
      by (rule add_table_cases; use pt_treeD(2) [OF tree] l c(2) in auto)+
    show "p = 0" if "k = 4"
      using g by (rule add_table_cases) (use pt_treeD(2) [OF tree] that l in auto)
    show "?T (k + 1) (p div 512) \<noteq> None" if "k < 4"
      using g
    proof (rule add_table_cases)
      assume kp: "k = l - 1" "p = ?q"
      have "p div 512 = slot l v" using slot_div [of l v] l kp by simp
      then show ?thesis using f kp l by (subst add_table_simps) auto
    next
      assume "T k p = Some g"
      from pt_treeD(3) [OF tree this that] obtain h where "T (k + 1) (p div 512) = Some h" by auto
      then show ?thesis by (auto simp: add_table_def)
    qed
    show "k = k'" "p = p'" if g': "?T k' p' = Some g" for k' p'
      using g g' ca pt_treeD(4) [OF tree] by (auto elim!: add_table_cases)
    fix i :: nat
    assume k: "2 \<le> k" and i: "i < 512"
    let ?e = "entry hh (mu_mem s') g i"
    show "?T (k - 1) (512 * p + i) =
        (if pte_is_present w ?e \<and> \<not> pte_is_huge w ?e then Some (pte_phys_addr w ?e 0x1000) else None)"
      using g
    proof (rule add_table_cases)
      assume kp: "k = l - 1" "p = ?q" "g = c"
      have gf: "g \<noteq> f" using ca [OF f] kp(3) by auto
      have "?e = 0" using ent [OF g i] kp(3) gf by simp
      moreover have "T (k - 1) (512 * p + i) = None"
      proof (rule ccontr)
        assume "T (k - 1) (512 * p + i) \<noteq> None"
        then obtain h where h: "T (k - 1) (512 * p + i) = Some h" by auto
        have "k - 1 < 4" "k - 1 + 1 = k" using kp(1) k l by auto
        with pt_treeD(3) [OF tree h] have "T k ((512 * p + i) div 512) \<noteq> None" by auto
        then show False using none kp i by simp
      qed
      moreover have "(k - 1, 512 * p + i) \<noteq> (l - 1, ?q)" using kp k by auto
      ultimately show ?thesis using bitwise_lawsD(1) [OF laws] by simp
    next
      assume old: "T k p = Some g"
      show ?thesis
      proof (cases "g = f \<and> i = index l v")
        case True
        then have "k = l" "p = slot l v" using pt_treeD(4) [OF tree old] f by auto
        moreover have "?e = e" using ent [OF g i] True by simp
        ultimately show ?thesis using enc q True by simp
      next
        case False
        have "(k - 1, 512 * p + i) \<noteq> (l - 1, ?q)"
        proof
          assume "(k - 1, 512 * p + i) = (l - 1, ?q)"
          then have "k = l" "512 * p + i = 512 * slot l v + index l v" using k l q by auto
          then have "k = l" "p = slot l v" "i = index l v" using digits_eq [OF i index_bound] by auto
          with old f False show False by simp
        qed
        moreover have "?e = entry hh (mu_mem s) g i" using ent [OF g i] False ca [OF old] by auto
        ultimately show ?thesis using pt_treeD(5) [OF tree old k i] by simp
      qed
    qed
    assume k4: "k = 4" and pres: "pte_is_present w ?e"
    have old: "T k p = Some g" using g by (rule add_table_cases) (use k4 l in auto)
    show "\<not> pte_is_huge w ?e"
      using ent [OF g i] enc pt_treeD(6) [OF tree, of p g i] old k4 pres i ca [OF old] by (auto split: if_splits)
  qed
  have own': "frames_owned A (mu_mem s') (mu_frames s') ?B"
    unfolding s'
  proof (rule owned_st [OF own2])
    show "?B (f + hh) = Some 0" using Bt [OF f] new by auto
  qed (rule frame_cells, simp)
  show "?T k p = Some g \<Longrightarrow> j < 512 \<Longrightarrow> entry hh (mu_mem s') g j =
      (if g = f \<and> j = index l v then pte_encode w c 0x1000 (pf_PRESENT w OR pf_WRITABLE w)
       else if g = c then 0 else entry hh (mu_mem s) g j)"
    using ent by (simp add: e_def)
  show "pt_inv w hh A root ?T ?B s'"
  proof -
    have "window_ok hh b1" using pt_invD(4) [OF inv] base by (simp only: window_ok_def)
    with tree' holds own' s'(2) show ?thesis by (simp add: pt_inv_def)
  qed
  have same: "entry hh (mu_mem s') g j = entry hh (mu_mem s) g j"
    if "T k p = Some g" "j < 512" "\<not> (g = f \<and> j = index l v)" for k p g j
  proof -
    have "(k, p) \<noteq> (l - 1, ?q)" using that(1) none by auto
    then have "?T k p = Some g" using that(1) by simp
    from ent [OF this that(2)] show ?thesis using that(3) ca [OF that(1)] by auto
  qed
  show "walk w hh (mu_mem s') u 4 root = walk w hh (mu_mem s) u 4 root"
  proof (cases "slot (l - 1) u = ?q")
    case True
    have eq: "slot l u = slot l v" "index l u = index l v" using True l slot_eq_iff [of l u v] by auto
    from l obtain n where n: "l = Suc n" "1 \<le> n" by (cases l) auto
    then obtain k where k: "n = Suc k" by (cases n) auto
    have "walk w hh (mu_mem s) u 4 root = walk w hh (mu_mem s) u l f"
      using f eq by (intro walk_down [OF tree]) simp
    also have "\<dots> = None" using absent eq n(1) by (simp add: Let_def)
    finally have "walk w hh (mu_mem s) u 4 root = None" .
    moreover have "walk w hh (mu_mem s') u 4 root = walk w hh (mu_mem s') u (l - 1) c"
      using True by (intro walk_down [OF tree']) simp
    moreover have "entry hh (mu_mem s') c (index (l - 1) u) = 0"
      using ent [of "l - 1" ?q c "index (l - 1) u"] ca [OF f] by auto
    then have "walk w hh (mu_mem s') u (l - 1) c = None"
      using n(1) k bitwise_lawsD(1) [OF laws] by (simp add: Let_def)
    ultimately show ?thesis by simp
  next
    case False
    show ?thesis
    proof (rule walk_agree [OF tree])
      show "T 4 (slot 4 u) = Some root" using pt_treeD(1) [OF tree] by simp
      fix k g
      assume k: "1 \<le> k" "k \<le> 4" "T k (slot k u) = Some g"
      have "\<not> (g = f \<and> index k u = index l v)"
      proof
        assume eq: "g = f \<and> index k u = index l v"
        then have "k = l \<and> slot k u = slot l v" using pt_treeD(4) [OF tree k(3)] f by auto
        with eq False l slot_eq_iff [of l u v] show False by auto
      qed
      then show "entry hh (mu_mem s') g (index k u) = entry hh (mu_mem s) g (index k u)"
        by (rule same [OF k(3) index_bound])
    qed simp
  qed
  show "others_kept hh T B s s'"
    unfolding others_kept_def
  proof (intro allI impI)
    fix d k x
    assume d: "B d = Some k" "x \<in> block_range d k" "\<forall>l p. T l p \<noteq> Some (d - hh) \<or> d < hh"
    have "d \<noteq> f + hh" using d(3) f by auto
    then have "x \<notin> block_range (f + hh) 0" using fo.owned_apart [OF own d(1) Bt [OF f]] d(2) by auto
    then have "x \<notin> {f + hh + 8 * index l v..<f + hh + 8 * index l v + 8}"
      using frame_cells [of "index l v" f hh] by auto
    then have "mu_mem s' x = table_zero a m1 x" unfolding s' by (auto intro: st_other)
    then show "mu_mem s' x = mu_mem s x" using zero_other [OF d(1,2)] by simp
  qed
qed

end
