(* ===== verification/Mantle_Correct.thy ===== *)
theory Mantle_Correct
  imports Mantle_Steps
begin

text \<open>
  The operations of the walker and of the boot-time construction over \<open>pt_inv\<close>: one step down a
  level, mapping and unmapping a page, translation as \<open>walk\<close>, and the building blocks of
  \<open>install_kernel_pml4\<close>.
\<close>

text \<open>
  \<open>grows \<dots> n\<close>: the tree gained at most \<open>n\<close> tables, each a page the buddy allocator handed out
  on the way; nothing else that was handed out before changed, and no register was written.
\<close>

definition grows ::
  "bitwise \<Rightarrow> nat \<Rightarrow> area \<Rightarrow> nat \<Rightarrow> table_map \<Rightarrow> (nat \<rightharpoonup> nat) \<Rightarrow> mmu \<Rightarrow> table_map \<Rightarrow> (nat \<rightharpoonup> nat) \<Rightarrow> mmu \<Rightarrow> nat \<Rightarrow> bool" where
  "grows w hh A root T B s T' B' s' n \<longleftrightarrow>
     pt_inv w hh A root T' B' s' \<and> (\<forall>k p g. T k p = Some g \<longrightarrow> T' k p = Some g) \<and> B \<subseteq>\<^sub>m B' \<and>
     others_kept hh T B s s' \<and> (\<forall>k p g. T' k p = Some g \<longrightarrow> T k p = Some g \<or> B (g + hh) = None) \<and>
     alloc_count (bd_stats (mu_frames s')) \<le> alloc_count (bd_stats (mu_frames s)) + n \<and>
     free_bytes (bd_stats (mu_frames s)) \<le> free_bytes (bd_stats (mu_frames s')) + n * PAGE_SIZE \<and>
     mu_cr3 s' = mu_cr3 s \<and> bd_base (mu_frames s') = bd_base (mu_frames s)"

lemma growsD:
  assumes "grows w hh A root T B s T' B' s' n"
  shows "pt_inv w hh A root T' B' s'" and "T k p = Some g \<Longrightarrow> T' k p = Some g" and "B \<subseteq>\<^sub>m B'"
    and "others_kept hh T B s s'" and "mu_cr3 s' = mu_cr3 s"
    and "alloc_count (bd_stats (mu_frames s')) \<le> alloc_count (bd_stats (mu_frames s)) + n"
    and "free_bytes (bd_stats (mu_frames s)) \<le> free_bytes (bd_stats (mu_frames s')) + n * PAGE_SIZE"
    and "T' k p = Some g \<Longrightarrow> T k p = Some g \<or> B (g + hh) = None"
    and "bd_base (mu_frames s') = bd_base (mu_frames s)"
  using assms unfolding grows_def by simp_all

lemma grows_refl: "pt_inv w hh A root T B s \<Longrightarrow> grows w hh A root T B s T B s 0"
  by (simp add: grows_def others_kept_refl)

lemma grows_trans:
  assumes a: "grows w hh A root T B s T' B' s' m" and b: "grows w hh A root T' B' s' T'' B'' s'' n"
  shows "grows w hh A root T B s T'' B'' s'' (m + n)"
  unfolding grows_def
proof (intro conjI allI impI)
  show "pt_inv w hh A root T'' B'' s''" "mu_cr3 s'' = mu_cr3 s"
    "bd_base (mu_frames s'') = bd_base (mu_frames s)" using a b by (simp_all add: grows_def)
  show "T'' k p = Some g" if "T k p = Some g" for k p g using a b that by (simp add: grows_def)
  show "B \<subseteq>\<^sub>m B''" using a b map_le_trans by (auto simp: grows_def)
  show "T k p = Some g \<or> B (g + hh) = None" if "T'' k p = Some g" for k p g
  proof -
    have "B' (g + hh) = None \<Longrightarrow> B (g + hh) = None"
      using growsD(3) [OF a] by (metis domIff map_le_implies_dom_le subsetD)
    then show ?thesis using growsD(8) [OF b that] growsD(8) [OF a, of k p g] by metis
  qed
  show "others_kept hh T B s s''"
    using others_kept_trans [OF growsD(4) [OF a] growsD(4) [OF b] growsD(3) [OF a]] growsD(8) [OF a] .
  show "alloc_count (bd_stats (mu_frames s'')) \<le> alloc_count (bd_stats (mu_frames s)) + (m + n)"
    using growsD(6) [OF a] growsD(6) [OF b] by linarith
  show "free_bytes (bd_stats (mu_frames s)) \<le> free_bytes (bd_stats (mu_frames s'')) + (m + n) * PAGE_SIZE"
    using growsD(7) [OF a] growsD(7) [OF b] unfolding distrib_right by linarith
qed

lemma grows_mono: "grows w hh A root T B s T' B' s' m \<Longrightarrow> m \<le> n \<Longrightarrow> grows w hh A root T B s T' B' s' n"
proof -
  assume g: "grows w hh A root T B s T' B' s' m" and "m \<le> n"
  then have "m * PAGE_SIZE \<le> n * PAGE_SIZE" by simp
  then have "alloc_count (bd_stats (mu_frames s')) \<le> alloc_count (bd_stats (mu_frames s)) + n"
    "free_bytes (bd_stats (mu_frames s)) \<le> free_bytes (bd_stats (mu_frames s')) + n * PAGE_SIZE"
    using growsD(6,7) [OF g] \<open>m \<le> n\<close> by linarith+
  with g show ?thesis unfolding grows_def by simp
qed

text \<open>No huge page lies on the path of an address.\<close>

definition no_huge :: "bitwise \<Rightarrow> nat \<Rightarrow> table_map \<Rightarrow> nat \<Rightarrow> mem \<Rightarrow> bool" where
  "no_huge w hh T v m \<longleftrightarrow>
     (\<forall>l f. 2 \<le> l \<longrightarrow> T l (slot l v) = Some f \<longrightarrow>
        \<not> (pte_is_present w (entry hh m f (index l v)) \<and> pte_is_huge w (entry hh m f (index l v))))"

lemma no_hugeD:
  "no_huge w hh T v m \<Longrightarrow> 2 \<le> l \<Longrightarrow> T l (slot l v) = Some f \<Longrightarrow> pte_is_present w (entry hh m f (index l v)) \<Longrightarrow>
   \<not> pte_is_huge w (entry hh m f (index l v))"
  by (auto simp: no_huge_def)

definition clear_kept :: "bitwise \<Rightarrow> nat \<Rightarrow> table_map \<Rightarrow> mmu \<Rightarrow> table_map \<Rightarrow> mmu \<Rightarrow> bool" where
  "clear_kept w hh T s T' s' \<longleftrightarrow> (\<forall>u. no_huge w hh T u (mu_mem s) \<longrightarrow> no_huge w hh T' u (mu_mem s'))"

lemma clear_kept_refl: "clear_kept w hh T s T s"
  by (simp add: clear_kept_def)

lemma clear_kept_trans: "clear_kept w hh T s T' s' \<Longrightarrow> clear_kept w hh T' s' T'' s'' \<Longrightarrow> clear_kept w hh T s T'' s''"
  by (simp add: clear_kept_def)

lemma table_at_ok: "frame_ok hh f \<Longrightarrow> table_at_phys hh f = Inr (f + hh)"
  by (simp add: table_at_phys_def frame_ok_def)

lemma table_at_ok2: "frame_ok hh f \<Longrightarrow> checked_add hh f = Inr (f + hh)"
  by (simp add: frame_ok_def)

lemma index_ok: "bitwise_laws w \<Longrightarrow> 1 \<le> l \<Longrightarrow> l \<le> 4 \<Longrightarrow> vaddr_pt_index w v l = index l v"
  unfolding index_def by (rule bitwise_lawsD(3))

lemma read_ok: "i < 512 \<Longrightarrow> table_read m (f + hh) i = Inr (entry hh m f i)"
  by (simp add: table_read_def entry_def)

lemma write_ok: "i < 512 \<Longrightarrow> table_write (f + hh) i x m = Inr (st64 (f + hh + 8 * i) x m)"
  by (simp add: table_write_def)

subsection \<open>One step down\<close>

definition table_entry :: "bitwise \<Rightarrow> nat \<Rightarrow> nat" where
  "table_entry w c = pte_encode w c 0x1000 (pf_PRESENT w OR pf_WRITABLE w)"

lemma child_cases:
  assumes laws: "bitwise_laws w" and inv: "pt_inv w hh A root T B s"
    and f: "T l (slot l v) = Some f" and l: "2 \<le> l" "l \<le> 4"
    and can: "can_alloc (mu_frames s)"
  defines "e \<equiv> entry hh (mu_mem s) f (index l v)"
  obtains (present) c where "pte_is_present w e" "pte_phys_addr w e 0x1000 = c"
      "\<not> pte_is_huge w e \<Longrightarrow> T (l - 1) (slot (l - 1) v) = Some c"
  | (full) "\<not> pte_is_present w e" "alloc_pages 0 (mu_mem s, mu_frames s) = Inr (None, mu_mem s, mu_frames s)"
      "free_bytes (bd_stats (mu_frames s)) = 0"
  | (fresh) c m1 b1 T' B' s' where "\<not> pte_is_present w e"
      "alloc_pages 0 (mu_mem s, mu_frames s) = Inr (Some (c + hh), m1, b1)"
      "s' = s\<lparr>mu_mem := st64 (f + hh + 8 * index l v) (table_entry w c) (table_zero (c + hh) m1), mu_frames := b1\<rparr>"
      "grows w hh A root T B s T' B' s' 1" "T' (l - 1) (slot (l - 1) v) = Some c"
      "\<And>u. walk w hh (mu_mem s') u 4 root = walk w hh (mu_mem s) u 4 root"
      "\<And>u. no_huge w hh T u (mu_mem s) \<Longrightarrow> no_huge w hh T' u (mu_mem s')"
      "\<And>k. k \<noteq> l - 1 \<Longrightarrow> T' k = T k"
proof (cases "pte_is_present w e")
  case True
  moreover have "\<not> pte_is_huge w e \<Longrightarrow> T (l - 1) (slot (l - 1) v) = Some (pte_phys_addr w e 0x1000)"
    using pt_treeD(5) [OF pt_invD(1) [OF inv] f l(1) index_bound [of l v]] True slot_step [of l v] l
    by (simp add: e_def)
  ultimately show thesis by (rule present [OF _ refl])
next
  case False
  from frame_alloc [OF pt_invD(3) [OF inv] can] show thesis
  proof (elim disjE exE conjE)
    assume "alloc_pages 0 (mu_mem s, mu_frames s) = Inr (None, mu_mem s, mu_frames s)"
      "free_bytes (bd_stats (mu_frames s)) = 0"
    with False show thesis by (rule full)
  next
    fix a m1 b1
    assume run: "alloc_pages 0 (mu_mem s, mu_frames s) = Inr (Some a, m1, b1)"
      and own1: "frames_owned A m1 b1 (B(a \<mapsto> 0))" and new: "B a = None"
      and base: "bd_base b1 = bd_base (mu_frames s)" and nz: "bd_base (mu_frames s) \<noteq> 0"
      and a: "a mod PAGE_SIZE = 0" "bd_base (mu_frames s) \<le> a"
        "a + PAGE_SIZE \<le> bd_base (mu_frames s) + MAX_PAGES * PAGE_SIZE" "a + PAGE_SIZE \<le> u64_max"
      and cnt: "free_bytes (bd_stats (mu_frames s)) = free_bytes (bd_stats b1) + PAGE_SIZE"
        "alloc_count (bd_stats b1) = alloc_count (bd_stats (mu_frames s)) + 1"
      and kept: "\<forall>c l x. B c = Some l \<longrightarrow> x \<in> block_range c l \<longrightarrow> m1 x = mu_mem s x"
    define c where "c = a - hh"
    have win: "hh mod PAGE_SIZE = 0" "hh \<le> bd_base (mu_frames s)"
      "bd_base (mu_frames s) - hh + MAX_PAGES * PAGE_SIZE \<le> phys_limit"
      using pt_invD(4) [OF inv] unfolding window_ok_def by blast+
    have ca: "c + hh = a" using a(2) win(2) by (simp add: c_def)
    have "c < phys_limit" using a(3) win(2,3) ca by (simp add: PAGE_SIZE_def)
    moreover have "c mod PAGE_SIZE = 0" using a(1) win(1) ca by (metis mod_add_left_eq add_0 mod_mod_trivial mod_add_right_eq add.right_neutral)
    ultimately have ok: "frame_ok hh c" using a(2,4) ca nz by (simp add: frame_ok_def)
    define s' where "s' = s\<lparr>mu_mem := st64 (f + hh + 8 * index l v) (table_entry w c) (table_zero (c + hh) m1), mu_frames := b1\<rparr>"
    have s': "mu_mem s' = st64 (f + hh + 8 * index l v)
        (pte_encode w c 0x1000 (pf_PRESENT w OR pf_WRITABLE w)) (table_zero a m1)" "mu_frames s' = b1"
      by (simp_all add: s'_def table_entry_def ca)
    note ft = fresh_table [OF laws inv f l False [unfolded e_def] own1 new base _ ca ok s']
    let ?T = "add_table (l - 1) (slot (l - 1) v) c T"
    have none: "T (l - 1) (slot (l - 1) v) = None"
      using pt_treeD(5) [OF pt_invD(1) [OF inv] f l(1) index_bound [of l v]] False slot_step [of l v] l
      by (simp add: e_def)
    have g: "grows w hh A root T B s ?T (B(a \<mapsto> 0)) s' 1"
      unfolding grows_def
    proof (intro conjI allI impI)
      show "pt_inv w hh A root ?T (B(a \<mapsto> 0)) s'" using kept by (intro ft(1)) auto
      show "?T k p = Some g" if "T k p = Some g" for k p g
        using that none by (cases "(k, p) = (l - 1, slot (l - 1) v)") auto
      show "B \<subseteq>\<^sub>m B(a \<mapsto> 0)" using new by (auto simp: map_le_def)
      show "others_kept hh T B s s'" using kept by (intro ft(3)) auto
      show "T k p = Some g \<or> B (g + hh) = None" if "?T k p = Some g" for k p g
        using that by (rule add_table_cases) (use new ca in auto)
      show "alloc_count (bd_stats (mu_frames s')) \<le> alloc_count (bd_stats (mu_frames s)) + 1"
        using cnt by (simp add: s'_def)
      show "free_bytes (bd_stats (mu_frames s)) \<le> free_bytes (bd_stats (mu_frames s')) + 1 * PAGE_SIZE"
        using cnt by (simp add: s'_def)
      show "mu_cr3 s' = mu_cr3 s" "bd_base (mu_frames s') = bd_base (mu_frames s)" using base by (simp_all add: s'_def)
    qed
    have "no_huge w hh ?T u (mu_mem s')" if nh: "no_huge w hh T u (mu_mem s)" for u
      unfolding no_huge_def
    proof (intro allI impI)
      fix k g
      assume k: "2 \<le> k" "?T k (slot k u) = Some g"
      have ent: "entry hh (mu_mem s') g (index k u) =
          (if g = f \<and> index k u = index l v then table_entry w c
           else if g = c then 0 else entry hh (mu_mem s) g (index k u))"
        using kept unfolding table_entry_def by (intro ft(4) [OF _ k(2)]) auto
      have cp: "c mod PAGE_SIZE = 0" "c < phys_limit" using ok by (simp_all add: frame_ok_def)
      note enc = encode_table [OF laws cp, folded table_entry_def]
      show "\<not> (pte_is_present w (entry hh (mu_mem s') g (index k u)) \<and> pte_is_huge w (entry hh (mu_mem s') g (index k u)))"
        using k(2)
      proof (rule add_table_cases)
        assume "g = c"
        then show ?thesis using ent enc bitwise_lawsD(1) [OF laws] by auto
      next
        assume "T k (slot k u) = Some g"
        then show ?thesis using ent enc bitwise_lawsD(1) [OF laws] no_hugeD [OF nh k(1)] by auto
      qed
    qed
    moreover have "walk w hh (mu_mem s') u 4 root = walk w hh (mu_mem s) u 4 root" for u
      using kept by (intro ft(2)) auto
    ultimately show thesis
      using False run g ca by (intro fresh [of c m1 b1 s' ?T "B(a \<mapsto> 0)"]) (auto simp: s'_def add_table_def)
  qed
qed

definition stepped ::
  "bitwise \<Rightarrow> nat \<Rightarrow> area \<Rightarrow> nat \<Rightarrow> table_map \<Rightarrow> (nat \<rightharpoonup> nat) \<Rightarrow> mmu \<Rightarrow> nat \<Rightarrow> nat \<Rightarrow> nat \<Rightarrow>
   table_map \<Rightarrow> (nat \<rightharpoonup> nat) \<Rightarrow> mmu \<Rightarrow> bool" where
  "stepped w hh A root T B s l v c T' B' s' \<longleftrightarrow>
     grows w hh A root T B s T' B' s' 1 \<and> T' (l - 1) (slot (l - 1) v) = Some c \<and>
     (\<forall>u. walk w hh (mu_mem s') u 4 root = walk w hh (mu_mem s) u 4 root) \<and>
     (\<forall>u. no_huge w hh T u (mu_mem s) \<longrightarrow> no_huge w hh T' u (mu_mem s')) \<and>
     (\<forall>k. k \<noteq> l - 1 \<longrightarrow> T' k = T k) \<and>
     mu_invlpg s' = mu_invlpg s"

lemma steppedD:
  assumes "stepped w hh A root T B s l v c T' B' s'"
  shows "grows w hh A root T B s T' B' s' 1" and "T' (l - 1) (slot (l - 1) v) = Some c"
    and "walk w hh (mu_mem s') u 4 root = walk w hh (mu_mem s) u 4 root"
    and "no_huge w hh T u (mu_mem s) \<Longrightarrow> no_huge w hh T' u (mu_mem s')"
    and "mu_invlpg s' = mu_invlpg s" and "pt_inv w hh A root T' B' s'"
    and "alloc_count (bd_stats (mu_frames s')) \<le> alloc_count (bd_stats (mu_frames s)) + 1"
    and "k \<noteq> l - 1 \<Longrightarrow> T' k = T k"
    and "free_bytes (bd_stats (mu_frames s)) \<le> free_bytes (bd_stats (mu_frames s')) + PAGE_SIZE"
  using assms growsD(1,6,7) [of w hh A root T B s T' B' s' 1] by (simp_all add: stepped_def)

lemma descend_ok:
  assumes laws: "bitwise_laws w" and inv: "pt_inv w hh A root T B s"
    and f: "T l (slot l v) = Some f" and l: "2 \<le> l" "l \<le> 4"
    and can: "alloc_count (bd_stats (mu_frames s)) < u64_max" and nh: "no_huge w hh T v (mu_mem s)"
  shows "descend_or_create w hh f v l s = Inr (Inl OutOfFrames, s) \<and> free_bytes (bd_stats (mu_frames s)) = 0 \<or>
    (\<exists>c T' B' s'. descend_or_create w hh f v l s = Inr (Inr c, s') \<and> stepped w hh A root T B s l v c T' B' s')"
proof -
  have ok: "frame_ok hh f" using pt_treeD(2) [OF pt_invD(1) [OF inv] f] by simp
  have idx: "vaddr_pt_index w v l = index l v" using index_ok [OF laws] l by simp
  note io = table_at_ok [OF ok] idx read_ok [OF index_bound] write_ok [OF index_bound]
  have c: "can_alloc (mu_frames s)" using can by (simp add: can_alloc_def)
  show ?thesis
  proof (cases rule: child_cases [OF laws inv f l c, case_names present full fresh])
    case (present c)
    have "T (l - 1) (slot (l - 1) v) = Some c" using present no_hugeD [OF nh l(1) f] by blast
    moreover have "grows w hh A root T B s T B s 1" by (rule grows_mono [OF grows_refl [OF inv]]) simp
    ultimately have "stepped w hh A root T B s l v c T B s" by (simp add: stepped_def)
    moreover have "descend_or_create w hh f v l s = Inr (Inr c, s)"
      using present by (simp add: descend_or_create_def io)
    ultimately show ?thesis by blast
  next
    case full
    then show ?thesis by (simp add: descend_or_create_def io alloc_table_frame_def)
  next
    case (fresh c m1 b1 T' B' s')
    have "descend_or_create w hh f v l s = Inr (Inr c, s')"
      using fresh(1,2) by (simp add: descend_or_create_def io alloc_table_frame_def fresh(3) table_entry_def)
    moreover have "stepped w hh A root T B s l v c T' B' s'"
      using fresh by (simp add: stepped_def)
    ultimately show ?thesis by blast
  qed
qed

lemma descend_boot_ok:
  assumes laws: "bitwise_laws w" and inv: "pt_inv w hh A root T B s"
    and f: "T l (slot l v) = Some f" and l: "2 \<le> l" "l \<le> 4"
    and can: "alloc_count (bd_stats (mu_frames s)) < u64_max" and nh: "no_huge w hh T v (mu_mem s)"
    and room: "PAGE_SIZE \<le> free_bytes (bd_stats (mu_frames s))"
  obtains c T' B' s' where "descend_boot w hh f v l s = Inr (c, s')"
    and "stepped w hh A root T B s l v c T' B' s'"
proof -
  have ok: "frame_ok hh f" using pt_treeD(2) [OF pt_invD(1) [OF inv] f] by simp
  have idx: "vaddr_pt_index w v l = index l v" using index_ok [OF laws] l by simp
  note io = table_at_ok2 [OF ok] idx read_ok [OF index_bound] write_ok [OF index_bound]
  have c: "can_alloc (mu_frames s)" using can by (simp add: can_alloc_def)
  show thesis
  proof (cases rule: child_cases [OF laws inv f l c, case_names present full fresh])
    case (present c)
    have "T (l - 1) (slot (l - 1) v) = Some c" using present no_hugeD [OF nh l(1) f] by blast
    moreover have "grows w hh A root T B s T B s 1" by (rule grows_mono [OF grows_refl [OF inv]]) simp
    ultimately have "stepped w hh A root T B s l v c T B s" by (simp add: stepped_def)
    moreover have "descend_boot w hh f v l s = Inr (c, s)"
      using present by (simp add: descend_boot_def io)
    ultimately show ?thesis using that by blast
  next
    case full
    then show ?thesis using room by (simp add: PAGE_SIZE_def)
  next
    case (fresh c m1 b1 T' B' s')
    have "descend_boot w hh f v l s = Inr (c, s')"
      using fresh(1,2) by (simp add: descend_boot_def io alloc_zero_frame_def fresh(3) table_entry_def)
    moreover have "stepped w hh A root T B s l v c T' B' s'"
      using fresh by (simp add: stepped_def)
    ultimately show ?thesis using that by blast
  qed
qed

subsection \<open>Translation\<close>

lemma and_low: "n AND (2 ^ k - 1) = n mod 2 ^ k" for n :: nat
proof -
  have "n AND (2 ^ k - 1) = take_bit k n" by (simp add: take_bit_eq_mask mask_eq_exp_minus_1)
  then show ?thesis by (simp add: take_bit_eq_mod)
qed

lemma page_masks:
  "v AND 0x3FFFFFFF = v mod 0x40000000" "v AND 0x1FFFFF = v mod 0x200000" "v AND 0xFFF = v mod 0x1000" for v :: nat
  using and_low [of v 30] and_low [of v 21] and_low [of v 12] by simp_all

lemma offset_ok:
  assumes "bitwise_laws w" and "k \<le> 30"
  shows "pte_phys_addr w e sz + v mod 2 ^ k \<le> u64_max"
proof -
  have "pte_phys_addr w e sz < 2 ^ 51" using bitwise_lawsD(2) [OF assms(1)] by (simp add: phys_limit_def)
  moreover have "v mod 2 ^ k < 2 ^ k" by simp
  moreover have "(2::nat) ^ k \<le> 2 ^ 30" using assms(2) by (intro power_increasing) simp_all
  ultimately have "pte_phys_addr w e sz + v mod 2 ^ k < 2 ^ 51 + 2 ^ 30" by linarith
  then show ?thesis by (simp add: u64_max_def)
qed

lemma walk_levels:
  "walk w hh m v 4 f = (let e = entry hh m f (index 4 v) in
     if \<not> pte_is_present w e then None else walk w hh m v 3 (pte_phys_addr w e 0x1000))"
  "walk w hh m v 3 f = (let e = entry hh m f (index 3 v) in
     if \<not> pte_is_present w e then None
     else if pte_is_huge w e then Some (pte_phys_addr w e 0x40000000 + v mod 0x40000000)
     else walk w hh m v 2 (pte_phys_addr w e 0x1000))"
  "walk w hh m v 2 f = (let e = entry hh m f (index 2 v) in
     if \<not> pte_is_present w e then None
     else if pte_is_huge w e then Some (pte_phys_addr w e 0x200000 + v mod 0x200000)
     else walk w hh m v 1 (pte_phys_addr w e 0x1000))"
  "walk w hh m v 1 f = (let e = entry hh m f (index 1 v) in
     if \<not> pte_is_present w e then None else Some (pte_phys_addr w e 0x1000 + v mod 0x1000))"
  using walk.simps(2) [of w hh m v 3 f] walk.simps(2) [of w hh m v 2 f]
    walk.simps(2) [of w hh m v "Suc 0" f, unfolded One_nat_def [symmetric] Suc_1]
    walk.simps(2) [of w hh m v 0 f]
  by (simp_all only: Let_def, simp_all)

lemma translate_tree:
  assumes laws: "bitwise_laws w" and tree: "pt_tree w hh (current_pml4 s) T (mu_mem s)"
  shows "translate w hh v s = Inr (walk w hh (mu_mem s) v 4 (current_pml4 s))"
proof -
  have down: "T (l - 1) (slot (l - 1) v) = Some (pte_phys_addr w (entry hh (mu_mem s) f (index l v)) 0x1000)"
    if "T l (slot l v) = Some f" "2 \<le> l" "l \<le> 4" "pte_is_present w (entry hh (mu_mem s) f (index l v))"
      "\<not> pte_is_huge w (entry hh (mu_mem s) f (index l v))" for l f
    using pt_treeD(5) [OF tree that(1,2) index_bound [of l v]] slot_step [of l v] that by simp
  have idx: "vaddr_pt_index w v l = index l v" if "1 \<le> l" "l \<le> 4" for l using index_ok [OF laws that] .
  define r where "r = current_pml4 s"
  let ?m = "mu_mem s"
  have T4: "T 4 (slot 4 v) = Some r" using pt_treeD(1) [OF tree] by (simp add: r_def)
  have at: "table_at_phys hh f = Inr (f + hh)" if "T l p = Some f" for l p f
    using table_at_ok pt_treeD(2) [OF tree that] by blast
  have off: "checked_add (pte_phys_addr w e sz) (v mod 2 ^ k) = Inr (pte_phys_addr w e sz + v mod 2 ^ k)"
    if "k \<le> 30" for e sz k using offset_ok [OF laws that] by simp
  note offs = off [of 12, simplified] off [of 21, simplified] off [of 30, simplified]
  note t = translate_def r_def [symmetric] idx read_ok page_masks walk_levels Let_def offs
  define e4 where "e4 = entry hh ?m r (index 4 v)"
  show ?thesis
  proof (cases "pte_is_present w e4")
    case False
    then show ?thesis using at [OF T4] by (simp add: t e4_def)
  next
    case p4: True
    have nh4: "\<not> pte_is_huge w e4" using pt_treeD(6) [OF tree, of "slot 4 v" r "index 4 v"] T4 p4 by (simp add: e4_def)
    define r3 where "r3 = pte_phys_addr w e4 0x1000"
    have T3: "T 3 (slot 3 v) = Some r3"
      using down [OF T4] p4 nh4 by (simp add: e4_def r3_def)
    define e3 where "e3 = entry hh ?m r3 (index 3 v)"
    show ?thesis
    proof (cases "pte_is_present w e3 \<and> \<not> pte_is_huge w e3")
      case False
      then show ?thesis using at [OF T4] at [OF T3] p4 by (auto simp: t e4_def e3_def r3_def)
    next
      case p3: True
      define r2 where "r2 = pte_phys_addr w e3 0x1000"
      have T2: "T 2 (slot 2 v) = Some r2"
        using down [OF T3] p3 by (simp add: e3_def r2_def)
      define e2 where "e2 = entry hh ?m r2 (index 2 v)"
      show ?thesis
      proof (cases "pte_is_present w e2 \<and> \<not> pte_is_huge w e2")
        case False
        then show ?thesis using at [OF T4] at [OF T3] at [OF T2] p4 p3
          by (auto simp: t e4_def e3_def r3_def e2_def r2_def)
      next
        case p2: True
        define r1 where "r1 = pte_phys_addr w e2 0x1000"
        have T1: "T 1 (slot 1 v) = Some r1"
          using down [OF T2] p2 by (simp add: e2_def r1_def)
        show ?thesis using at [OF T4] at [OF T3] at [OF T2] at [OF T1] p4 p3 p2
          by (auto simp: t e4_def e3_def r3_def e2_def r2_def r1_def)
      qed
    qed
  qed
qed

lemma translate_walk:
  assumes "bitwise_laws w" and "pt_inv w hh A (current_pml4 s) T B s"
  shows "translate w hh v s = Inr (walk w hh (mu_mem s) v 4 (current_pml4 s))"
  by (rule translate_tree [OF assms(1) pt_invD(1) [OF assms(2)]])

subsection \<open>Mapping and unmapping a page\<close>

lemma present_flags:
  assumes "set fs \<subseteq> set (flag_list w)"
  shows "set (pf_PRESENT w # fs) \<subseteq> set (flag_list w)" and "pf_PRESENT w \<in> set (pf_PRESENT w # fs)"
    and "pf_PRESENT w OR or_all fs = or_all (pf_PRESENT w # fs)"
  using assms by (simp_all add: flag_list_def or_all_def)

lemma leaf_grows:
  assumes "pt_inv w hh A root T B s" and "pt_inv w hh A root T B s'" and "others_kept hh T B s s'"
    and "mu_frames s' = mu_frames s" and "mu_cr3 s' = mu_cr3 s"
  shows "grows w hh A root T B s T B s' 0"
  using assms by (simp add: grows_def)

lemma leaf_clear:
  assumes inv: "pt_inv w hh A root T B s" and f: "T 1 p = Some f" and e: "e \<le> u64_max" and i: "i < 512"
    and s': "mu_mem s' = st64 (f + hh + 8 * i) e (mu_mem s)"
  shows "clear_kept w hh T s T s'"
  unfolding clear_kept_def no_huge_def
proof (intro allI impI)
  fix u l g
  assume nh: "\<forall>l f. 2 \<le> l \<longrightarrow> T l (slot l u) = Some f \<longrightarrow>
      \<not> (pte_is_present w (entry hh (mu_mem s) f (index l u)) \<and> pte_is_huge w (entry hh (mu_mem s) f (index l u)))"
    and l: "2 \<le> l" "T l (slot l u) = Some g"
  have held: "B (x + hh) = Some 0" if "T k q = Some x" for k q x using pt_invD(2) [OF inv] that by (auto simp: holds_tables_def)
  have "g \<noteq> f" using pt_treeD(4) [OF pt_invD(1) [OF inv] l(2)] f l(1) by auto
  then have "entry hh (mu_mem s') g (index l u) = entry hh (mu_mem s) g (index l u)"
    using entry_write [OF pt_invD(3) [OF inv] held [OF f] held [OF l(2)] i index_bound e] by (simp add: s')
  with nh l show "\<not> (pte_is_present w (entry hh (mu_mem s') g (index l u)) \<and> pte_is_huge w (entry hh (mu_mem s') g (index l u)))"
    by simp
qed

lemma map_page_ok:
  assumes laws: "bitwise_laws w" and inv: "pt_inv w hh A root T B s" and root: "root = current_pml4 s"
    and al: "v mod 0x1000 = 0" "ph mod 0x1000 = 0" and ph: "ph < phys_limit"
    and fs: "set fs \<subseteq> set (flag_list w)" and nh: "no_huge w hh T v (mu_mem s)"
    and cnt: "alloc_count (bd_stats (mu_frames s)) + 3 \<le> u64_max"
  shows "(\<exists>s' T' B'. map_page w hh v ph (or_all fs) s = Inr (Inl OutOfFrames, s') \<and>
      grows w hh A root T B s T' B' s' 3 \<and> free_bytes (bd_stats (mu_frames s')) = 0 \<and>
      mu_invlpg s' = mu_invlpg s \<and> clear_kept w hh T s T' s' \<and>
      (\<forall>u. walk w hh (mu_mem s') u 4 root = walk w hh (mu_mem s) u 4 root)) \<or>
    (\<exists>s' T' B'. map_page w hh v ph (or_all fs) s = Inr (Inr (walk w hh (mu_mem s) v 4 root), s') \<and>
      grows w hh A root T B s T' B' s' 3 \<and> mu_invlpg s' = v # mu_invlpg s \<and>
      T' 1 (slot 1 v) \<noteq> None \<and> clear_kept w hh T s T' s' \<and>
      (\<forall>u. walk w hh (mu_mem s') u 4 root =
        (if slot 0 u = slot 0 v then Some (ph + u mod 0x1000) else walk w hh (mu_mem s) u 4 root)))"
proof -
  have mask: "v AND 0xFFF = 0" "ph AND 0xFFF = 0"
    using al page_masks(3) [of v] page_masks(3) [of ph] by simp_all
  have T4: "T 4 (slot 4 v) = Some root" using pt_treeD(1) [OF pt_invD(1) [OF inv]] by simp
  note m = map_page_def or_return_def mask root [symmetric]
  have c4: "alloc_count (bd_stats (mu_frames s)) < u64_max" using cnt by simp
  have n: "2 \<le> (4::nat)" "(4::nat) \<le> 4" "2 \<le> (3::nat)" "(3::nat) \<le> 4" "2 \<le> (2::nat)" "(2::nat) \<le> 4" by simp_all
  from descend_ok [OF laws inv T4 n(1,2) c4 nh] show ?thesis
  proof (elim disjE exE conjE)
    assume "descend_or_create w hh root v 4 s = Inr (Inl OutOfFrames, s)" "free_bytes (bd_stats (mu_frames s)) = 0"
    then show ?thesis using grows_mono [OF grows_refl [OF inv], of 3]
      by (intro disjI1 exI [of _ s] exI [of _ T] exI [of _ B]) (simp add: m clear_kept_refl)
  next
    fix f3 T1 B1 s1
    assume d4: "descend_or_create w hh root v 4 s = Inr (Inr f3, s1)"
      and st1: "stepped w hh A root T B s 4 v f3 T1 B1 s1"
    note D1 = steppedD [OF st1]
    have k1: "clear_kept w hh T s T1 s1" using D1(4) by (simp add: clear_kept_def)
    have T3: "T1 3 (slot 3 v) = Some f3" using D1(2) by simp
    have c3: "alloc_count (bd_stats (mu_frames s1)) < u64_max" using cnt D1(7) by linarith
    from descend_ok [OF laws D1(6) T3 n(3,4) c3 D1(4) [OF nh]] show ?thesis
    proof (elim disjE exE conjE)
      assume "descend_or_create w hh f3 v 3 s1 = Inr (Inl OutOfFrames, s1)" "free_bytes (bd_stats (mu_frames s1)) = 0"
      then show ?thesis using grows_mono [OF D1(1), of 3] D1(3,5) d4 k1
        by (intro disjI1 exI [of _ s1] exI [of _ T1] exI [of _ B1]) (simp add: m)
    next
      fix f2 T2 B2 s2
      assume d3: "descend_or_create w hh f3 v 3 s1 = Inr (Inr f2, s2)"
        and st2: "stepped w hh A root T1 B1 s1 3 v f2 T2 B2 s2"
      note D2 = steppedD [OF st2]
      have k2: "clear_kept w hh T s T2 s2" using k1 D2(4) by (simp add: clear_kept_def)
      have g2: "grows w hh A root T B s T2 B2 s2 2" using grows_trans [OF D1(1) D2(1)] by (simp add: numeral_2_eq_2)
      have Tt: "T2 2 (slot 2 v) = Some f2" using D2(2) by simp
      have c2: "alloc_count (bd_stats (mu_frames s2)) < u64_max" using cnt D1(7) D2(7) by linarith
      from descend_ok [OF laws D2(6) Tt n(5,6) c2 D2(4) [OF D1(4) [OF nh]]] show ?thesis
      proof (elim disjE exE conjE)
        assume "descend_or_create w hh f2 v 2 s2 = Inr (Inl OutOfFrames, s2)" "free_bytes (bd_stats (mu_frames s2)) = 0"
        then show ?thesis using grows_mono [OF g2, of 3] D1(3,5) D2(3,5) d4 d3 k2
          by (intro disjI1 exI [of _ s2] exI [of _ T2] exI [of _ B2]) (simp add: m)
      next
        fix f1 T3 B3 s3
        assume d2: "descend_or_create w hh f2 v 2 s2 = Inr (Inr f1, s3)"
          and st3: "stepped w hh A root T2 B2 s2 2 v f1 T3 B3 s3"
        note D3 = steppedD [OF st3]
        have k3: "clear_kept w hh T s T3 s3" using k2 D3(4) by (simp add: clear_kept_def)
        have g3: "grows w hh A root T B s T3 B3 s3 3" using grows_trans [OF g2 D3(1)] by simp
        have inv3: "pt_inv w hh A root T3 B3 s3" by (rule D3(6))
        have Tl: "T3 1 (slot 1 v) = Some f1" using D3(2) by simp
        have ok: "frame_ok hh f1" using pt_treeD(2) [OF pt_invD(1) [OF inv3] Tl] by simp
        define e where "e = pte_encode w ph 0x1000 (pf_PRESENT w OR or_all fs)"
        define s' where "s' = s3\<lparr>mu_mem := st64 (f1 + hh + 8 * index 1 v) e (mu_mem s3), mu_invlpg := v # mu_invlpg s3\<rparr>"
        have sz: "0x1000 \<in> page_sizes" by (simp add: page_sizes_def)
        note enc = encode_laws [OF laws sz al(2) ph present_flags(1,2) [OF fs], folded present_flags(3) [OF fs], folded e_def]
        have none: "T3 (1 - 1) (slot (1 - 1) v) = None"
        proof (rule ccontr)
          assume "T3 (1 - 1) (slot (1 - 1) v) \<noteq> None"
          then show False using pt_treeD(2) [OF pt_invD(1) [OF inv3], of 0] by force
        qed
        have sf: "mu_mem s' = st64 (f1 + hh + 8 * index 1 v) e (mu_mem s3)" "mu_frames s' = mu_frames s3"
          by (simp_all add: s'_def)
        note lw = leaf_write [OF inv3 Tl _ _ _ none enc(3) sf, simplified]
        have "grows w hh A root T3 B3 s3 T3 B3 s' 0"
          by (rule leaf_grows [OF inv3 lw(1) lw(3)]) (simp_all add: s'_def)
        from grows_trans [OF g3 this] have g: "grows w hh A root T B s T3 B3 s' 3" by simp
        have same: "walk w hh (mu_mem s3) u 4 root = walk w hh (mu_mem s) u 4 root" for u
          using D1(3) D2(3) D3(3) by simp
        have "walk w hh (mu_mem s) v 4 root = walk w hh (mu_mem s3) v 1 f1"
          using walk_down [OF pt_invD(1) [OF inv3] Tl] same by simp
        then have down: "walk w hh (mu_mem s) v 4 root =
            (if pte_is_present w (entry hh (mu_mem s3) f1 (index 1 v))
             then Some (pte_phys_addr w (entry hh (mu_mem s3) f1 (index 1 v)) 0x1000) else None)"
          unfolding walk_levels using al(1) by (simp add: Let_def)
        have wk: "walk w hh (mu_mem s') u 4 root =
            (if slot 0 u = slot 0 v then Some (ph + u mod 0x1000) else walk w hh (mu_mem s) u 4 root)" for u
          using lw(2) [of u] same enc(1,2) by (simp add: leaf_target_def)
        have run: "map_page w hh v ph (or_all fs) s = Inr (Inr (walk w hh (mu_mem s) v 4 root), s')"
          using d4 d3 d2
          by (simp add: m table_at_ok [OF ok] index_ok [OF laws] read_ok write_ok down Let_def s'_def e_def)
        have iv: "mu_invlpg s' = v # mu_invlpg s" using D1(5) D2(5) D3(5) by (simp add: s'_def)
        have "clear_kept w hh T3 s3 T3 s'" by (rule leaf_clear [OF inv3 Tl enc(3) index_bound sf(1)])
        then have "clear_kept w hh T s T3 s'" by (rule clear_kept_trans [OF k3])
        then show ?thesis using run g wk iv Tl by blast
      qed
    qed
  qed
qed

lemma walk_existing_ok:
  assumes laws: "bitwise_laws w" and inv: "pt_inv w hh A root T B s" and f: "T l (slot l v) = Some f"
    and l: "2 \<le> l" "l \<le> 4"
  shows "walk_existing w hh f v l s = Inr (T (l - 1) (slot (l - 1) v))"
proof -
  note tree = pt_invD(1) [OF inv]
  have ok: "frame_ok hh f" using pt_treeD(2) [OF tree f] by simp
  have "vaddr_pt_index w v l = index l v" using index_ok [OF laws] l by simp
  then show ?thesis
    using pt_treeD(5) [OF tree f l(1) index_bound [of l v]] slot_step [of l v] l
    by (simp add: walk_existing_def table_at_ok [OF ok] read_ok)
qed

lemma parent_table:
  assumes "pt_tree w hh root T m" and "T l (slot l v) = Some f" and "l < 4"
  obtains g where "T (l + 1) (slot (l + 1) v) = Some g"
  using pt_treeD(3) [OF assms] slot_div [of "l + 1" v] assms(3) by auto

lemma no_level_0: "pt_tree w hh root T m \<Longrightarrow> T 0 p = None"
  using pt_treeD(2) [of w hh root T m 0 p] by (cases "T 0 p") auto

lemma unmap_page_ok:
  assumes laws: "bitwise_laws w" and inv: "pt_inv w hh A root T B s" and root: "root = current_pml4 s"
  shows "T 1 (slot 1 v) = None \<and> unmap_page w hh v s = Inr s \<or>
    (\<exists>s'. T 1 (slot 1 v) \<noteq> None \<and> unmap_page w hh v s = Inr s' \<and> grows w hh A root T B s T B s' 0 \<and>
      mu_invlpg s' = v # mu_invlpg s \<and>
      (\<forall>u. walk w hh (mu_mem s') u 4 root =
        (if slot 0 u = slot 0 v then None else walk w hh (mu_mem s) u 4 root)))"
proof -
  note tree = pt_invD(1) [OF inv]
  have T4: "T 4 (slot 4 v) = Some root" using pt_treeD(1) [OF tree] by simp
  have n: "2 \<le> (4::nat)" "(4::nat) \<le> 4" "2 \<le> (3::nat)" "(3::nat) \<le> 4" "2 \<le> (2::nat)" "(2::nat) \<le> 4" by simp_all
  note we = walk_existing_ok [OF laws inv]
  note u = unmap_page_def some_or_return_def root [symmetric] we [OF T4 n(1,2)]
  show ?thesis
  proof (cases "T 1 (slot 1 v)")
    case None
    have "unmap_page w hh v s = Inr s"
    proof (cases "T 3 (slot 3 v)")
      case None
      then show ?thesis by (simp add: u)
    next
      case (Some f3)
      note u3 = u we [OF Some n(3,4)] Some
      show ?thesis
      proof (cases "T 2 (slot 2 v)")
        case (Some f2)
        with \<open>T 1 (slot 1 v) = None\<close> show ?thesis by (simp add: u3 we [OF Some n(5,6)])
      qed (simp add: u3)
    qed
    with None show ?thesis by blast
  next
    case (Some f1)
    then obtain f2 where T2: "T 2 (slot 2 v) = Some f2"
      using parent_table [OF tree Some] by (auto simp: numeral_2_eq_2)
    then obtain f3 where T3: "T 3 (slot 3 v) = Some f3"
      using parent_table [OF tree T2] by (auto simp: numeral_3_eq_3 numeral_2_eq_2)
    have ok: "frame_ok hh f1" using pt_treeD(2) [OF tree Some] by simp
    define s' where "s' = s\<lparr>mu_mem := st64 (f1 + hh + 8 * index 1 v) 0 (mu_mem s), mu_invlpg := v # mu_invlpg s\<rparr>"
    have sf: "mu_mem s' = st64 (f1 + hh + 8 * index 1 v) 0 (mu_mem s)" "mu_frames s' = mu_frames s"
      by (simp_all add: s'_def)
    have none: "T (1 - 1) (slot (1 - 1) v) = None" using no_level_0 [OF tree] by simp
    note lw = leaf_write [OF inv Some _ _ _ none _ sf, simplified]
    have "unmap_page w hh v s = Inr s'"
      using Some we [OF T3 n(3,4)] we [OF T2 n(5,6)] T3 T2
      by (simp add: u table_at_ok [OF ok] index_ok [OF laws] write_ok s'_def)
    moreover have "grows w hh A root T B s T B s' 0"
      by (rule leaf_grows [OF inv lw(1) lw(3)]) (simp_all add: s'_def)
    moreover have "walk w hh (mu_mem s') u 4 root =
        (if slot 0 u = slot 0 v then None else walk w hh (mu_mem s) u 4 root)" for u
      using lw(2) [of u] bitwise_lawsD(1) [OF laws] by (simp add: leaf_target_def)
    moreover have "mu_invlpg s' = v # mu_invlpg s" by (simp add: s'_def)
    ultimately show ?thesis using Some by blast
  qed
qed

text \<open>An address that translates to nothing has no huge page on its path.\<close>

lemma no_huge_unmapped:
  assumes tree: "pt_tree w hh root T m" and none: "walk w hh m v 4 root = None"
  shows "no_huge w hh T v m"
  unfolding no_huge_def
proof (intro allI impI notI)
  fix l f
  assume l: "2 \<le> l" "T l (slot l v) = Some f"
    and e: "pte_is_present w (entry hh m f (index l v)) \<and> pte_is_huge w (entry hh m f (index l v))"
  have "l \<le> 4" using pt_treeD(2) [OF tree l(2)] by simp
  moreover have "l \<noteq> 4" using pt_treeD(6) [OF tree, of "slot 4 v" f "index 4 v"] l(2) e by auto
  ultimately have "l = 2 \<or> l = 3" using l(1) by auto
  moreover have "walk w hh m v l f = None" using walk_down [OF tree l(2)] none by simp
  ultimately show False using e by (auto simp: walk_levels Let_def)
qed

end
