(* ===== verification/Mantle_Boot.thy ===== *)
theory Mantle_Boot
  imports Mantle_Correct
begin

text \<open>
  \<open>install_kernel_pml4\<close>: the root table, the 2 MiB mapping of physical memory and the 4 KiB mapping
  of the kernel image, each as an effect on the translation of every address.
\<close>

lemma slot_offset:
  assumes "2 ^ (12 + 9 * l) dvd x" and "x mod 2 ^ 48 + p < 2 ^ 48" and "l \<le> 3"
  shows "slot l (x + p) = slot l x + p div 2 ^ (12 + 9 * l)"
    and "(x + p) mod 2 ^ (12 + 9 * l) = p mod 2 ^ (12 + 9 * l)"
proof -
  define k where "k = 12 + 9 * l"
  have k: "k \<le> 48" using assms(3) by (simp add: k_def)
  have xk: "2 ^ k dvd x" using assms(1) by (simp add: k_def)
  have "(2::nat) ^ k dvd 2 ^ 48" using k by (rule le_imp_power_dvd)
  then have d: "2 ^ k dvd x mod 2 ^ 48" using xk dvd_mod by blast
  have "(x + p) mod 2 ^ 48 = (x mod 2 ^ 48 + p) mod 2 ^ 48" by presburger
  then have "(x + p) mod 2 ^ 48 = x mod 2 ^ 48 + p" using assms(2) by simp
  then show "slot l (x + p) = slot l x + p div 2 ^ (12 + 9 * l)"
    unfolding slot_def k_def [symmetric] using d by (simp add: div_plus_div_distrib_dvd_left)
  show "(x + p) mod 2 ^ (12 + 9 * l) = p mod 2 ^ (12 + 9 * l)"
    unfolding k_def [symmetric] using xk by (metis mod_add_left_eq add_0 dvd_eq_mod_eq_0)
qed

definition kept_blocks :: "(nat \<rightharpoonup> nat) \<Rightarrow> mmu \<Rightarrow> mmu \<Rightarrow> bool" where
  "kept_blocks B s s' \<longleftrightarrow> (\<forall>c k x. B c = Some k \<longrightarrow> x \<in> block_range c k \<longrightarrow> mu_mem s' x = mu_mem s x)"

subsection \<open>The root table\<close>

lemma root_ok:
  assumes laws: "bitwise_laws w" and own: "frames_owned A (mu_mem s) (mu_frames s) B"
    and win: "window_ok hh (mu_frames s)"
    and cnt: "alloc_count (bd_stats (mu_frames s)) < u64_max"
    and room: "PAGE_SIZE \<le> free_bytes (bd_stats (mu_frames s))"
  obtains c s' T where "alloc_zero_frame hh s = Inr (c, s')" and "pt_inv w hh A c T (B(c + hh \<mapsto> 0)) s'"
    and "T 1 = Map.empty" and "\<And>u. walk w hh (mu_mem s') u 4 c = None" and "B (c + hh) = None"
    and "kept_blocks B s s'" and "\<And>l p f. T l p = Some f \<Longrightarrow> f = c"
    and "alloc_count (bd_stats (mu_frames s')) = alloc_count (bd_stats (mu_frames s)) + 1"
    and "free_bytes (bd_stats (mu_frames s)) = free_bytes (bd_stats (mu_frames s')) + PAGE_SIZE"
    and "frame_ok hh c" and "bd_base (mu_frames s') = bd_base (mu_frames s)"
proof -
  have can: "can_alloc (mu_frames s)" using cnt by (simp add: can_alloc_def)
  from frame_alloc [OF own can] room obtain a m1 b1 where
    run: "alloc_pages 0 (mu_mem s, mu_frames s) = Inr (Some a, m1, b1)" and nz: "bd_base (mu_frames s) \<noteq> 0"
    and own1: "frames_owned A m1 b1 (B(a \<mapsto> 0))" and new: "B a = None" and base: "bd_base b1 = bd_base (mu_frames s)"
    and a: "a mod PAGE_SIZE = 0" "bd_base (mu_frames s) \<le> a"
      "a + PAGE_SIZE \<le> bd_base (mu_frames s) + MAX_PAGES * PAGE_SIZE" "a + PAGE_SIZE \<le> u64_max"
    and cnt1: "free_bytes (bd_stats (mu_frames s)) = free_bytes (bd_stats b1) + PAGE_SIZE"
      "alloc_count (bd_stats b1) = alloc_count (bd_stats (mu_frames s)) + 1"
    and kept: "\<forall>c l x. B c = Some l \<longrightarrow> x \<in> block_range c l \<longrightarrow> m1 x = mu_mem s x"
    by (auto simp: PAGE_SIZE_def)
  define c where "c = a - hh"
  have w: "hh mod PAGE_SIZE = 0" "hh \<le> bd_base (mu_frames s)"
    "bd_base (mu_frames s) - hh + MAX_PAGES * PAGE_SIZE \<le> phys_limit"
    using win unfolding window_ok_def by blast+
  have ca: "c + hh = a" using a(2) w(2) by (simp add: c_def)
  have "c < phys_limit" using a(3) w(2,3) ca by (simp add: PAGE_SIZE_def)
  moreover have "c mod PAGE_SIZE = 0"
    using a(1) w(1) ca by (metis mod_add_left_eq add_0 mod_mod_trivial mod_add_right_eq add.right_neutral)
  ultimately have ok: "frame_ok hh c" using a(2,4) ca nz by (simp add: frame_ok_def)
  define T :: table_map where "T = (\<lambda>k p. if k = 4 \<and> p = 0 then Some c else None)"
  define s' where "s' = s\<lparr>mu_mem := table_zero a m1, mu_frames := b1\<rparr>"
  have own2: "frames_owned A (table_zero a m1) b1 (B(a \<mapsto> 0))"
    unfolding table_zero_def by (rule owned_st [OF own1]) (auto simp: block_range_def PAGE_SIZE_def)
  have ent: "entry hh (mu_mem s') c i = 0" if "i < 512" for i
    using entry_zeroed [OF ca that] by (simp add: s'_def)
  have tree: "pt_tree w hh c T (mu_mem s')"
    unfolding pt_tree_def using ok bitwise_lawsD(1) [OF laws] ent by (auto simp: T_def split: if_splits)
  have T': "T l p = Some f \<Longrightarrow> f = c" for l p f by (simp add: T_def split: if_splits)
  have win': "window_ok hh b1" using win base by (simp only: window_ok_def)
  have "holds_tables hh T (B(a \<mapsto> 0))" using T' ca by (auto simp: holds_tables_def)
  with tree own2 win' have inv: "pt_inv w hh A c T (B(c + hh \<mapsto> 0)) s'"
    by (simp add: pt_inv_def s'_def ca)
  have "kept_blocks B s s'"
    unfolding kept_blocks_def
  proof (intro allI impI)
    fix d k x
    assume d: "B d = Some k" "x \<in> block_range d k"
    have "block_range a 0 \<inter> block_range d k = {}"
    proof (rule fo.owned_apart [OF own1])
      show "a \<noteq> d" using d(1) new by auto
      then show "(B(a \<mapsto> 0)) d = Some k" using d(1) by simp
    qed simp
    with d(2) have "x < a \<or> a + 8 * 512 \<le> x" by (auto simp: block_range_def PAGE_SIZE_def)
    then have "table_zero a m1 x = m1 x" unfolding table_zero_def by (rule st_other)
    with kept d show "mu_mem s' x = mu_mem s x" by (simp add: s'_def)
  qed
  moreover have "alloc_zero_frame hh s = Inr (c, s')"
    using run a(2) w(2) by (simp add: alloc_zero_frame_def s'_def c_def)
  moreover have "walk w hh (mu_mem s') u 4 c = None" for u
    using ent bitwise_lawsD(1) [OF laws] by (simp add: walk_levels)
  moreover have "T 1 = Map.empty" by (auto simp: T_def)
  ultimately show thesis
    using inv T' new ca cnt1 ok base that [of c s' T] by (simp add: s'_def)
qed

subsection \<open>Huge pages\<close>

lemma map_huge_ok:
  assumes laws: "bitwise_laws w" and inv: "pt_inv w hh A root T B s"
    and ph: "i * 0x200000 < phys_limit" and hi: "hh + i * 0x200000 \<le> u64_max"
    and none: "walk w hh (mu_mem s) (hh + i * 0x200000) 4 root = None" and T1: "T 1 = Map.empty"
    and cnt: "alloc_count (bd_stats (mu_frames s)) + 2 \<le> u64_max"
    and room: "2 * PAGE_SIZE \<le> free_bytes (bd_stats (mu_frames s))"
  obtains T' B' s' where "map_huge w hh root i s = Inr s'" and "grows w hh A root T B s T' B' s' 2"
    and "T' 1 = Map.empty"
    and "\<exists>f. T' 2 (slot 2 (hh + i * 0x200000)) = Some f \<and>
      entry hh (mu_mem s') f (index 2 (hh + i * 0x200000)) = pte_encode w (i * 0x200000) 0x200000
        (or_all [pf_PRESENT w, pf_WRITABLE w, pf_NO_EXECUTE w, pf_HUGE_PAGE w, pf_GLOBAL w])"
    and "\<And>u. walk w hh (mu_mem s') u 4 root =
      (if slot 1 u = slot 1 (hh + i * 0x200000) then Some (i * 0x200000 + u mod 0x200000)
       else walk w hh (mu_mem s) u 4 root)"
proof -
  define v where "v = hh + i * 0x200000"
  note tree = pt_invD(1) [OF inv]
  have nh: "no_huge w hh T v (mu_mem s)" using no_huge_unmapped [OF tree] none by (simp add: v_def)
  have T4: "T 4 (slot 4 v) = Some root" using pt_treeD(1) [OF tree] by simp
  have n: "2 \<le> (4::nat)" "(4::nat) \<le> 4" "2 \<le> (3::nat)" "(3::nat) \<le> 4" "1 \<le> (2::nat)" "(2::nat) \<le> 3" by simp_all
  have c4: "alloc_count (bd_stats (mu_frames s)) < u64_max" using cnt by simp
  have r4: "PAGE_SIZE \<le> free_bytes (bd_stats (mu_frames s))" using room by simp
  obtain f3 Ta Ba s1 where d4: "descend_boot w hh root v 4 s = Inr (f3, s1)"
    and st1: "stepped w hh A root T B s 4 v f3 Ta Ba s1"
    by (rule descend_boot_ok [OF laws inv T4 n(1,2) c4 nh r4])
  note D1 = steppedD [OF st1]
  have T3: "Ta 3 (slot 3 v) = Some f3" using D1(2) by simp
  have c3: "alloc_count (bd_stats (mu_frames s1)) < u64_max" using cnt D1(7) by linarith
  have r3: "PAGE_SIZE \<le> free_bytes (bd_stats (mu_frames s1))" using room D1(9) by linarith
  obtain f2 Tb Bb s2 where d3: "descend_boot w hh f3 v 3 s1 = Inr (f2, s2)"
    and st2: "stepped w hh A root Ta Ba s1 3 v f2 Tb Bb s2"
    by (rule descend_boot_ok [OF laws D1(6) T3 n(3,4) c3 D1(4) [OF nh] r3])
  note D2 = steppedD [OF st2]
  have g2: "grows w hh A root T B s Tb Bb s2 2" using grows_trans [OF D1(1) D2(1)] by (simp add: numeral_2_eq_2)
  note inv2 = D2(6)
  have T2: "Tb 2 (slot 2 v) = Some f2" using D2(2) by simp
  have "Tb 1 = Ta 1" using D2(8) by simp
  moreover have "Ta 1 = T 1" using D1(8) by simp
  ultimately have Tb1: "Tb 1 = Map.empty" using T1 by simp
  have ok: "frame_ok hh f2" using pt_treeD(2) [OF pt_invD(1) [OF inv2] T2] by simp
  define fs where "fs = [pf_PRESENT w, pf_WRITABLE w, pf_NO_EXECUTE w, pf_HUGE_PAGE w, pf_GLOBAL w]"
  define e where "e = pte_encode w (i * 0x200000) 0x200000 (or_all fs)"
  have sz: "0x200000 \<in> page_sizes" by (simp add: page_sizes_def)
  have al: "i * 0x200000 mod 0x200000 = 0" by simp
  have fl: "set fs \<subseteq> set (flag_list w)" "pf_PRESENT w \<in> set fs" "pf_HUGE_PAGE w \<in> set fs"
    by (auto simp: fs_def flag_list_def)
  note enc = encode_laws [OF laws sz al ph fl(1,2), folded e_def]
  have oe: "pf_PRESENT w OR pf_WRITABLE w OR pf_NO_EXECUTE w OR pf_HUGE_PAGE w OR pf_GLOBAL w = or_all fs"
    by (simp add: or_all_def fs_def or.assoc)
  define s' where "s' = s2\<lparr>mu_mem := st64 (f2 + hh + 8 * index 2 v) e (mu_mem s2)\<rparr>"
  have sf: "mu_mem s' = st64 (f2 + hh + 8 * index 2 v) e (mu_mem s2)" "mu_frames s' = mu_frames s2"
    by (simp_all add: s'_def)
  have none': "Tb (2 - 1) (slot (2 - 1) v) = None" using Tb1 by simp
  have leaf: "2 = 1 \<or> \<not> pte_is_present w e \<or> pte_is_huge w e" using enc(4) fl(3) by simp
  note lw = leaf_write [OF inv2 T2 n(5,6) leaf none' enc(3) sf]
  have "grows w hh A root Tb Bb s2 Tb Bb s' 0"
    by (rule leaf_grows [OF inv2 lw(1) lw(3)]) (simp_all add: s'_def)
  from grows_trans [OF g2 this] have g: "grows w hh A root T B s Tb Bb s' 2" by simp
  have wk: "walk w hh (mu_mem s') u 4 root =
      (if slot 1 u = slot 1 v then Some (i * 0x200000 + u mod 0x200000) else walk w hh (mu_mem s) u 4 root)" for u
    using lw(2) [of u] enc(1,2) D1(3) [of u] D2(3) [of u] by (simp add: leaf_target_def)
  have "map_huge w hh root i s = Inr s'"
  proof -
    have m: "checked_mul i 0x200000 = Inr (i * 0x200000)" using hi by (intro checked_mul_ok) simp
    have a: "checked_add hh (i * 0x200000) = Inr v" using hi by (simp add: v_def)
    show ?thesis
      using d4 d3 index_ok [OF laws, of 2 v]
      by (simp add: map_huge_def m a table_at_ok2 [OF ok] write_ok oe [simplified] e_def s'_def)
  qed
  moreover have "entry hh (mu_mem s') f2 (index 2 v) = e" using enc(3) by (simp add: entry_def s'_def)
  ultimately show thesis using g Tb1 wk T2 that [of s' Tb Bb] by (simp add: v_def e_def fs_def)
qed

lemma slot_huge:
  assumes "hh mod 0x200000 = 0" and "hh mod 2 ^ 48 + j * 0x200000 < 2 ^ 48"
  shows "slot 1 (hh + j * 0x200000) = slot 1 hh + j"
  using slot_offset(1) [of 1 hh "j * 0x200000"] assms by (simp add: dvd_eq_mod_eq_0)

lemma map_hhdm_from_ok:
  assumes laws: "bitwise_laws w" and al: "hh mod 0x200000 = 0"
  shows "pt_inv w hh A root T B s \<Longrightarrow> T 1 = Map.empty \<Longrightarrow>
    (i + n) * 0x200000 \<le> phys_limit \<Longrightarrow> hh + (i + n) * 0x200000 \<le> u64_max \<Longrightarrow>
    hh mod 2 ^ 48 + (i + n) * 0x200000 \<le> 2 ^ 48 \<Longrightarrow>
    (\<And>j. i \<le> j \<Longrightarrow> j < i + n \<Longrightarrow> walk w hh (mu_mem s) (hh + j * 0x200000) 4 root = None) \<Longrightarrow>
    alloc_count (bd_stats (mu_frames s)) + 2 * n \<le> u64_max \<Longrightarrow>
    2 * n * PAGE_SIZE \<le> free_bytes (bd_stats (mu_frames s)) \<Longrightarrow>
    \<exists>T' B' s'. map_hhdm_from w hh root i n s = Inr s' \<and> grows w hh A root T B s T' B' s' (2 * n) \<and>
      (\<forall>u. walk w hh (mu_mem s') u 4 root =
        (if slot 1 hh + i \<le> slot 1 u \<and> slot 1 u < slot 1 hh + i + n
         then Some ((slot 1 u - slot 1 hh) * 0x200000 + u mod 0x200000) else walk w hh (mu_mem s) u 4 root))"
proof (induction n arbitrary: i T B s)
  case 0
  then show ?case
    using grows_refl [OF 0(1)] by (intro exI [of _ T] exI [of _ B] exI [of _ s]) auto
next
  case (Suc n)
  have b: "(i + Suc n) * 0x200000 = i * 0x200000 + n * 0x200000 + (0x200000::nat)" by simp
  have ph: "i * 0x200000 < phys_limit" and hi: "hh + i * 0x200000 \<le> u64_max"
    and lo: "hh mod 2 ^ 48 + i * 0x200000 < 2 ^ 48"
    using Suc.prems(3,4,5) unfolding b by linarith+
  have none: "walk w hh (mu_mem s) (hh + i * 0x200000) 4 root = None" using Suc.prems(6) [of i] by simp
  have "0 < PAGE_SIZE" by (simp add: PAGE_SIZE_def)
  then have "2 * PAGE_SIZE \<le> 2 * Suc n * PAGE_SIZE" by simp
  then have room: "2 * PAGE_SIZE \<le> free_bytes (bd_stats (mu_frames s))" using Suc.prems(8) by linarith
  have cnt: "alloc_count (bd_stats (mu_frames s)) + 2 \<le> u64_max" using Suc.prems(7) by simp
  obtain T1 B1 s1 where run: "map_huge w hh root i s = Inr s1" and g: "grows w hh A root T B s T1 B1 s1 2"
    and t1: "T1 1 = Map.empty"
    and wk: "\<And>u. walk w hh (mu_mem s1) u 4 root =
      (if slot 1 u = slot 1 (hh + i * 0x200000) then Some (i * 0x200000 + u mod 0x200000)
       else walk w hh (mu_mem s) u 4 root)"
    by (rule map_huge_ok [OF laws Suc.prems(1) ph hi none Suc.prems(2) cnt room]) blast
  note si = slot_huge [OF al lo, unfolded One_nat_def]
  have rest: "walk w hh (mu_mem s1) (hh + j * 0x200000) 4 root = None" if j: "i + 1 \<le> j" "j < i + 1 + n" for j
  proof -
    have "j * 0x200000 \<le> (i + n) * 0x200000" using j(2) by simp
    then have "hh mod 2 ^ 48 + j * 0x200000 < 2 ^ 48" using Suc.prems(5) b by (simp add: add_mult_distrib)
    from slot_huge [OF al this] j Suc.prems(6) [of j] show ?thesis by (simp add: wk si)
  qed
  have "\<exists>T' B' s'. map_hhdm_from w hh root (i + 1) n s1 = Inr s' \<and> grows w hh A root T1 B1 s1 T' B' s' (2 * n) \<and>
      (\<forall>u. walk w hh (mu_mem s') u 4 root =
        (if slot 1 hh + (i + 1) \<le> slot 1 u \<and> slot 1 u < slot 1 hh + (i + 1) + n
         then Some ((slot 1 u - slot 1 hh) * 0x200000 + u mod 0x200000) else walk w hh (mu_mem s1) u 4 root))"
  proof (rule Suc.IH [OF growsD(1) [OF g] t1])
    show "walk w hh (mu_mem s1) (hh + j * 0x200000) 4 root = None" if "i + 1 \<le> j" "j < i + 1 + n" for j
      using rest that .
    show "alloc_count (bd_stats (mu_frames s1)) + 2 * n \<le> u64_max"
      using growsD(6) [OF g] Suc.prems(7) by simp
    show "2 * n * PAGE_SIZE \<le> free_bytes (bd_stats (mu_frames s1))"
    proof -
      have "2 * Suc n * PAGE_SIZE = 2 * n * PAGE_SIZE + 2 * PAGE_SIZE" by simp
      then show ?thesis using growsD(7) [OF g] Suc.prems(8) by linarith
    qed
  qed (use Suc.prems(3,4,5) in \<open>simp_all add: algebra_simps\<close>)
  then obtain T' B' s' where run': "map_hhdm_from w hh root (i + 1) n s1 = Inr s'"
    and g': "grows w hh A root T1 B1 s1 T' B' s' (2 * n)"
    and wk': "\<And>u. walk w hh (mu_mem s') u 4 root =
        (if slot 1 hh + (i + 1) \<le> slot 1 u \<and> slot 1 u < slot 1 hh + (i + 1) + n
         then Some ((slot 1 u - slot 1 hh) * 0x200000 + u mod 0x200000) else walk w hh (mu_mem s1) u 4 root)"
    by blast
  have "walk w hh (mu_mem s') u 4 root =
      (if slot 1 hh + i \<le> slot 1 u \<and> slot 1 u < slot 1 hh + i + Suc n
       then Some ((slot 1 u - slot 1 hh) * 0x200000 + u mod 0x200000) else walk w hh (mu_mem s) u 4 root)" for u
  proof (cases "slot 1 u = slot 1 hh + i")
    case True
    then show ?thesis by (simp add: wk' wk si)
  next
    case False
    then have "slot 1 hh + (i + 1) \<le> slot 1 u \<and> slot 1 u < slot 1 hh + (i + 1) + n \<longleftrightarrow>
        slot 1 hh + i \<le> slot 1 u \<and> slot 1 u < slot 1 hh + i + Suc n" by auto
    then show ?thesis unfolding wk' using False by (simp add: wk si)
  qed
  moreover have "map_hhdm_from w hh root i (Suc n) s = Inr s'" using run run' by simp
  moreover have "grows w hh A root T B s T' B' s' (2 * Suc n)" using grows_trans [OF g g'] by simp
  ultimately show ?case by blast
qed

subsection \<open>The kernel image\<close>

lemma map_small_ok:
  assumes laws: "bitwise_laws w" and inv: "pt_inv w hh A root T B s"
    and ph: "ps mod 0x1000 = 0" "ps + i * 0x1000 < phys_limit" and hi: "vs + i * 0x1000 \<le> u64_max"
    and none: "walk w hh (mu_mem s) (vs + i * 0x1000) 4 root = None"
    and cnt: "alloc_count (bd_stats (mu_frames s)) + 3 \<le> u64_max"
    and room: "3 * PAGE_SIZE \<le> free_bytes (bd_stats (mu_frames s))"
    and fs: "set fs \<subseteq> set (flag_list w)"
  obtains T' B' s' where "map_small w hh root vs ps (or_all fs) i s = Inr s'"
    and "grows w hh A root T B s T' B' s' 3"
    and "\<And>u. walk w hh (mu_mem s') u 4 root =
      (if slot 0 u = slot 0 (vs + i * 0x1000) then Some (ps + i * 0x1000 + u mod 0x1000)
       else walk w hh (mu_mem s) u 4 root)"
proof -
  define v where "v = vs + i * 0x1000"
  define pa where "pa = ps + i * 0x1000"
  note tree = pt_invD(1) [OF inv]
  have nh: "no_huge w hh T v (mu_mem s)" using no_huge_unmapped [OF tree] none by (simp add: v_def)
  have T4: "T 4 (slot 4 v) = Some root" using pt_treeD(1) [OF tree] by simp
  have n: "2 \<le> (4::nat)" "(4::nat) \<le> 4" "2 \<le> (3::nat)" "(3::nat) \<le> 4" "2 \<le> (2::nat)" "(2::nat) \<le> 4" by simp_all
  have c4: "alloc_count (bd_stats (mu_frames s)) < u64_max" using cnt by simp
  have r4: "PAGE_SIZE \<le> free_bytes (bd_stats (mu_frames s))" using room by simp
  obtain f3 Ta Ba s1 where d4: "descend_boot w hh root v 4 s = Inr (f3, s1)"
    and st1: "stepped w hh A root T B s 4 v f3 Ta Ba s1"
    by (rule descend_boot_ok [OF laws inv T4 n(1,2) c4 nh r4])
  note D1 = steppedD [OF st1]
  have T3: "Ta 3 (slot 3 v) = Some f3" using D1(2) by simp
  have c3: "alloc_count (bd_stats (mu_frames s1)) < u64_max" using cnt D1(7) by linarith
  have r3: "PAGE_SIZE \<le> free_bytes (bd_stats (mu_frames s1))" using room D1(9) by linarith
  obtain f2 Tb Bb s2 where d3: "descend_boot w hh f3 v 3 s1 = Inr (f2, s2)"
    and st2: "stepped w hh A root Ta Ba s1 3 v f2 Tb Bb s2"
    by (rule descend_boot_ok [OF laws D1(6) T3 n(3,4) c3 D1(4) [OF nh] r3])
  note D2 = steppedD [OF st2]
  have T2: "Tb 2 (slot 2 v) = Some f2" using D2(2) by simp
  have c2: "alloc_count (bd_stats (mu_frames s2)) < u64_max" using cnt D1(7) D2(7) by linarith
  have r2: "PAGE_SIZE \<le> free_bytes (bd_stats (mu_frames s2))" using room D1(9) D2(9) by linarith
  obtain f1 Tc Bc s3 where d2: "descend_boot w hh f2 v 2 s2 = Inr (f1, s3)"
    and st3: "stepped w hh A root Tb Bb s2 2 v f1 Tc Bc s3"
    by (rule descend_boot_ok [OF laws D2(6) T2 n(5,6) c2 D2(4) [OF D1(4) [OF nh]] r2])
  note D3 = steppedD [OF st3]
  have g2: "grows w hh A root T B s Tb Bb s2 2" using grows_trans [OF D1(1) D2(1)] by (simp add: numeral_2_eq_2)
  have g3: "grows w hh A root T B s Tc Bc s3 3" using grows_trans [OF g2 D3(1)] by simp
  note inv3 = D3(6)
  have Tl: "Tc 1 (slot 1 v) = Some f1" using D3(2) by simp
  have ok: "frame_ok hh f1" using pt_treeD(2) [OF pt_invD(1) [OF inv3] Tl] by simp
  define e where "e = pte_encode w pa 0x1000 (pf_PRESENT w OR or_all fs)"
  have sz: "0x1000 \<in> page_sizes" by (simp add: page_sizes_def)
  have al: "pa mod 0x1000 = 0" using ph(1) unfolding pa_def by presburger
  have pl: "pa < phys_limit" using ph(2) by (simp add: pa_def)
  note enc = encode_laws [OF laws sz al pl present_flags(1,2) [OF fs], folded present_flags(3) [OF fs], folded e_def]
  define s' where "s' = s3\<lparr>mu_mem := st64 (f1 + hh + 8 * index 1 v) e (mu_mem s3)\<rparr>"
  have sf: "mu_mem s' = st64 (f1 + hh + 8 * index 1 v) e (mu_mem s3)" "mu_frames s' = mu_frames s3"
    by (simp_all add: s'_def)
  have none': "Tc (1 - 1) (slot (1 - 1) v) = None" using no_level_0 [OF pt_invD(1) [OF inv3]] by simp
  note lw = leaf_write [OF inv3 Tl _ _ _ none' enc(3) sf, simplified]
  have "grows w hh A root Tc Bc s3 Tc Bc s' 0"
    by (rule leaf_grows [OF inv3 lw(1) lw(3)]) (simp_all add: s'_def)
  from grows_trans [OF g3 this] have g: "grows w hh A root T B s Tc Bc s' 3" by simp
  have wk: "walk w hh (mu_mem s') u 4 root =
      (if slot 0 u = slot 0 v then Some (pa + u mod 0x1000) else walk w hh (mu_mem s) u 4 root)" for u
    using lw(2) [of u] enc(1,2) D1(3) [of u] D2(3) [of u] D3(3) [of u] by (simp add: leaf_target_def)
  have "map_small w hh root vs ps (or_all fs) i s = Inr s'"
  proof -
    have m: "checked_mul i 0x1000 = Inr (i * 0x1000)" using hi by (intro checked_mul_ok) simp
    have a: "checked_add vs (i * 0x1000) = Inr v" using hi by (simp add: v_def)
    have p: "checked_add ps (i * 0x1000) = Inr pa" using ph(2) by (simp add: pa_def phys_limit_def u64_max_def)
    show ?thesis
      using d4 d3 d2 index_ok [OF laws, of 1 v]
      by (simp add: map_small_def m a p table_at_ok2 [OF ok] write_ok e_def s'_def)
  qed
  then show thesis using g wk that [of s' Tc Bc] by (simp add: v_def pa_def)
qed

lemma slot_page:
  assumes "vs mod 0x1000 = 0" and "vs mod 2 ^ 48 + j * 0x1000 < 2 ^ 48"
  shows "slot 0 (vs + j * 0x1000) = slot 0 vs + j"
  using slot_offset(1) [of 0 vs "j * 0x1000"] assms by (simp add: dvd_eq_mod_eq_0)

lemma map_range_from_ok:
  assumes laws: "bitwise_laws w" and al: "vs mod 0x1000 = 0" "ps mod 0x1000 = 0"
    and fs: "set fs \<subseteq> set (flag_list w)"
  shows "pt_inv w hh A root T B s \<Longrightarrow>
    ps + (i + n) * 0x1000 \<le> phys_limit \<Longrightarrow> vs + (i + n) * 0x1000 \<le> u64_max \<Longrightarrow>
    vs mod 2 ^ 48 + (i + n) * 0x1000 \<le> 2 ^ 48 \<Longrightarrow>
    (\<And>j. i \<le> j \<Longrightarrow> j < i + n \<Longrightarrow> walk w hh (mu_mem s) (vs + j * 0x1000) 4 root = None) \<Longrightarrow>
    alloc_count (bd_stats (mu_frames s)) + 3 * n \<le> u64_max \<Longrightarrow>
    3 * n * PAGE_SIZE \<le> free_bytes (bd_stats (mu_frames s)) \<Longrightarrow>
    \<exists>T' B' s'. map_range_from w hh root vs ps (or_all fs) i n s = Inr s' \<and>
      grows w hh A root T B s T' B' s' (3 * n) \<and>
      (\<forall>u. walk w hh (mu_mem s') u 4 root =
        (if slot 0 vs + i \<le> slot 0 u \<and> slot 0 u < slot 0 vs + i + n
         then Some (ps + (slot 0 u - slot 0 vs) * 0x1000 + u mod 0x1000) else walk w hh (mu_mem s) u 4 root))"
proof (induction n arbitrary: i T B s)
  case 0
  then show ?case
    using grows_refl [OF 0(1)] by (intro exI [of _ T] exI [of _ B] exI [of _ s]) auto
next
  case (Suc n)
  have b: "(i + Suc n) * 0x1000 = i * 0x1000 + n * 0x1000 + (0x1000::nat)" by simp
  have ph: "ps + i * 0x1000 < phys_limit" and hi: "vs + i * 0x1000 \<le> u64_max"
    and lo: "vs mod 2 ^ 48 + i * 0x1000 < 2 ^ 48"
    using Suc.prems(2,3,4) unfolding b by linarith+
  have none: "walk w hh (mu_mem s) (vs + i * 0x1000) 4 root = None" using Suc.prems(5) [of i] by simp
  have "3 * PAGE_SIZE \<le> 3 * Suc n * PAGE_SIZE" by simp
  then have room: "3 * PAGE_SIZE \<le> free_bytes (bd_stats (mu_frames s))" using Suc.prems(7) by linarith
  have cnt: "alloc_count (bd_stats (mu_frames s)) + 3 \<le> u64_max" using Suc.prems(6) by simp
  obtain T1 B1 s1 where run: "map_small w hh root vs ps (or_all fs) i s = Inr s1"
    and g: "grows w hh A root T B s T1 B1 s1 3"
    and wk: "\<And>u. walk w hh (mu_mem s1) u 4 root =
      (if slot 0 u = slot 0 (vs + i * 0x1000) then Some (ps + i * 0x1000 + u mod 0x1000)
       else walk w hh (mu_mem s) u 4 root)"
    by (rule map_small_ok [OF laws Suc.prems(1) al(2) ph hi none cnt room fs]) blast
  note si = slot_page [OF al(1) lo]
  have rest: "walk w hh (mu_mem s1) (vs + j * 0x1000) 4 root = None" if j: "i + 1 \<le> j" "j < i + 1 + n" for j
  proof -
    have "j * 0x1000 \<le> (i + n) * 0x1000" using j(2) by simp
    then have "vs mod 2 ^ 48 + j * 0x1000 < 2 ^ 48" using Suc.prems(4) b by (simp add: add_mult_distrib)
    from slot_page [OF al(1) this] j Suc.prems(5) [of j] show ?thesis by (simp add: wk si)
  qed
  have "\<exists>T' B' s'. map_range_from w hh root vs ps (or_all fs) (i + 1) n s1 = Inr s' \<and>
      grows w hh A root T1 B1 s1 T' B' s' (3 * n) \<and>
      (\<forall>u. walk w hh (mu_mem s') u 4 root =
        (if slot 0 vs + (i + 1) \<le> slot 0 u \<and> slot 0 u < slot 0 vs + (i + 1) + n
         then Some (ps + (slot 0 u - slot 0 vs) * 0x1000 + u mod 0x1000) else walk w hh (mu_mem s1) u 4 root))"
  proof (rule Suc.IH [OF growsD(1) [OF g]])
    show "walk w hh (mu_mem s1) (vs + j * 0x1000) 4 root = None" if "i + 1 \<le> j" "j < i + 1 + n" for j
      using rest that .
    show "alloc_count (bd_stats (mu_frames s1)) + 3 * n \<le> u64_max"
      using growsD(6) [OF g] Suc.prems(6) by simp
    show "3 * n * PAGE_SIZE \<le> free_bytes (bd_stats (mu_frames s1))"
    proof -
      have "3 * Suc n * PAGE_SIZE = 3 * n * PAGE_SIZE + 3 * PAGE_SIZE" by (simp add: algebra_simps)
      then show ?thesis using growsD(7) [OF g] Suc.prems(7) by linarith
    qed
  qed (use Suc.prems(2,3,4) in \<open>simp_all add: algebra_simps\<close>)
  then obtain T' B' s' where run': "map_range_from w hh root vs ps (or_all fs) (i + 1) n s1 = Inr s'"
    and g': "grows w hh A root T1 B1 s1 T' B' s' (3 * n)"
    and wk': "\<And>u. walk w hh (mu_mem s') u 4 root =
        (if slot 0 vs + (i + 1) \<le> slot 0 u \<and> slot 0 u < slot 0 vs + (i + 1) + n
         then Some (ps + (slot 0 u - slot 0 vs) * 0x1000 + u mod 0x1000) else walk w hh (mu_mem s1) u 4 root)"
    by blast
  have "walk w hh (mu_mem s') u 4 root =
      (if slot 0 vs + i \<le> slot 0 u \<and> slot 0 u < slot 0 vs + i + Suc n
       then Some (ps + (slot 0 u - slot 0 vs) * 0x1000 + u mod 0x1000) else walk w hh (mu_mem s) u 4 root)" for u
  proof (cases "slot 0 u = slot 0 vs + i")
    case True
    then show ?thesis by (simp add: wk' wk si)
  next
    case False
    then have "slot 0 vs + (i + 1) \<le> slot 0 u \<and> slot 0 u < slot 0 vs + (i + 1) + n \<longleftrightarrow>
        slot 0 vs + i \<le> slot 0 u \<and> slot 0 u < slot 0 vs + i + Suc n" by auto
    then show ?thesis unfolding wk' using False by (simp add: wk si)
  qed
  moreover have "map_range_from w hh root vs ps (or_all fs) i (Suc n) s = Inr s'" using run run' by simp
  moreover have "grows w hh A root T B s T' B' s' (3 * Suc n)" using grows_trans [OF g g'] by simp
  ultimately show ?case by blast
qed

subsection \<open>The whole construction\<close>

definition pages_of :: "nat \<Rightarrow> nat" where
  "pages_of n = (n + 0x1000 - 1) div 0x1000"

definition huge_pages_of :: "nat \<Rightarrow> nat" where
  "huge_pages_of n = (n + 0x200000 - 1) div 0x200000"

text \<open>What the memory map must look like: the direct map and the image in separate regions.\<close>

definition layout_ok :: "nat \<Rightarrow> nat \<Rightarrow> nat \<Rightarrow> nat \<Rightarrow> nat \<Rightarrow> bool" where
  "layout_ok hh vs ve ps msize \<longleftrightarrow>
     hh mod 0x200000 = 0 \<and> vs mod 0x1000 = 0 \<and> ps mod 0x1000 = 0 \<and> vs \<le> ve \<and>
     huge_pages_of msize * 0x200000 \<le> phys_limit \<and> ps + pages_of (ve - vs) * 0x1000 \<le> phys_limit \<and>
     hh + huge_pages_of msize * 0x200000 \<le> u64_max \<and> ve + 0x1000 \<le> u64_max \<and>
     hh mod 2 ^ 48 + huge_pages_of msize * 0x200000 \<le> vs mod 2 ^ 48 \<and>
     vs mod 2 ^ 48 + pages_of (ve - vs) * 0x1000 \<le> 2 ^ 48"

lemma install_ok:
  assumes laws: "bitwise_laws w" and own: "frames_owned A (mu_mem s) (mu_frames s) B"
    and win: "window_ok hh (mu_frames s)" and lay: "layout_ok hh vs ve ps msize"
    and cnt: "alloc_count (bd_stats (mu_frames s)) + (1 + 2 * huge_pages_of msize + 3 * pages_of (ve - vs)) \<le> u64_max"
    and room: "(1 + 2 * huge_pages_of msize + 3 * pages_of (ve - vs)) * PAGE_SIZE \<le> free_bytes (bd_stats (mu_frames s))"
  shows "\<exists>T' B' s' root. install_kernel_pml4 w hh vs ve ps msize s = Inr s' \<and> current_pml4 s' = root \<and>
    pt_inv w hh A root T' B' s' \<and> B \<subseteq>\<^sub>m B' \<and> kept_blocks B s s' \<and>
    bd_base (mu_frames s') = bd_base (mu_frames s) \<and>
    (\<forall>u. walk w hh (mu_mem s') u 4 root =
      (if slot 0 vs \<le> slot 0 u \<and> slot 0 u < slot 0 vs + pages_of (ve - vs)
       then Some (ps + (slot 0 u - slot 0 vs) * 0x1000 + u mod 0x1000)
       else if slot 1 hh \<le> slot 1 u \<and> slot 1 u < slot 1 hh + huge_pages_of msize
       then Some ((slot 1 u - slot 1 hh) * 0x200000 + u mod 0x200000) else None))"
proof -
  let ?H = "huge_pages_of msize" and ?K = "pages_of (ve - vs)"
  have al: "hh mod 0x200000 = 0" "vs mod 0x1000 = 0" "ps mod 0x1000 = 0"
    and L: "vs \<le> ve" "?H * 0x200000 \<le> phys_limit" "ps + ?K * 0x1000 \<le> phys_limit"
      "hh + ?H * 0x200000 \<le> u64_max" "ve + 0x1000 \<le> u64_max"
      "hh mod 2 ^ 48 + ?H * 0x200000 \<le> vs mod 2 ^ 48" "vs mod 2 ^ 48 + ?K * 0x1000 \<le> 2 ^ 48"
    using lay unfolding layout_ok_def by blast+
  have c1: "alloc_count (bd_stats (mu_frames s)) < u64_max" using cnt by linarith
  have e: "(1 + 2 * ?H + 3 * ?K) * PAGE_SIZE = PAGE_SIZE + 2 * ?H * PAGE_SIZE + 3 * ?K * PAGE_SIZE"
    by (simp add: add_mult_distrib)
  have r1: "PAGE_SIZE \<le> free_bytes (bd_stats (mu_frames s))" using room unfolding e by linarith
  obtain c s1 T1 where run1: "alloc_zero_frame hh s = Inr (c, s1)" and inv1: "pt_inv w hh A c T1 (B(c + hh \<mapsto> 0)) s1"
    and t1: "T1 1 = Map.empty" and w1: "\<And>u. walk w hh (mu_mem s1) u 4 c = None" and new: "B (c + hh) = None"
    and k1: "kept_blocks B s s1" and only: "\<And>l p f. T1 l p = Some f \<Longrightarrow> f = c"
    and n1: "alloc_count (bd_stats (mu_frames s1)) = alloc_count (bd_stats (mu_frames s)) + 1"
      "free_bytes (bd_stats (mu_frames s)) = free_bytes (bd_stats (mu_frames s1)) + PAGE_SIZE"
    and okc: "frame_ok hh c" and b1: "bd_base (mu_frames s1) = bd_base (mu_frames s)"
    by (rule root_ok [OF laws own win c1 r1]) blast
  have "\<exists>T' B' s'. map_hhdm_from w hh c 0 ?H s1 = Inr s' \<and>
      grows w hh A c T1 (B(c + hh \<mapsto> 0)) s1 T' B' s' (2 * ?H) \<and>
      (\<forall>u. walk w hh (mu_mem s') u 4 c =
        (if slot 1 hh + 0 \<le> slot 1 u \<and> slot 1 u < slot 1 hh + 0 + ?H
         then Some ((slot 1 u - slot 1 hh) * 0x200000 + u mod 0x200000) else walk w hh (mu_mem s1) u 4 c))"
  proof (rule map_hhdm_from_ok [OF laws al(1) inv1 t1])
    show "walk w hh (mu_mem s1) (hh + j * 0x200000) 4 c = None" for j by (rule w1)
    have "vs mod 2 ^ 48 < 2 ^ 48" by simp
    then show "hh mod 2 ^ 48 + (0 + ?H) * 0x200000 \<le> 2 ^ 48"
      unfolding add_0 by (rule order_trans [OF L(6) less_imp_le])
    show "(0 + ?H) * 0x200000 \<le> phys_limit" "hh + (0 + ?H) * 0x200000 \<le> u64_max" using L(2,4) by simp_all
    show "alloc_count (bd_stats (mu_frames s1)) + 2 * ?H \<le> u64_max" using cnt n1(1) by linarith
    show "2 * ?H * PAGE_SIZE \<le> free_bytes (bd_stats (mu_frames s1))" using room n1(2) unfolding e by linarith
  qed
  then obtain T2 B2 s2 where run2: "map_hhdm_from w hh c 0 ?H s1 = Inr s2"
    and g2: "grows w hh A c T1 (B(c + hh \<mapsto> 0)) s1 T2 B2 s2 (2 * ?H)"
    and w2: "\<And>u. walk w hh (mu_mem s2) u 4 c =
        (if slot 1 hh \<le> slot 1 u \<and> slot 1 u < slot 1 hh + ?H
         then Some ((slot 1 u - slot 1 hh) * 0x200000 + u mod 0x200000) else None)"
    using w1 by auto
  let ?fs = "[pf_WRITABLE w, pf_GLOBAL w]"
  have fs: "set ?fs \<subseteq> set (flag_list w)" by (simp add: flag_list_def)
  have prot: "KERNEL_RWX_BOOT w = or_all ?fs" by (simp add: KERNEL_RWX_BOOT_def or_all_def)
  have free: "walk w hh (mu_mem s2) (vs + j * 0x1000) 4 c = None" if j: "j < ?K" for j
  proof -
    have "j * 0x1000 + 0x1000 \<le> ?K * 0x1000" using j by simp
    then have jl: "vs mod 2 ^ 48 + j * 0x1000 < 2 ^ 48" using L by linarith
    have "(vs + j * 0x1000) mod 2 ^ 48 = (vs mod 2 ^ 48 + j * 0x1000) mod 2 ^ 48" by presburger
    then have m: "(vs + j * 0x1000) mod 2 ^ 48 = vs mod 2 ^ 48 + j * 0x1000" using jl by simp
    have "hh mod 2 ^ 48 + ?H * 0x200000 \<le> vs mod 2 ^ 48 + j * 0x1000" using L by linarith
    then have "(hh mod 2 ^ 48 + ?H * 0x200000) div 0x200000 \<le> (vs mod 2 ^ 48 + j * 0x1000) div 0x200000"
      by (rule div_le_mono)
    then have "slot 1 hh + ?H \<le> slot 1 (vs + j * 0x1000)" unfolding slot_def m by simp
    then show ?thesis by (simp add: w2)
  qed
  have "\<exists>T' B' s'. map_range_from w hh c vs ps (or_all ?fs) 0 ?K s2 = Inr s' \<and>
      grows w hh A c T2 B2 s2 T' B' s' (3 * ?K) \<and>
      (\<forall>u. walk w hh (mu_mem s') u 4 c =
        (if slot 0 vs + 0 \<le> slot 0 u \<and> slot 0 u < slot 0 vs + 0 + ?K
         then Some (ps + (slot 0 u - slot 0 vs) * 0x1000 + u mod 0x1000) else walk w hh (mu_mem s2) u 4 c))"
  proof (rule map_range_from_ok [OF laws al(2,3) fs growsD(1) [OF g2]])
    show "walk w hh (mu_mem s2) (vs + j * 0x1000) 4 c = None" if "j < 0 + ?K" for j using free that by simp
    show "vs + (0 + ?K) * 0x1000 \<le> u64_max"
    proof -
      have "?K * 0x1000 \<le> ve - vs + 0x1000 - 1" unfolding pages_of_def by (rule div_times_less_eq_dividend)
      then show ?thesis using L(1,5) unfolding add_0 by linarith
    qed
    show "ps + (0 + ?K) * 0x1000 \<le> phys_limit" "vs mod 2 ^ 48 + (0 + ?K) * 0x1000 \<le> 2 ^ 48"
      using L(3,7) by simp_all
    show "alloc_count (bd_stats (mu_frames s2)) + 3 * ?K \<le> u64_max"
      using cnt n1(1) growsD(6) [OF g2] by linarith
    show "3 * ?K * PAGE_SIZE \<le> free_bytes (bd_stats (mu_frames s2))"
      using room n1(2) growsD(7) [OF g2] unfolding e by linarith
  qed
  then obtain T3 B3 s3 where run3: "map_range_from w hh c vs ps (or_all ?fs) 0 ?K s2 = Inr s3"
    and g3: "grows w hh A c T2 B2 s2 T3 B3 s3 (3 * ?K)"
    and w3: "\<And>u. walk w hh (mu_mem s3) u 4 c =
        (if slot 0 vs \<le> slot 0 u \<and> slot 0 u < slot 0 vs + ?K
         then Some (ps + (slot 0 u - slot 0 vs) * 0x1000 + u mod 0x1000) else walk w hh (mu_mem s2) u 4 c)"
    by auto
  define s' where "s' = s3\<lparr>mu_cr3 := c\<rparr>"
  have run: "install_kernel_pml4 w hh vs ve ps msize s = Inr s'"
  proof -
    have "?H * 0x200000 + 0x200000 \<le> u64_max" using L by (simp add: phys_limit_def u64_max_def)
    moreover have "msize \<le> ?H * 0x200000"
      unfolding huge_pages_of_def by (simp add: dividend_less_div_times le_simps(2) algebra_simps)
    ultimately have s: "msize + 0x200000 \<le> u64_max" by linarith
    have v: "vs \<le> ve" "ve - vs + 0x1000 \<le> u64_max" using L by linarith+
    show ?thesis
      using run1 run2 run3 s v
      by (simp add: install_kernel_pml4_def map_hhdm_2m_def map_range_4k_def prot huge_pages_of_def pages_of_def s'_def)
  qed
  have g: "grows w hh A c T1 (B(c + hh \<mapsto> 0)) s1 T3 B3 s3 (2 * ?H + 3 * ?K)" by (rule grows_trans [OF g2 g3])
  have inv: "pt_inv w hh A c T3 B3 s'" using growsD(1) [OF g] by (simp add: pt_inv_def s'_def)
  have cr: "current_pml4 s' = c"
  proof -
    have "c \<le> u64_max" "c mod 2 ^ 12 = 0" using okc by (simp_all add: frame_ok_def PAGE_SIZE_def)
    then show ?thesis using and_not_mask [of c 12] by (simp add: current_pml4_def s'_def)
  qed
  have sub: "B \<subseteq>\<^sub>m B3"
  proof -
    have "B \<subseteq>\<^sub>m B(c + hh \<mapsto> 0)" using new by (auto simp: map_le_def)
    then show ?thesis using growsD(3) [OF g] by (rule map_le_trans)
  qed
  have kept: "kept_blocks B s s'"
    unfolding kept_blocks_def
  proof (intro allI impI)
    fix d k x
    assume d: "B d = Some k" "x \<in> block_range d k"
    have "d \<noteq> c + hh" using d(1) new by auto
    then have "(B(c + hh \<mapsto> 0)) d = Some k" using d(1) by simp
    moreover have "T1 l p \<noteq> Some (d - hh) \<or> d < hh" for l p
      using only [of l p "d - hh"] \<open>d \<noteq> c + hh\<close> by (cases "d < hh") auto
    ultimately have "mu_mem s3 x = mu_mem s1 x" using growsD(4) [OF g] d(2) unfolding others_kept_def by blast
    also have "\<dots> = mu_mem s x" using k1 d by (simp add: kept_blocks_def)
    finally show "mu_mem s' x = mu_mem s x" by (simp add: s'_def)
  qed
  have base: "bd_base (mu_frames s') = bd_base (mu_frames s)" using growsD(9) [OF g] b1 by (simp add: s'_def)
  show ?thesis
    using run cr inv sub kept base w3 w2
    by (intro exI [of _ T3] exI [of _ B3] exI [of _ s'] exI [of _ c]) (simp add: s'_def)
qed

end
