(* ===== verification/Mantle_Theorems.thy ===== *)
theory Mantle_Theorems
  imports Mantle_Boot
begin

text \<open>
  The properties of the page-table code, in terms of \<open>translate\<close>, the code's own address
  translation. The instances use the x86-64 entry format and an allocator with base \<open>0x1000\<close>.
\<close>

definition same_page :: "nat \<Rightarrow> nat \<Rightarrow> bool" where
  "same_page u v \<longleftrightarrow> u mod 2 ^ 48 div 0x1000 = v mod 2 ^ 48 div 0x1000"

lemma same_page_slot: "same_page u v \<longleftrightarrow> slot 0 u = slot 0 v"
  by (simp add: same_page_def slot_def)

lemma grows_pml4: "grows w hh A root T B s T' B' s' n \<Longrightarrow> current_pml4 s' = current_pml4 s"
  by (simp add: grows_def current_pml4_def)

lemma translate_grown:
  assumes "bitwise_laws w" and "grows w hh A (current_pml4 s) T B s T' B' s' n"
  shows "translate w hh u s' = Inr (walk w hh (mu_mem s') u 4 (current_pml4 s))"
proof -
  have "pt_inv w hh A (current_pml4 s') T' B' s'"
    using growsD(1) [OF assms(2)] grows_pml4 [OF assms(2)] by simp
  from translate_walk [OF assms(1) this] grows_pml4 [OF assms(2)] show ?thesis by simp
qed

subsection \<open>Concrete states\<close>

lemma region_state:
  assumes "n \<le> MAX_PAGES"
  obtains m b where "frames_owned ({0..<n}, Map.empty) m b Map.empty" and "bd_base b = 4096"
    and "alloc_count (bd_stats b) = 0" and "free_bytes (bd_stats b) = PAGE_SIZE * n"
proof -
  let ?b = "buddy_new\<lparr>bd_base := 4096\<rparr>" and ?m = "\<lambda>_. 0 :: u8"
  have base: "wf_base ?b"
    by (simp add: wf_base_def PAGE_SIZE_def MAX_PAGES_def BUDDY_MAX_ORDER_def u64_max_def)
  note mrg = set_base_merged [OF base, of ?m]
  have w: "0 + n \<le> MAX_PAGES" using assms by simp
  have a: "page_addr ?b 0 = 4096" by (simp add: page_addr_def)
  obtain m b where 1: "add_region 4096 n (?m, ?b) = Inr (m, b)"
    "manages_merged m b ({} \<union> {0..<0 + n}) ({} \<union> {0..<0 + n})"
    using add_region_merged [OF mrg w] a by auto
  have st: "bd_base b = 4096" "used_bytes (bd_stats b) = 0" "alloc_count (bd_stats b) = 0"
    using add_region_ok [OF manages_mergedD [OF mrg] w] 1(1) a by (auto simp: buddy_new_def zero_stats_def)
  have "client_inv {0..<n} (m, b, Map.empty)"
    using 1(2) st(2) by (intro client_invI) simp_all
  then have "frames_owned ({0..<n}, Map.empty) m b Map.empty" by (simp only: client_frames_owned)
  moreover have "free_bytes (bd_stats b) = PAGE_SIZE * n"
    using manages_mergedD [OF 1(2)] by (auto simp: manages_def buddy_inv_def stats_match_def)
  ultimately show thesis using st that by blast
qed

lemma demo_window: "bd_base b = 4096 \<Longrightarrow> window_ok 0 b"
  by (simp add: window_ok_def PAGE_SIZE_def MAX_PAGES_def BUDDY_MAX_ORDER_def phys_limit_def)

text \<open>An address space with an empty root table and some free pages.\<close>

lemma empty_space_area:
  assumes "n < MAX_PAGES"
  obtains s T B where "pt_inv x86_bits 0 ({0..<Suc n}, Map.empty) (current_pml4 s) T B s" and "T 1 = Map.empty"
    and "alloc_count (bd_stats (mu_frames s)) = 1" and "free_bytes (bd_stats (mu_frames s)) = PAGE_SIZE * n"
    and "\<And>u. walk x86_bits 0 (mu_mem s) u 4 (current_pml4 s) = None" and "bd_base (mu_frames s) = 4096"
proof -
  define A :: area where "A = ({0..<Suc n}, Map.empty)"
  obtain m b where mb: "frames_owned A m b Map.empty" "bd_base b = 4096" "alloc_count (bd_stats b) = 0"
    "free_bytes (bd_stats b) = PAGE_SIZE * Suc n"
    unfolding A_def by (rule region_state [of "Suc n"]) (use assms in simp)
  define s where "s = \<lparr>mu_mem = m, mu_frames = b, mu_cr3 = 0, mu_pat = 0, mu_invlpg = []\<rparr>"
  have own: "frames_owned A (mu_mem s) (mu_frames s) Map.empty" and win: "window_ok 0 (mu_frames s)"
    and cnt: "alloc_count (bd_stats (mu_frames s)) < u64_max"
    and room: "PAGE_SIZE \<le> free_bytes (bd_stats (mu_frames s))"
    using mb demo_window by (simp_all add: s_def u64_max_def)
  obtain c s1 T where T1: "T 1 = Map.empty" and 1: "pt_inv x86_bits 0 A c T [c + 0 \<mapsto> 0] s1"
    "\<And>u. walk x86_bits 0 (mu_mem s1) u 4 c = None"
    "alloc_count (bd_stats (mu_frames s1)) = alloc_count (bd_stats (mu_frames s)) + 1"
    "free_bytes (bd_stats (mu_frames s)) = free_bytes (bd_stats (mu_frames s1)) + PAGE_SIZE" "frame_ok 0 c" "bd_base (mu_frames s1) = bd_base (mu_frames s)"
    by (rule root_ok [OF x86_laws own win cnt room]) blast
  let ?s = "s1\<lparr>mu_cr3 := c\<rparr>"
  have "c \<le> u64_max" "c mod 2 ^ 12 = 0" using 1(5) by (simp_all add: frame_ok_def PAGE_SIZE_def)
  then have cr: "current_pml4 ?s = c" using and_not_mask [of c 12] by (simp add: current_pml4_def)
  have "pt_inv x86_bits 0 A (current_pml4 ?s) T [c + 0 \<mapsto> 0] ?s" using 1(1) cr by (simp add: pt_inv_def)
  then show thesis using that [of ?s] T1 1 mb cr by (simp add: s_def A_def)
qed

lemma empty_space_of:
  assumes "n < MAX_PAGES"
  obtains s T B A where "pt_inv x86_bits 0 A (current_pml4 s) T B s" and "T 1 = Map.empty"
    and "alloc_count (bd_stats (mu_frames s)) = 1" and "free_bytes (bd_stats (mu_frames s)) = PAGE_SIZE * n"
    and "\<And>u. walk x86_bits 0 (mu_mem s) u 4 (current_pml4 s) = None" and "bd_base (mu_frames s) = 4096"
  by (rule empty_space_area [OF assms]) (rule that)

lemma empty_space:
  obtains s T B A where "pt_inv x86_bits 0 A (current_pml4 s) T B s" and "T 1 = Map.empty"
    and "alloc_count (bd_stats (mu_frames s)) = 1" and "free_bytes (bd_stats (mu_frames s)) = PAGE_SIZE * 7"
    and "\<And>u. walk x86_bits 0 (mu_mem s) u 4 (current_pml4 s) = None"
  by (rule empty_space_of [of 7]) (simp_all add: MAX_PAGES_def BUDDY_MAX_ORDER_def)

subsection \<open>Mapping\<close>







subsection \<open>Ranges\<close>

lemma map_mmio_from_ok:
  assumes laws: "bitwise_laws w" and al: "vs mod 0x1000 = 0" "ps mod 0x1000 = 0"
    and fs: "set fs \<subseteq> set (flag_list w)"
  shows "pt_inv w hh A (current_pml4 s) T B s \<Longrightarrow>
    ps + (i + n) * 0x1000 \<le> phys_limit \<Longrightarrow> vs + (i + n) * 0x1000 \<le> u64_max \<Longrightarrow>
    vs mod 2 ^ 48 + (i + n) * 0x1000 \<le> 2 ^ 48 \<Longrightarrow>
    (\<And>j. i \<le> j \<Longrightarrow> j < i + n \<Longrightarrow> no_huge w hh T (vs + j * 0x1000) (mu_mem s)) \<Longrightarrow>
    alloc_count (bd_stats (mu_frames s)) + 3 * n \<le> u64_max \<Longrightarrow>
    \<exists>r k T' B' s'. map_mmio_from w hh vs ps (or_all fs) i n s = Inr (r, s') \<and>
      grows w hh A (current_pml4 s) T B s T' B' s' (3 * n) \<and> clear_kept w hh T s T' s' \<and>
      (r = Inr () \<and> k = n \<or> r = Inl OutOfFrames \<and> k < n \<and> free_bytes (bd_stats (mu_frames s')) = 0) \<and>
      (\<forall>u. walk w hh (mu_mem s') u 4 (current_pml4 s) =
        (if slot 0 vs + i \<le> slot 0 u \<and> slot 0 u < slot 0 vs + i + k
         then Some (ps + (slot 0 u - slot 0 vs) * 0x1000 + u mod 0x1000)
         else walk w hh (mu_mem s) u 4 (current_pml4 s)))"
proof (induction n arbitrary: i T B s)
  case 0
  then show ?case
    using grows_refl [OF 0(1)] by (intro exI [of _ "Inr ()"] exI [of _ 0] exI [of _ T] exI [of _ B] exI [of _ s]) (auto simp: clear_kept_refl)
next
  case (Suc n)
  let ?r = "current_pml4 s" and ?v = "vs + i * 0x1000" and ?p = "ps + i * 0x1000"
  have b: "(i + Suc n) * 0x1000 = i * 0x1000 + n * 0x1000 + (0x1000::nat)" by simp
  have ph: "?p < phys_limit" and hi: "?v \<le> u64_max"
    and lo: "vs mod 2 ^ 48 + i * 0x1000 < 2 ^ 48"
    using Suc.prems(2,3,4) unfolding b by linarith+
  have al': "?v mod 0x1000 = 0" "?p mod 0x1000 = 0" using al by presburger+
  have nh: "no_huge w hh T ?v (mu_mem s)" using Suc.prems(5) [of i] by simp
  have cnt: "alloc_count (bd_stats (mu_frames s)) + 3 \<le> u64_max" using Suc.prems(6) by simp
  note si = slot_page [OF al(1) lo]
  have m: "checked_mul i 0x1000 = Inr (i * 0x1000)" using hi by (intro checked_mul_ok) simp
  have a: "checked_add vs (i * 0x1000) = Inr ?v" using hi by simp
  have p: "checked_add ps (i * 0x1000) = Inr ?p" using ph by (simp add: phys_limit_def u64_max_def)
  note step = map_mmio_from.simps(2) m a p or_return_def
  from map_page_ok [OF laws Suc.prems(1) refl al' ph fs nh cnt] show ?case
  proof (elim disjE exE conjE)
    fix s1 T1 B1
    assume "map_page w hh ?v ?p (or_all fs) s = Inr (Inl OutOfFrames, s1)"
      "grows w hh A ?r T B s T1 B1 s1 3" "free_bytes (bd_stats (mu_frames s1)) = 0"
      "clear_kept w hh T s T1 s1"
      "\<forall>u. walk w hh (mu_mem s1) u 4 ?r = walk w hh (mu_mem s) u 4 ?r"
    moreover have "grows w hh A ?r T B s T1 B1 s1 (3 * Suc n)" by (rule grows_mono [OF calculation(2)]) simp
    ultimately show ?thesis
      by (intro exI [of _ "Inl OutOfFrames"] exI [of _ 0] exI [of _ T1] exI [of _ B1] exI [of _ s1]) (auto simp: step)
  next
    fix s1 T1 B1
    assume run: "map_page w hh ?v ?p (or_all fs) s = Inr (Inr (walk w hh (mu_mem s) ?v 4 ?r), s1)"
      and g: "grows w hh A ?r T B s T1 B1 s1 3" and kc: "clear_kept w hh T s T1 s1"
      and w1: "\<forall>u. walk w hh (mu_mem s1) u 4 ?r =
        (if slot 0 u = slot 0 ?v then Some (?p + u mod 0x1000) else walk w hh (mu_mem s) u 4 ?r)"
    note cr = grows_pml4 [OF g]
    have inv1: "pt_inv w hh A (current_pml4 s1) T1 B1 s1" using growsD(1) [OF g] cr by simp
    have rest: "no_huge w hh T1 (vs + j * 0x1000) (mu_mem s1)" if j: "i + 1 \<le> j" "j < i + 1 + n" for j
      using kc Suc.prems(5) [of j] j by (simp add: clear_kept_def)
    have "\<exists>r k T' B' s'. map_mmio_from w hh vs ps (or_all fs) (i + 1) n s1 = Inr (r, s') \<and>
      grows w hh A (current_pml4 s1) T1 B1 s1 T' B' s' (3 * n) \<and> clear_kept w hh T1 s1 T' s' \<and>
      (r = Inr () \<and> k = n \<or> r = Inl OutOfFrames \<and> k < n \<and> free_bytes (bd_stats (mu_frames s')) = 0) \<and>
      (\<forall>u. walk w hh (mu_mem s') u 4 (current_pml4 s1) =
        (if slot 0 vs + (i + 1) \<le> slot 0 u \<and> slot 0 u < slot 0 vs + (i + 1) + k
         then Some (ps + (slot 0 u - slot 0 vs) * 0x1000 + u mod 0x1000)
         else walk w hh (mu_mem s1) u 4 (current_pml4 s1)))"
    proof (rule Suc.IH [OF inv1])
      show "no_huge w hh T1 (vs + j * 0x1000) (mu_mem s1)" if "i + 1 \<le> j" "j < i + 1 + n" for j
        using rest that .
      show "alloc_count (bd_stats (mu_frames s1)) + 3 * n \<le> u64_max"
        using growsD(6) [OF g] Suc.prems(6) by simp
    qed (use Suc.prems(2,3,4) in \<open>simp_all add: algebra_simps\<close>)
    then obtain r k T' B' s' where run': "map_mmio_from w hh vs ps (or_all fs) (i + 1) n s1 = Inr (r, s')"
      and g': "grows w hh A ?r T1 B1 s1 T' B' s' (3 * n)" and kc': "clear_kept w hh T1 s1 T' s'"
      and r: "r = Inr () \<and> k = n \<or> r = Inl OutOfFrames \<and> k < n \<and> free_bytes (bd_stats (mu_frames s')) = 0"
      and w': "\<And>u. walk w hh (mu_mem s') u 4 ?r =
        (if slot 0 vs + (i + 1) \<le> slot 0 u \<and> slot 0 u < slot 0 vs + (i + 1) + k
         then Some (ps + (slot 0 u - slot 0 vs) * 0x1000 + u mod 0x1000) else walk w hh (mu_mem s1) u 4 ?r)"
      unfolding cr by blast
    have wk: "walk w hh (mu_mem s') u 4 ?r =
        (if slot 0 vs + i \<le> slot 0 u \<and> slot 0 u < slot 0 vs + i + Suc k
         then Some (ps + (slot 0 u - slot 0 vs) * 0x1000 + u mod 0x1000) else walk w hh (mu_mem s) u 4 ?r)" for u
    proof (cases "slot 0 u = slot 0 vs + i")
      case True
      then show ?thesis by (simp add: w' w1 si)
    next
      case False
      then have "slot 0 vs + (i + 1) \<le> slot 0 u \<and> slot 0 u < slot 0 vs + (i + 1) + k \<longleftrightarrow>
          slot 0 vs + i \<le> slot 0 u \<and> slot 0 u < slot 0 vs + i + Suc k" by auto
      then show ?thesis unfolding w' using False by (simp add: w1 si)
    qed
    have "grows w hh A ?r T B s T' B' s' (3 * Suc n)" using grows_trans [OF g g'] by simp
    moreover have "map_mmio_from w hh vs ps (or_all fs) i (Suc n) s = Inr (r, s')"
      using run run' by (simp add: step)
    ultimately show ?thesis using r wk clear_kept_trans [OF kc kc']
      by (intro exI [of _ r] exI [of _ "Suc k"] exI [of _ T'] exI [of _ B'] exI [of _ s']) auto
  qed
qed

text \<open>Which addresses a run of pages or huge pages covers, and where it sends them.\<close>

definition page_run :: "nat \<Rightarrow> nat \<Rightarrow> nat \<Rightarrow> nat \<Rightarrow> nat option" where
  "page_run vs ps k u =
     (let d = u mod 2 ^ 48 div 0x1000 - vs mod 2 ^ 48 div 0x1000
      in if vs mod 2 ^ 48 div 0x1000 \<le> u mod 2 ^ 48 div 0x1000 \<and> d < k
         then Some (ps + d * 0x1000 + u mod 0x1000) else None)"

lemma page_run_slot:
  "page_run vs ps k u =
    (if slot 0 vs + 0 \<le> slot 0 u \<and> slot 0 u < slot 0 vs + 0 + k
     then Some (ps + (slot 0 u - slot 0 vs) * 0x1000 + u mod 0x1000) else None)"
proof -
  have s: "x mod 2 ^ 48 div 0x1000 = slot 0 x" for x by (simp add: slot_def)
  show ?thesis unfolding page_run_def Let_def s by (auto simp: less_diff_conv2 add.commute)
qed

lemma map_mmio_ok:
  assumes laws: "bitwise_laws w" and inv: "pt_inv w hh A (current_pml4 s) T B s"
    and al: "vs mod 0x1000 = 0" "ps mod 0x1000 = 0" and fs: "set fs \<subseteq> set (flag_list w)"
    and lim: "ps + pages_of len * 0x1000 \<le> phys_limit" "vs + pages_of len * 0x1000 \<le> u64_max"
      "vs mod 2 ^ 48 + pages_of len * 0x1000 \<le> 2 ^ 48" "len + 0x1000 \<le> u64_max"
    and nh: "\<And>j. j < pages_of len \<Longrightarrow> no_huge w hh T (vs + j * 0x1000) (mu_mem s)"
    and cnt: "alloc_count (bd_stats (mu_frames s)) + 3 * pages_of len \<le> u64_max"
  shows "\<exists>r k s' T' B'. map_mmio w hh vs ps len (or_all fs) s = Inr (r, s') \<and>
    grows w hh A (current_pml4 s) T B s T' B' s' (3 * pages_of len) \<and> clear_kept w hh T s T' s' \<and>
    (r = Inr () \<and> k = pages_of len \<or>
     r = Inl OutOfFrames \<and> k < pages_of len \<and> free_bytes (bd_stats (mu_frames s')) = 0) \<and>
    (\<forall>u. translate w hh u s' =
       (case page_run vs ps k u of Some p \<Rightarrow> Inr (Some p) | None \<Rightarrow> translate w hh u s))"
proof -
  let ?n = "pages_of len"
  have tr: "translate w hh u s = Inr (walk w hh (mu_mem s) u 4 (current_pml4 s))" for u
    by (rule translate_walk [OF laws inv])
  have "\<exists>r k T' B' s'. map_mmio_from w hh vs ps (or_all fs) 0 ?n s = Inr (r, s') \<and>
      grows w hh A (current_pml4 s) T B s T' B' s' (3 * ?n) \<and> clear_kept w hh T s T' s' \<and>
      (r = Inr () \<and> k = ?n \<or> r = Inl OutOfFrames \<and> k < ?n \<and> free_bytes (bd_stats (mu_frames s')) = 0) \<and>
      (\<forall>u. walk w hh (mu_mem s') u 4 (current_pml4 s) =
        (if slot 0 vs + 0 \<le> slot 0 u \<and> slot 0 u < slot 0 vs + 0 + k
         then Some (ps + (slot 0 u - slot 0 vs) * 0x1000 + u mod 0x1000)
         else walk w hh (mu_mem s) u 4 (current_pml4 s)))"
  proof (rule map_mmio_from_ok [OF laws al fs inv])
    show "no_huge w hh T (vs + j * 0x1000) (mu_mem s)" if "j < 0 + ?n" for j using nh [of j] that by simp
  qed (use lim cnt in simp_all)
  then obtain r k T' B' s' where run: "map_mmio_from w hh vs ps (or_all fs) 0 ?n s = Inr (r, s')"
    and g: "grows w hh A (current_pml4 s) T B s T' B' s' (3 * ?n)" and kc: "clear_kept w hh T s T' s'"
    and r: "r = Inr () \<and> k = ?n \<or> r = Inl OutOfFrames \<and> k < ?n \<and> free_bytes (bd_stats (mu_frames s')) = 0"
    and wk: "\<And>u. walk w hh (mu_mem s') u 4 (current_pml4 s) =
        (if slot 0 vs + 0 \<le> slot 0 u \<and> slot 0 u < slot 0 vs + 0 + k
         then Some (ps + (slot 0 u - slot 0 vs) * 0x1000 + u mod 0x1000)
         else walk w hh (mu_mem s) u 4 (current_pml4 s))"
    by blast
  have "map_mmio w hh vs ps len (or_all fs) s = Inr (r, s')"
    using run lim(4) by (simp add: map_mmio_def pages_of_def)
  moreover have "translate w hh u s' =
      (case page_run vs ps k u of Some p \<Rightarrow> Inr (Some p) | None \<Rightarrow> translate w hh u s)" for u
    using translate_grown [OF laws g, of u] wk [of u] tr [of u] unfolding page_run_slot
    by (auto split: if_splits)
  ultimately show ?thesis using g kc r by blast
qed



subsection \<open>The kernel's own tables\<close>

definition huge_run :: "nat \<Rightarrow> nat \<Rightarrow> nat \<Rightarrow> nat option" where
  "huge_run hh k u =
     (let d = u mod 2 ^ 48 div 0x200000 - hh mod 2 ^ 48 div 0x200000
      in if hh mod 2 ^ 48 div 0x200000 \<le> u mod 2 ^ 48 div 0x200000 \<and> d < k
         then Some (d * 0x200000 + u mod 0x200000) else None)"

lemma huge_run_slot:
  "huge_run hh k u =
    (if slot 1 hh \<le> slot 1 u \<and> slot 1 u < slot 1 hh + k
     then Some ((slot 1 u - slot 1 hh) * 0x200000 + u mod 0x200000) else None)"
proof -
  have s: "x mod 2 ^ 48 div 0x200000 = slot 1 x" for x by (simp add: slot_def)
  show ?thesis unfolding huge_run_def Let_def s by (auto simp: less_diff_conv2 add.commute)
qed

lemma install_translates:
  assumes laws: "bitwise_laws w" and own: "frames_owned A (mu_mem s) (mu_frames s) B"
    and win: "window_ok hh (mu_frames s)" and lay: "layout_ok hh vs ve ps msize"
    and cnt: "alloc_count (bd_stats (mu_frames s)) + (1 + 2 * huge_pages_of msize + 3 * pages_of (ve - vs)) \<le> u64_max"
    and room: "(1 + 2 * huge_pages_of msize + 3 * pages_of (ve - vs)) * PAGE_SIZE \<le> free_bytes (bd_stats (mu_frames s))"
  shows "\<exists>s' T' B'. install_kernel_pml4 w hh vs ve ps msize s = Inr s' \<and>
    pt_inv w hh A (current_pml4 s') T' B' s' \<and> B \<subseteq>\<^sub>m B' \<and> kept_blocks B s s' \<and>
    bd_base (mu_frames s') = bd_base (mu_frames s) \<and>
    (\<forall>p<msize. translate w hh (hh + p) s' = Inr (Some p)) \<and>
    (\<forall>q<ve - vs. translate w hh (vs + q) s' = Inr (Some (ps + q))) \<and>
    (\<forall>u. translate w hh u s' = Inr (case page_run vs ps (pages_of (ve - vs)) u of
       Some p \<Rightarrow> Some p | None \<Rightarrow> huge_run hh (huge_pages_of msize) u))"
proof -
  let ?H = "huge_pages_of msize" and ?K = "pages_of (ve - vs)"
  obtain T' B' s' where run: "install_kernel_pml4 w hh vs ve ps msize s = Inr s'"
    and inv: "pt_inv w hh A (current_pml4 s') T' B' s'" and B: "B \<subseteq>\<^sub>m B'" "kept_blocks B s s'"
      "bd_base (mu_frames s') = bd_base (mu_frames s)"
    and wk: "\<And>u. walk w hh (mu_mem s') u 4 (current_pml4 s') =
      (if slot 0 vs \<le> slot 0 u \<and> slot 0 u < slot 0 vs + ?K
       then Some (ps + (slot 0 u - slot 0 vs) * 0x1000 + u mod 0x1000)
       else if slot 1 hh \<le> slot 1 u \<and> slot 1 u < slot 1 hh + ?H
       then Some ((slot 1 u - slot 1 hh) * 0x200000 + u mod 0x200000) else None)"
    using install_ok [OF laws own win lay cnt room] by blast
  have tr: "translate w hh u s' = Inr (case page_run vs ps ?K u of Some p \<Rightarrow> Some p | None \<Rightarrow> huge_run hh ?H u)" for u
    using translate_walk [OF laws inv, of u] wk [of u] by (simp add: page_run_slot huge_run_slot)
  have al: "hh mod 0x200000 = 0" "vs mod 0x1000 = 0" and L: "hh mod 2 ^ 48 + ?H * 0x200000 \<le> vs mod 2 ^ 48"
      "vs mod 2 ^ 48 + ?K * 0x1000 \<le> 2 ^ 48"
    using lay unfolding layout_ok_def by blast+
  have vl: "vs mod 2 ^ 48 < 2 ^ 48" by simp
  have "translate w hh (hh + p) s' = Inr (Some p)" if p: "p < msize" for p
  proof -
    have d: "p div 0x200000 < ?H"
      using p unfolding huge_pages_of_def by (simp add: div_less_iff_less_mult)
    then have ph: "p < ?H * 0x200000" by (simp add: div_less_iff_less_mult)
    have lo: "hh mod 2 ^ 48 + p < vs mod 2 ^ 48" by (rule less_le_trans [OF add_strict_left_mono [OF ph] L(1)])
    then have "hh mod 2 ^ 48 + p < 2 ^ 48" using vl by (rule less_trans)
    note so = slot_offset [of 1 hh p] slot_offset [of 0 hh p]
    have s1: "slot 1 (hh + p) = slot 1 hh + p div 0x200000" "(hh + p) mod 0x200000 = p mod 0x200000"
      using so(1,2) al(1) \<open>hh mod 2 ^ 48 + p < 2 ^ 48\<close> by (simp_all add: dvd_eq_mod_eq_0)
    have "(hh + p) mod 2 ^ 48 = (hh mod 2 ^ 48 + p) mod 2 ^ 48" by (rule mod_add_left_eq [symmetric])
    then have m: "(hh + p) mod 2 ^ 48 = hh mod 2 ^ 48 + p" using \<open>hh mod 2 ^ 48 + p < 2 ^ 48\<close> by simp
    have "slot 0 (hh + p) < slot 0 vs"
    proof -
      have "vs mod 2 ^ 48 mod 0x1000 = vs mod 0x1000" by (simp add: mod_mod_cancel)
      then have "0x1000 dvd vs mod 2 ^ 48" using al(2) by (simp add: dvd_eq_mod_eq_0)
      then obtain q where "vs mod 2 ^ 48 = 0x1000 * q" by (elim dvdE)
      then show ?thesis unfolding slot_def m using lo by (simp add: div_less_iff_less_mult mult.commute)
    qed
    then have "page_run vs ps ?K (hh + p) = None" by (simp add: page_run_slot)
    moreover have "huge_run hh ?H (hh + p) = Some p" using s1 d by (simp add: huge_run_slot)
    ultimately show ?thesis by (simp add: tr)
  qed
  moreover have "translate w hh (vs + q) s' = Inr (Some (ps + q))" if q: "q < ve - vs" for q
  proof -
    have d: "q div 0x1000 < ?K"
      using q unfolding pages_of_def by (simp add: div_less_iff_less_mult)
    then have "q < ?K * 0x1000" by (simp add: div_less_iff_less_mult)
    then have "vs mod 2 ^ 48 + q < 2 ^ 48" using less_le_trans [OF add_strict_left_mono L(2)] by blast
    then have "slot 0 (vs + q) = slot 0 vs + q div 0x1000" "(vs + q) mod 0x1000 = q mod 0x1000"
      using slot_offset [of 0 vs q] al(2) by (simp_all add: dvd_eq_mod_eq_0)
    then have "page_run vs ps ?K (vs + q) = Some (ps + q)" using d by (simp add: page_run_slot)
    then show ?thesis by (simp add: tr)
  qed
  ultimately show ?thesis using run inv B tr by blast
qed



subsection \<open>Mapping under a huge page\<close>

lemma descend_present:
  assumes laws: "bitwise_laws w" and tree: "pt_tree w hh root T (mu_mem s)" and f: "T l (slot l v) = Some f"
    and l: "1 \<le> l" "l \<le> 4" and pres: "pte_is_present w (entry hh (mu_mem s) f (index l v))"
  shows "descend_or_create w hh f v l s = Inr (Inr (pte_phys_addr w (entry hh (mu_mem s) f (index l v)) 0x1000), s)"
proof -
  have ok: "frame_ok hh f" using pt_treeD(2) [OF tree f] by simp
  show ?thesis using pres index_ok [OF laws l]
    by (simp add: descend_or_create_def table_at_ok [OF ok] read_ok)
qed

lemma descend_table:
  assumes laws: "bitwise_laws w" and tree: "pt_tree w hh root T (mu_mem s)" and f: "T l (slot l v) = Some f"
    and l: "2 \<le> l" "l \<le> 4" and g: "T (l - 1) (slot (l - 1) v) = Some g"
  shows "descend_or_create w hh f v l s = Inr (Inr g, s)"
proof -
  have "T (l - 1) (slot (l - 1) v) = (if pte_is_present w (entry hh (mu_mem s) f (index l v)) \<and>
      \<not> pte_is_huge w (entry hh (mu_mem s) f (index l v))
      then Some (pte_phys_addr w (entry hh (mu_mem s) f (index l v)) 0x1000) else None)"
    using pt_treeD(5) [OF tree f l(1) index_bound [of l v]] slot_step [of l v] l by simp
  then have "pte_is_present w (entry hh (mu_mem s) f (index l v))"
    "g = pte_phys_addr w (entry hh (mu_mem s) f (index l v)) 0x1000" using g by (auto split: if_splits)
  with descend_present [OF laws tree f _ l(2)] l(1) show ?thesis by simp
qed



end
