(* ===== verification/Tlsf.thy ===== *)
theory Tlsf
  imports Abalone
begin

text \<open>
  \<^verbatim>\<open>abalone/src/tlsf.rs\<close>: the two-level segregated fit allocator, the kernel's global allocator. A
  block is a 32-byte header (\<open>size\<close> at 0 with the flags \<open>FREE_BIT\<close> and \<open>PREV_PHYS_BIT\<close> in its low
  bits, \<open>prev_phys\<close> at 8, \<open>next_free\<close> at 16, \<open>prev_free\<close> at 24) followed by its payload. The
  bitmaps are 32-bit words; sizes and addresses are natural numbers with checked arithmetic.
\<close>

definition SL_INDEX_COUNT :: nat where "SL_INDEX_COUNT = 5"
definition FL_INDEX_COUNT :: nat where "FL_INDEX_COUNT = 30"
definition SL_COUNT :: nat where "SL_COUNT = 2 ^ SL_INDEX_COUNT"
definition BLOCK_MIN :: nat where "BLOCK_MIN = 32"
definition FREE_BIT :: nat where "FREE_BIT = 1"
definition PREV_PHYS_BIT :: nat where "PREV_PHYS_BIT = 2"
definition HEADER :: nat where "HEADER = 32"

subsection \<open>Block headers\<close>

definition block_size :: "mem \<Rightarrow> nat \<Rightarrow> nat" where
  "block_size m b = and_not (ld64 m b) (FREE_BIT OR PREV_PHYS_BIT)"

definition is_free :: "mem \<Rightarrow> nat \<Rightarrow> bool" where
  "is_free m b \<longleftrightarrow> ld64 m b AND FREE_BIT \<noteq> 0"

definition prev_is_free :: "mem \<Rightarrow> nat \<Rightarrow> bool" where
  "prev_is_free m b \<longleftrightarrow> ld64 m b AND PREV_PHYS_BIT \<noteq> 0"

definition set_size :: "nat \<Rightarrow> nat \<Rightarrow> mem \<Rightarrow> mem" where
  "set_size b s m = st64 b ((ld64 m b AND (FREE_BIT OR PREV_PHYS_BIT)) OR s) m"

definition set_free :: "nat \<Rightarrow> bool \<Rightarrow> mem \<Rightarrow> mem" where
  "set_free b f m =
     (if f then st64 b (ld64 m b OR FREE_BIT) m else st64 b (and_not (ld64 m b) FREE_BIT) m)"

definition set_prev_free :: "nat \<Rightarrow> bool \<Rightarrow> mem \<Rightarrow> mem" where
  "set_prev_free b f m =
     (if f then st64 b (ld64 m b OR PREV_PHYS_BIT) m else st64 b (and_not (ld64 m b) PREV_PHYS_BIT) m)"

definition payload :: "nat \<Rightarrow> nat res" where
  "payload b = checked_add b HEADER"

definition next_phys :: "mem \<Rightarrow> nat \<Rightarrow> nat res" where
  "next_phys m b = and_then (checked_add b HEADER) (\<lambda>p. checked_add p (block_size m b))"

subsection \<open>Size classes\<close>

record tlsf =
  fl_bitmap :: u32
  sl_bitmap :: "u32 list"
  tl_lists :: "nat list list"

definition tlsf_new :: tlsf where
  "tlsf_new =
     \<lparr>fl_bitmap = 0, sl_bitmap = replicate FL_INDEX_COUNT 0,
      tl_lists = replicate FL_INDEX_COUNT (replicate SL_COUNT 0)\<rparr>"

definition mapping :: "nat \<Rightarrow> (nat \<times> nat) res" where
  "mapping sz =
     and_then (checked_sub (64 - 1) (leading_zeros sz)) (\<lambda>fl.
     let sl = (if fl < SL_INDEX_COUNT then take_bit 64 (push_bit (SL_INDEX_COUNT - fl) sz)
               else drop_bit (fl - SL_INDEX_COUNT) sz) AND (SL_COUNT - 1)
     in Inr (fl, sl))"

definition mapping_search :: "nat \<Rightarrow> (nat \<times> nat) res" where
  "mapping_search sz =
     and_then
       (if sz \<ge> 2 ^ SL_INDEX_COUNT then
          and_then (checked_sub (64 - 1) (leading_zeros sz)) (\<lambda>fl.
          and_then (checked_sub fl SL_INDEX_COUNT) (\<lambda>k.
          checked_sub (2 ^ k) 1))
        else Inr 0) (\<lambda>round.
     and_then (checked_add sz round) mapping)"

subsection \<open>Free lists\<close>

definition list_at :: "tlsf \<Rightarrow> nat \<Rightarrow> nat \<Rightarrow> nat res" where
  "list_at t fl sl = and_then (at_index (tl_lists t) fl) (\<lambda>row. at_index row sl)"

definition set_list :: "nat \<Rightarrow> nat \<Rightarrow> nat \<Rightarrow> tlsf \<Rightarrow> tlsf res" where
  "set_list fl sl v t =
     and_then (at_index (tl_lists t) fl) (\<lambda>row.
     and_then (set_index row sl v) (\<lambda>row.
     Inr (t\<lparr>tl_lists := (tl_lists t)[fl := row]\<rparr>)))"

definition insert_free :: "nat \<Rightarrow> mem \<times> tlsf \<Rightarrow> (mem \<times> tlsf) res" where
  "insert_free block = (\<lambda>(m, t).
     and_then (mapping (block_size m block)) (\<lambda>(fl, sl).
     and_then (list_at t fl sl) (\<lambda>head.
     let m = list_push 24 16 block m head
     in and_then (set_list fl sl block t) (\<lambda>t.
        let t = t\<lparr>fl_bitmap := fl_bitmap t OR push_bit fl 1\<rparr>
        in and_then (at_index (sl_bitmap t) fl) (\<lambda>bits.
           let t = t\<lparr>sl_bitmap := (sl_bitmap t)[fl := bits OR push_bit sl 1]\<rparr>
           in Inr (set_free block True m, t))))))"

definition remove_free :: "nat \<Rightarrow> mem \<times> tlsf \<Rightarrow> (mem \<times> tlsf) res" where
  "remove_free block = (\<lambda>(m, t).
     and_then (mapping (block_size m block)) (\<lambda>(fl, sl).
     and_then (list_at t fl sl) (\<lambda>head.
     let (m, head) = list_unlink 24 16 block m head
     in and_then (set_list fl sl head t) (\<lambda>t.
        and_then
          (if head = 0 then
             and_then (at_index (sl_bitmap t) fl) (\<lambda>bits.
             let bits = bits AND NOT (push_bit sl 1);
                 t = t\<lparr>sl_bitmap := (sl_bitmap t)[fl := bits]\<rparr>
             in Inr (if bits = 0 then t\<lparr>fl_bitmap := fl_bitmap t AND NOT (push_bit fl 1)\<rparr> else t))
           else Inr t) (\<lambda>t.
        Inr (set_free block False m, t))))))"

definition trailing_zeros32 :: "u32 \<Rightarrow> nat" where
  "trailing_zeros32 w = (if w = 0 then 32 else trailing_zeros (unat w))"

definition find_free :: "tlsf \<Rightarrow> nat \<Rightarrow> nat option res" where
  "find_free t sz =
     and_then (mapping_search sz) (\<lambda>(fl, sl).
     and_then (at_index (sl_bitmap t) fl) (\<lambda>bits.
     let sl_map = drop_bit sl bits
     in if sl_map \<noteq> 0 then
          and_then (list_at t fl (sl + trailing_zeros32 sl_map)) (\<lambda>b. Inr (Some b))
        else
          let fl_map = drop_bit (fl + 1) (fl_bitmap t)
          in if fl_map = 0 then Inr None
             else
               let fl = fl + (1 + trailing_zeros32 fl_map)
               in and_then (at_index (sl_bitmap t) fl) (\<lambda>bits.
                  and_then (list_at t fl (trailing_zeros32 bits)) (\<lambda>b. Inr (Some b)))))"

subsection \<open>Allocation and deallocation\<close>

definition tlsf_split :: "nat \<Rightarrow> nat \<Rightarrow> nat \<Rightarrow> mem \<times> tlsf \<Rightarrow> (mem \<times> tlsf) res" where
  "tlsf_split block sz remainder = (\<lambda>(m, t).
     let m = set_size block sz m
     in and_then (next_phys m block) (\<lambda>next.
        let m = set_size next (remainder - HEADER) m;
            m = st64 (next + 8) block m;
            m = set_prev_free next False m
        in and_then (insert_free next (m, t)) (\<lambda>(m, t).
           and_then (next_phys m next) (\<lambda>after.
           Inr (st64 (after + 8) next m, t)))))"

definition tlsf_alloc :: "nat \<Rightarrow> mem \<times> tlsf \<Rightarrow> (nat option \<times> mem \<times> tlsf) res" where
  "tlsf_alloc sz = (\<lambda>(m, t).
     let sz = max sz BLOCK_MIN
     in and_then (checked_add sz (8 - 1)) (\<lambda>sz.
        let sz = and_not sz (8 - 1)
        in and_then (find_free t sz) (\<lambda>r.
           case r of None \<Rightarrow> Inr (None, m, t)
           | Some block \<Rightarrow>
               and_then (remove_free block (m, t)) (\<lambda>(m, t).
               let block_size = block_size m block;
                   remainder = (block_size + 2 ^ 64 - sz) mod 2 ^ 64
               in and_then
                    (if remainder \<ge> HEADER + BLOCK_MIN
                     then tlsf_split block sz remainder (m, t) else Inr (m, t)) (\<lambda>(m, t).
                  and_then (next_phys m block) (\<lambda>next.
                  let m = set_prev_free next False m
                  in and_then (payload block) (\<lambda>p.
                     Inr (Some p, m, t))))))))"

definition tlsf_dealloc :: "nat \<Rightarrow> mem \<times> tlsf \<Rightarrow> (mem \<times> tlsf) res" where
  "tlsf_dealloc ptr = (\<lambda>(m, t).
     and_then (checked_sub ptr HEADER) (\<lambda>block.
     and_then
       (if prev_is_free m block then
          let prev = ld64 m (block + 8)
          in and_then (remove_free prev (m, t)) (\<lambda>(m, t).
             and_then (checked_add (block_size m prev) HEADER) (\<lambda>n.
             and_then (checked_add n (block_size m block)) (\<lambda>combined.
             Inr (prev, set_size prev combined m, t))))
        else Inr (block, m, t)) (\<lambda>(merged, m, t).
     and_then (next_phys m merged) (\<lambda>next.
     and_then
       (if is_free m next then
          and_then (remove_free next (m, t)) (\<lambda>(m, t).
          and_then (checked_add (block_size m merged) HEADER) (\<lambda>n.
          and_then (checked_add n (block_size m next)) (\<lambda>combined.
          Inr (set_size merged combined m, t))))
        else Inr (m, t)) (\<lambda>(m, t).
     and_then (insert_free merged (m, t)) (\<lambda>(m, t).
     and_then (next_phys m merged) (\<lambda>after.
     Inr (set_prev_free after True m, t))))))))"

definition write_block_header :: "nat \<Rightarrow> nat \<Rightarrow> mem \<Rightarrow> mem" where
  "write_block_header b sz m = st64 (b + 24) 0 (st64 (b + 16) 0 (st64 (b + 8) 0 (st64 b sz m)))"

definition add_pool :: "nat \<Rightarrow> nat \<Rightarrow> mem \<times> tlsf \<Rightarrow> (mem \<times> tlsf) res" where
  "add_pool base sz = (\<lambda>(m, t).
     and_then (guard (sz > 2 * HEADER + BLOCK_MIN) (Assertion ''pool too small'')) (\<lambda>_.
     and_then (checked_add base (sz - HEADER)) (\<lambda>sentinel.
     let m = write_block_header sentinel 0 m;
         payload_size = sz - 2 * HEADER;
         m = write_block_header base payload_size m;
         m = set_prev_free base False m;
         m = st64 (sentinel + 8) base m
     in insert_free base (m, t))))"

subsection \<open>The \<open>GlobalAlloc\<close> interface\<close>

text \<open>A layout is a size and a power-of-two alignment; the null pointer is 0.\<close>

definition global_alloc :: "nat \<Rightarrow> nat \<Rightarrow> mem \<times> tlsf \<Rightarrow> (nat \<times> mem \<times> tlsf) res" where
  "global_alloc lsize align s =
     (let sz = max lsize BLOCK_MIN;
          extra = (if align > 8 then align - 1 else 0)
      in and_then (checked_add sz extra) (\<lambda>n.
         and_then (tlsf_alloc n s) (\<lambda>(r, m, t).
         case r of None \<Rightarrow> Inr (0, m, t)
         | Some ptr \<Rightarrow>
             and_then (checked_add ptr extra) (\<lambda>a.
             Inr (and_not a (align - 1), m, t)))))"

definition global_dealloc :: "nat \<Rightarrow> mem \<times> tlsf \<Rightarrow> (mem \<times> tlsf) res" where
  "global_dealloc ptr s = tlsf_dealloc ptr s"

end
