(* ===== verification/Tlsf_Classes.thy ===== *)
theory Tlsf_Classes
  imports Tlsf
begin

text \<open>
  The size classes of the TLSF allocator. A class is a pair of indices; \<open>class_floor\<close> is the
  smallest size it holds. Searching from \<open>mapping_search\<close> upwards only meets blocks that are
  large enough.
\<close>

definition class_floor :: "nat \<times> nat \<Rightarrow> nat" where
  "class_floor = (\<lambda>(fl, sl). (32 + sl) * 2 ^ (fl - 5))"

definition class_le :: "nat \<times> nat \<Rightarrow> nat \<times> nat \<Rightarrow> bool" where
  "class_le = (\<lambda>(fl, sl) (fl', sl'). fl < fl' \<or> fl = fl' \<and> sl \<le> sl')"

lemma and_31: "n AND (SL_COUNT - Suc 0) = n mod 32" for n :: nat
proof -
  have "n AND (SL_COUNT - Suc 0) = n AND mask 5" by (simp add: SL_COUNT_def SL_INDEX_COUNT_def mask_eq_exp_minus_1)
  also have "\<dots> = n mod 32" by (simp add: take_bit_eq_mod flip: take_bit_eq_mask)
  finally show ?thesis .
qed

lemma mapping_ok:
  assumes "32 \<le> n" and "n \<le> u64_max"
  obtains fl sl where "mapping n = Inr (fl, sl)" and "5 \<le> fl" and "fl = 63 - leading_zeros n"
    and "sl < 32" and "2 ^ fl \<le> n" and "n < 2 ^ Suc fl"
    and "class_floor (fl, sl) \<le> n" and "n < class_floor (fl, sl) + 2 ^ (fl - 5)"
    and "sl = n div 2 ^ (fl - 5) - 32"
proof -
  define fl where "fl = 63 - leading_zeros n"
  have lz: "leading_zeros n \<le> 63" and lo: "2 ^ fl \<le> n" and hi: "n < 2 ^ Suc fl"
    using highest_bit [of n] assms by (auto simp: fl_def)
  have "(2::nat) ^ 5 < 2 ^ Suc fl" using assms(1) hi by simp
  then have "5 < Suc fl" by (rule power_less_imp_less_exp [rotated]) simp
  then have f5: "5 \<le> fl" by simp
  define q where "q = n div 2 ^ (fl - 5)"
  have p: "(2::nat) ^ fl = 32 * 2 ^ (fl - 5)" "(2::nat) ^ Suc fl = 64 * 2 ^ (fl - 5)"
  proof -
    obtain d where "fl = 5 + d" using f5 le_Suc_ex by blast
    then show "(2::nat) ^ fl = 32 * 2 ^ (fl - 5)" "(2::nat) ^ Suc fl = 64 * 2 ^ (fl - 5)"
      by (simp_all add: power_add)
  qed
  have q: "32 \<le> q" "q < 64"
    unfolding q_def using lo hi p by (simp_all add: less_eq_div_iff_mult_less_eq div_less_iff_less_mult)
  then have sl: "q mod 32 = q - 32" by (simp add: mod_if)
  have qn: "q * 2 ^ (fl - 5) \<le> n" "n < q * 2 ^ (fl - 5) + 2 ^ (fl - 5)"
    unfolding q_def by (rule div_times_less_eq_dividend)
      (metis dividend_less_div_times add.commute zero_less_numeral zero_less_power)
  show thesis
  proof (rule that)
    show "mapping n = Inr (fl, q - 32)"
      using lz f5 sl by (simp add: mapping_def and_31 fl_def [symmetric] SL_INDEX_COUNT_def drop_bit_eq_div q_def [symmetric] Let_def)
    show "class_floor (fl, q - 32) \<le> n" "n < class_floor (fl, q - 32) + 2 ^ (fl - 5)"
      using q qn by (simp_all add: class_floor_def)
  qed (use f5 lo hi q in \<open>simp_all add: fl_def q_def\<close>)
qed

lemma class_floor_mono:
  assumes "class_le (fl, sl) (fl', sl')" and "5 \<le> fl" and "sl < 32"
  shows "class_floor (fl, sl) \<le> class_floor (fl', sl')"
proof -
  consider "fl < fl'" | "fl = fl'" "sl \<le> sl'" using assms(1) by (auto simp: class_le_def)
  then show ?thesis
  proof cases
    case 1
    have "(32 + sl) * 2 ^ (fl - 5) \<le> 64 * 2 ^ (fl - 5)" using assms(3) by (intro mult_le_mono1) simp
    also have "\<dots> = 32 * 2 ^ Suc (fl - 5)" by simp
    also have "\<dots> \<le> 32 * 2 ^ (fl' - 5)"
      using 1 assms(2) by (intro mult_le_mono2 power_increasing) auto
    also have "\<dots> \<le> (32 + sl') * 2 ^ (fl' - 5)" by (intro mult_le_mono1) simp
    finally show ?thesis by (simp add: class_floor_def)
  next
    case 2
    then show ?thesis by (simp add: class_floor_def)
  qed
qed

lemma mapping_search_ok:
  assumes "32 \<le> n" and "n \<le> 2 ^ 62"
  obtains fl sl where "mapping_search n = Inr (fl, sl)" and "5 \<le> fl" and "sl < 32"
    and "n \<le> class_floor (fl, sl)" and "class_floor (fl, sl) < 2 * n"
    and "fl \<le> Suc (63 - leading_zeros n)"
proof -
  have max: "n \<le> u64_max" using assms(2) by (simp add: u64_max_def)
  obtain f s where m: "mapping n = Inr (f, s)" "5 \<le> f" "f = 63 - leading_zeros n" "2 ^ f \<le> n" "n < 2 ^ Suc f"
    by (rule mapping_ok [OF assms(1) max])
  have lz: "leading_zeros n \<le> 63" using highest_bit [of n] assms(1) max by simp
  define k where "k = (2::nat) ^ (f - 5)"
  have k: "1 \<le> k" by (simp add: k_def)
  have p: "(2::nat) ^ f = 32 * k"
  proof -
    obtain d where "f = 5 + d" using m(2) le_Suc_ex by blast
    then show ?thesis by (simp add: power_add k_def)
  qed
  have kn: "32 * k \<le> n" using m(4) p by simp
  let ?n = "n + (k - 1)"
  have n32: "32 \<le> ?n" using assms(1) by simp
  have big: "?n \<le> u64_max" using kn assms(2) by (simp add: u64_max_def)
  obtain fl sl where c: "mapping ?n = Inr (fl, sl)" "5 \<le> fl" "sl < 32" "2 ^ fl \<le> ?n" "?n < 2 ^ Suc fl"
    "class_floor (fl, sl) \<le> ?n" "?n < class_floor (fl, sl) + 2 ^ (fl - 5)"
    by (rule mapping_ok [OF n32 big])
  have "?n < 2 * 2 ^ Suc f" using m(5) kn p by simp
  then have "(2::nat) ^ fl < 2 ^ Suc (Suc f)" using c(4) by simp
  then have f_hi: "fl \<le> Suc f" by (metis less_Suc_eq_le one_less_numeral_iff power_less_imp_less_exp semiring_norm(76))
  have "(2::nat) ^ f < 2 ^ Suc fl" using m(4) c(5) by linarith
  then have f_lo: "f \<le> fl" by (metis less_Suc_eq_le one_less_numeral_iff power_less_imp_less_exp semiring_norm(76))
  have floor: "n \<le> class_floor (fl, sl)"
  proof (cases "fl = f")
    case True
    text \<open>The floor is a multiple of \<open>k\<close> above \<open>n - 1\<close>.\<close>
    have "?n < class_floor (fl, sl) + k" using c(7) True by (simp add: k_def)
    then show ?thesis using k by linarith
  next
    case False
    then have fl: "fl = Suc f" using f_hi f_lo by simp
    have "(32::nat) * 2 ^ (fl - 5) = 2 ^ Suc f"
    proof -
      have "fl - 5 = Suc (f - 5)" using m(2) fl by simp
      then show ?thesis using p by (simp add: k_def)
    qed
    moreover have "32 * 2 ^ (fl - 5) \<le> class_floor (fl, sl)" by (simp add: class_floor_def)
    ultimately show ?thesis using m(5) by linarith
  qed
  have "mapping_search n = Inr (fl, sl)"
    using assms(1) lz m(2,3) c(1) big k by (simp add: mapping_search_def SL_INDEX_COUNT_def k_def)
  moreover have "class_floor (fl, sl) < 2 * n" using c(6) kn assms(1) by linarith
  ultimately show thesis using that c(2,3) floor f_hi m(3) by blast
qed

end
