(* ===== verification/Tlsf_Lists.thy ===== *)
theory Tlsf_Lists
  imports Tlsf_Classes
begin

text \<open>
  The free lists of the TLSF allocator. \<open>tlsf_rep m t L\<close>: the list of class \<open>(fl, sl)\<close> holds exactly
  the blocks \<open>L fl sl\<close>, in this order, doubly linked through the headers; every block in it has that
  class and its free bit set; and the two bitmap levels mark exactly the non-empty lists.
  \<open>insert_free\<close> and \<open>remove_free\<close> are the list operations on \<open>L\<close>, and \<open>find_free\<close> finds the first
  non-empty class.
\<close>

interpretation tl: link_layout 24 16 32
  by unfold_locales simp_all

subsection \<open>Flag bits in the size word\<close>

lemma ld64_le: "ld64 m a \<le> u64_max"
  using ld_bound [of 8 m a] by (simp add: u64_max_def)

lemma or_le: "x \<le> u64_max \<Longrightarrow> y \<le> u64_max \<Longrightarrow> x OR y \<le> u64_max"
proof -
  assume "x \<le> u64_max" "y \<le> u64_max"
  then have "take_bit 64 x = x" "take_bit 64 y = y" by (simp_all add: take_bit_nat_eq_self u64_max_def)
  then have "take_bit 64 (x OR y) = x OR y" by simp
  then have "x OR y < 2 ^ 64" by (metis take_bit_nat_less_exp)
  then show ?thesis by (simp add: u64_max_def)
qed

lemma and_not_le: "and_not x k \<le> u64_max"
  using unsigned_less [of "(of_nat x :: u64) AND NOT (of_nat k)", where ?'a = nat]
  by (simp add: and_not_def u64_max_def)

lemma bit_and_not: "x \<le> u64_max \<Longrightarrow> bit (and_not x k) n \<longleftrightarrow> bit x n \<and> \<not> bit k n"
proof -
  assume "x \<le> u64_max"
  then have "take_bit 64 x = x" by (simp add: take_bit_nat_eq_self u64_max_def)
  then have "bit x n \<Longrightarrow> n < 64" by (metis bit_take_bit_iff)
  then show ?thesis
    by (auto simp: and_not_def bit_simps bit_unsigned_iff)
qed

lemma nat_bit_small: "bit (Suc 0) n \<longleftrightarrow> n = 0" "bit (2::nat) n \<longleftrightarrow> n = 1" "bit (3::nat) n \<longleftrightarrow> n = 0 \<or> n = 1"
proof -
  show 1: "bit (Suc 0) n \<longleftrightarrow> n = 0" using bit_1_iff [where 'a = nat, of n] by simp
  have "bit ((2::nat) ^ 1) n \<longleftrightarrow> n = 1" by (auto simp only: bit_exp_iff) (simp add: possible_bit_def)
  then show 2: "bit (2::nat) n \<longleftrightarrow> n = 1" by simp
  have "(3::nat) = Suc 0 OR 2" by simp
  then show "bit (3::nat) n \<longleftrightarrow> n = 0 \<or> n = 1" by (metis 1 2 bit_or_iff)
qed

lemma and_bit_nonzero: "x AND 2 ^ k \<noteq> 0 \<longleftrightarrow> bit x k" for x :: nat
  by (auto simp: and_exp_eq_0_iff_not_bit)

lemma is_free_bit: "is_free m b \<longleftrightarrow> bit (ld64 m b) 0"
  using and_bit_nonzero [of "ld64 m b" 0] by (simp add: is_free_def FREE_BIT_def)

lemma prev_is_free_bit: "prev_is_free m b \<longleftrightarrow> bit (ld64 m b) 1"
  using and_bit_nonzero [of "ld64 m b" 1] by (simp add: prev_is_free_def PREV_PHYS_BIT_def)

lemma bit_block_size: "bit (block_size m b) n \<longleftrightarrow> bit (ld64 m b) n \<and> n \<noteq> 0 \<and> n \<noteq> 1"
  by (simp add: block_size_def bit_and_not ld64_le bit_or_iff FREE_BIT_def PREV_PHYS_BIT_def nat_bit_small)

lemma block_size_le: "block_size m b \<le> u64_max"
  unfolding block_size_def by (rule and_not_le)

lemma ld64_set_free: "bit (ld64 (set_free b f m) b) n \<longleftrightarrow> (if n = 0 then f else bit (ld64 m b) n)"
proof -
  have "1 \<le> u64_max" by (simp add: u64_max_def)
  then have "ld64 m b OR 1 \<le> u64_max" "and_not (ld64 m b) 1 \<le> u64_max" using ld64_le or_le and_not_le by blast+
  then show ?thesis
    by (simp add: set_free_def FREE_BIT_def bit_or_iff bit_and_not ld64_le nat_bit_small)
qed

lemma ld64_set_prev_free: "bit (ld64 (set_prev_free b f m) b) n \<longleftrightarrow> (if n = 1 then f else bit (ld64 m b) n)"
proof -
  have "2 \<le> u64_max" by (simp add: u64_max_def)
  then have "ld64 m b OR 2 \<le> u64_max" "and_not (ld64 m b) 2 \<le> u64_max" using ld64_le or_le and_not_le by blast+
  then show ?thesis
    by (simp add: set_prev_free_def PREV_PHYS_BIT_def bit_or_iff bit_and_not ld64_le nat_bit_small)
qed

lemma set_free_header:
  "is_free (set_free b f m) b = f" "block_size (set_free b f m) b = block_size m b"
  "prev_is_free (set_free b f m) b = prev_is_free m b"
  by (simp_all add: is_free_bit prev_is_free_bit ld64_set_free) (rule bit_eqI, auto simp: bit_block_size ld64_set_free)

lemma set_prev_free_header:
  "prev_is_free (set_prev_free b f m) b = f" "block_size (set_prev_free b f m) b = block_size m b"
  "is_free (set_prev_free b f m) b = is_free m b"
  by (simp_all add: is_free_bit prev_is_free_bit ld64_set_prev_free)
    (rule bit_eqI, auto simp: bit_block_size ld64_set_prev_free)

lemma set_free_agree: "agree_off {b..<b + 8} m (set_free b f m)"
  by (simp add: set_free_def agree_off_st)

lemma header_cong: "ld64 m' b = ld64 m b \<Longrightarrow> block_size m' b = block_size m b \<and> is_free m' b = is_free m b"
  by (simp add: block_size_def is_free_def)

subsection \<open>Bitmaps\<close>

definition bitmaps_ok :: "tlsf \<Rightarrow> bool" where
  "bitmaps_ok t \<longleftrightarrow>
     length (sl_bitmap t) = FL_INDEX_COUNT \<and> length (tl_lists t) = FL_INDEX_COUNT \<and>
     (\<forall>fl<FL_INDEX_COUNT. length (tl_lists t ! fl) = SL_COUNT) \<and>
     (\<forall>fl. bit (fl_bitmap t) fl \<longleftrightarrow> fl < FL_INDEX_COUNT \<and> sl_bitmap t ! fl \<noteq> 0) \<and>
     (\<forall>fl<FL_INDEX_COUNT. \<forall>sl<SL_COUNT. bit (sl_bitmap t ! fl) sl \<longleftrightarrow> tl_lists t ! fl ! sl \<noteq> 0)"

lemma counts: "FL_INDEX_COUNT = 30" "SL_COUNT = 32"
  by (simp_all add: FL_INDEX_COUNT_def SL_COUNT_def SL_INDEX_COUNT_def)

lemma bitmapsD:
  assumes "bitmaps_ok t"
  shows "length (sl_bitmap t) = 30" and "length (tl_lists t) = 30"
    and "fl < 30 \<Longrightarrow> length (tl_lists t ! fl) = 32"
    and "bit (fl_bitmap t) fl \<longleftrightarrow> fl < 30 \<and> sl_bitmap t ! fl \<noteq> 0"
    and "fl < 30 \<Longrightarrow> sl < 32 \<Longrightarrow> bit (sl_bitmap t ! fl) sl \<longleftrightarrow> tl_lists t ! fl ! sl \<noteq> 0"
  using assms by (simp_all add: bitmaps_ok_def counts)

lemma list_at_ok: "bitmaps_ok t \<Longrightarrow> fl < 30 \<Longrightarrow> sl < 32 \<Longrightarrow> list_at t fl sl = Inr (tl_lists t ! fl ! sl)"
  by (simp add: list_at_def bitmapsD)

lemma set_list_ok:
  "bitmaps_ok t \<Longrightarrow> fl < 30 \<Longrightarrow> sl < 32 \<Longrightarrow>
   set_list fl sl v t = Inr (t\<lparr>tl_lists := (tl_lists t)[fl := (tl_lists t ! fl)[sl := v]]\<rparr>)"
  by (simp add: set_list_def bitmapsD)

text \<open>What a class's head and bits look like after a change of its list.\<close>

definition with_head :: "nat \<Rightarrow> nat \<Rightarrow> nat \<Rightarrow> u32 \<Rightarrow> u32 \<Rightarrow> tlsf \<Rightarrow> tlsf" where
  "with_head fl sl h fls bits t =
     t\<lparr>tl_lists := (tl_lists t)[fl := (tl_lists t ! fl)[sl := h]],
       fl_bitmap := fls, sl_bitmap := (sl_bitmap t)[fl := bits]\<rparr>"

lemma with_head_lists [simp]:
  assumes "bitmaps_ok t" and "fl < 30" and "fl' < 30" and "sl' < 32"
  shows "tl_lists (with_head fl sl h fls bits t) ! fl' ! sl' =
    (if fl' = fl \<and> sl' = sl then h else tl_lists t ! fl' ! sl')"
  using assms by (auto simp: with_head_def bitmapsD nth_list_update)

lemma with_head_ok:
  assumes t: "bitmaps_ok t" and fl: "fl < 30" and sl: "sl < 32"
    and bits: "\<And>i. i < 32 \<Longrightarrow> bit bits i \<longleftrightarrow> (if i = sl then h \<noteq> 0 else bit (sl_bitmap t ! fl) i)"
    and fls: "\<And>i. bit fls i \<longleftrightarrow> (if i = fl then bits \<noteq> 0 else bit (fl_bitmap t) i)"
  shows "bitmaps_ok (with_head fl sl h fls bits t)"
  unfolding bitmaps_ok_def counts
proof (intro conjI allI impI)
  let ?t = "with_head fl sl h fls bits t"
  show "length (sl_bitmap ?t) = 30" "length (tl_lists ?t) = 30"
    using t by (simp_all add: with_head_def bitmapsD)
  fix f
  show "length (tl_lists ?t ! f) = 32" if "f < 30"
    using t fl that by (simp add: with_head_def bitmapsD nth_list_update)
  show "bit (fl_bitmap ?t) f \<longleftrightarrow> f < 30 \<and> sl_bitmap ?t ! f \<noteq> 0"
    using t fl fls [of f] by (auto simp: with_head_def bitmapsD nth_list_update)
  fix s
  show "bit (sl_bitmap ?t ! f) s \<longleftrightarrow> tl_lists ?t ! f ! s \<noteq> 0" if "f < 30" "s < 32"
  proof (cases "f = fl")
    case True
    then have "sl_bitmap ?t ! f = bits" using t fl by (simp add: with_head_def bitmapsD)
    with True that t fl bits [of s] show ?thesis by (simp add: bitmapsD)
  next
    case False
    then have "sl_bitmap ?t ! f = sl_bitmap t ! f" by (simp add: with_head_def)
    with False that t fl show ?thesis by (simp add: bitmapsD)
  qed
qed

lemma word_eq_0_bits: "w = 0 \<longleftrightarrow> (\<forall>i<LENGTH('a). \<not> bit w i)" for w :: "'a::len word"
  by (auto simp: bit_eq_iff bit_imp_le_length dest: bit_imp_le_length)

subsection \<open>Representation\<close>

type_synonym classes = "nat \<Rightarrow> nat \<Rightarrow> nat list"

definition free_blocks :: "classes \<Rightarrow> nat set" where
  "free_blocks L = (\<Union>fl<30. \<Union>sl<32. set (L fl sl))"

definition in_class :: "mem \<Rightarrow> nat \<Rightarrow> nat \<times> nat \<Rightarrow> bool" where
  "in_class m b c \<longleftrightarrow> mapping (block_size m b) = Inr c \<and> is_free m b"

definition tlsf_rep :: "mem \<Rightarrow> tlsf \<Rightarrow> classes \<Rightarrow> bool" where
  "tlsf_rep m t L \<longleftrightarrow>
     bitmaps_ok t \<and> apart 32 (free_blocks L) \<and> (\<forall>x\<in>free_blocks L. x + 32 \<le> u64_max) \<and>
     (\<forall>fl<30. \<forall>sl<32.
        dll 24 16 m 0 (tl_lists t ! fl ! sl) (L fl sl) \<and> distinct (L fl sl) \<and>
        (\<forall>x\<in>set (L fl sl). in_class m x (fl, sl)))"

definition set_class :: "nat \<Rightarrow> nat \<Rightarrow> nat list \<Rightarrow> classes \<Rightarrow> classes" where
  "set_class fl sl xs L = (\<lambda>f s. if f = fl \<and> s = sl then xs else L f s)"

lemma tlsf_repD:
  assumes "tlsf_rep m t L"
  shows "bitmaps_ok t" and "apart 32 (free_blocks L)" and "x \<in> free_blocks L \<Longrightarrow> x + 32 \<le> u64_max"
    and "fl < 30 \<Longrightarrow> sl < 32 \<Longrightarrow> dll 24 16 m 0 (tl_lists t ! fl ! sl) (L fl sl)"
    and "fl < 30 \<Longrightarrow> sl < 32 \<Longrightarrow> distinct (L fl sl)"
    and "fl < 30 \<Longrightarrow> sl < 32 \<Longrightarrow> x \<in> set (L fl sl) \<Longrightarrow> in_class m x (fl, sl)"
  using assms by (simp_all add: tlsf_rep_def)

lemma free_blocksI: "fl < 30 \<Longrightarrow> sl < 32 \<Longrightarrow> x \<in> set (L fl sl) \<Longrightarrow> x \<in> free_blocks L"
  by (auto simp: free_blocks_def)

lemma class_disjoint:
  assumes "tlsf_rep m t L" and "fl < 30" "sl < 32" "fl' < 30" "sl' < 32"
    and "x \<in> set (L fl sl)" "x \<in> set (L fl' sl')"
  shows "fl' = fl \<and> sl' = sl"
  using tlsf_repD(6) [OF assms(1-3,6)] tlsf_repD(6) [OF assms(1,4,5,7)] by (simp add: in_class_def)

lemma header_cells_apart:
  assumes "apart 32 S" and "x \<in> S" and "Y \<subseteq> S"
  shows "{x..<x + 8} \<inter> ptr_cells 24 16 Y = {}"
proof -
  have "{x..<x + 8} \<inter> ({y + 24..<y + 24 + 8} \<union> {y + 16..<y + 16 + 8}) = {}" if "y \<in> Y" for y
  proof (cases "y = x")
    case False
    then have "x + 32 \<le> y \<or> y + 32 \<le> x" using apartD [OF assms(1,2)] assms(3) that by auto
    then show ?thesis by auto
  qed auto
  then show ?thesis by (auto simp: ptr_cells_def)
qed

lemma ptr_cells_apart:
  assumes "apart 32 S" and "X \<subseteq> S" and "Y \<subseteq> S" and "X \<inter> Y = {}"
  shows "ptr_cells 24 16 X \<inter> ptr_cells 24 16 Y = {}"
proof -
  have "False" if z: "z \<in> ptr_cells 24 16 X" "z \<in> ptr_cells 24 16 Y" for z
  proof -
    obtain x where x: "x \<in> X" "x \<le> z" "z < x + 32" using z(1) by (auto simp: ptr_cells_def)
    obtain y where y: "y \<in> Y" "y \<le> z" "z < y + 32" using z(2) by (auto simp: ptr_cells_def)
    have "x \<noteq> y" using assms(4) x(1) y(1) by auto
    then have "x + 32 \<le> y \<or> y + 32 \<le> x" using apartD [OF assms(1)] assms(2,3) x(1) y(1) by blast
    then show False using x y by linarith
  qed
  then show ?thesis by blast
qed

text \<open>
  A change of the links of one class's list and of the size word of a block that is not in a list
  keeps every other list.
\<close>

lemma other_class_kept:
  assumes rep: "tlsf_rep m t L" and S: "apart 32 (insert b (free_blocks L))"
    and fl: "fl < 30" and sl: "sl < 32" and fl': "fl' < 30" and sl': "sl' < 32"
    and ne: "(fl', sl') \<noteq> (fl, sl)" and b: "b \<notin> set (L fl' sl')"
    and ag: "agree_off (ptr_cells 24 16 (insert b (set (L fl sl))) \<union> {b..<b + 8}) m m'"
  shows "dll 24 16 m' 0 (tl_lists t ! fl' ! sl') (L fl' sl')"
    and "x \<in> set (L fl' sl') \<Longrightarrow> in_class m' x (fl', sl')"
proof -
  have sub: "set (L fl' sl') \<subseteq> insert b (free_blocks L)" "insert b (set (L fl sl)) \<subseteq> insert b (free_blocks L)"
    using free_blocksI [OF fl sl] free_blocksI [OF fl' sl'] by auto
  have dis: "set (L fl' sl') \<inter> insert b (set (L fl sl)) = {}"
    using class_disjoint [OF rep fl sl fl' sl'] ne b by auto
  have "{b..<b + 8} \<inter> ptr_cells 24 16 (set (L fl' sl')) = {}"
    using header_cells_apart [OF S _ sub(1)] by simp
  then have "ptr_cells 24 16 (set (L fl' sl')) \<inter>
      (ptr_cells 24 16 (insert b (set (L fl sl))) \<union> {b..<b + 8}) = {}"
    using ptr_cells_apart [OF S sub dis] by auto
  from tl.dll_ptr_agree [OF ag this] show "dll 24 16 m' 0 (tl_lists t ! fl' ! sl') (L fl' sl')"
    using tlsf_repD(4) [OF rep fl' sl'] by simp
  show "in_class m' x (fl', sl')" if x: "x \<in> set (L fl' sl')"
  proof -
    have "x \<noteq> b" "x \<in> insert b (free_blocks L)" using x b sub by auto
    then have "x + 32 \<le> b \<or> b + 32 \<le> x" using apartD [OF S] by blast
    moreover have "{x..<x + 8} \<inter> ptr_cells 24 16 (insert b (set (L fl sl))) = {}"
      by (rule header_cells_apart [OF S _ sub(2)]) (use x sub in auto)
    ultimately have "{x..<x + 8} \<inter> (ptr_cells 24 16 (insert b (set (L fl sl))) \<union> {b..<b + 8}) = {}" by auto
    from header_cong [OF ld_agree [OF ag this]] show ?thesis
      using tlsf_repD(6) [OF rep fl' sl' x] by (simp add: in_class_def)
  qed
qed

lemma rep_with_head:
  assumes rep: "tlsf_rep m t L" and fl: "fl < 30" and sl: "sl < 32"
    and S: "apart 32 (insert b (free_blocks L))" and b: "\<And>f s. f < 30 \<Longrightarrow> s < 32 \<Longrightarrow> (f, s) \<noteq> (fl, sl) \<Longrightarrow> b \<notin> set (L f s)"
    and ag: "agree_off (ptr_cells 24 16 (insert b (set (L fl sl))) \<union> {b..<b + 8}) m m'"
    and dll: "dll 24 16 m' 0 h xs" and xs: "distinct xs" "\<And>x. x \<in> set xs \<Longrightarrow> in_class m' x (fl, sl)"
      "set xs \<subseteq> insert b (set (L fl sl))" and lim: "b + 32 \<le> u64_max"
    and ok: "bitmaps_ok (with_head fl sl h fls bits t)"
  shows "tlsf_rep m' (with_head fl sl h fls bits t) (set_class fl sl xs L)"
proof -
  have sub: "free_blocks (set_class fl sl xs L) \<subseteq> insert b (free_blocks L)"
    using xs(3) free_blocksI [OF fl sl] by (auto simp: free_blocks_def set_class_def split: if_splits)
  note t = tlsf_repD(1) [OF rep]
  have "dll 24 16 m' 0 (tl_lists (with_head fl sl h fls bits t) ! f ! s) (set_class fl sl xs L f s) \<and>
      distinct (set_class fl sl xs L f s) \<and> (\<forall>x\<in>set (set_class fl sl xs L f s). in_class m' x (f, s))"
    if "f < 30" "s < 32" for f s
  proof (cases "(f, s) = (fl, sl)")
    case True
    then show ?thesis using dll xs t fl sl by (simp add: set_class_def)
  next
    case False
    note k = other_class_kept [OF rep S fl sl that False b [OF that False] ag]
    show ?thesis using False k tlsf_repD(5) [OF rep that] t fl that by (auto simp: set_class_def)
  qed
  moreover have "apart 32 (free_blocks (set_class fl sl xs L))" using apart_subset [OF S sub] .
  moreover have "\<forall>x\<in>free_blocks (set_class fl sl xs L). x + 32 \<le> u64_max"
    using sub lim tlsf_repD(3) [OF rep] by blast
  ultimately show ?thesis using ok by (simp add: tlsf_rep_def)
qed

subsection \<open>Inserting and removing\<close>

lemma insert_free_ok:
  assumes rep: "tlsf_rep m t L" and new: "b \<notin> free_blocks L"
    and S: "apart 32 (insert b (free_blocks L))" and b: "b \<noteq> 0" "b + 32 \<le> u64_max"
    and cl: "mapping (block_size m b) = Inr (fl, sl)" and fl: "fl < 30" and sl: "sl < 32"
  obtains m' t' where "insert_free b (m, t) = Inr (m', t')"
    and "tlsf_rep m' t' (set_class fl sl (b # L fl sl) L)"
    and "block_size m' b = block_size m b" and "is_free m' b" and "prev_is_free m' b = prev_is_free m b"
    and "agree_off (ptr_cells 24 16 (insert b (set (L fl sl))) \<union> {b..<b + 8}) m m'"
proof -
  note t = tlsf_repD(1) [OF rep] and old = tlsf_repD(4) [OF rep fl sl]
  define h where "h = tl_lists t ! fl ! sl"
  define m1 where "m1 = list_push 24 16 b m h"
  define m' where "m' = set_free b True m1"
  define bits where "bits = sl_bitmap t ! fl OR push_bit sl 1"
  define fls where "fls = fl_bitmap t OR push_bit fl 1"
  define t' where "t' = with_head fl sl b fls bits t"
  have notin: "b \<notin> set (L fl sl)" using new free_blocksI [OF fl sl] by auto
  have sub: "insert b (set (L fl sl)) \<subseteq> insert b (free_blocks L)" using free_blocksI [OF fl sl] by auto
  have pa: "agree_off (ptr_cells 24 16 (insert b (set (L fl sl)))) m m1"
    unfolding m1_def h_def by (rule tl.push_ptr_agree [OF old])
  have hd: "ld64 m1 b = ld64 m b"
    by (rule ld_agree [OF pa]) (rule header_cells_apart [OF S _ sub], simp)
  have fa: "agree_off {b..<b + 8} m1 m'" unfolding m'_def by (rule set_free_agree)
  have ag: "agree_off (ptr_cells 24 16 (insert b (set (L fl sl))) \<union> {b..<b + 8}) m m'"
    by (rule agree_off_trans [OF agree_off_mono [OF pa] agree_off_mono [OF fa]]) auto
  have d1: "dll 24 16 m1 0 b (b # L fl sl)"
    unfolding m1_def h_def
  proof (rule tl.push_dll [OF old])
    show "apart 32 (insert b (set (L fl sl)))" by (rule apart_subset [OF S sub])
    show "\<forall>y\<in>set (L fl sl). y \<le> u64_max" using tlsf_repD(3) [OF rep] free_blocksI [OF fl sl] by force
  qed (use notin tlsf_repD(5) [OF rep fl sl] b in auto)
  have d2: "dll 24 16 m' 0 b (b # L fl sl)"
  proof -
    have "{b..<b + 8} \<inter> ptr_cells 24 16 (insert b (set (L fl sl))) = {}"
      by (rule header_cells_apart [OF S _ sub]) simp
    then have "ptr_cells 24 16 (set (b # L fl sl)) \<inter> {b..<b + 8} = {}" by auto
    from tl.dll_ptr_agree [OF fa this, where p = 0 and h = b] d1 show ?thesis by blast
  qed
  have bs: "block_size m' b = block_size m b" "is_free m' b" "prev_is_free m' b = prev_is_free m b"
    using hd by (simp_all add: m'_def set_free_header) (simp_all add: block_size_def prev_is_free_def)
  have inc: "in_class m' x (fl, sl)" if "x \<in> set (b # L fl sl)" for x
  proof (cases "x = b")
    case True
    then show ?thesis using bs cl by (simp add: in_class_def)
  next
    case False
    then have x: "x \<in> set (L fl sl)" using that by simp
    then have xs: "x \<in> insert b (free_blocks L)" using sub by auto
    then have "x + 32 \<le> b \<or> b + 32 \<le> x" using apartD [OF S xs, of b] False by blast
    moreover have "{x..<x + 8} \<inter> ptr_cells 24 16 (insert b (set (L fl sl))) = {}"
      by (rule header_cells_apart [OF S xs sub])
    ultimately have "{x..<x + 8} \<inter> (ptr_cells 24 16 (insert b (set (L fl sl))) \<union> {b..<b + 8}) = {}" by auto
    from header_cong [OF ld_agree [OF ag this]] show ?thesis
      using tlsf_repD(6) [OF rep fl sl x] by (simp add: in_class_def)
  qed
  have nz: "bits \<noteq> 0" using sl by (auto simp: bits_def bit_eq_iff bit_simps)
  have ok: "bitmaps_ok t'"
    unfolding t'_def
  proof (rule with_head_ok [OF t fl sl])
    show "bit bits i \<longleftrightarrow> (if i = sl then b \<noteq> 0 else bit (sl_bitmap t ! fl) i)" if "i < 32" for i
      using that b sl by (auto simp: bits_def bit_simps)
    show "bit fls i \<longleftrightarrow> (if i = fl then bits \<noteq> 0 else bit (fl_bitmap t) i)" for i
      using fl nz by (auto simp: fls_def bit_simps)
  qed
  have run: "insert_free b (m, t) = Inr (m', t')"
    using cl t fl sl
    by (simp add: insert_free_def list_at_ok set_list_ok Let_def bitmapsD m'_def m1_def h_def t'_def
        with_head_def fls_def bits_def)
  have rep': "tlsf_rep m' t' (set_class fl sl (b # L fl sl) L)"
    unfolding t'_def
  proof (rule rep_with_head [OF rep fl sl S _ ag d2])
    show "b \<notin> set (L f s)" if "f < 30" "s < 32" for f s using new free_blocksI [OF that] by auto
  qed (use notin tlsf_repD(5) [OF rep fl sl] inc b ok in \<open>auto simp: t'_def\<close>)
  show thesis using that run rep' bs ag by blast
qed

end
