(* ===== verification/Tlsf_Correct.thy ===== *)
theory Tlsf_Correct
  imports Tlsf_Lists
begin

text \<open>
  The operations of the TLSF allocator over its representation: \<open>remove_free\<close> takes a block out of
  its class, \<open>find_free\<close> returns the head of the first class whose blocks are all large enough, and
  \<open>add_pool\<close> makes one free block of a pool.
\<close>

lemma tlsf_new_rep: "tlsf_rep m tlsf_new (\<lambda>_ _. [])"
  by (simp add: tlsf_rep_def bitmaps_ok_def tlsf_new_def FL_INDEX_COUNT_def SL_COUNT_def SL_INDEX_COUNT_def
      free_blocks_def apart_def nth_replicate)

lemma dll_head_zero: "dll po no m p h xs \<Longrightarrow> h = 0 \<longleftrightarrow> xs = []"
  by (cases xs) auto

lemma bit_and_not_word: "bit (w AND NOT (2 ^ k)) i \<longleftrightarrow> bit w i \<and> i \<noteq> k" for w :: u32
  by (auto simp: bit_simps dest: bit_imp_le_length)

lemma remove_free_ok:
  assumes rep: "tlsf_rep m t L" and fl: "fl < 30" and sl: "sl < 32" and b: "b \<in> set (L fl sl)"
  obtains m' t' where "remove_free b (m, t) = Inr (m', t')"
    and "tlsf_rep m' t' (set_class fl sl (remove1 b (L fl sl)) L)"
    and "block_size m' b = block_size m b" and "\<not> is_free m' b" and "prev_is_free m' b = prev_is_free m b"
    and "agree_off (ptr_cells 24 16 (set (L fl sl)) \<union> {b..<b + 8}) m m'"
proof -
  note t = tlsf_repD(1) [OF rep] and old = tlsf_repD(4) [OF rep fl sl] and dst = tlsf_repD(5) [OF rep fl sl]
  obtain as bs where L: "L fl sl = as @ b # bs" using b by (metis split_list)
  have r1: "remove1 b (L fl sl) = as @ bs" using dst L by (simp add: remove1_append)
  have bf: "b \<in> free_blocks L" using free_blocksI fl sl b by blast
  have S: "apart 32 (insert b (free_blocks L))" using tlsf_repD(2) [OF rep] bf by (simp add: insert_absorb)
  have sub: "set (L fl sl) \<subseteq> free_blocks L" using free_blocksI [OF fl sl] by auto
  obtain m1 h1 where u: "list_unlink 24 16 b m (tl_lists t ! fl ! sl) = (m1, h1)" by (cases "list_unlink 24 16 b m (tl_lists t ! fl ! sl)")
  define m' where "m' = set_free b False m1"
  define bits where "bits = (if h1 = 0 then sl_bitmap t ! fl AND NOT (push_bit sl 1) else sl_bitmap t ! fl)"
  define fls where "fls = (if h1 = 0 \<and> bits = 0 then fl_bitmap t AND NOT (push_bit fl 1) else fl_bitmap t)"
  define t' where "t' = with_head fl sl h1 fls bits t"
  have pa: "agree_off (ptr_cells 24 16 (set (as @ bs))) m m1"
    by (rule tl.unlink_ptr_agree [OF old [unfolded L] u])
  have hc: "{b..<b + 8} \<inter> ptr_cells 24 16 (set (as @ bs)) = {}"
    by (rule header_cells_apart [OF tlsf_repD(2) [OF rep] bf]) (use sub L in auto)
  have hd: "ld64 m1 b = ld64 m b" by (rule ld_agree [OF pa hc])
  have fa: "agree_off {b..<b + 8} m1 m'" unfolding m'_def by (rule set_free_agree)
  have mono: "ptr_cells 24 16 (set (as @ bs)) \<subseteq> ptr_cells 24 16 (set (L fl sl))"
    using L by (intro ptr_cells_mono) auto
  have ag: "agree_off (ptr_cells 24 16 (set (L fl sl)) \<union> {b..<b + 8}) m m'"
    by (rule agree_off_trans [OF agree_off_mono [OF pa] agree_off_mono [OF fa]]) (use mono in auto)
  have d1: "dll 24 16 m1 0 h1 (as @ bs)"
  proof (rule tl.unlink_dll [OF old [unfolded L] _ dst [unfolded L] _ u])
    show "apart 32 (set (as @ b # bs))" using apart_subset [OF tlsf_repD(2) [OF rep] sub] L by simp
    show "\<forall>y\<in>set (as @ bs). y \<le> u64_max" using tlsf_repD(3) [OF rep] sub L by force
  qed
  have d2: "dll 24 16 m' 0 h1 (as @ bs)"
    using tl.dll_ptr_agree [OF fa, of "as @ bs" 0 h1] hc d1 by (simp add: Int_commute)
  have h0: "h1 = 0 \<longleftrightarrow> as @ bs = []" by (rule dll_head_zero [OF d1])
  have bs: "block_size m' b = block_size m b" "\<not> is_free m' b" "prev_is_free m' b = prev_is_free m b"
    using hd by (simp_all add: m'_def set_free_header) (simp_all add: block_size_def prev_is_free_def)
  have inc: "in_class m' x (fl, sl)" if x: "x \<in> set (as @ bs)" for x
  proof -
    have xL: "x \<in> set (L fl sl)" "x \<noteq> b" using x L dst by auto
    then have xf: "x \<in> free_blocks L" using sub by auto
    then have "x + 32 \<le> b \<or> b + 32 \<le> x" using apartD [OF tlsf_repD(2) [OF rep] xf bf xL(2)] by blast
    moreover have "{x..<x + 8} \<inter> ptr_cells 24 16 (set (L fl sl)) = {}"
      by (rule header_cells_apart [OF tlsf_repD(2) [OF rep] xf sub])
    ultimately have "{x..<x + 8} \<inter> (ptr_cells 24 16 (set (L fl sl)) \<union> {b..<b + 8}) = {}" by auto
    from header_cong [OF ld_agree [OF ag this]] show ?thesis
      using tlsf_repD(6) [OF rep fl sl xL(1)] by (simp add: in_class_def)
  qed
  have cl: "mapping (block_size m b) = Inr (fl, sl)" using tlsf_repD(6) [OF rep fl sl b] by (simp add: in_class_def)
  have bb: "bit (sl_bitmap t ! fl) sl"
    using bitmapsD(5) [OF t fl sl] dll_head_zero [OF old] L by simp
  have ok: "bitmaps_ok t'"
    unfolding t'_def
  proof (rule with_head_ok [OF t fl sl])
    show "bit bits i \<longleftrightarrow> (if i = sl then h1 \<noteq> 0 else bit (sl_bitmap t ! fl) i)" if "i < 32" for i
      using bb by (auto simp: bits_def bit_and_not_word)
    show "bit fls i \<longleftrightarrow> (if i = fl then bits \<noteq> 0 else bit (fl_bitmap t) i)" for i
      using bitmapsD(4) [OF t, of i] fl bb
      by (auto simp: fls_def bits_def bit_and_not_word)
  qed
  have run: "remove_free b (m, t) = Inr (m', t')"
    using cl t fl sl u
    by (simp add: remove_free_def list_at_ok set_list_ok Let_def bitmapsD m'_def t'_def with_head_def fls_def bits_def)
  have rep': "tlsf_rep m' t' (set_class fl sl (as @ bs) L)"
    unfolding t'_def
  proof (rule rep_with_head [OF rep fl sl S _ _ d2])
    show "b \<notin> set (L f s)" if "f < 30" "s < 32" "(f, s) \<noteq> (fl, sl)" for f s
      using class_disjoint [OF rep fl sl that(1,2) b] that(3) by auto
    show "agree_off (ptr_cells 24 16 (insert b (set (L fl sl))) \<union> {b..<b + 8}) m m'"
      using ag b by (simp add: insert_absorb)
    show "b + 32 \<le> u64_max" using tlsf_repD(3) [OF rep bf] .
  qed (use dst L inc ok in \<open>auto simp: t'_def\<close>)
  show thesis using that run rep' bs ag r1 by simp
qed

subsection \<open>Searching\<close>

lemma bit_trailing_zeros: "n \<noteq> 0 \<Longrightarrow> bit n (trailing_zeros n)" for n :: nat
proof -
  assume n: "n \<noteq> 0"
  let ?k = "trailing_zeros n"
  have "odd (n div 2 ^ ?k)"
  proof
    assume "even (n div 2 ^ ?k)"
    then obtain j where "n div 2 ^ ?k = 2 * j" by (elim evenE)
    then have "n = 2 ^ Suc ?k * j" using dvd_mult_div_cancel [OF trailing_zeros_dvd [OF n]] by simp
    then have "2 ^ Suc ?k dvd n" by (rule dvdI)
    with trailing_zeros_max [OF n] show False by fastforce
  qed
  then show ?thesis by (simp add: bit_iff_odd)
qed

lemma bit_trailing_zeros32: "w \<noteq> 0 \<Longrightarrow> bit w (trailing_zeros32 w)"
  using bit_trailing_zeros [of "unat w"] by (simp add: trailing_zeros32_def bit_unsigned_iff unat_eq_0)

lemma class_range:
  assumes "mapping n = Inr (fl, sl)" and "5 \<le> fl" and "n \<le> u64_max"
  shows "32 \<le> n" and "class_floor (fl, sl) \<le> n" and "n < class_floor (fl, sl) + 2 ^ (fl - 5)" and "sl < 32"
proof -
  have fl: "fl = 63 - leading_zeros n" "leading_zeros n \<le> 63"
    using assms(1) by (auto simp: mapping_def res_elims Let_def)
  have "bit_length 0 = 0" by (subst bit_length.simps) simp
  with fl(2) have "n \<noteq> 0" by (intro notI) (simp add: leading_zeros_def)
  with highest_bit(1) [OF this assms(3)] fl have "2 ^ fl \<le> n" by simp
  moreover have "(2::nat) ^ 5 \<le> 2 ^ fl" using assms(2) by (intro power_increasing) auto
  ultimately show n: "32 \<le> n" by simp
  obtain f s where "mapping n = Inr (f, s)" "s < 32" "class_floor (f, s) \<le> n" "n < class_floor (f, s) + 2 ^ (f - 5)"
    by (rule mapping_ok [OF n assms(3)])
  with assms(1) show "class_floor (fl, sl) \<le> n" "n < class_floor (fl, sl) + 2 ^ (fl - 5)" "sl < 32" by simp_all
qed

lemma below_class:
  assumes "\<not> class_le (fl, sl) (f, s)" and "5 \<le> f" and "s < 32" and "n < class_floor (f, s) + 2 ^ (f - 5)"
  shows "n < class_floor (fl, sl)"
proof -
  have next_floor: "class_floor (f, s) + 2 ^ (f - 5) = (33 + s) * 2 ^ (f - 5)"
    by (simp add: class_floor_def algebra_simps)
  consider "f < fl" | "f = fl" "s < sl"
    using assms(1) linorder_less_linear [of f fl] by (auto simp: class_le_def)
  then have "(33 + s) * 2 ^ (f - 5) \<le> class_floor (fl, sl)"
  proof cases
    case 1
    have "(33 + s) * 2 ^ (f - 5) \<le> 64 * 2 ^ (f - 5)" using assms(3) by (intro mult_le_mono1) simp
    also have "\<dots> = 32 * 2 ^ Suc (f - 5)" by simp
    also have "\<dots> \<le> 32 * 2 ^ (fl - 5)" using 1 assms(2) by (intro mult_le_mono2 power_increasing) auto
    also have "\<dots> \<le> (32 + sl) * 2 ^ (fl - 5)" by (intro mult_le_mono1) simp
    finally show ?thesis by (simp add: class_floor_def)
  next
    case 2
    then show ?thesis by (auto simp: class_floor_def intro!: mult_le_mono1)
  qed
  with assms(4) next_floor show ?thesis by linarith
qed

definition start_class :: "nat \<Rightarrow> nat \<times> nat \<Rightarrow> bool" where
  "start_class n c \<longleftrightarrow> mapping_search n = Inr c \<and> 5 \<le> fst c \<and> fst c < 30 \<and> snd c < 32 \<and>
     n \<le> class_floor c \<and> class_floor c < 2 * n"

lemma start_class_ex:
  assumes "32 \<le> n" and "n < 2 ^ 29"
  obtains c where "start_class n c"
proof -
  have big: "n \<le> 2 ^ 62" and max: "n \<le> u64_max" using assms(2) by (simp_all add: u64_max_def)
  obtain fl sl where c: "mapping_search n = Inr (fl, sl)" "5 \<le> fl" "sl < 32"
    "n \<le> class_floor (fl, sl)" "class_floor (fl, sl) < 2 * n" "fl \<le> Suc (63 - leading_zeros n)"
    by (rule mapping_search_ok [OF assms(1) big])
  have "2 ^ (63 - leading_zeros n) \<le> n" using highest_bit(1) [of n] assms(1) max by simp
  then have "(2::nat) ^ (63 - leading_zeros n) < 2 ^ 29" using assms(2) by linarith
  then have "63 - leading_zeros n < 29" by (rule power_less_imp_less_exp [rotated]) simp
  with c that [of "(fl, sl)"] show thesis by (simp add: start_class_def)
qed

text \<open>A block on a list is at least as large as the floor of its class.\<close>

lemma listed_size:
  assumes rep: "tlsf_rep m t L" and "fl < 30" and "sl < 32" and "5 \<le> fl" and "b \<in> set (L fl sl)"
  shows "class_floor (fl, sl) \<le> block_size m b" and "block_size m b < class_floor (fl, sl) + 2 ^ (fl - 5)"
  using class_range [OF _ assms(4) block_size_le] tlsf_repD(6) [OF rep assms(2,3,5)] by (auto simp: in_class_def)

lemma head_listed:
  assumes rep: "tlsf_rep m t L" and "fl < 30" and "sl < 32" and "bit (sl_bitmap t ! fl) sl"
  shows "tl_lists t ! fl ! sl \<in> set (L fl sl)"
proof -
  have "tl_lists t ! fl ! sl \<noteq> 0" using bitmapsD(5) [OF tlsf_repD(1) [OF rep] assms(2,3)] assms(4) by simp
  moreover note dll_head_zero [OF tlsf_repD(4) [OF rep assms(2,3)]] dll_head [OF tlsf_repD(4) [OF rep assms(2,3)]]
  ultimately show ?thesis by simp
qed

lemma find_free_ok:
  assumes rep: "tlsf_rep m t L" and n: "32 \<le> n" "n < 2 ^ 29"
  shows "find_free t n = Inr None \<and>
      (\<forall>fl<30. \<forall>sl<32. \<forall>b\<in>set (L fl sl). 5 \<le> fl \<longrightarrow> block_size m b < 2 * n) \<or>
    (\<exists>fl sl b. find_free t n = Inr (Some b) \<and> 5 \<le> fl \<and> fl < 30 \<and> sl < 32 \<and> b \<in> set (L fl sl) \<and> n \<le> block_size m b)"
proof -
  note t = tlsf_repD(1) [OF rep]
  obtain fl sl where c: "start_class n (fl, sl)" using start_class_ex [OF n] by (metis surj_pair)
  then have ms: "mapping_search n = Inr (fl, sl)" and fl: "5 \<le> fl" "fl < 30" and sl: "sl < 32"
    and fit: "n \<le> class_floor (fl, sl)" "class_floor (fl, sl) < 2 * n" by (auto simp: start_class_def)
  define sl_map where "sl_map = drop_bit sl (sl_bitmap t ! fl)"
  define fl_map where "fl_map = drop_bit (fl + 1) (fl_bitmap t)"
  have found: ?thesis if r: "find_free t n = Inr (Some (tl_lists t ! f ! s))" and f: "5 \<le> f" "f < 30"
    and b: "bit (sl_bitmap t ! f) s" and le: "class_le (fl, sl) (f, s)" for f s
  proof -
    have s: "s < 32" using bit_imp_le_length [OF b] by simp
    note h = head_listed [OF rep f(2) s b]
    have "n \<le> block_size m (tl_lists t ! f ! s)"
      using fit(1) class_floor_mono [OF le fl(1) sl] listed_size(1) [OF rep f(2) s f(1) h] by linarith
    with r f s h show ?thesis by blast
  qed
  show ?thesis
  proof (cases "sl_map = 0")
    case False
    let ?s = "sl + trailing_zeros32 sl_map"
    have b: "bit (sl_bitmap t ! fl) ?s" using bit_trailing_zeros32 [OF False] by (simp add: sl_map_def bit_simps)
    then have "?s < 32" using bit_imp_le_length [OF b] by simp
    then have "find_free t n = Inr (Some (tl_lists t ! fl ! ?s))"
      using ms False fl t by (simp add: find_free_def bitmapsD sl_map_def [symmetric] list_at_ok)
    then show ?thesis using fl b by (rule found) (simp add: class_le_def)
  next
    case True
    show ?thesis
    proof (cases "fl_map = 0")
      case False
      let ?f = "fl + (1 + trailing_zeros32 fl_map)"
      have "bit (fl_bitmap t) ?f" using bit_trailing_zeros32 [OF False] by (simp add: fl_map_def bit_simps)
      then have f: "?f < 30" "sl_bitmap t ! ?f \<noteq> 0" using bitmapsD(4) [OF t] by simp_all
      let ?s = "trailing_zeros32 (sl_bitmap t ! ?f)"
      have b: "bit (sl_bitmap t ! ?f) ?s" using bit_trailing_zeros32 [OF f(2)] .
      then have "?s < 32" using bit_imp_le_length [OF b] by simp
      then have "find_free t n = Inr (Some (tl_lists t ! ?f ! ?s))"
        using ms True False fl t f unfolding sl_map_def fl_map_def
        by (simp add: find_free_def bitmapsD list_at_ok Let_def)
      then show ?thesis using _ f(1) b by (rule found) (use fl in \<open>simp_all add: class_le_def\<close>)
    next
      case none: True
      have "find_free t n = Inr None"
        using ms True none fl t unfolding sl_map_def fl_map_def by (simp add: find_free_def bitmapsD)
      moreover have "block_size m b < 2 * n" if f: "f < 30" "s < 32" and b: "b \<in> set (L f s)" and f5: "5 \<le> f" for f s b
      proof -
        have h: "tl_lists t ! f ! s \<noteq> 0" using dll_head_zero [OF tlsf_repD(4) [OF rep f]] b by auto
        then have bt: "bit (sl_bitmap t ! f) s" using bitmapsD(5) [OF t f] by simp
        have "\<not> class_le (fl, sl) (f, s)"
        proof
          assume "class_le (fl, sl) (f, s)"
          then consider "fl < f" | "f = fl" "sl \<le> s" by (auto simp: class_le_def)
          then show False
          proof cases
            case 1
            have "sl_bitmap t ! f \<noteq> 0" using bt by auto
            then have "bit (fl_bitmap t) f" using bitmapsD(4) [OF t] f(1) by simp
            then have "bit fl_map (f - (fl + 1))" using 1 by (simp add: fl_map_def bit_simps)
            then show False using none by simp
          next
            case 2
            then have "bit sl_map (s - sl)" using bt by (simp add: sl_map_def bit_simps)
            then show False using True by simp
          qed
        qed
        with below_class [OF this f5 f(2) listed_size(2) [OF rep f f5 b]] fit(2) show ?thesis by linarith
      qed
      ultimately show ?thesis by blast
    qed
  qed
qed

subsection \<open>A new pool\<close>

lemma header_of_word:
  assumes "ld64 m b = s" and "4 dvd s"
  shows "block_size m b = s" and "\<not> is_free m b" and "\<not> prev_is_free m b"
proof -
  obtain k where k: "s = 4 * k" using assms(2) by (elim dvdE)
  have "\<not> bit s 0" "\<not> bit s 1" by (simp_all add: k bit_iff_odd)
  with assms(1) show "\<not> is_free m b" "\<not> prev_is_free m b" by (simp_all add: is_free_bit prev_is_free_bit)
  show "block_size m b = s"
    by (rule bit_eqI) (metis \<open>\<not> bit s 0\<close> \<open>\<not> bit s 1\<close> assms(1) bit_block_size)
qed

lemma write_block_header_agree: "agree_off {b..<b + 32} m (write_block_header b s m)"
  unfolding write_block_header_def by (intro agree_off_st agree_off_refl) auto

lemma write_block_header_word: "s \<le> u64_max \<Longrightarrow> ld64 (write_block_header b s m) b = s"
  by (simp add: write_block_header_def)

lemma rep_frame:
  assumes rep: "tlsf_rep m t L" and ag: "agree_off X m m'"
    and X: "\<And>x. x \<in> free_blocks L \<Longrightarrow> {x..<x + 32} \<inter> X = {}"
  shows "tlsf_rep m' t L"
proof -
  have "dll 24 16 m' 0 (tl_lists t ! fl ! sl) (L fl sl)" if f: "fl < 30" "sl < 32" for fl sl
  proof -
    have "ptr_cells 24 16 (set (L fl sl)) \<inter> X = {}"
    proof -
      have "{x + 24..<x + 24 + 8} \<inter> X = {} \<and> {x + 16..<x + 16 + 8} \<inter> X = {}" if "x \<in> set (L fl sl)" for x
      proof -
        have "{x..<x + 32} \<inter> X = {}" using X free_blocksI f that by blast
        moreover have "{x + 24..<x + 24 + 8} \<subseteq> {x..<x + 32}" "{x + 16..<x + 16 + 8} \<subseteq> {x..<x + 32}" by auto
        ultimately show ?thesis by blast
      qed
      then show ?thesis unfolding ptr_cells_def by blast
    qed
    from tl.dll_ptr_agree [OF ag this] show ?thesis using tlsf_repD(4) [OF rep f] by simp
  qed
  moreover have "in_class m' x (fl, sl)" if f: "fl < 30" "sl < 32" and x: "x \<in> set (L fl sl)" for fl sl x
  proof -
    have "{x..<x + 32} \<inter> X = {}" using X free_blocksI f x by blast
    moreover have "{x..<x + 8} \<subseteq> {x..<x + 32}" by auto
    ultimately have "{x..<x + 8} \<inter> X = {}" by blast
    from header_cong [OF ld_agree [OF ag this]] show ?thesis
      using tlsf_repD(6) [OF rep f x] by (simp add: in_class_def)
  qed
  ultimately show ?thesis using rep by (simp add: tlsf_rep_def)
qed

lemma add_pool_frame:
  assumes rep: "tlsf_rep m t L" and sz: "96 < sz" "4 dvd sz" and base: "base \<noteq> 0" "base + sz \<le> u64_max"
    and out: "\<And>x. x \<in> free_blocks L \<Longrightarrow> x + 32 \<le> base \<or> base + sz \<le> x"
    and cl: "mapping (sz - 64) = Inr (fl, sl)" "fl < 30" "sl < 32"
  obtains m' t' where "add_pool base sz (m, t) = Inr (m', t')"
    and "tlsf_rep m' t' (set_class fl sl (base # L fl sl) L)"
    and "block_size m' base = sz - 64" and "is_free m' base" and "\<not> prev_is_free m' base"
    and "block_size m' (base + sz - 32) = 0" and "\<not> is_free m' (base + sz - 32)"
    and "ld64 m' (base + sz - 32 + 8) = base" and "ld64 m' (base + 8) = 0"
    and "agree_off ({base..<base + 32} \<union> {base + sz - 32..<base + sz} \<union> ptr_cells 24 16 (set (L fl sl))) m m'"
proof -
  let ?e = "base + (sz - 32)"
  define m1 where "m1 = write_block_header ?e 0 m"
  define m2 where "m2 = write_block_header base (sz - 64) m1"
  define m3 where "m3 = st64 (?e + 8) base (set_prev_free base False m2)"
  have e: "base + 64 \<le> ?e" using sz by simp
  have pay: "sz - 64 \<le> u64_max" "4 dvd sz - 64" using base sz by auto
  have w2: "ld64 m2 base = sz - 64" unfolding m2_def by (rule write_block_header_word [OF pay(1)])
  have pf: "agree_off {base..<base + 8} m2 (set_prev_free base False m2)"
    by (simp add: set_prev_free_def agree_off_st)
  have b3: "block_size m3 base = sz - 64" "\<not> prev_is_free m3 base"
  proof -
    have "ld64 m3 base = ld64 (set_prev_free base False m2) base"
      unfolding m3_def by (rule ld_st_other) (use e in linarith)
    then have "block_size m3 base = block_size (set_prev_free base False m2) base"
      "prev_is_free m3 base = prev_is_free (set_prev_free base False m2) base"
      by (simp_all add: block_size_def prev_is_free_def)
    then show "block_size m3 base = sz - 64" "\<not> prev_is_free m3 base"
      using header_of_word(1) [OF w2 pay(2)] by (simp_all add: set_prev_free_header)
  qed
  have e1: "ld64 m1 ?e = 0" unfolding m1_def by (rule write_block_header_word) simp
  have "ld64 m3 ?e = 0"
  proof -
    have "ld64 m2 ?e = ld64 m1 ?e"
      unfolding m2_def by (rule ld_agree [OF write_block_header_agree]) (use e in auto)
    moreover have "ld64 (set_prev_free base False m2) ?e = ld64 m2 ?e"
      by (rule ld_agree [OF pf]) (use e in auto)
    ultimately show ?thesis using e1 by (simp add: m3_def)
  qed
  have l3: "ld64 m3 (base + 8) = 0"
  proof -
    have "ld64 m2 (base + 8) = 0" by (simp add: m2_def write_block_header_def)
    moreover have "ld64 (set_prev_free base False m2) (base + 8) = ld64 m2 (base + 8)"
      by (rule ld_agree [OF pf]) auto
    moreover have "ld64 m3 (base + 8) = ld64 (set_prev_free base False m2) (base + 8)"
      unfolding m3_def by (rule ld_st_other) (use e in linarith)
    ultimately show ?thesis by simp
  qed
  have ag3: "agree_off ({base..<base + 32} \<union> {?e..<?e + 32}) m m3"
  proof -
    have "agree_off ({base..<base + 32} \<union> {?e..<?e + 32}) m m1"
      unfolding m1_def by (rule agree_off_mono [OF write_block_header_agree]) auto
    moreover have "agree_off ({base..<base + 32} \<union> {?e..<?e + 32}) m1 m2"
      unfolding m2_def by (rule agree_off_mono [OF write_block_header_agree]) auto
    moreover have "agree_off ({base..<base + 32} \<union> {?e..<?e + 32}) m2 m3"
      unfolding m3_def by (rule agree_off_st [OF agree_off_mono [OF pf]]) auto
    ultimately show ?thesis by (meson agree_off_trans)
  qed
  have rep3: "tlsf_rep m3 t L"
  proof (rule rep_frame [OF rep ag3])
    show "{x..<x + 32} \<inter> ({base..<base + 32} \<union> {?e..<?e + 32}) = {}" if "x \<in> free_blocks L" for x
      using out [OF that] sz e by auto
  qed
  have new: "base \<notin> free_blocks L" using out [of base] sz by auto
  have S: "apart 32 (insert base (free_blocks L))"
    unfolding apart_def
  proof (intro ballI impI)
    fix x y
    assume xy: "x \<in> insert base (free_blocks L)" "y \<in> insert base (free_blocks L)" "x \<noteq> y"
    show "x + 32 \<le> y \<or> y + 32 \<le> x"
    proof (cases "x = base \<or> y = base")
      case True
      with xy out [of x] out [of y] sz show ?thesis by auto
    next
      case False
      with xy apartD [OF tlsf_repD(2) [OF rep]] show ?thesis by blast
    qed
  qed
  have lim: "base + 32 \<le> u64_max" using base sz by simp
  obtain m' t' where ins: "insert_free base (m3, t) = Inr (m', t')"
    "tlsf_rep m' t' (set_class fl sl (base # L fl sl) L)" "block_size m' base = block_size m3 base"
    "is_free m' base" "prev_is_free m' base = prev_is_free m3 base"
    "agree_off (ptr_cells 24 16 (insert base (set (L fl sl))) \<union> {base..<base + 8}) m3 m'"
    by (rule insert_free_ok [OF rep3 new S base(1) lim _ cl(2,3)]) (use cl(1) b3 in simp_all)
  have off: "{?e..<?e + 16} \<inter> (ptr_cells 24 16 (insert base (set (L fl sl))) \<union> {base..<base + 8}) = {}"
  proof -
    have "{?e..<?e + 16} \<inter> ({x + 24..<x + 24 + 8} \<union> {x + 16..<x + 16 + 8}) = {}" if "x \<in> insert base (set (L fl sl))" for x
    proof -
      have "x = base \<or> x + 32 \<le> base \<or> base + sz \<le> x" using that out free_blocksI cl(2,3) by blast
      then show ?thesis using e sz by auto
    qed
    then show ?thesis using e by (auto simp: ptr_cells_def)
  qed
  have se: "ld64 m' ?e = 0" "ld64 m' (?e + 8) = base"
  proof -
    have "{?e..<?e + 8} \<inter> (ptr_cells 24 16 (insert base (set (L fl sl))) \<union> {base..<base + 8}) = {}"
      "{?e + 8..<?e + 8 + 8} \<inter> (ptr_cells 24 16 (insert base (set (L fl sl))) \<union> {base..<base + 8}) = {}"
      using off by (auto simp: disjoint_iff)
    from ld_agree [OF ins(6) this(1)] ld_agree [OF ins(6) this(2)]
    show "ld64 m' ?e = 0" "ld64 m' (?e + 8) = base" using \<open>ld64 m3 ?e = 0\<close> base by (simp_all add: m3_def)
  qed
  have lb: "ld64 m' (base + 8) = 0"
  proof -
    have "{base + 8..<base + 8 + 8} \<inter> ({x + 24..<x + 24 + 8} \<union> {x + 16..<x + 16 + 8}) = {}"
      if "x \<in> insert base (set (L fl sl))" for x
    proof -
      have "x = base \<or> x + 32 \<le> base \<or> base + sz \<le> x" using that out free_blocksI cl(2,3) by blast
      then show ?thesis using e sz by auto
    qed
    then have "{base + 8..<base + 8 + 8} \<inter> (ptr_cells 24 16 (insert base (set (L fl sl))) \<union> {base..<base + 8}) = {}"
      by (auto simp: ptr_cells_def)
    from ld_agree [OF ins(6) this] l3 show ?thesis by simp
  qed
  have run: "add_pool base sz (m, t) = Inr (m', t')"
    using sz base ins(1)
    by (simp add: add_pool_def HEADER_def BLOCK_MIN_def Let_def m3_def m2_def m1_def)
  have eq: "base + sz - 32 = ?e" and ee: "?e + 32 = base + sz" using sz by simp_all
  have ag: "agree_off ({base..<base + 32} \<union> {?e..<base + sz} \<union> ptr_cells 24 16 (set (L fl sl))) m m'"
  proof (rule agree_off_trans [OF agree_off_mono [OF ag3] agree_off_mono [OF ins(6)]])
    have "ptr_cells 24 16 (insert base (set (L fl sl))) \<subseteq> {base..<base + 32} \<union> ptr_cells 24 16 (set (L fl sl))"
      by (auto simp: ptr_cells_def)
    then show "ptr_cells 24 16 (insert base (set (L fl sl))) \<union> {base..<base + 8}
      \<subseteq> {base..<base + 32} \<union> {?e..<base + sz} \<union> ptr_cells 24 16 (set (L fl sl))" by auto
  qed (use ee in auto)
  show thesis
    by (rule that [OF run ins(2) _ ins(4) _ _ _ _ lb ag [folded eq], unfolded eq])
      (use ins(3,5) b3 se header_of_word [OF se(1)] in simp_all)
qed

lemma add_pool_ok:
  assumes rep: "tlsf_rep m t L" and sz: "96 < sz" "4 dvd sz" and base: "base \<noteq> 0" "base + sz \<le> u64_max"
    and out: "\<And>x. x \<in> free_blocks L \<Longrightarrow> x + 32 \<le> base \<or> base + sz \<le> x"
    and cl: "mapping (sz - 64) = Inr (fl, sl)" "fl < 30" "sl < 32"
  obtains m' t' where "add_pool base sz (m, t) = Inr (m', t')"
    and "tlsf_rep m' t' (set_class fl sl (base # L fl sl) L)"
    and "block_size m' base = sz - 64" and "is_free m' base" and "\<not> prev_is_free m' base"
    and "block_size m' (base + sz - 32) = 0" and "\<not> is_free m' (base + sz - 32)"
    and "ld64 m' (base + sz - 32 + 8) = base" and "ld64 m' (base + 8) = 0"
    and "agree_off ({base..<base + sz} \<union> ptr_cells 24 16 (set (L fl sl))) m m'"
proof -
  obtain m' t' where r: "add_pool base sz (m, t) = Inr (m', t')"
    "tlsf_rep m' t' (set_class fl sl (base # L fl sl) L)" "block_size m' base = sz - 64" "is_free m' base"
    "\<not> prev_is_free m' base" "block_size m' (base + sz - 32) = 0" "\<not> is_free m' (base + sz - 32)"
    "ld64 m' (base + sz - 32 + 8) = base" "ld64 m' (base + 8) = 0"
    "agree_off ({base..<base + 32} \<union> {base + sz - 32..<base + sz} \<union> ptr_cells 24 16 (set (L fl sl))) m m'"
    by (rule add_pool_frame [OF rep sz base out cl])
  show thesis by (rule that [OF r(1-9) agree_off_mono [OF r(10)]]) (use sz in auto)
qed

end
