(* ===== verification/Tlsf_Heap.thy ===== *)
theory Tlsf_Heap
  imports Tlsf_Correct
begin

text \<open>
  The heap as a sequence of blocks. \<open>phys\<close> follows the blocks of a pool from a start address to the
  sentinel: sizes and back links agree, and \<open>PREV_PHYS_BIT\<close> is only set after a free block (the code
  does not set it after every free block: \<open>add_pool\<close> leaves it clear in the sentinel). \<open>heap_ok\<close> adds that the free lists hold exactly the
  free blocks of the sequence. \<open>tlsf_alloc\<close> keeps \<open>heap_ok\<close>, takes one free block that is large
  enough and leaves every allocated block and its contents alone.
\<close>

subsection \<open>Headers\<close>

definition hdr :: "mem \<Rightarrow> nat \<Rightarrow> nat \<times> bool \<times> bool \<times> nat" where
  "hdr m c = (block_size m c, is_free m c, prev_is_free m c, ld64 m (c + 8))"

lemma hdr_frame:
  assumes "agree_off X m m'" and "{c..<c + 16} \<inter> X = {}"
  shows "hdr m' c = hdr m c"
proof -
  have "{c..<c + 8} \<inter> X = {}" "{c + 8..<c + 8 + 8} \<inter> X = {}" using assms(2) by (auto simp: disjoint_iff)
  from ld_agree [OF assms(1) this(1)] ld_agree [OF assms(1) this(2)] show ?thesis
    by (simp add: hdr_def block_size_def is_free_def prev_is_free_def)
qed

lemma and_le: "x \<le> u64_max \<Longrightarrow> x AND y \<le> u64_max"
proof -
  assume "x \<le> u64_max"
  then have x: "take_bit 64 x = x" by (simp add: take_bit_nat_eq_self u64_max_def)
  then have "bit x n \<Longrightarrow> n < 64" for n by (metis bit_take_bit_iff)
  then have "take_bit 64 (x AND y) = x AND y" by (auto simp: bit_eq_iff bit_take_bit_iff bit_and_iff)
  then have "x AND y < 2 ^ 64" by (metis take_bit_nat_less_exp)
  then show ?thesis by (simp add: u64_max_def)
qed

lemma set_size_header:
  assumes "4 dvd s" and "s \<le> u64_max"
  shows "block_size (set_size b s m) b = s" and "is_free (set_size b s m) b = is_free m b"
    and "prev_is_free (set_size b s m) b = prev_is_free m b" and "agree_off {b..<b + 8} m (set_size b s m)"
proof -
  obtain k where k: "s = 4 * k" using assms(1) by (elim dvdE)
  have s01: "\<not> bit s 0" "\<not> bit s 1" by (simp_all add: k bit_iff_odd)
  have le: "ld64 m b AND (FREE_BIT OR PREV_PHYS_BIT) \<le> u64_max" by (rule and_le [OF ld64_le])
  have w: "bit (ld64 (set_size b s m) b) n \<longleftrightarrow> bit s n \<or> (n = 0 \<or> n = 1) \<and> bit (ld64 m b) n" for n
    using or_le [OF le assms(2)]
    by (auto simp: set_size_def bit_or_iff bit_and_iff FREE_BIT_def PREV_PHYS_BIT_def nat_bit_small)
  show "block_size (set_size b s m) b = s"
    by (rule bit_eqI) (metis s01 bit_block_size w)
  show "is_free (set_size b s m) b = is_free m b" "prev_is_free (set_size b s m) b = prev_is_free m b"
    using s01 by (auto simp: is_free_bit prev_is_free_bit w)
  show "agree_off {b..<b + 8} m (set_size b s m)" by (simp add: set_size_def agree_off_st)
qed

lemma set_prev_free_agree: "agree_off {b..<b + 8} m (set_prev_free b f m)"
  by (simp add: set_prev_free_def agree_off_st)

lemma hdr_set_prev_free: "hdr (set_prev_free b f m) b = (block_size m b, is_free m b, f, ld64 m (b + 8))"
proof -
  have "ld64 (set_prev_free b f m) (b + 8) = ld64 m (b + 8)"
    by (rule ld_agree [OF set_prev_free_agree]) auto
  then show ?thesis by (simp add: hdr_def set_prev_free_header)
qed

subsection \<open>The sequence of blocks\<close>

fun pseg :: "mem \<Rightarrow> bool \<times> nat \<times> nat \<Rightarrow> nat list \<Rightarrow> bool \<times> nat \<times> nat \<Rightarrow> bool" where
  "pseg m s [] s' \<longleftrightarrow> s' = s"
| "pseg m (pf, p, a) (b # bs) s' \<longleftrightarrow>
     a = b \<and> 32 \<le> block_size m b \<and> 8 dvd block_size m b \<and> block_size m b < 2 ^ 30 \<and>
     (prev_is_free m b \<longrightarrow> pf) \<and> ld64 m (b + 8) = p \<and> pseg m (is_free m b, b, b + 32 + block_size m b) bs s'"

definition phys :: "mem \<Rightarrow> bool \<Rightarrow> nat \<Rightarrow> nat \<Rightarrow> nat list \<Rightarrow> nat \<Rightarrow> bool" where
  "phys m pf p a bs e \<longleftrightarrow> (\<exists>pf' p'. pseg m (pf, p, a) bs (pf', p', e) \<and>
     block_size m e = 0 \<and> \<not> is_free m e \<and> (prev_is_free m e \<longrightarrow> pf') \<and> ld64 m (e + 8) = p')"

lemma phys_Nil: "phys m pf p a [] e \<longleftrightarrow> 
  a = e \<and> block_size m e = 0 \<and> \<not> is_free m e \<and> (prev_is_free m e \<longrightarrow> pf) \<and> ld64 m (e + 8) = p"
  by (auto simp: phys_def)

lemma phys_Cons:
  "phys m pf p a (b # bs) e \<longleftrightarrow>
     a = b \<and> 32 \<le> block_size m b \<and> 8 dvd block_size m b \<and> block_size m b < 2 ^ 30 \<and>
     (prev_is_free m b \<longrightarrow> pf) \<and> ld64 m (b + 8) = p \<and> phys m (is_free m b) b (b + 32 + block_size m b) bs e"
  by (auto simp: phys_def)

lemma pseg_append: "pseg m s (xs @ ys) s' \<longleftrightarrow> (\<exists>s1. pseg m s xs s1 \<and> pseg m s1 ys s')"
  by (induction m s xs s' rule: pseg.induct) auto

lemma phys_append:
  "phys m pf p a (xs @ ys) e \<longleftrightarrow> (\<exists>pf' p' a'. pseg m (pf, p, a) xs (pf', p', a') \<and> phys m pf' p' a' ys e)"
  unfolding phys_def pseg_append split_paired_Ex by blast

lemma pseg_cong:
  "(\<And>c. c \<in> set bs \<Longrightarrow> hdr m' c = hdr m c) \<Longrightarrow> pseg m' s bs s' = pseg m s bs s'"
proof (induction bs arbitrary: s)
  case (Cons b bs)
  have "hdr m' b = hdr m b" by (rule Cons.prems) simp
  moreover have "pseg m' s1 bs s' = pseg m s1 bs s'" for s1 by (rule Cons.IH, rule Cons.prems) simp
  ultimately show ?case by (cases s) (simp add: hdr_def)
qed simp

lemma phys_cong:
  "(\<And>c. c \<in> set (bs @ [e]) \<Longrightarrow> hdr m' c = hdr m c) \<Longrightarrow> phys m' pf p a bs e = phys m pf p a bs e"
proof -
  assume c: "\<And>c. c \<in> set (bs @ [e]) \<Longrightarrow> hdr m' c = hdr m c"
  then have "hdr m' e = hdr m e" by simp
  moreover have "pseg m' s bs s' = pseg m s bs s'" for s s' by (rule pseg_cong) (simp add: c)
  ultimately show ?thesis by (simp add: phys_def hdr_def)
qed

lemma phys_flag: "phys m pf p a bs e \<Longrightarrow> (pf \<longrightarrow> pf') \<Longrightarrow> phys m pf' p a bs e"
  by (cases bs) (auto simp: phys_Nil phys_Cons)

lemma pseg_range:
  assumes "pseg m (pf, p, a) bs (pf', p', e)"
  shows "a \<le> e \<and> (\<forall>c\<in>set bs. a \<le> c \<and> c + 32 + block_size m c \<le> e)"
  using assms
proof (induction bs arbitrary: pf p a)
  case (Cons b bs)
  then show ?case by force
qed simp

lemma phys_range: "phys m pf p a bs e \<Longrightarrow> a \<le> e \<and> (\<forall>c\<in>set bs. a \<le> c \<and> c + 32 + block_size m c \<le> e)"
  unfolding phys_def using pseg_range by blast

lemma phys_min: "phys m pf p a bs e \<Longrightarrow> c \<in> set bs \<Longrightarrow> 32 \<le> block_size m c \<and> 8 dvd block_size m c \<and> block_size m c < 2 ^ 30"
  by (induction bs arbitrary: pf p a) (auto simp: phys_Cons)

lemma phys_head:
  assumes ph: "phys m pf p a ys e" and h: "hdr m' a = (block_size m a, is_free m a, pf', p')"
    and o: "\<And>c. c \<in> set (ys @ [e]) \<Longrightarrow> c \<noteq> a \<Longrightarrow> hdr m' c = hdr m c"
  shows "phys m' pf' p' a ys e"
proof (cases ys)
  case Nil
  then show ?thesis using ph h by (auto simp: phys_Nil hdr_def)
next
  case (Cons b bs)
  have b: "a = b" and rest: "phys m (is_free m b) b (b + 32 + block_size m b) bs e"
    using ph Cons by (auto simp: phys_Cons)
  have "hdr m' c = hdr m c" if "c \<in> set (bs @ [e])" for c
  proof (rule o)
    show "c \<in> set (ys @ [e])" using that Cons by auto
    have "b + 32 \<le> c" using phys_range [OF rest] that by fastforce
    then show "c \<noteq> a" using b by simp
  qed
  from phys_cong [OF this] rest have "phys m' (is_free m b) b (b + 32 + block_size m b) bs e" by simp
  then show ?thesis using ph h b Cons by (auto simp: phys_Cons hdr_def)
qed

text \<open>The blocks around one block of the sequence.\<close>

lemma phys_split:
  assumes "phys m pf p a (xs @ b # ys) e"
  shows "a \<le> b" and "b + 32 + block_size m b \<le> e"
    and "c \<in> set xs \<Longrightarrow> c + 32 + block_size m c \<le> b" and "c \<in> set (ys @ [e]) \<Longrightarrow> b + 32 + block_size m b \<le> c"
proof -
  obtain pf' p' where 1: "pseg m (pf, p, a) xs (pf', p', b)" and 2: "phys m pf' p' b (b # ys) e"
    using assms by (auto simp: phys_append phys_Cons)
  then have 3: "phys m (is_free m b) b (b + 32 + block_size m b) ys e" by (simp add: phys_Cons)
  show "a \<le> b" "c \<in> set xs \<Longrightarrow> c + 32 + block_size m c \<le> b" using pseg_range [OF 1] by auto
  show "b + 32 + block_size m b \<le> e" "c \<in> set (ys @ [e]) \<Longrightarrow> b + 32 + block_size m b \<le> c"
    using phys_range [OF 3] by auto
qed

lemma phys_apart: "phys m pf p a bs e \<Longrightarrow> apart 32 (set (bs @ [e]))"
proof (induction bs arbitrary: pf p a)
  case Nil
  then show ?case by (simp add: apart_def)
next
  case (Cons b bs)
  then have "phys m (is_free m b) b (b + 32 + block_size m b) bs e" by (simp add: phys_Cons)
  from Cons.IH [OF this] phys_range [OF this] show ?case by (force simp: apart_def)
qed

subsection \<open>Changes of single headers\<close>

lemma touch_apart:
  assumes "apart 32 S" and "a \<in> S" and "Y \<subseteq> S"
  shows "{a..<a + 16} \<inter> ptr_cells 24 16 Y = {}"
proof -
  have "{a..<a + 16} \<inter> ({y + 24..<y + 24 + 8} \<union> {y + 16..<y + 16 + 8}) = {}" if "y \<in> Y" for y
  proof (cases "y = a")
    case False
    then have "a + 32 \<le> y \<or> y + 32 \<le> a" using apartD [OF assms(1,2)] assms(3) that by auto
    then show ?thesis by auto
  qed auto
  then show ?thesis by (auto simp: ptr_cells_def)
qed

lemma headers_apart: "apart 32 S \<Longrightarrow> a \<in> S \<Longrightarrow> c \<in> S \<Longrightarrow> c \<noteq> a \<Longrightarrow> {c..<c + 16} \<inter> {a..<a + 16} = {}"
  using apartD [of 32 S c a] by auto

lemma hdr_touch:
  "apart 32 S \<Longrightarrow> a \<in> S \<Longrightarrow> c \<in> S \<Longrightarrow> c \<noteq> a \<Longrightarrow> agree_off {a..<a + 16} m m' \<Longrightarrow> hdr m' c = hdr m c"
  using hdr_frame headers_apart by blast

lemma hdr_links:
  assumes "apart 32 S" and "b \<in> S" and "c \<in> S" and "c \<noteq> b" and "Y \<subseteq> S"
    and "agree_off (ptr_cells 24 16 Y \<union> {b..<b + 8}) m m'"
  shows "hdr m' c = hdr m c"
proof (rule hdr_frame [OF assms(6)])
  show "{c..<c + 16} \<inter> (ptr_cells 24 16 Y \<union> {b..<b + 8}) = {}"
    using touch_apart [OF assms(1,3,5)] headers_apart [OF assms(1-4)] by (auto simp: disjoint_iff)
qed

lemma link_back:
  assumes "apart 32 S" and "b \<in> S" and "Y \<subseteq> S" and "agree_off (ptr_cells 24 16 Y \<union> {b..<b + 8}) m m'"
  shows "ld64 m' (b + 8) = ld64 m (b + 8)"
proof (rule ld_agree [OF assms(4)])
  show "{b + 8..<b + 8 + 8} \<inter> (ptr_cells 24 16 Y \<union> {b..<b + 8}) = {}"
    using touch_apart [OF assms(1-3)] by (auto simp: disjoint_iff)
qed

lemma rep_touch:
  assumes rep: "tlsf_rep m t L" and S: "apart 32 S" "free_blocks L \<subseteq> S" "a \<in> S"
    and ag: "agree_off {a..<a + 16} m m'"
    and a: "a \<in> free_blocks L \<Longrightarrow> block_size m' a = block_size m a \<and> is_free m' a = is_free m a"
  shows "tlsf_rep m' t L"
proof -
  have "dll 24 16 m' 0 (tl_lists t ! fl ! sl) (L fl sl)" if f: "fl < 30" "sl < 32" for fl sl
  proof -
    have "set (L fl sl) \<subseteq> S" using free_blocksI f S(2) by blast
    then have "ptr_cells 24 16 (set (L fl sl)) \<inter> {a..<a + 16} = {}" using touch_apart [OF S(1,3)] by blast
    from tl.dll_ptr_agree [OF ag this] show ?thesis using tlsf_repD(4) [OF rep f] by simp
  qed
  moreover have "in_class m' x (fl, sl)" if f: "fl < 30" "sl < 32" and x: "x \<in> set (L fl sl)" for fl sl x
  proof -
    have xf: "x \<in> free_blocks L" using free_blocksI f x by blast
    have "block_size m' x = block_size m x \<and> is_free m' x = is_free m x"
    proof (cases "x = a")
      case False
      then have "hdr m' x = hdr m x" using hdr_touch [OF S(1,3) _ _ ag] xf S(2) by blast
      then show ?thesis by (simp add: hdr_def)
    qed (use a xf in blast)
    then show ?thesis using tlsf_repD(6) [OF rep f x] by (simp add: in_class_def)
  qed
  ultimately show ?thesis using rep by (simp add: tlsf_rep_def)
qed

lemma mem_free_blocks: "x \<in> free_blocks L \<longleftrightarrow> (\<exists>f s. f < 30 \<and> s < 32 \<and> x \<in> set (L f s))"
  by (auto simp: free_blocks_def)

lemma mem_set_class:
  assumes "fl < 30" and "sl < 32"
  shows "x \<in> free_blocks (set_class fl sl xs L) \<longleftrightarrow>
    x \<in> set xs \<or> (\<exists>f s. f < 30 \<and> s < 32 \<and> (f, s) \<noteq> (fl, sl) \<and> x \<in> set (L f s))" (is "?l \<longleftrightarrow> ?r")
proof
  assume ?l
  then obtain f s where "f < 30" "s < 32" "x \<in> set (set_class fl sl xs L f s)" unfolding mem_free_blocks by blast
  then show ?r by (cases "(f, s) = (fl, sl)") (auto simp: set_class_def split: if_splits)
next
  assume ?r
  then show ?l
  proof (elim disjE exE conjE)
    assume "x \<in> set xs"
    then have "x \<in> set (set_class fl sl xs L fl sl)" by (simp add: set_class_def)
    then show ?l using assms unfolding mem_free_blocks by blast
  next
    fix f s
    assume "f < 30" "s < 32" "(f, s) \<noteq> (fl, sl)" "x \<in> set (L f s)"
    moreover from this have "x \<in> set (set_class fl sl xs L f s)" by (auto simp: set_class_def)
    ultimately show ?l unfolding mem_free_blocks by blast
  qed
qed

lemma free_blocks_remove:
  assumes rep: "tlsf_rep m t L" and fl: "fl < 30" "sl < 32" and b: "b \<in> set (L fl sl)"
  shows "free_blocks (set_class fl sl (remove1 b (L fl sl)) L) = free_blocks L - {b}"
proof (rule set_eqI)
  fix x
  have r: "set (remove1 b (L fl sl)) = set (L fl sl) - {b}" using tlsf_repD(5) [OF rep fl] by simp
  have o: "b \<notin> set (L f s)" if "f < 30" "s < 32" "(f, s) \<noteq> (fl, sl)" for f s
    using class_disjoint [OF rep fl that(1,2) b] that(3) by auto
  show "x \<in> free_blocks (set_class fl sl (remove1 b (L fl sl)) L) \<longleftrightarrow> x \<in> free_blocks L - {b}"
  proof
    assume "x \<in> free_blocks (set_class fl sl (remove1 b (L fl sl)) L)"
    then show "x \<in> free_blocks L - {b}"
      unfolding mem_set_class [OF fl] r using o fl mem_free_blocks [of x L] by blast
  next
    assume "x \<in> free_blocks L - {b}"
    then obtain f s where "f < 30" "s < 32" "x \<in> set (L f s)" "x \<noteq> b" by (auto simp: mem_free_blocks)
    then show "x \<in> free_blocks (set_class fl sl (remove1 b (L fl sl)) L)"
      unfolding mem_set_class [OF fl] r by (cases "(f, s) = (fl, sl)") auto
  qed
qed

lemma free_blocks_insert:
  assumes fl: "fl < 30" "sl < 32"
  shows "free_blocks (set_class fl sl (b # L fl sl) L) = insert b (free_blocks L)"
proof (rule set_eqI)
  fix x
  show "x \<in> free_blocks (set_class fl sl (b # L fl sl) L) \<longleftrightarrow> x \<in> insert b (free_blocks L)"
    unfolding mem_set_class [OF fl] using fl mem_free_blocks [of x L] by auto
qed

subsection \<open>The heap\<close>

definition heap_ok :: "mem \<Rightarrow> tlsf \<Rightarrow> classes \<Rightarrow> nat \<Rightarrow> nat list \<Rightarrow> nat \<Rightarrow> bool" where
  "heap_ok m t L base bs e \<longleftrightarrow>
     tlsf_rep m t L \<and> phys m False 0 base bs e \<and> base \<noteq> 0 \<and> e + 32 \<le> u64_max \<and>
     free_blocks L = {b \<in> set bs. is_free m b}"

text \<open>The bytes an allocation may write: headers, and the block it takes.\<close>

definition header_bytes :: "nat list \<Rightarrow> nat set" where
  "header_bytes cs = (\<Union>c\<in>set cs. {c..<c + 32})"

lemma ptr_cells_header_bytes: "Y \<subseteq> set cs \<Longrightarrow> ptr_cells 24 16 Y \<subseteq> header_bytes cs"
proof
  fix x
  assume Y: "Y \<subseteq> set cs" and "x \<in> ptr_cells 24 16 Y"
  then obtain y where "y \<in> Y" "y \<le> x" "x < y + 32" by (auto simp: ptr_cells_def)
  then show "x \<in> header_bytes cs" using Y unfolding header_bytes_def by auto
qed

lemma payload_kept:
  assumes ph: "phys m False 0 base bs e" and ag: "agree_off (header_bytes (bs @ [e]) \<union> {b..<b + 32 + block_size m b}) m m'"
    and b: "b \<in> set bs" and c: "c \<in> set bs" "c \<noteq> b" and x: "c + 32 \<le> x" "x < c + 32 + block_size m c"
  shows "m' x = m x"
proof -
  have far: "x < d \<or> d + 32 \<le> x" if d: "d \<in> set (bs @ [e])" for d
  proof (cases "d = c")
    case False
    obtain xs ys where bs: "bs = xs @ c # ys" using c(1) by (metis split_list)
    note sp = phys_split [OF ph [unfolded bs]]
    have "d \<in> set xs \<or> d \<in> set (ys @ [e])" using d False bs by auto
    with sp(3,4) [of d] x show ?thesis by auto
  qed (use x in simp)
  obtain xs ys where bs: "bs = xs @ b # ys" using b by (metis split_list)
  note sp = phys_split [OF ph [unfolded bs]]
  have "c \<in> set xs \<or> c \<in> set (ys @ [e])" using c bs by auto
  with sp(3,4) [of c] x have "x < b \<or> b + 32 + block_size m b \<le> x" by auto
  with far have "x \<notin> header_bytes (bs @ [e]) \<union> {b..<b + 32 + block_size m b}"
    unfolding header_bytes_def by fastforce
  with ag show ?thesis by (simp add: agree_off_def)
qed

end
