(* ===== verification/Tlsf_Alloc.thy ===== *)
theory Tlsf_Alloc
  imports Tlsf_Heap
begin

text \<open>
  Allocation from the heap. A block \<open>b\<close> is taken out of its class (\<open>taken\<close>), its surplus becomes a
  new free block when it is large enough for one (\<open>split_taken\<close>), and the flag of the block after it
  is cleared. \<open>S\<close> is the set of all headers, which never overlap.
\<close>

definition alloc_size :: "nat \<Rightarrow> nat" where
  "alloc_size sz = (max sz 32 + 7) div 8 * 8"

lemma alloc_size_facts: "32 \<le> alloc_size sz" "8 dvd alloc_size sz" "4 dvd alloc_size sz"
proof -
  show "8 dvd alloc_size sz" by (simp add: alloc_size_def)
  then show "4 dvd alloc_size sz" by (rule dvd_trans [rotated]) simp
  have "4 \<le> (max sz 32 + 7) div 8" by (simp add: less_eq_div_iff_mult_less_eq)
  then show "32 \<le> alloc_size sz" unfolding alloc_size_def by linarith
qed

text \<open>A state in which the block \<open>b\<close> of the sequence is in no list and marked as allocated.\<close>

definition taken :: "mem \<Rightarrow> tlsf \<Rightarrow> classes \<Rightarrow> nat \<Rightarrow> nat list \<Rightarrow> nat \<Rightarrow> nat list \<Rightarrow> nat \<Rightarrow> mem \<Rightarrow> bool" where
  "taken m t L base xs b ys e m0 \<longleftrightarrow>
     tlsf_rep m t L \<and> base \<noteq> 0 \<and> e + 32 \<le> u64_max \<and>
     free_blocks L = {c \<in> set (xs @ ys). is_free m0 c} \<and>
     phys m0 False 0 base (xs @ b # ys) e \<and> is_free m0 b \<and>
     (\<forall>c \<in> set (xs @ ys @ [e]). hdr m c = hdr m0 c) \<and>
     hdr m b = (block_size m0 b, False, prev_is_free m0 b, ld64 m0 (b + 8)) \<and>
     agree_off (header_bytes ((xs @ b # ys) @ [e])) m0 m"

lemma take_block:
  assumes ok: "heap_ok m t L base bs e" and fl: "fl < 30" "sl < 32" and b: "b \<in> set (L fl sl)"
  obtains m' t' L' xs ys where "remove_free b (m, t) = Inr (m', t')" and "bs = xs @ b # ys"
    and "taken m' t' L' base xs b ys e m"
proof -
  have rep: "tlsf_rep m t L" and ph: "phys m False 0 base bs e" and fb: "free_blocks L = {b \<in> set bs. is_free m b}"
    and lim: "base \<noteq> 0" "e + 32 \<le> u64_max" using ok by (simp_all add: heap_ok_def)
  have bf: "b \<in> free_blocks L" using free_blocksI fl b by blast
  then have "b \<in> set bs" and free: "is_free m b" using fb by auto
  then obtain xs ys where bs: "bs = xs @ b # ys" by (metis split_list)
  define S where "S = set (bs @ [e])"
  have S: "apart 32 S" unfolding S_def by (rule phys_apart [OF ph])
  have fS: "free_blocks L \<subseteq> S" using fb by (auto simp: S_def)
  have LS: "set (L fl sl) \<subseteq> S" using fS free_blocksI fl by blast
  obtain m' t' where run: "remove_free b (m, t) = Inr (m', t')"
    and rep': "tlsf_rep m' t' (set_class fl sl (remove1 b (L fl sl)) L)"
    and bh: "block_size m' b = block_size m b" "\<not> is_free m' b" "prev_is_free m' b = prev_is_free m b"
    and ag: "agree_off (ptr_cells 24 16 (set (L fl sl)) \<union> {b..<b + 8}) m m'"
    by (rule remove_free_ok [OF rep fl b])
  note sp = phys_split [OF ph [unfolded bs]]
  have ne: "c \<noteq> b" if "c \<in> set (xs @ ys @ [e])" for c
    using that sp(3,4) [of c] by (auto dest: sp(3,4))
  have other: "hdr m' c = hdr m c" if c: "c \<in> set (xs @ ys @ [e])" for c
    by (rule hdr_links [OF S _ _ ne [OF c] LS ag]) (use c bs bf fS in \<open>auto simp: S_def\<close>)
  have hb: "hdr m' b = (block_size m b, False, prev_is_free m b, ld64 m (b + 8))"
    using bh link_back [OF S _ LS ag] bf fS by (auto simp: hdr_def)
  have fb': "free_blocks (set_class fl sl (remove1 b (L fl sl)) L) = {c \<in> set (xs @ ys). is_free m c}"
    using free_blocks_remove [OF rep fl b] fb bs ne by auto
  have "ptr_cells 24 16 (set (L fl sl)) \<subseteq> header_bytes (bs @ [e])"
    by (rule ptr_cells_header_bytes) (use LS in \<open>simp add: S_def\<close>)
  moreover have "{b..<b + 8} \<subseteq> header_bytes (bs @ [e])" unfolding bs header_bytes_def by auto
  ultimately have "agree_off (header_bytes (bs @ [e])) m m'" by (intro agree_off_mono [OF ag]) auto
  then have "taken m' t' (set_class fl sl (remove1 b (L fl sl)) L) base xs b ys e m"
    using rep' lim fb' ph bs free other hb unfolding taken_def by (metis append_Cons append_assoc)
  with run bs show thesis using that by blast
qed

text \<open>What \<open>tlsf_alloc\<close> does after the removal.\<close>

definition result_ok :: "mem \<Rightarrow> mem \<Rightarrow> tlsf \<Rightarrow> nat \<Rightarrow> nat list \<Rightarrow> nat \<Rightarrow> nat \<Rightarrow> nat \<Rightarrow> bool" where
  "result_ok m0 m t base bs e b n \<longleftrightarrow>
     (\<exists>L bs'. heap_ok m t L base bs' e \<and> set bs \<subseteq> set bs' \<and> n \<le> block_size m0 b \<and> n \<le> block_size m b \<and> block_size m b < n + 64 \<and>
        \<not> is_free m b \<and> (\<forall>c \<in> set bs. c \<noteq> b \<longrightarrow> block_size m c = block_size m0 c \<and> is_free m c = is_free m0 c) \<and>
        (\<forall>c \<in> set bs' - set bs. is_free m c) \<and>
        agree_off (header_bytes (bs @ [e]) \<union> {b + 32 + n..<b + 32 + block_size m0 b}) m0 m)"

lemma keep_whole:
  assumes tk: "taken m t L base xs b ys e m0" and n: "n \<le> block_size m0 b" "block_size m0 b < n + 64"
  shows "next_phys m b = Inr (b + 32 + block_size m0 b)"
    and "result_ok m0 (set_prev_free (b + 32 + block_size m0 b) False m) t base (xs @ b # ys) e b n"
proof -
  let ?a = "b + 32 + block_size m0 b" and ?bs = "xs @ b # ys"
  define S where "S = set (?bs @ [e])"
  have rep: "tlsf_rep m t L" and ph: "phys m0 False 0 base ?bs e" and lim: "base \<noteq> 0" "e + 32 \<le> u64_max"
    and fb: "free_blocks L = {c \<in> set (xs @ ys). is_free m0 c}" and free: "is_free m0 b"
    and other: "\<And>c. c \<in> set (xs @ ys @ [e]) \<Longrightarrow> hdr m c = hdr m0 c"
    and hb: "hdr m b = (block_size m0 b, False, prev_is_free m0 b, ld64 m0 (b + 8))"
    and ag: "agree_off (header_bytes (?bs @ [e])) m0 m"
    using tk unfolding taken_def by blast+
  note sp = phys_split [OF ph]
  have S: "apart 32 S" unfolding S_def by (rule phys_apart [OF ph])
  have ab: "?a \<le> e" using sp(2) .
  show "next_phys m b = Inr ?a"
    using hb lim ab by (simp add: next_phys_def HEADER_def hdr_def res_elims)
  let ?m = "set_prev_free ?a False m"
  obtain pf p where p1: "pseg m0 (False, 0, base) xs (pf, p, b)" and p2: "phys m0 pf p b (b # ys) e"
    using ph by (auto simp: phys_append phys_Cons)
  have pb: "prev_is_free m0 b \<longrightarrow> pf" "ld64 m0 (b + 8) = p" "32 \<le> block_size m0 b" "8 dvd block_size m0 b" "block_size m0 b < 2 ^ 30"
    and p3: "phys m0 True b ?a ys e" using p2 free by (simp_all add: phys_Cons)
  have aS: "?a \<in> set (ys @ [e])" using p3 by (cases ys) (auto simp: phys_Nil phys_Cons)
  then have a: "?a \<in> S" by (auto simp: S_def)
  have touch: "agree_off {?a..<?a + 16} m ?m" by (rule agree_off_mono [OF set_prev_free_agree]) auto
  have b_ne: "b \<noteq> ?a" by simp
  have far: "hdr ?m c = hdr m c" if "c \<in> S" "c \<noteq> ?a" for c
    by (rule hdr_touch [OF S a that touch])
  have ha: "hdr ?m ?a = (block_size m0 ?a, is_free m0 ?a, False, b)"
  proof -
    have "hdr m ?a = hdr m0 ?a" using other aS by auto
    moreover have "ld64 m0 (?a + 8) = b" using p3 by (cases ys) (auto simp: phys_Nil phys_Cons hdr_def)
    ultimately show ?thesis using hdr_set_prev_free [of ?a False m] by (simp add: hdr_def)
  qed
  have tail: "phys ?m False b ?a ys e"
  proof (rule phys_head [OF p3 ha])
    show "hdr ?m c = hdr m0 c" if c: "c \<in> set (ys @ [e])" "c \<noteq> ?a" for c
    proof -
      have "c \<in> S" using c by (auto simp: S_def)
      then show ?thesis using far c(2) other [of c] c(1) by auto
    qed
  qed
  have mb: "hdr ?m b = (block_size m0 b, False, prev_is_free m0 b, p)"
    using far [of b] b_ne hb pb by (simp add: S_def)
  have seg: "pseg ?m (False, 0, base) xs (pf, p, b)"
  proof -
    have "hdr ?m c = hdr m0 c" if "c \<in> set xs" for c
    proof -
      have "c \<noteq> ?a" using sp(3) [OF that] by auto
      then show ?thesis using far [of c] other [of c] that by (simp add: S_def)
    qed
    from pseg_cong [OF this] p1 show ?thesis by simp
  qed
  have phys': "phys ?m False 0 base ?bs e"
    using seg tail mb pb by (auto simp: phys_append phys_Cons hdr_def)
  have fS: "free_blocks L \<subseteq> S" using fb by (auto simp: S_def)
  have rep': "tlsf_rep ?m t L"
    by (rule rep_touch [OF rep S fS a touch]) (simp add: set_prev_free_header)
  have same: "block_size ?m c = block_size m0 c \<and> is_free ?m c = is_free m0 c" if c: "c \<in> set (xs @ ys)" for c
  proof (cases "c = ?a")
    case True
    then show ?thesis using ha by (simp add: hdr_def)
  next
    case False
    then have "hdr ?m c = hdr m0 c" using far [of c] other [of c] c by (auto simp: S_def)
    then show ?thesis by (simp add: hdr_def)
  qed
  have fb': "free_blocks L = {c \<in> set ?bs. is_free ?m c}" using fb same mb by (auto simp: hdr_def)
  have heap: "heap_ok ?m t L base ?bs e" using rep' phys' lim fb' by (simp add: heap_ok_def)
  have "{?a..<?a + 8} \<subseteq> header_bytes (?bs @ [e])" using aS unfolding header_bytes_def by fastforce
  then have "agree_off (header_bytes (?bs @ [e]) \<union> {b + 32 + n..<?a}) m0 ?m"
    by (intro agree_off_trans [OF agree_off_mono [OF ag]] agree_off_mono [OF set_prev_free_agree]) auto
  then show "result_ok m0 ?m t base ?bs e b n"
    unfolding result_ok_def using heap n mb same by (intro exI [of _ L] exI [of _ ?bs]) (auto simp: hdr_def)
qed

lemma small_class:
  assumes "32 \<le> r" and "r < 2 ^ 30"
  obtains fl sl where "mapping r = Inr (fl, sl)" and "fl < 30" and "sl < 32"
proof -
  have "r \<le> u64_max" using assms(2) by (simp add: u64_max_def)
  then obtain fl sl where m: "mapping r = Inr (fl, sl)" "sl < 32" "2 ^ fl \<le> r" by (rule mapping_ok [OF assms(1)])
  have "(2::nat) ^ fl < 2 ^ 30" using m(3) assms(2) by linarith
  then have "fl < 30" by (rule power_less_imp_less_exp [rotated]) simp
  with m that show thesis by blast
qed

lemma split_taken:
  assumes tk: "taken m t L base xs b ys e m0" and n: "32 \<le> n" "8 dvd n" "n + 64 \<le> block_size m0 b"
  obtains m1 t1 where "tlsf_split b n (block_size m0 b - n) (m, t) = Inr (m1, t1)"
    and "next_phys m1 b = Inr (b + 32 + n)"
    and "result_ok m0 (set_prev_free (b + 32 + n) False m1) t1 base (xs @ b # ys) e b n"
proof -
  define x r where "x = b + 32 + n" and "r = block_size m0 b - n - 32"
  let ?a = "b + 32 + block_size m0 b" and ?bs = "xs @ b # ys"
  have xa: "x + 32 + r = ?a" using n by (simp add: x_def r_def)
  define S where "S = insert x (set (?bs @ [e]))"
  have rep: "tlsf_rep m t L" and ph: "phys m0 False 0 base ?bs e" and lim: "base \<noteq> 0" "e + 32 \<le> u64_max"
    and fb: "free_blocks L = {c \<in> set (xs @ ys). is_free m0 c}" and free: "is_free m0 b"
    and other: "\<And>c. c \<in> set (xs @ ys @ [e]) \<Longrightarrow> hdr m c = hdr m0 c"
    and hb: "hdr m b = (block_size m0 b, False, prev_is_free m0 b, ld64 m0 (b + 8))"
    and ag: "agree_off (header_bytes (?bs @ [e])) m0 m"
    using tk unfolding taken_def by blast+
  note sp = phys_split [OF ph]
  obtain pf p where p1: "pseg m0 (False, 0, base) xs (pf, p, b)" and p2: "phys m0 pf p b (b # ys) e"
    using ph by (auto simp: phys_append phys_Cons)
  have pb: "prev_is_free m0 b \<longrightarrow> pf" "ld64 m0 (b + 8) = p" "8 dvd block_size m0 b" "block_size m0 b < 2 ^ 30"
    and p3: "phys m0 True b ?a ys e" using p2 free by (simp_all add: phys_Cons)
  have r: "32 \<le> r" "8 dvd r" "r < 2 ^ 30" and n30: "n < 2 ^ 30"
    using n pb(3,4) by (auto simp: r_def intro!: dvd_diff_nat)
  have d4: "4 dvd n" "4 dvd r" using n(2) r(2) by (auto intro: dvd_trans [of 4 8])
  have ab: "?a \<le> e" using sp(2) .
  have bx: "b + 32 \<le> x" "b < x" by (simp_all add: x_def)
  have S: "apart 32 S"
    unfolding apart_def
  proof (intro ballI impI)
    fix c d
    assume cd: "c \<in> S" "d \<in> S" "c \<noteq> d"
    have ax: "c + 32 \<le> x \<or> x + 32 \<le> c" if "c \<in> set (?bs @ [e])" for c
    proof -
      have "c = b \<or> c \<in> set xs \<or> c \<in> set (ys @ [e])" using that by auto
      then show ?thesis using sp(3,4) [of c] xa bx by auto
    qed
    show "c + 32 \<le> d \<or> d + 32 \<le> c"
    proof (cases "c = x \<or> d = x")
      case True
      then show ?thesis using ax [of c] ax [of d] cd by (auto simp: S_def)
    next
      case False
      then show ?thesis using apartD [OF phys_apart [OF ph]] cd by (auto simp: S_def)
    qed
  qed
  have aS: "?a \<in> set (ys @ [e])" using p3 by (cases ys) (auto simp: phys_Nil phys_Cons)
  have mem: "b \<in> S" "x \<in> S" "?a \<in> S" "\<And>c. c \<in> set (xs @ ys @ [e]) \<Longrightarrow> c \<in> S" using aS by (auto simp: S_def)
  have ne: "c \<noteq> b \<and> c \<noteq> x" if "c \<in> set (xs @ ys @ [e])" for c
  proof -
    have "c \<in> set xs \<or> c \<in> set (ys @ [e])" using that by auto
    then show ?thesis using sp(3,4) [of c] xa bx by auto
  qed
  have fS: "free_blocks L \<subseteq> S" and xnot: "x \<notin> free_blocks L" and bnot: "b \<notin> free_blocks L"
    using fb mem ne by auto
  have lims: "n \<le> u64_max" "r \<le> u64_max" "b \<le> u64_max" "x \<le> u64_max" "x + 32 \<le> u64_max" "b + 32 \<le> u64_max" "?a \<le> u64_max"
    using lim ab xa bx n30 r(3) by (simp_all add: u64_max_def)
  \<comment> \<open>the sizes and the back link of the new block\<close>
  define m1 where "m1 = set_size b n m"
  define m2 where "m2 = set_prev_free x False (st64 (x + 8) b (set_size x r m1))"
  have t1: "agree_off {b..<b + 16} m m1"
    unfolding m1_def by (rule agree_off_mono [OF set_size_header(4) [OF d4(1) lims(1)]]) auto
  have t2: "agree_off {x..<x + 16} m1 m2"
    unfolding m2_def
    by (intro agree_off_trans [OF _ agree_off_mono [OF set_prev_free_agree]]
        agree_off_st agree_off_mono [OF set_size_header(4) [OF d4(2) lims(2)]]) auto
  have b1: "hdr m1 b = (n, False, prev_is_free m0 b, p)"
  proof -
    have "ld64 m1 (b + 8) = ld64 m (b + 8)"
      unfolding m1_def by (rule ld_agree [OF set_size_header(4) [OF d4(1) lims(1)]]) auto
    then show ?thesis using hb pb set_size_header [OF d4(1) lims(1), of b m] by (simp add: hdr_def m1_def)
  qed
  have x2: "block_size m2 x = r" "prev_is_free m2 x = False" "ld64 m2 (x + 8) = b"
  proof -
    have "block_size (st64 (x + 8) b (set_size x r m1)) x = r"
      using set_size_header(1) [OF d4(2) lims(2), of x m1] by (simp add: block_size_def)
    then show "block_size m2 x = r" "prev_is_free m2 x = False" "ld64 m2 (x + 8) = b"
      using hdr_set_prev_free [of x False "st64 (x + 8) b (set_size x r m1)"] lims(3) by (simp_all add: hdr_def m2_def)
  qed
  have h2: "hdr m2 c = hdr m0 c" if c: "c \<in> set (xs @ ys @ [e])" for c
    using hdr_touch [OF S mem(2) mem(4) [OF c] _ t2] hdr_touch [OF S mem(1) mem(4) [OF c] _ t1] other [OF c] ne [OF c] by simp
  have b2: "hdr m2 b = (n, False, prev_is_free m0 b, p)" using hdr_touch [OF S mem(2,1) _ t2] b1 bx by simp
  have rep2: "tlsf_rep m2 t L"
    by (rule rep_touch [OF rep_touch [OF rep S fS mem(1) t1] S fS mem(2) t2]) (use xnot bnot in blast)+
  \<comment> \<open>its insertion\<close>
  obtain fl sl where cl: "mapping r = Inr (fl, sl)" "fl < 30" "sl < 32" by (rule small_class [OF r(1,3)])
  have ins_S: "apart 32 (insert x (free_blocks L))" by (rule apart_subset [OF S]) (use fS mem in auto)
  have x0: "x \<noteq> 0" by (simp add: x_def)
  obtain m3 t3 where ins: "insert_free x (m2, t) = Inr (m3, t3)"
    "tlsf_rep m3 t3 (set_class fl sl (x # L fl sl) L)" "block_size m3 x = block_size m2 x" "is_free m3 x"
    "prev_is_free m3 x = prev_is_free m2 x"
    "agree_off (ptr_cells 24 16 (insert x (set (L fl sl))) \<union> {x..<x + 8}) m2 m3"
    by (rule insert_free_ok [OF rep2 xnot ins_S x0 lims(5) _ cl(2,3)]) (use cl(1) x2(1) in simp_all)
  let ?L = "set_class fl sl (x # L fl sl) L"
  have LS: "insert x (set (L fl sl)) \<subseteq> S" using fS mem(2) free_blocksI cl(2,3) by blast
  have h3: "hdr m3 c = hdr m2 c" if "c \<in> S" "c \<noteq> x" for c by (rule hdr_links [OF S mem(2) that LS ins(6)])
  have x3: "hdr m3 x = (r, True, False, b)" using ins(3-5) x2 link_back [OF S mem(2) LS ins(6)] by (simp add: hdr_def)
  \<comment> \<open>the back link of the block after it, and the flag\<close>
  define m4 where "m4 = st64 (?a + 8) x m3"
  define m5 where "m5 = set_prev_free x False m4"
  have t4: "agree_off {?a..<?a + 16} m3 m4" unfolding m4_def by (rule agree_off_st) auto
  have t5: "agree_off {x..<x + 16} m4 m5" unfolding m5_def by (rule agree_off_mono [OF set_prev_free_agree]) auto
  have ax: "?a \<noteq> x" "?a \<noteq> b" using ne [of ?a] aS by auto
  have h4: "hdr m4 c = hdr m3 c" if "c \<in> S" "c \<noteq> ?a" for c by (rule hdr_touch [OF S mem(3) that t4])
  have h5: "hdr m5 c = hdr m4 c" if "c \<in> S" "c \<noteq> x" for c by (rule hdr_touch [OF S mem(2) that t5])
  have a3: "hdr m3 ?a = hdr m0 ?a" using h3 [OF mem(3) ax(1)] h2 [of ?a] aS by auto
  have word4: "ld64 m4 ?a = ld64 m3 ?a" unfolding m4_def by (rule ld_st_other) simp
  have a4: "hdr m4 ?a = (block_size m0 ?a, is_free m0 ?a, prev_is_free m0 ?a, x)"
    using a3 word4 lims(4) by (simp add: hdr_def m4_def block_size_def is_free_def prev_is_free_def)
  have final: "hdr m5 b = (n, False, prev_is_free m0 b, p)" "hdr m5 x = (r, True, False, b)"
    "hdr m5 ?a = (block_size m0 ?a, is_free m0 ?a, prev_is_free m0 ?a, x)"
    "\<And>c. c \<in> set (xs @ ys @ [e]) \<Longrightarrow> c \<noteq> ?a \<Longrightarrow> hdr m5 c = hdr m0 c"
  proof -
    show "hdr m5 b = (n, False, prev_is_free m0 b, p)" using h5 [OF mem(1)] h4 [OF mem(1)] h3 [OF mem(1)] b2 bx ax by simp
    have "hdr m4 x = (r, True, False, b)" using h4 [OF mem(2)] x3 ax by simp
    then show "hdr m5 x = (r, True, False, b)" using hdr_set_prev_free [of x False m4] by (simp add: hdr_def m5_def)
    show "hdr m5 ?a = (block_size m0 ?a, is_free m0 ?a, prev_is_free m0 ?a, x)" using h5 [OF mem(3) ax(1)] a4 by simp
    show "hdr m5 c = hdr m0 c" if "c \<in> set (xs @ ys @ [e])" "c \<noteq> ?a" for c
      using h5 [OF mem(4) [OF that(1)]] h4 [OF mem(4) [OF that(1)] that(2)] h3 [OF mem(4) [OF that(1)]] h2 [OF that(1)]
        ne [OF that(1)] by simp
  qed
  have fb3: "free_blocks ?L = insert x (free_blocks L)" by (rule free_blocks_insert [OF cl(2,3)])
  have fS3: "free_blocks ?L \<subseteq> S" using fb3 fS mem(2) by auto
  have rep4: "tlsf_rep m4 t3 ?L"
    by (rule rep_touch [OF ins(2) S fS3 mem(3) t4]) (use a4 a3 in \<open>simp add: hdr_def\<close>)
  have rep5: "tlsf_rep m5 t3 ?L"
    by (rule rep_touch [OF rep4 S fS3 mem(2) t5]) (simp add: m5_def set_prev_free_header)
  let ?bs' = "xs @ b # x # ys"
  have tail: "phys m5 True x ?a ys e"
  proof (rule phys_flag [OF phys_head [OF p3 final(3)]])
    show "hdr m5 c = hdr m0 c" if "c \<in> set (ys @ [e])" "c \<noteq> ?a" for c using final(4) [of c] that by auto
  qed simp
  have seg: "pseg m5 (False, 0, base) xs (pf, p, b)"
  proof -
    have "hdr m5 c = hdr m0 c" if "c \<in> set xs" for c
    proof (rule final(4))
      show "c \<noteq> ?a" using sp(3) [OF that] by auto
    qed (use that in simp)
    from pseg_cong [OF this] p1 show ?thesis by simp
  qed
  have phys': "phys m5 False 0 base ?bs' e"
  proof -
    have h: "block_size m5 b = n" "is_free m5 b = False" "prev_is_free m5 b = prev_is_free m0 b" "ld64 m5 (b + 8) = p"
      "block_size m5 x = r" "is_free m5 x = True" "prev_is_free m5 x = False" "ld64 m5 (x + 8) = b"
      using final(1,2) by (simp_all add: hdr_def)
    have nx: "b + 32 + n = x" by (simp add: x_def)
    have "phys m5 True x (x + 32 + r) ys e" using tail unfolding xa .
    then have "phys m5 pf p b (b # x # ys) e" unfolding phys_Cons h nx using n(1,2) r n30 pb(1) by simp
    with seg show ?thesis unfolding phys_append by blast
  qed
  have same: "block_size m5 c = block_size m0 c \<and> is_free m5 c = is_free m0 c" if c: "c \<in> set (xs @ ys)" for c
    using final(3) final(4) [of c] c by (cases "c = ?a") (auto simp: hdr_def)
  have fb5: "free_blocks ?L = {c \<in> set ?bs'. is_free m5 c}"
    using fb3 fb same final(1,2) by (auto simp: hdr_def)
  have heap: "heap_ok m5 t3 ?L base ?bs' e" using rep5 phys' lim fb5 by (simp add: heap_ok_def)
  have area: "agree_off (header_bytes (?bs @ [e]) \<union> {b + 32 + n..<?a}) m0 m5"
  proof -
    let ?H = "header_bytes (?bs @ [e]) \<union> {b + 32 + n..<?a}"
    have xin: "{x..<x + 32} \<subseteq> {b + 32 + n..<?a}" using xa by (auto simp: x_def)
    have "ptr_cells 24 16 (insert x (set (L fl sl))) \<subseteq> ?H"
    proof -
      have "set (L fl sl) \<subseteq> set (?bs @ [e])" using fb free_blocksI cl(2,3) by fastforce
      then have "ptr_cells 24 16 (set (L fl sl)) \<subseteq> header_bytes (?bs @ [e])" by (rule ptr_cells_header_bytes)
      moreover have "ptr_cells 24 16 {x} \<subseteq> {x..<x + 32}" by (auto simp: ptr_cells_def)
      ultimately show ?thesis using xin by (auto simp: ptr_cells_def)
    qed
    moreover have "{?a..<?a + 16} \<subseteq> ?H" using aS unfolding header_bytes_def by fastforce
    moreover have "{b..<b + 16} \<subseteq> ?H" unfolding header_bytes_def by auto
    moreover have "{x..<x + 16} \<subseteq> ?H" "{x..<x + 8} \<subseteq> ?H" "header_bytes (?bs @ [e]) \<subseteq> ?H" using xin by auto
    ultimately show ?thesis
      using ag t1 t2 ins(6) t4 t5 by (meson agree_off_mono agree_off_trans Un_least)
  qed
  have run: "tlsf_split b n (block_size m0 b - n) (m, t) = Inr (m4, t3)" and nx: "next_phys m4 b = Inr x"
  proof -
    have "next_phys m1 b = Inr x" using b1 lims by (simp add: next_phys_def HEADER_def hdr_def x_def)
    moreover have "next_phys m3 x = Inr ?a" using x3 lims xa by (simp add: next_phys_def HEADER_def hdr_def)
    moreover have "block_size m0 b - n - HEADER = r" by (simp add: r_def HEADER_def)
    ultimately show "tlsf_split b n (block_size m0 b - n) (m, t) = Inr (m4, t3)"
      using ins(1) by (simp add: tlsf_split_def Let_def m1_def m2_def m4_def)
    have "hdr m4 b = (n, False, prev_is_free m0 b, p)" using h4 [OF mem(1)] h3 [OF mem(1)] b2 bx ax by simp
    then show "next_phys m4 b = Inr x" using lims by (simp add: next_phys_def HEADER_def hdr_def x_def)
  qed
  have "result_ok m0 m5 t3 base ?bs e b n"
    unfolding result_ok_def using heap final(1,2) same area n(3)
    by (intro exI [of _ ?L] exI [of _ ?bs']) (auto simp: hdr_def)
  then show thesis using that run nx by (simp add: m5_def x_def)
qed

subsection \<open>A fresh heap\<close>

lemma pool_heap:
  assumes sz: "96 < sz" "8 dvd sz" "sz < 2 ^ 30" and base: "base \<noteq> 0" "base + sz \<le> u64_max"
  obtains m' t' L where "add_pool base sz (m, tlsf_new) = Inr (m', t')"
    and "heap_ok m' t' L base [base] (base + sz - 32)"
    and "is_free m' base" and "block_size m' base = sz - 64" and "agree_off ({base..<base + 32} \<union> {base + sz - 32..<base + sz}) m m'"
proof -
  have pay: "32 \<le> sz - 64" "sz - 64 < 2 ^ 30" "8 dvd sz - 64" and d4: "4 dvd sz"
    using sz by (auto intro!: dvd_diff_nat intro: dvd_trans [of 4 8])
  obtain fl sl where cl: "mapping (sz - 64) = Inr (fl, sl)" "fl < 30" "sl < 32" by (rule small_class [OF pay(1,2)])
  obtain m' t' where ap: "add_pool base sz (m, tlsf_new) = Inr (m', t')"
    "tlsf_rep m' t' (set_class fl sl (base # []) (\<lambda>_ _. []))"
    "block_size m' base = sz - 64" "is_free m' base" "\<not> prev_is_free m' base"
    "block_size m' (base + sz - 32) = 0" "\<not> is_free m' (base + sz - 32)"
    "ld64 m' (base + sz - 32 + 8) = base" "ld64 m' (base + 8) = 0"
    "agree_off ({base..<base + 32} \<union> {base + sz - 32..<base + sz} \<union> ptr_cells 24 16 (set [])) m m'"
    by (rule add_pool_frame [OF tlsf_new_rep sz(1) d4 base _ cl]) (simp add: free_blocks_def)
  have fb: "free_blocks (set_class fl sl (base # []) (\<lambda>_ _. [])) = {base}"
    using free_blocks_insert [OF cl(2,3), of base "\<lambda>_ _. []"] by (simp add: free_blocks_def)
  have nx: "base + 32 + (sz - 64) = base + sz - 32" using sz(1) by simp
  have "phys m' False 0 base [base] (base + sz - 32)"
    unfolding phys_Cons ap(3) nx using ap(4-9) pay by (simp add: phys_Nil)
  then have "heap_ok m' t' (set_class fl sl (base # []) (\<lambda>_ _. [])) base [base] (base + sz - 32)"
    using ap(2,4) fb base sz(1) by (auto simp: heap_ok_def)
  moreover have "agree_off ({base..<base + 32} \<union> {base + sz - 32..<base + sz}) m m'" using ap(10) by (simp add: ptr_cells_def)
  ultimately show thesis using that ap(1,3,4) by blast
qed

end
