(* ===== verification/Tlsf_Dealloc.thy ===== *)
theory Tlsf_Dealloc
  imports Tlsf_Alloc
begin

text \<open>
  Deallocation. While a block is being freed the sequence of blocks has one loose place: the block
  \<open>b\<close> is allocated and in no list, and the back link and the flag of the block after it are not yet
  right (\<open>loose\<close>). Merging with a neighbour (\<open>loose_take\<close>, \<open>absorb\<close>) keeps that state, and the final
  insertion (\<open>loose_insert\<close>) ends it, except that the code never writes the back link.
\<close>

definition block_ok :: "mem \<Rightarrow> nat \<Rightarrow> bool" where
  "block_ok m b \<longleftrightarrow> 32 \<le> block_size m b \<and> 8 dvd block_size m b \<and> block_size m b < 2 ^ 30"

definition after :: "mem \<Rightarrow> nat \<Rightarrow> nat" where
  "after m b = b + 32 + block_size m b"

definition loose :: "mem \<Rightarrow> tlsf \<Rightarrow> classes \<Rightarrow> nat \<Rightarrow> nat list \<Rightarrow> nat \<Rightarrow> nat list \<Rightarrow> nat \<Rightarrow> bool" where
  "loose m t L base xs b ys e \<longleftrightarrow>
     tlsf_rep m t L \<and> base \<noteq> 0 \<and> e + 32 \<le> u64_max \<and>
     free_blocks L = {c \<in> set (xs @ ys). is_free m c} \<and> \<not> is_free m b \<and> block_ok m b \<and>
     (\<exists>pf. pseg m (False, 0, base) xs (pf, ld64 m (b + 8), b) \<and> (prev_is_free m b \<longrightarrow> pf)) \<and>
     (\<exists>q. phys m True q (after m b) ys e)"

lemma apart_chain:
  "pseg m (pf, p, a) xs (pf', p', b) \<Longrightarrow> apart 32 T \<Longrightarrow> \<forall>c\<in>T. b \<le> c \<Longrightarrow> apart 32 (set xs \<union> T)"
proof (induction xs arbitrary: pf p a)
  case (Cons c cs)
  then have c: "a = c" and rest: "pseg m (is_free m c, c, c + 32 + block_size m c) cs (pf', p', b)" by simp_all
  note r = pseg_range [OF rest]
  have "c + 32 \<le> d" if "d \<in> set cs \<union> T" for d using r Cons.prems(3) that by fastforce
  with Cons.IH [OF rest Cons.prems(2,3)] show ?case by (auto simp: apart_def)
qed simp

lemma phys_keep:
  "phys m pf p a bs e \<Longrightarrow> (\<And>c. c \<in> set (bs @ [e]) \<Longrightarrow> hdr m' c = hdr m c) \<Longrightarrow> phys m' pf p a bs e"
  using phys_cong [of bs e m' m] by blast

text \<open>The geometry of a loose sequence.\<close>

lemma loose_geometry:
  assumes "loose m t L base xs b ys e"
  shows "c \<in> set xs \<Longrightarrow> c + 32 + block_size m c \<le> b" and "c \<in> set (ys @ [e]) \<Longrightarrow> after m b \<le> c"
    and "base \<le> b" and "b + 32 + block_size m b \<le> e" and "after m b \<in> set (ys @ [e])"
    and "apart 32 (set (xs @ b # ys @ [e]))" and "free_blocks L \<subseteq> set (xs @ ys)"
    and "after m b \<le> u64_max" and "c \<in> set (xs @ ys @ [e]) \<Longrightarrow> c \<noteq> b"
proof -
  obtain pf q where 1: "pseg m (False, 0, base) xs (pf, ld64 m (b + 8), b)" and 2: "phys m True q (after m b) ys e"
    using assms by (auto simp: loose_def)
  note r1 = pseg_range [OF 1] and r2 = phys_range [OF 2]
  show g1: "c + 32 + block_size m c \<le> b" if "c \<in> set xs" for c using r1 that by blast
  show g2: "after m b \<le> c" if "c \<in> set (ys @ [e])" for c using r2 that by auto
  show "base \<le> b" "b + 32 + block_size m b \<le> e" using r1 r2 by (simp_all add: after_def)
  then show "after m b \<le> u64_max" using assms by (simp add: loose_def after_def)
  show "after m b \<in> set (ys @ [e])" using 2 by (cases ys) (auto simp: phys_Nil phys_Cons)
  show "c \<noteq> b" if "c \<in> set (xs @ ys @ [e])" for c
    using that g1 [of c] g2 [of c] by (fastforce simp: after_def)
  have "b + 32 \<le> d" if "d \<in> set (ys @ [e])" for d using g2 [OF that] by (simp add: after_def)
  then have "apart 32 (insert b (set (ys @ [e])))" "\<forall>c\<in>insert b (set (ys @ [e])). b \<le> c"
    using phys_apart [OF 2] by (force simp: apart_def)+
  from apart_chain [OF 1 this] show "apart 32 (set (xs @ b # ys @ [e]))"
    by (rule apart_subset) auto
  show "free_blocks L \<subseteq> set (xs @ ys)" using assms by (auto simp: loose_def)
qed

lemma header_bytesI: "c \<in> set cs \<Longrightarrow> X \<subseteq> {c..<c + 32} \<Longrightarrow> X \<subseteq> header_bytes cs"
  by (auto simp: header_bytes_def)

subsection \<open>Taking a block out of its list\<close>

lemma loose_take:
  assumes lo: "loose m t L base xs b ys e" and d: "d \<in> free_blocks L"
  obtains m' t' L' where "remove_free d (m, t) = Inr (m', t')" and "tlsf_rep m' t' L'"
    and "free_blocks L' = free_blocks L - {d}"
    and "hdr m' d = (block_size m d, False, prev_is_free m d, ld64 m (d + 8))"
    and "\<forall>c\<in>set (xs @ b # ys @ [e]). c \<noteq> d \<longrightarrow> hdr m' c = hdr m c"
    and "agree_off (header_bytes (xs @ b # ys @ [e])) m m'"
proof -
  let ?S = "set (xs @ b # ys @ [e])"
  note g = loose_geometry [OF lo]
  have rep: "tlsf_rep m t L" using lo by (simp add: loose_def)
  obtain fl sl where f: "fl < 30" "sl < 32" "d \<in> set (L fl sl)" using d by (auto simp: mem_free_blocks)
  have fS: "free_blocks L \<subseteq> ?S" using g(7) by auto
  have LS: "set (L fl sl) \<subseteq> ?S" using fS free_blocksI f(1,2) by blast
  have dS: "d \<in> ?S" using fS d by blast
  obtain m' t' where r: "remove_free d (m, t) = Inr (m', t')" "tlsf_rep m' t' (set_class fl sl (remove1 d (L fl sl)) L)"
    "block_size m' d = block_size m d" "\<not> is_free m' d" "prev_is_free m' d = prev_is_free m d"
    "agree_off (ptr_cells 24 16 (set (L fl sl)) \<union> {d..<d + 8}) m m'"
    by (rule remove_free_ok [OF rep f])
  show thesis
  proof (rule that [OF r(1,2) free_blocks_remove [OF rep f]])
    show "hdr m' d = (block_size m d, False, prev_is_free m d, ld64 m (d + 8))"
      using r(3-5) link_back [OF g(6) dS LS r(6)] by (simp add: hdr_def)
    have "hdr m' c = hdr m c" if "c \<in> ?S" "c \<noteq> d" for c by (rule hdr_links [OF g(6) dS that LS r(6)])
    then show "\<forall>c\<in>?S. c \<noteq> d \<longrightarrow> hdr m' c = hdr m c" by blast
    have "ptr_cells 24 16 (set (L fl sl)) \<subseteq> header_bytes (xs @ b # ys @ [e])" by (rule ptr_cells_header_bytes [OF LS])
    moreover have "{d..<d + 8} \<subseteq> header_bytes (xs @ b # ys @ [e])" by (rule header_bytesI [OF dS]) auto
    ultimately show "agree_off (header_bytes (xs @ b # ys @ [e])) m m'" by (intro agree_off_mono [OF r(6)]) auto
  qed
qed

subsection \<open>Joining two allocated blocks\<close>

lemma absorb:
  assumes rep: "tlsf_rep m t L" and lim: "base \<noteq> 0" "e + 32 \<le> u64_max"
    and fb: "free_blocks L = {c \<in> set (xs @ ys). is_free m c}" and nf: "\<not> is_free m p"
    and ok: "block_ok m p" "block_ok m b" and b: "b = after m p"
    and seg: "pseg m (False, 0, base) xs (pf, ld64 m (p + 8), p)" "prev_is_free m p \<longrightarrow> pf"
    and rest: "phys m True q (after m b) ys e" and sum: "n = block_size m p + 32 + block_size m b" "n < 2 ^ 30"
  shows "loose (set_size p n m) t L base xs p ys e" and "block_size (set_size p n m) p = n"
    and "\<And>c. c \<in> set (xs @ ys @ [e]) \<Longrightarrow> hdr (set_size p n m) c = hdr m c"
    and "agree_off {p..<p + 8} m (set_size p n m)"
proof -
  let ?m = "set_size p n m" and ?S = "set (xs @ p # ys @ [e])"
  have n: "8 dvd n" "4 dvd n" "32 \<le> n" "n \<le> u64_max"
    using ok sum by (auto simp: block_ok_def u64_max_def intro!: dvd_add intro: dvd_trans [of 4 8])
  note ss = set_size_header [OF n(2,4), of p m]
  show sz: "block_size ?m p = n" and ag: "agree_off {p..<p + 8} m ?m" using ss by simp_all
  have ap: "after m b = p + 32 + n" using b sum(1) by (simp add: after_def)
  have far: "p + 32 + n \<le> c" if "c \<in> set (ys @ [e])" for c using phys_range [OF rest] that ap by auto
  have near: "c + 32 + block_size m c \<le> p" if "c \<in> set xs" for c using pseg_range [OF seg(1)] that by blast
  have "p + 32 \<le> c" if "c \<in> set (ys @ [e])" for c using far [OF that] by simp
  then have "apart 32 (insert p (set (ys @ [e])))" "\<forall>c\<in>insert p (set (ys @ [e])). p \<le> c"
    using phys_apart [OF rest] by (force simp: apart_def)+
  from apart_chain [OF seg(1) this] have S: "apart 32 ?S" by (rule apart_subset) auto
  have ne: "c \<noteq> p" if "c \<in> set (xs @ ys @ [e])" for c
    using that near [of c] far [of c] by fastforce
  have touch: "agree_off {p..<p + 16} m ?m" by (rule agree_off_mono [OF ag]) auto
  show other: "hdr ?m c = hdr m c" if "c \<in> set (xs @ ys @ [e])" for c
    by (rule hdr_touch [OF S _ _ ne [OF that] touch]) (use that in auto)
  have pS: "p \<in> ?S" and fS: "free_blocks L \<subseteq> ?S" and pfree: "p \<notin> free_blocks L" using fb ne by auto
  have rep': "tlsf_rep ?m t L" by (rule rep_touch [OF rep S fS pS touch]) (use pfree in blast)
  have link: "ld64 ?m (p + 8) = ld64 m (p + 8)" by (rule ld_agree [OF ag]) auto
  have "pseg ?m (False, 0, base) xs (pf, ld64 m (p + 8), p)"
    using seg(1) pseg_cong [of xs ?m m] other by simp
  moreover have "phys ?m True q (after ?m p) ys e"
  proof -
    have "after ?m p = after m b" using ap sz by (simp add: after_def)
    show ?thesis unfolding \<open>after ?m p = after m b\<close> by (rule phys_keep [OF rest]) (rule other, auto)
  qed
  moreover have "free_blocks L = {c \<in> set (xs @ ys). is_free ?m c}"
  proof -
    have "is_free ?m c = is_free m c" if "c \<in> set (xs @ ys)" for c using other [of c] that by (auto simp: hdr_def)
    then show ?thesis using fb by auto
  qed
  ultimately show "loose ?m t L base xs p ys e"
    using rep' lim nf ss sz n sum(2) seg(2) link by (auto simp: loose_def block_ok_def)
qed

subsection \<open>The two merges\<close>

lemma merge_next:
  assumes lo: "loose m t L base xs b ys e" and free: "is_free m (after m b)" and room: "e \<le> base + 2 ^ 30"
  obtains m1 t1 L1 ys' n where "ys = after m b # ys'" and "remove_free (after m b) (m, t) = Inr (m1, t1)"
    and "n = block_size m1 b + 32 + block_size m1 (after m b)" and "n \<le> e"
    and "loose (set_size b n m1) t1 L1 base xs b ys' e"
    and "after (set_size b n m1) b = after m (after m b)"
    and "\<forall>c\<in>set (xs @ ys' @ [e]). hdr (set_size b n m1) c = hdr m c"
    and "agree_off (header_bytes (xs @ b # ys @ [e])) m (set_size b n m1)"
proof -
  let ?a = "after m b"
  note g = loose_geometry [OF lo]
  obtain q pf where ph: "phys m True q ?a ys e" and lim: "base \<noteq> 0" "e + 32 \<le> u64_max"
    and fb: "free_blocks L = {c \<in> set (xs @ ys). is_free m c}" and okb: "block_ok m b" "\<not> is_free m b"
    and seg: "pseg m (False, 0, base) xs (pf, ld64 m (b + 8), b)" "prev_is_free m b \<longrightarrow> pf"
    using lo by (auto simp: loose_def)
  obtain ys' where ys: "ys = ?a # ys'" using ph free by (cases ys) (auto simp: phys_Nil phys_Cons)
  have p2: "phys m True ?a (after m ?a) ys' e" and oka: "block_ok m ?a"
    using ph free by (auto simp: ys phys_Cons block_ok_def after_def)
  have ain: "?a \<in> free_blocks L" using fb free by (simp add: ys)
  obtain m1 t1 L1 where r: "remove_free ?a (m, t) = Inr (m1, t1)" "tlsf_rep m1 t1 L1"
    "free_blocks L1 = free_blocks L - {?a}" "hdr m1 ?a = (block_size m ?a, False, prev_is_free m ?a, ld64 m (?a + 8))"
    "\<forall>c\<in>set (xs @ b # ys @ [e]). c \<noteq> ?a \<longrightarrow> hdr m1 c = hdr m c"
    "agree_off (header_bytes (xs @ b # ys @ [e])) m m1"
    by (rule loose_take [OF lo ain])
  have dst: "c \<noteq> ?a" if "c \<in> set (xs @ b # ys' @ [e])" for c
  proof -
    have "c \<in> set (ys' @ [e]) \<Longrightarrow> after m ?a \<le> c" using phys_range [OF p2] by auto
    then show ?thesis using that g(1) [of c] by (fastforce simp: after_def)
  qed
  have keep: "hdr m1 c = hdr m c" if "c \<in> set (xs @ b # ys' @ [e])" for c
    by (rule r(5) [rule_format]) (use that dst [OF that] ys in auto)
  have hb: "block_size m1 b = block_size m b" "is_free m1 b = is_free m b" "prev_is_free m1 b = prev_is_free m b"
    "ld64 m1 (b + 8) = ld64 m (b + 8)" using keep [of b] by (simp_all add: hdr_def)
  have ha: "block_size m1 ?a = block_size m ?a" using r(4) by (simp add: hdr_def)
  define n where "n = block_size m1 b + 32 + block_size m1 ?a"
  have aft: "after m ?a = b + 32 + n" using hb ha by (simp add: n_def after_def)
  have "after m ?a \<le> e" using phys_range [OF p2] by blast
  then have n: "n < 2 ^ 30" "n \<le> e" using aft g(3) room by simp_all
  have seg1: "pseg m1 (False, 0, base) xs (pf, ld64 m1 (b + 8), b)"
    using seg(1) hb pseg_cong [of xs m1 m] keep by simp
  have rest: "phys m1 True ?a (after m1 ?a) ys' e"
  proof -
    have "after m1 ?a = after m ?a" using ha by (simp add: after_def)
    show ?thesis unfolding \<open>after m1 ?a = after m ?a\<close> by (rule phys_keep [OF p2]) (rule keep, auto)
  qed
  have fb1: "free_blocks L1 = {c \<in> set (xs @ ys'). is_free m1 c}"
  proof -
    have "is_free m1 c = is_free m c" if "c \<in> set (xs @ ys')" for c using keep [of c] that by (auto simp: hdr_def)
    then show ?thesis using r(3) fb ys dst by auto
  qed
  have a1: "?a = after m1 b" using hb by (simp add: after_def)
  have nf1: "\<not> is_free m1 b" "block_ok m1 b" "block_ok m1 ?a" using okb oka hb ha by (simp_all add: block_ok_def)
  have pfi: "prev_is_free m1 b \<longrightarrow> pf" using seg(2) hb by simp
  note ab = absorb [OF r(2) lim fb1 nf1 a1 seg1 pfi rest n_def n(1)]
  have bS: "b \<in> set (xs @ b # ys @ [e])" by simp
  have "{b..<b + 8} \<subseteq> header_bytes (xs @ b # ys @ [e])" by (rule header_bytesI [OF bS]) auto
  then have area: "agree_off (header_bytes (xs @ b # ys @ [e])) m (set_size b n m1)"
    by (intro agree_off_trans [OF r(6)] agree_off_mono [OF ab(4)])
  show thesis
    by (rule that [OF ys r(1) n_def n(2) ab(1) _ _ area]) (use aft ab(2,3) keep in \<open>auto simp: after_def\<close>)
qed

lemma pseg_last:
  assumes "pseg m (False, p0, a) xs (True, p, b)"
  obtains xs' pf where "xs = xs' @ [p]" and "is_free m p" and "b = after m p" and "block_ok m p"
    and "pseg m (False, p0, a) xs' (pf, ld64 m (p + 8), p)" and "prev_is_free m p \<longrightarrow> pf"
proof (cases xs rule: rev_cases)
  case Nil
  then show ?thesis using assms by simp
next
  case (snoc xs' c)
  obtain pf pp a' where 1: "pseg m (False, p0, a) xs' (pf, pp, a')" and 2: "pseg m (pf, pp, a') [c] (True, p, b)"
    using assms by (auto simp: snoc pseg_append)
  then show ?thesis using that [of xs' pf] snoc by (auto simp: block_ok_def after_def)
qed

lemma merge_prev:
  assumes lo: "loose m t L base xs b ys e" and flag: "prev_is_free m b" and room: "e \<le> base + 2 ^ 30"
  obtains p m1 t1 L1 xs' n where "p = ld64 m (b + 8)" and "xs = xs' @ [p]" and "is_free m p" and "b = after m p"
    and "remove_free p (m, t) = Inr (m1, t1)"
    and "n = block_size m1 p + 32 + block_size m1 b" and "n \<le> e"
    and "loose (set_size p n m1) t1 L1 base xs' p ys e"
    and "after (set_size p n m1) p = after m b"
    and "\<forall>c\<in>set (xs' @ ys @ [e]). hdr (set_size p n m1) c = hdr m c"
    and "agree_off (header_bytes (xs @ b # ys @ [e])) m (set_size p n m1)"
proof -
  define p where "p = ld64 m (b + 8)"
  note g = loose_geometry [OF lo]
  obtain q where rest: "phys m True q (after m b) ys e" and lim: "base \<noteq> 0" "e + 32 \<le> u64_max"
    and fb: "free_blocks L = {c \<in> set (xs @ ys). is_free m c}" and okb: "block_ok m b" "\<not> is_free m b"
    and seg: "pseg m (False, 0, base) xs (True, p, b)"
    using lo flag by (auto simp: loose_def p_def)
  obtain xs' pf where xs: "xs = xs' @ [p]" and free: "is_free m p" and bp: "b = after m p" and okp: "block_ok m p"
    and segp: "pseg m (False, 0, base) xs' (pf, ld64 m (p + 8), p)" "prev_is_free m p \<longrightarrow> pf"
    by (rule pseg_last [OF seg])
  have pin: "p \<in> free_blocks L" using fb free by (simp add: xs)
  obtain m1 t1 L1 where r: "remove_free p (m, t) = Inr (m1, t1)" "tlsf_rep m1 t1 L1"
    "free_blocks L1 = free_blocks L - {p}" "hdr m1 p = (block_size m p, False, prev_is_free m p, ld64 m (p + 8))"
    "\<forall>c\<in>set (xs @ b # ys @ [e]). c \<noteq> p \<longrightarrow> hdr m1 c = hdr m c"
    "agree_off (header_bytes (xs @ b # ys @ [e])) m m1"
    by (rule loose_take [OF lo pin])
  have dst: "c \<noteq> p" if "c \<in> set (xs' @ b # ys @ [e])" for c
  proof -
    have "c \<in> set xs' \<Longrightarrow> c + 32 \<le> p" using pseg_range [OF segp(1)] by fastforce
    then show ?thesis using that g(2) [of c] bp by (fastforce simp: after_def)
  qed
  have keep: "hdr m1 c = hdr m c" if "c \<in> set (xs' @ b # ys @ [e])" for c
    by (rule r(5) [rule_format]) (use that dst [OF that] xs in auto)
  have hb: "block_size m1 b = block_size m b" using keep [of b] by (simp add: hdr_def)
  have hp: "block_size m1 p = block_size m p" "\<not> is_free m1 p" "prev_is_free m1 p = prev_is_free m p"
    "ld64 m1 (p + 8) = ld64 m (p + 8)" using r(4) by (simp_all add: hdr_def)
  define n where "n = block_size m1 p + 32 + block_size m1 b"
  have aft: "after m b = p + 32 + n" using hb hp bp by (simp add: n_def after_def)
  have "base \<le> p" using pseg_range [OF segp(1)] by blast
  moreover have "after m b \<le> e" using g(4) by (simp add: after_def)
  ultimately have n: "n < 2 ^ 30" "n \<le> e" using aft room by simp_all
  have seg1: "pseg m1 (False, 0, base) xs' (pf, ld64 m1 (p + 8), p)"
    using segp(1) hp pseg_cong [of xs' m1 m] keep by simp
  have rest1: "phys m1 True q (after m1 b) ys e"
  proof -
    have "after m1 b = after m b" using hb by (simp add: after_def)
    show ?thesis unfolding \<open>after m1 b = after m b\<close> by (rule phys_keep [OF rest]) (rule keep, auto)
  qed
  have fb1: "free_blocks L1 = {c \<in> set (xs' @ ys). is_free m1 c}"
  proof -
    have "is_free m1 c = is_free m c" if "c \<in> set (xs' @ ys)" for c using keep [of c] that by (auto simp: hdr_def)
    then show ?thesis using r(3) fb xs dst by auto
  qed
  have b1: "b = after m1 p" using hp bp by (simp add: after_def)
  have ok1: "block_ok m1 p" "block_ok m1 b" using okp okb hb hp by (simp_all add: block_ok_def)
  have pfi: "prev_is_free m1 p \<longrightarrow> pf" using segp(2) hp by simp
  note ab = absorb [OF r(2) lim fb1 hp(2) ok1 b1 seg1 pfi rest1 n_def n(1)]
  have pS: "p \<in> set (xs @ b # ys @ [e])" by (simp add: xs)
  have "{p..<p + 8} \<subseteq> header_bytes (xs @ b # ys @ [e])" by (rule header_bytesI [OF pS]) auto
  then have area: "agree_off (header_bytes (xs @ b # ys @ [e])) m (set_size p n m1)"
    by (intro agree_off_trans [OF r(6)] agree_off_mono [OF ab(4)])
  show thesis
    by (rule that [OF p_def xs free bp r(1) n_def n(2) ab(1) _ _ area]) (use aft ab(2,3) keep in \<open>auto simp: after_def\<close>)
qed

subsection \<open>Insertion\<close>

text \<open>The memory with the back link of the block after \<open>b\<close> set, which the code leaves out.\<close>

definition relink :: "nat \<Rightarrow> mem \<Rightarrow> mem" where
  "relink b m = st64 (after m b + 8) b m"

lemma relink_touch: "agree_off {after m b..<after m b + 16} m (relink b m)"
  unfolding relink_def by (rule agree_off_st) auto

lemma hdr_relink:
  assumes "b \<le> u64_max"
  shows "hdr (relink b m) (after m b) = (block_size m (after m b), is_free m (after m b), prev_is_free m (after m b), b)"
proof -
  have "ld64 (relink b m) (after m b) = ld64 m (after m b)" unfolding relink_def by (rule ld_st_other) simp
  then show ?thesis using assms by (simp add: hdr_def relink_def block_size_def is_free_def prev_is_free_def)
qed

lemma loose_insert:
  assumes lo: "loose m t L base xs b ys e"
  obtains m1 t1 L1 m2 where "insert_free b (m, t) = Inr (m1, t1)" and "next_phys m1 b = Inr (after m b)"
    and "m2 = set_prev_free (after m b) True m1" and "after m2 b = after m b"
    and "heap_ok (relink b m2) t1 L1 base (xs @ b # ys) e"
    and "is_free m2 b" and "block_size m2 b = block_size m b"
    and "\<forall>c\<in>set (xs @ ys). block_size m2 c = block_size m c \<and> is_free m2 c = is_free m c"
    and "\<forall>c\<in>set (xs @ ys @ [e]). ld64 m2 (c + 8) = ld64 m (c + 8)" and "prev_is_free m2 (after m b)"
    and "agree_off (header_bytes (xs @ b # ys @ [e])) m m2"
proof -
  let ?a = "after m b" and ?S = "set (xs @ b # ys @ [e])"
  note g = loose_geometry [OF lo]
  obtain pf q where rep: "tlsf_rep m t L" and lim: "base \<noteq> 0" "e + 32 \<le> u64_max"
    and fb: "free_blocks L = {c \<in> set (xs @ ys). is_free m c}" and okb: "block_ok m b" "\<not> is_free m b"
    and seg: "pseg m (False, 0, base) xs (pf, ld64 m (b + 8), b)" "prev_is_free m b \<longrightarrow> pf"
    and ph: "phys m True q ?a ys e"
    using lo by (auto simp: loose_def)
  have b0: "b \<noteq> 0" "b + 32 \<le> u64_max" "b \<le> u64_max" using g(3,4) lim by auto
  have bnot: "b \<notin> free_blocks L" using g(7) g(9) [of b] by auto
  have bS: "b \<in> ?S" and aS: "?a \<in> ?S" and fS: "free_blocks L \<subseteq> ?S" using g(5,7) by auto
  have ab: "?a \<noteq> b" by (simp add: after_def)
  obtain fl sl where cl: "mapping (block_size m b) = Inr (fl, sl)" "fl < 30" "sl < 32"
    using okb(1) by (auto simp: block_ok_def elim: small_class)
  have ins_S: "apart 32 (insert b (free_blocks L))" by (rule apart_subset [OF g(6)]) (use fS bS in auto)
  obtain m1 t1 where ins: "insert_free b (m, t) = Inr (m1, t1)"
    "tlsf_rep m1 t1 (set_class fl sl (b # L fl sl) L)" "block_size m1 b = block_size m b" "is_free m1 b"
    "prev_is_free m1 b = prev_is_free m b"
    "agree_off (ptr_cells 24 16 (insert b (set (L fl sl))) \<union> {b..<b + 8}) m m1"
    by (rule insert_free_ok [OF rep bnot ins_S b0(1,2) _ cl(2,3)]) (use cl(1) okb in \<open>simp_all add: block_ok_def\<close>)
  let ?L = "set_class fl sl (b # L fl sl) L"
  have fb1: "free_blocks ?L = insert b (free_blocks L)" by (rule free_blocks_insert [OF cl(2,3)])
  have fS1: "free_blocks ?L \<subseteq> ?S" using fb1 fS bS by auto
  have LS: "insert b (set (L fl sl)) \<subseteq> ?S" using fS bS free_blocksI cl(2,3) by blast
  have h1: "hdr m1 c = hdr m c" if "c \<in> ?S" "c \<noteq> b" for c by (rule hdr_links [OF g(6) bS that LS ins(6)])
  have b1: "hdr m1 b = (block_size m b, True, prev_is_free m b, ld64 m (b + 8))"
    using ins(3-5) link_back [OF g(6) bS LS ins(6)] by (simp add: hdr_def)
  define m2 where "m2 = set_prev_free ?a True m1"
  have t2: "agree_off {?a..<?a + 16} m1 m2" unfolding m2_def by (rule agree_off_mono [OF set_prev_free_agree]) auto
  have h2: "hdr m2 c = hdr m1 c" if "c \<in> ?S" "c \<noteq> ?a" for c by (rule hdr_touch [OF g(6) aS that t2])
  have a2: "hdr m2 ?a = (block_size m ?a, is_free m ?a, True, ld64 m (?a + 8))"
    using h1 [OF aS ab] hdr_set_prev_free [of ?a True m1] by (simp add: m2_def hdr_def)
  have b2: "hdr m2 b = (block_size m b, True, prev_is_free m b, ld64 m (b + 8))" using h2 [OF bS] b1 ab by simp
  have aft: "after m2 b = ?a" using b2 by (simp add: after_def hdr_def)
  define m3 where "m3 = relink b m2"
  have t3: "agree_off {?a..<?a + 16} m2 m3" using relink_touch [of m2 b] aft by (simp add: m3_def)
  have h3: "hdr m3 c = hdr m2 c" if "c \<in> ?S" "c \<noteq> ?a" for c by (rule hdr_touch [OF g(6) aS that t3])
  have a3: "hdr m3 ?a = (block_size m ?a, is_free m ?a, True, b)"
    using hdr_relink [OF b0(3), of m2] a2 aft by (simp add: m3_def hdr_def)
  have rest3: "hdr m3 c = hdr m c" if "c \<in> set (xs @ ys @ [e])" "c \<noteq> ?a" for c
    using h3 [of c] h2 [of c] h1 [of c] that g(9) [OF that(1)] by auto
  have tail: "phys m3 True b ?a ys e"
    by (rule phys_head [OF ph a3]) (rule rest3, auto)
  have xne: "c \<noteq> ?a" if "c \<in> set xs" for c using g(1) [OF that] by (auto simp: after_def)
  have seg3: "pseg m3 (False, 0, base) xs (pf, ld64 m (b + 8), b)"
    using seg(1) pseg_cong [of xs m3 m] rest3 xne by simp
  have b3: "block_size m3 b = block_size m b" "is_free m3 b" "prev_is_free m3 b = prev_is_free m b" "ld64 m3 (b + 8) = ld64 m (b + 8)"
    using h3 [OF bS] b2 ab by (simp_all add: hdr_def)
  have "phys m3 pf (ld64 m (b + 8)) b (b # ys) e"
    unfolding phys_Cons b3 using tail okb(1) seg(2) b3(2) by (simp add: block_ok_def after_def)
  with seg3 have phys3: "phys m3 False 0 base (xs @ b # ys) e" unfolding phys_append by blast
  have rep2: "tlsf_rep m2 t1 ?L"
    by (rule rep_touch [OF ins(2) g(6) fS1 aS t2]) (simp add: m2_def set_prev_free_header)
  have rep3: "tlsf_rep m3 t1 ?L"
    by (rule rep_touch [OF rep2 g(6) fS1 aS t3]) (use a2 a3 in \<open>simp add: hdr_def\<close>)
  have same: "block_size m2 c = block_size m c \<and> is_free m2 c = is_free m c \<and> ld64 m2 (c + 8) = ld64 m (c + 8)"
    if c: "c \<in> set (xs @ ys @ [e])" for c
  proof (cases "c = ?a")
    case True
    then show ?thesis using a2 by (simp add: hdr_def)
  next
    case False
    have "c \<in> ?S" "c \<noteq> b" using c g(9) [of c] by auto
    then have "hdr m2 c = hdr m c" using h2 [OF _ False] h1 by simp
    then show ?thesis by (simp add: hdr_def)
  qed
  have same3: "is_free m3 c = is_free m c" if c: "c \<in> set (xs @ ys)" for c
    using a3 rest3 [of c] c by (cases "c = ?a") (auto simp: hdr_def)
  have "free_blocks ?L = {c \<in> set (xs @ b # ys). is_free m3 c}" using fb1 fb same3 b3(2) by auto
  then have heap: "heap_ok (relink b m2) t1 ?L base (xs @ b # ys) e"
    using rep3 phys3 lim by (simp add: heap_ok_def m3_def)
  have area: "agree_off (header_bytes (xs @ b # ys @ [e])) m m2"
  proof -
    have "ptr_cells 24 16 (insert b (set (L fl sl))) \<subseteq> header_bytes (xs @ b # ys @ [e])" by (rule ptr_cells_header_bytes [OF LS])
    moreover have "{b..<b + 8} \<subseteq> header_bytes (xs @ b # ys @ [e])" by (rule header_bytesI [OF bS]) auto
    moreover have "{?a..<?a + 16} \<subseteq> header_bytes (xs @ b # ys @ [e])" by (rule header_bytesI [OF aS]) auto
    ultimately show ?thesis by (intro agree_off_trans [OF agree_off_mono [OF ins(6)] agree_off_mono [OF t2]]) auto
  qed
  have nx: "next_phys m1 b = Inr ?a"
    using b1 b0 g(8) by (simp add: next_phys_def HEADER_def hdr_def after_def)
  have ab2: "is_free m2 b" "block_size m2 b = block_size m b" "prev_is_free m2 ?a"
    using b2 a2 by (simp_all add: hdr_def)
  show thesis by (rule that [OF ins(1) nx m2_def aft heap ab2(1,2) _ _ ab2(3) area]) (use same in auto)
qed

subsection \<open>The whole operation\<close>

lemma header_bytes_mono: "set cs \<subseteq> set ds \<Longrightarrow> header_bytes cs \<subseteq> header_bytes ds"
  by (auto simp: header_bytes_def)

text \<open>How far the freeing of \<open>b\<close> has come: it is part of the block \<open>c\<close>, and only free blocks joined it.\<close>

definition freed :: "mem \<Rightarrow> nat list \<Rightarrow> nat \<Rightarrow> nat \<Rightarrow> mem \<Rightarrow> nat list \<Rightarrow> nat \<Rightarrow> nat list \<Rightarrow> bool" where
  "freed m bs b e m' xs c ys \<longleftrightarrow>
     set (xs @ c # ys) \<subseteq> set bs \<and> (\<forall>d\<in>set bs. d \<in> set (xs @ c # ys) \<or> d = b \<or> is_free m d) \<and>
     (c = b \<or> is_free m c) \<and> c \<le> b \<and> after m b \<le> after m' c \<and>
     (\<forall>d\<in>set (xs @ ys). block_size m' d = block_size m d \<and> is_free m' d = is_free m d) \<and>
     (\<forall>d\<in>set (xs @ ys @ [e]). ld64 m' (d + 8) = ld64 m (d + 8)) \<and>
     agree_off (header_bytes (bs @ [e])) m m'"

lemma loose_sentinel: "loose m t L base xs b ys e \<Longrightarrow> \<not> is_free m e"
  by (auto simp: loose_def phys_def)

lemma loose_start:
  assumes ok: "heap_ok m t L base (xs @ b # ys) e" and nf: "\<not> is_free m b"
  shows "loose m t L base xs b ys e"
proof -
  have ph: "phys m False 0 base (xs @ b # ys) e" and fb: "free_blocks L = {c \<in> set (xs @ b # ys). is_free m c}"
    using ok by (simp_all add: heap_ok_def)
  obtain pf p where 1: "pseg m (False, 0, base) xs (pf, p, b)" and 2: "phys m pf p b (b # ys) e"
    using ph by (auto simp: phys_append phys_Cons)
  then have "phys m True b (after m b) ys e" by (auto simp: phys_Cons after_def intro: phys_flag)
  moreover have "free_blocks L = {c \<in> set (xs @ ys). is_free m c}" using fb nf by auto
  moreover have "ld64 m (b + 8) = p" "prev_is_free m b \<longrightarrow> pf" "block_ok m b" using 2 by (simp_all add: phys_Cons block_ok_def)
  ultimately show ?thesis using ok nf 1 unfolding loose_def heap_ok_def by blast
qed

lemma stage_prev:
  assumes lo: "loose m t L base xs b ys e" and room: "e \<le> base + 2 ^ 30"
  obtains c m' t' L' xs' where
    "(if prev_is_free m b then
        let prev = ld64 m (b + 8)
        in and_then (remove_free prev (m, t)) (\<lambda>(m, t).
           and_then (checked_add (block_size m prev) HEADER) (\<lambda>n.
           and_then (checked_add n (block_size m b)) (\<lambda>combined.
           Inr (prev, set_size prev combined m, t))))
      else Inr (b, m, t)) = Inr (c, m', t')"
    and "loose m' t' L' base xs' c ys e" and "freed m (xs @ b # ys) b e m' xs' c ys"
    and "after m' c = after m b" and "\<not> prev_is_free m b \<longrightarrow> c = b"
proof (cases "prev_is_free m b")
  case False
  have "freed m (xs @ b # ys) b e m xs b ys" by (auto simp: freed_def)
  then show thesis by (intro that [OF _ lo]) (simp_all add: False)
next
  case True
  obtain p m1 t1 L1 xs' n where r: "p = ld64 m (b + 8)" "xs = xs' @ [p]" "is_free m p" "b = after m p"
    "remove_free p (m, t) = Inr (m1, t1)" "n = block_size m1 p + 32 + block_size m1 b" "n \<le> e"
    "loose (set_size p n m1) t1 L1 base xs' p ys e" "after (set_size p n m1) p = after m b"
    "\<forall>c\<in>set (xs' @ ys @ [e]). hdr (set_size p n m1) c = hdr m c"
    "agree_off (header_bytes (xs @ b # ys @ [e])) m (set_size p n m1)"
    by (rule merge_prev [OF lo True room])
  have "n \<le> u64_max" using r(7) lo by (simp add: loose_def)
  then have "(if prev_is_free m b then
        let prev = ld64 m (b + 8)
        in and_then (remove_free prev (m, t)) (\<lambda>(m, t).
           and_then (checked_add (block_size m prev) HEADER) (\<lambda>n.
           and_then (checked_add n (block_size m b)) (\<lambda>combined.
           Inr (prev, set_size prev combined m, t))))
      else Inr (b, m, t)) = Inr (p, set_size p n m1, t1)"
    using True r(5,6) unfolding r(1) [symmetric] by (simp add: HEADER_def)
  moreover have "freed m (xs @ b # ys) b e (set_size p n m1) xs' p ys"
    unfolding freed_def using r(2,3,9-11) r(4) by (auto simp: hdr_def after_def)
  ultimately show thesis using that r(8,9) True by blast
qed

lemma stage_next:
  assumes lo: "loose m t L base xs c ys e" and room: "e \<le> base + 2 ^ 30" and fr: "freed m0 bs b e m xs c ys"
    and a: "a = after m c"
  obtains m' t' L' ys' where
    "(if is_free m a then
        and_then (remove_free a (m, t)) (\<lambda>(m, t).
        and_then (checked_add (block_size m c) HEADER) (\<lambda>n.
        and_then (checked_add n (block_size m a)) (\<lambda>combined.
        Inr (set_size c combined m, t))))
      else Inr (m, t)) = Inr (m', t')"
    and "loose m' t' L' base xs c ys' e" and "freed m0 bs b e m' xs c ys'"
    and "after m' c = (if is_free m a then after m a else a)" and "after m' c \<in> set (ys' @ [e])"
proof (cases "is_free m (after m c)")
  case False
  then show thesis by (intro that [OF _ lo fr]) (use loose_geometry(5) [OF lo] in \<open>simp_all add: a\<close>)
next
  case True
  obtain m1 t1 L1 ys' n where r: "ys = after m c # ys'" "remove_free (after m c) (m, t) = Inr (m1, t1)"
    "n = block_size m1 c + 32 + block_size m1 (after m c)" "n \<le> e"
    "loose (set_size c n m1) t1 L1 base xs c ys' e"
    "after (set_size c n m1) c = after m (after m c)"
    "\<forall>d\<in>set (xs @ ys' @ [e]). hdr (set_size c n m1) d = hdr m d"
    "agree_off (header_bytes (xs @ c # ys @ [e])) m (set_size c n m1)"
    by (rule merge_next [OF lo True room])
  have lim: "n \<le> u64_max" using r(4) lo by (simp add: loose_def)
  have old: "block_size m d = block_size m0 d \<and> is_free m d = is_free m0 d" if "d \<in> set (xs @ ys)" for d
    using fr that unfolding freed_def by blast
  have af: "is_free m0 (after m c)" using old [of "after m c"] True r(1) by simp
  have "header_bytes (xs @ c # ys @ [e]) \<subseteq> header_bytes (bs @ [e])"
    by (rule header_bytes_mono) (use fr in \<open>auto simp: freed_def\<close>)
  then have area: "agree_off (header_bytes (bs @ [e])) m0 (set_size c n m1)"
    using fr unfolding freed_def by (intro agree_off_trans [OF _ agree_off_mono [OF r(8)]]) blast+
  have same: "block_size (set_size c n m1) d = block_size m0 d \<and> is_free (set_size c n m1) d = is_free m0 d" if d: "d \<in> set (xs @ ys')" for d
  proof -
    have "hdr (set_size c n m1) d = hdr m d" using r(7) d by auto
    then show ?thesis using old [of d] d r(1) by (auto simp: hdr_def)
  qed
  have link: "ld64 (set_size c n m1) (d + 8) = ld64 m0 (d + 8)" if d: "d \<in> set (xs @ ys' @ [e])" for d
  proof -
    have "hdr (set_size c n m1) d = hdr m d" using r(7) d by blast
    moreover have "ld64 m (d + 8) = ld64 m0 (d + 8)" using fr d r(1) by (auto simp: freed_def)
    ultimately show ?thesis by (simp add: hdr_def)
  qed
  have "after m c \<le> after m (after m c)" by (simp add: after_def)
  then have fr': "freed m0 bs b e (set_size c n m1) xs c ys'"
    using fr area same link af r(1,6) unfolding freed_def by auto
  show thesis by (rule that [OF _ r(5) fr']) (use r(2,3,6) loose_geometry(5) [OF r(5)] lim True in \<open>simp_all add: a HEADER_def\<close>)
qed

lemma heap_dealloc_ok:
  assumes ok: "heap_ok m t L base bs e" and b: "b \<in> set bs" "\<not> is_free m b" and room: "e \<le> base + 2 ^ 30"
  obtains m' t' L' xs c ys where "tlsf_dealloc (b + 32) (m, t) = Inr (m', t')"
    and "heap_ok (relink c m') t' L' base (xs @ c # ys) e" and "freed m bs b e m' xs c ys" and "is_free m' c"
    and "\<not> prev_is_free m b \<longrightarrow> c = b"
    and "after m' c = (if is_free m (after m b) then after m (after m b) else after m b)"
    and "prev_is_free m' (after m' c)" and "ld64 m' (after m' c + 8) = ld64 m (after m' c + 8)"
proof -
  obtain us vs where bs: "bs = us @ b # vs" using b(1) by (metis split_list)
  have lo: "loose m t L base us b vs e" using loose_start ok b(2) bs by blast
  obtain c m1 t1 L1 xs where 1: "(if prev_is_free m b then
        let prev = ld64 m (b + 8)
        in and_then (remove_free prev (m, t)) (\<lambda>(m, t).
           and_then (checked_add (block_size m prev) HEADER) (\<lambda>n.
           and_then (checked_add n (block_size m b)) (\<lambda>combined.
           Inr (prev, set_size prev combined m, t))))
      else Inr (b, m, t)) = Inr (c, m1, t1)"
    and lo1: "loose m1 t1 L1 base xs c vs e" and f1: "freed m (us @ b # vs) b e m1 xs c vs"
    and c1: "after m1 c = after m b" "\<not> prev_is_free m b \<longrightarrow> c = b"
    by (rule stage_prev [OF lo room])
  define a where "a = after m1 c"
  obtain m2 t2 L2 ys where 2: "(if is_free m1 a then
        and_then (remove_free a (m1, t1)) (\<lambda>(m, t).
        and_then (checked_add (block_size m c) HEADER) (\<lambda>n.
        and_then (checked_add n (block_size m a)) (\<lambda>combined.
        Inr (set_size c combined m, t))))
      else Inr (m1, t1)) = Inr (m2, t2)"
    and lo2: "loose m2 t2 L2 base xs c ys e" and f2: "freed m bs b e m2 xs c ys"
    and c2: "after m2 c = (if is_free m1 a then after m1 a else a)" "after m2 c \<in> set (ys @ [e])"
    by (rule stage_next [OF lo1 room f1 [folded bs] a_def])
  obtain m3 t3 L3 m4 where 3: "insert_free c (m2, t2) = Inr (m3, t3)" "next_phys m3 c = Inr (after m2 c)"
    "m4 = set_prev_free (after m2 c) True m3" "after m4 c = after m2 c"
    "heap_ok (relink c m4) t3 L3 base (xs @ c # ys) e" "is_free m4 c" "block_size m4 c = block_size m2 c"
    "\<forall>d\<in>set (xs @ ys). block_size m4 d = block_size m2 d \<and> is_free m4 d = is_free m2 d"
    "\<forall>d\<in>set (xs @ ys @ [e]). ld64 m4 (d + 8) = ld64 m2 (d + 8)" "prev_is_free m4 (after m2 c)"
    "agree_off (header_bytes (xs @ c # ys @ [e])) m2 m4"
    by (rule loose_insert [OF lo2])
  have nx: "next_phys m1 c = Inr a"
    using loose_geometry(8) [OF lo1] by (simp add: next_phys_def HEADER_def a_def after_def)
  have sub: "checked_sub (b + 32) HEADER = Inr b" by (simp add: HEADER_def checked_sub_def)
  have run: "tlsf_dealloc (b + 32) (m, t) = Inr (m4, t3)"
    unfolding tlsf_dealloc_def prod.case sub and_then_simps 1 nx 2 3(1,2) 3(3) [symmetric] ..
  have "header_bytes (xs @ c # ys @ [e]) \<subseteq> header_bytes (bs @ [e])"
    by (rule header_bytes_mono) (use f2 in \<open>auto simp: freed_def\<close>)
  then have "agree_off (header_bytes (bs @ [e])) m m4"
    using f2 unfolding freed_def by (intro agree_off_trans [OF _ agree_off_mono [OF 3(11)]]) blast+
  then have f4: "freed m bs b e m4 xs c ys" using f2 3(4,8,9) unfolding freed_def by auto
  have aft: "after m4 c = (if is_free m (after m b) then after m (after m b) else after m b)"
  proof -
    have "a \<in> set vs \<or> a = e" using loose_geometry(5) [OF lo] c1(1) by (auto simp: a_def)
    then have "is_free m1 a = is_free m a \<and> (is_free m a \<longrightarrow> block_size m1 a = block_size m a)"
    proof
      assume "a \<in> set vs"
      then show ?thesis using f1 unfolding freed_def by simp
    qed (use loose_sentinel [OF lo] loose_sentinel [OF lo1] in simp)
    then have "after m4 c = (if is_free m a then after m a else a)" using 3(4) c2(1) by (simp add: after_def)
    then show ?thesis using c1(1) by (simp add: a_def)
  qed
  have link: "ld64 m4 (after m4 c + 8) = ld64 m (after m4 c + 8)" using f4 c2(2) 3(4) by (auto simp: freed_def)
  have flag: "prev_is_free m4 (after m4 c)" using 3(4,10) by simp
  show thesis by (rule that [OF run 3(5) f4 3(6) c1(2) aft flag link])
qed

end
