(* ===== verification/Tlsf_Theorems.thy ===== *)
theory Tlsf_Theorems
  imports Tlsf_Dealloc
begin

text \<open>
  The properties of the TLSF allocator: what \<open>alloc\<close> of its \<open>GlobalAlloc\<close> interface guarantees on a
  well-formed heap, the heap that \<open>add_pool\<close> makes, and two defects of the code.
\<close>

subsection \<open>Allocation\<close>

lemma round_request: "x + 7 \<le> u64_max \<Longrightarrow> and_not (x + 7) (8 - 1) = (x + 7) div 8 * 8"
  using and_not_mask [of "x + 7" 3] by (simp add: minus_mod_eq_div_mult)

lemma tlsf_alloc_ok:
  assumes ok: "heap_ok m t L base bs e" and n: "alloc_size sz < 2 ^ 29"
  shows "tlsf_alloc sz (m, t) = Inr (None, m, t) \<and> (\<forall>b\<in>set bs. is_free m b \<longrightarrow> block_size m b < 2 * alloc_size sz) \<or>
    (\<exists>b m' t'. tlsf_alloc sz (m, t) = Inr (Some (b + 32), m', t') \<and> b \<in> set bs \<and> is_free m b \<and>
      result_ok m m' t' base bs e b (alloc_size sz))"
proof -
  let ?n = "alloc_size sz"
  have rep: "tlsf_rep m t L" and ph: "phys m False 0 base bs e" and lim: "e + 32 \<le> u64_max"
    and fb: "free_blocks L = {b \<in> set bs. is_free m b}" using ok by (simp_all add: heap_ok_def)
  have "max sz 32 + 7 < alloc_size sz + 8" unfolding alloc_size_def by (metis add.commute dividend_less_div_times zero_less_numeral)
  then have small: "max sz 32 + 7 \<le> u64_max" using n by (simp add: u64_max_def)
  have rnd: "and_not (max sz 32 + 7) 7 = ?n" using round_request [OF small] by (simp add: alloc_size_def)
  have find_run: "tlsf_alloc sz (m, t) = and_then (find_free t ?n) (\<lambda>r.
      case r of None \<Rightarrow> Inr (None, m, t)
      | Some block \<Rightarrow> and_then (remove_free block (m, t)) (\<lambda>(m, t).
          let s = block_size m block; remainder = (s + 2 ^ 64 - ?n) mod 2 ^ 64
          in and_then (if remainder \<ge> HEADER + BLOCK_MIN then tlsf_split block ?n remainder (m, t) else Inr (m, t)) (\<lambda>(m, t).
             and_then (next_phys m block) (\<lambda>next.
             let m = set_prev_free next False m
             in and_then (payload block) (\<lambda>p. Inr (Some p, m, t))))))"
  proof -
    have "checked_add (max sz 32) (8 - 1) = Inr (max sz 32 + (8 - 1))" "and_not (max sz 32 + (8 - 1)) (8 - 1) = ?n"
      using small rnd by simp_all
    then show ?thesis by (simp only: tlsf_alloc_def Let_def BLOCK_MIN_def prod.case and_then_simps)
  qed
  from find_free_ok [OF rep alloc_size_facts(1) n] show ?thesis
  proof (elim disjE exE conjE)
    assume none: "find_free t ?n = Inr None"
      and big: "\<forall>fl<30. \<forall>sl<32. \<forall>b\<in>set (L fl sl). 5 \<le> fl \<longrightarrow> block_size m b < 2 * ?n"
    have "block_size m b < 2 * ?n" if b: "b \<in> set bs" "is_free m b" for b
    proof -
      have "b \<in> free_blocks L" using b fb by blast
      then obtain fl sl where f: "fl < 30" "sl < 32" "b \<in> set (L fl sl)" by (auto simp: mem_free_blocks)
      have "32 \<le> block_size m b" using phys_min [OF ph b(1)] by simp
      then obtain f' s' where "mapping (block_size m b) = Inr (f', s')" "5 \<le> f'" by (rule mapping_ok [OF _ block_size_le])
      then have "5 \<le> fl" using tlsf_repD(6) [OF rep f] by (simp add: in_class_def)
      with big f show ?thesis by blast
    qed
    then show ?thesis using none find_run by simp
  next
    fix fl sl b
    assume fnd: "find_free t ?n = Inr (Some b)" and f: "fl < 30" "sl < 32" and b: "b \<in> set (L fl sl)" and fit: "?n \<le> block_size m b"
    obtain m1 t1 L1 xs ys where rm: "remove_free b (m, t) = Inr (m1, t1)" and bs: "bs = xs @ b # ys"
      and tk: "taken m1 t1 L1 base xs b ys e m" by (rule take_block [OF ok f b])
    have inb: "b \<in> set bs" "is_free m b" using tk bs by (simp_all add: taken_def)
    have sz1: "block_size m1 b = block_size m b" using tk by (simp add: taken_def hdr_def)
    have s30: "block_size m b < 2 ^ 30" using phys_min [OF ph inb(1)] by simp
    have rem: "(block_size m b + 2 ^ 64 - ?n) mod 2 ^ 64 = block_size m b - ?n"
    proof -
      have "block_size m b + 2 ^ 64 - ?n = (block_size m b - ?n) + 2 ^ 64" by (rule diff_add_assoc2 [OF fit])
      moreover have "block_size m b - ?n < 2 ^ 64" using s30 by simp
      ultimately show ?thesis by (metis mod_add_self2 mod_less)
    qed
    have "b + 32 + block_size m b \<le> e" using phys_range [OF ph] inb(1) by blast
    then have pay: "payload b = Inr (b + 32)" using lim by (simp add: payload_def HEADER_def)
    show ?thesis
    proof (cases "?n + 64 \<le> block_size m b")
      case True
      obtain m2 t2 where sp: "tlsf_split b ?n (block_size m b - ?n) (m1, t1) = Inr (m2, t2)"
        "next_phys m2 b = Inr (b + 32 + ?n)" "result_ok m (set_prev_free (b + 32 + ?n) False m2) t2 base (xs @ b # ys) e b ?n"
        by (rule split_taken [OF tk alloc_size_facts(1,2) True])
      have "HEADER + BLOCK_MIN \<le> block_size m b - ?n" using True by (simp add: HEADER_def BLOCK_MIN_def)
      then have "tlsf_alloc sz (m, t) = Inr (Some (b + 32), set_prev_free (b + 32 + ?n) False m2, t2)"
        using find_run fnd rm sz1 rem sp(1,2) pay by (simp add: Let_def)
      then show ?thesis using sp(3) bs inb by blast
    next
      case False
      note kw = keep_whole [OF tk fit]
      have "\<not> HEADER + BLOCK_MIN \<le> block_size m b - ?n" using False by (simp add: HEADER_def BLOCK_MIN_def)
      then have "tlsf_alloc sz (m, t) = Inr (Some (b + 32), set_prev_free (b + 32 + block_size m b) False m1, t1)"
        using find_run fnd rm sz1 rem kw(1) pay False by (simp add: Let_def)
      then show ?thesis using kw(2) False bs inb by auto
    qed
  qed
qed

text \<open>The address that the interface makes of a block's payload.\<close>

definition align_extra :: "nat \<Rightarrow> nat" where
  "align_extra align = (if align > 8 then align - 1 else 0)"

lemma aligned_address:
  assumes p: "8 dvd p" and k: "k \<le> 28" and lim: "p + align_extra (2 ^ k) \<le> u64_max"
  defines "a \<equiv> and_not (p + align_extra (2 ^ k)) (2 ^ k - 1)"
  shows "2 ^ k dvd a" and "p \<le> a" and "a \<le> p + align_extra (2 ^ k)"
proof -
  let ?y = "p + align_extra (2 ^ k)"
  have a: "a = ?y - ?y mod 2 ^ k" unfolding a_def by (rule and_not_mask [OF lim]) (use k in simp)
  then have a2: "a = ?y div 2 ^ k * 2 ^ k" by (simp add: minus_mod_eq_div_mult)
  then show "2 ^ k dvd a" "a \<le> ?y" by simp_all
  show "p \<le> a"
  proof (cases "k \<le> 3")
    case True
    then have "(2::nat) ^ k dvd 2 ^ 3" by (rule le_imp_power_dvd)
    then have "2 ^ k dvd p" using p by (auto intro: dvd_trans)
    moreover have "(2::nat) ^ k \<le> 2 ^ 3" using True by (rule power_increasing) simp
    then have "align_extra (2 ^ k) = 0" by (simp add: align_extra_def)
    ultimately show ?thesis using a2 by simp
  next
    case False
    then have "(2::nat) ^ 4 \<le> 2 ^ k" by (intro power_increasing) auto
    then have "?y = p + (2 ^ k - 1)" by (simp add: align_extra_def)
    moreover have "?y mod 2 ^ k < 2 ^ k" by simp
    ultimately show ?thesis using a by linarith
  qed
qed

lemma pseg_aligned: "pseg m (pf, p, a) bs s \<Longrightarrow> 8 dvd a \<Longrightarrow> b \<in> set bs \<Longrightarrow> 8 dvd b"
proof (induction bs arbitrary: pf p a)
  case (Cons c cs)
  then have c: "a = c" "8 dvd block_size m c" "pseg m (is_free m c, c, c + 32 + block_size m c) cs s" by simp_all
  have "8 dvd c + 32 + block_size m c" using c(1,2) Cons.prems(2) by (intro dvd_add) simp_all
  with Cons c show ?case by auto
qed simp

lemma global_alloc_ok:
  assumes ok: "heap_ok m t L base bs e" and base: "8 dvd base" and k: "k \<le> 28"
    and req: "n = alloc_size (max lsize 32 + align_extra (2 ^ k))" "n < 2 ^ 29"
  shows "global_alloc lsize (2 ^ k) (m, t) = Inr (0, m, t) \<and> (\<forall>b\<in>set bs. is_free m b \<longrightarrow> block_size m b < 2 * n) \<or>
    (\<exists>a b m' t'. global_alloc lsize (2 ^ k) (m, t) = Inr (a, m', t') \<and> b \<in> set bs \<and> is_free m b \<and>
      result_ok m m' t' base bs e b n \<and> 2 ^ k dvd a \<and> b + 32 \<le> a \<and> a + max lsize 32 \<le> b + 32 + n)"
proof -
  let ?sz = "max lsize 32 + align_extra (2 ^ k)"
  have "max ?sz 32 + 7 < alloc_size ?sz + 8" unfolding alloc_size_def by (metis add.commute dividend_less_div_times zero_less_numeral)
  then have big: "max ?sz 32 \<le> n" using req alloc_size_facts(2) by linarith
  then have szn: "?sz \<le> n" "?sz \<le> u64_max" using req(2) by (simp_all add: u64_max_def)
  have run: "global_alloc lsize (2 ^ k) (m, t) = and_then (tlsf_alloc ?sz (m, t)) (\<lambda>(r, m, t).
      case r of None \<Rightarrow> Inr (0, m, t)
      | Some ptr \<Rightarrow> and_then (checked_add ptr (align_extra (2 ^ k))) (\<lambda>a. Inr (and_not a (2 ^ k - 1), m, t)))"
    using szn(2) unfolding align_extra_def by (simp add: global_alloc_def BLOCK_MIN_def Let_def)
  have n': "alloc_size ?sz < 2 ^ 29" using req by simp
  from tlsf_alloc_ok [OF ok n'] show ?thesis
  proof (elim disjE exE conjE)
    assume "tlsf_alloc ?sz (m, t) = Inr (None, m, t)" "\<forall>b\<in>set bs. is_free m b \<longrightarrow> block_size m b < 2 * alloc_size ?sz"
    then show ?thesis using run req by simp
  next
    fix b m' t'
    assume al: "tlsf_alloc ?sz (m, t) = Inr (Some (b + 32), m', t')" and b: "b \<in> set bs" "is_free m b"
      and res: "result_ok m m' t' base bs e b (alloc_size ?sz)"
    obtain L' bs' where heap: "heap_ok m' t' L' base bs' e" and sub: "set bs \<subseteq> set bs'" and fit: "n \<le> block_size m' b"
      using res req unfolding result_ok_def by blast
    have ph: "phys m False 0 base bs e" and ph': "phys m' False 0 base bs' e" and lim: "e + 32 \<le> u64_max"
      using ok heap by (simp_all add: heap_ok_def)
    have upto: "b + 32 + block_size m' b \<le> e" using phys_range [OF ph'] b(1) sub by blast
    have "8 dvd b" using ph base b(1) unfolding phys_def using pseg_aligned by blast
    then have p8: "8 dvd b + 32" by simp
    have plim: "b + 32 + align_extra (2 ^ k) \<le> u64_max" using upto fit szn(1) lim by linarith
    define a where "a = and_not (b + 32 + align_extra (2 ^ k)) (2 ^ k - 1)"
    note aa = aligned_address [OF p8 k plim, folded a_def]
    have ga: "global_alloc lsize (2 ^ k) (m, t) = Inr (a, m', t')" using run al plim by (simp add: a_def)
    have "a + max lsize 32 \<le> b + 32 + n" using aa(3) szn(1) by linarith
    then show ?thesis using ga aa(1,2) b res req by blast
  qed
qed

text \<open>
  C3. \<open>GlobalAlloc::alloc\<close> on a well-formed heap either returns null, changes nothing and leaves only
  free blocks smaller than twice the rounded request; or it returns an address with the alignment
  asked for such that the requested bytes lie in the payload of one block that was free and now is
  allocated, disjoint from the payload of every other allocated block. Every other allocated block
  keeps its size and contents, and the heap stays well-formed.
\<close>

theorem tlsf_alloc_correct:
  assumes ok: "heap_ok m t L base bs e" and base: "8 dvd base" and k: "k \<le> 28"
    and req: "n = alloc_size (max lsize 32 + align_extra (2 ^ k))" "n < 2 ^ 29"
  shows "global_alloc lsize (2 ^ k) (m, t) = Inr (0, m, t) \<and> (\<forall>b\<in>set bs. is_free m b \<longrightarrow> block_size m b < 2 * n) \<or>
    (\<exists>a b m' t' L' bs'. global_alloc lsize (2 ^ k) (m, t) = Inr (a, m', t') \<and> 2 ^ k dvd a \<and>
      b \<in> set bs \<and> is_free m b \<and> \<not> is_free m' b \<and> b + 32 \<le> a \<and> a + lsize \<le> b + 32 + block_size m' b \<and>
      heap_ok m' t' L' base bs' e \<and> set bs \<subseteq> set bs' \<and>
      (\<forall>c\<in>set bs'. c \<noteq> b \<longrightarrow> \<not> is_free m' c \<longrightarrow> c \<in> set bs \<and> \<not> is_free m c \<and> block_size m' c = block_size m c \<and>
         (\<forall>x. c + 32 \<le> x \<longrightarrow> x < c + 32 + block_size m c \<longrightarrow> m' x = m x \<and> (x < a \<or> a + lsize \<le> x))))"
proof -
  from global_alloc_ok [OF ok base k req] show ?thesis
  proof (elim disjE exE conjE)
    fix a b m' t'
    assume ga: "global_alloc lsize (2 ^ k) (m, t) = Inr (a, m', t')" and b: "b \<in> set bs" "is_free m b"
      and res: "result_ok m m' t' base bs e b n" and a: "2 ^ k dvd a" "b + 32 \<le> a" "a + max lsize 32 \<le> b + 32 + n"
    obtain L' bs' where heap: "heap_ok m' t' L' base bs' e" and sub: "set bs \<subseteq> set bs'" and fit: "n \<le> block_size m' b"
      and nf: "\<not> is_free m' b" and same: "\<forall>c \<in> set bs. c \<noteq> b \<longrightarrow> block_size m' c = block_size m c \<and> is_free m' c = is_free m c"
      and new: "\<forall>c \<in> set bs' - set bs. is_free m' c"
      and part: "agree_off (header_bytes (bs @ [e]) \<union> {b + 32 + n..<b + 32 + block_size m b}) m m'"
      using res unfolding result_ok_def by blast
    have area: "agree_off (header_bytes (bs @ [e]) \<union> {b..<b + 32 + block_size m b}) m m'"
      by (rule agree_off_mono [OF part]) auto
    have ph: "phys m False 0 base bs e" and ph': "phys m' False 0 base bs' e" using ok heap by (simp_all add: heap_ok_def)
    have b': "b \<in> set bs'" using b sub by blast
    have fin: "a + lsize \<le> b + 32 + block_size m' b" using a(3) fit by linarith
    have others: "c \<in> set bs \<and> \<not> is_free m c \<and> block_size m' c = block_size m c \<and>
         (\<forall>x. c + 32 \<le> x \<longrightarrow> x < c + 32 + block_size m c \<longrightarrow> m' x = m x \<and> (x < a \<or> a + lsize \<le> x))"
      if c: "c \<in> set bs'" "c \<noteq> b" "\<not> is_free m' c" for c
    proof -
      have cb: "c \<in> set bs" using c new by blast
      then have sc: "block_size m' c = block_size m c" "\<not> is_free m c" using same c by auto
      obtain xs ys where bs': "bs' = xs @ b # ys" using b' by (metis split_list)
      have "c \<in> set xs \<or> c \<in> set (ys @ [e])" using c(1,2) bs' by auto
      then have far: "c + 32 + block_size m' c \<le> b \<or> b + 32 + block_size m' b \<le> c"
        using phys_split(3,4) [OF ph' [unfolded bs'], of c] by blast
      have "m' x = m x \<and> (x < a \<or> a + lsize \<le> x)" if "c + 32 \<le> x" "x < c + 32 + block_size m c" for x
        using payload_kept [OF ph area b(1) cb c(2) that] far a(2) fin sc(1) that by linarith
      then show ?thesis using cb sc by blast
    qed
    show ?thesis
      using ga a(1,2) b nf fin heap sub others by blast
  qed blast
qed

lemma tlsf_alloc_correct_witness:
  "\<exists>m t L. heap_ok m t L 4096 [4096] 8160 \<and>
    (\<exists>a m' t' L' bs'. global_alloc 100 (2 ^ 6) (m, t) = Inr (a, m', t') \<and> 2 ^ 6 dvd a \<and>
       4096 + 32 \<le> a \<and> a + 100 \<le> 4096 + 32 + block_size m' 4096 \<and> heap_ok m' t' L' 4096 bs' 8160)"
proof -
  obtain m t L where h: "heap_ok m t L 4096 [4096] (4096 + 4096 - 32)" and f: "is_free m 4096" "block_size m 4096 = 4096 - 64"
    by (rule pool_heap [of 4096 4096 "\<lambda>_. 0"]) (auto simp: u64_max_def)
  have h': "heap_ok m t L 4096 [4096] 8160" using h by simp
  have n: "(168::nat) = alloc_size (max 100 32 + align_extra (2 ^ 6))" by (simp add: alloc_size_def align_extra_def)
  have big: "\<not> (\<forall>b\<in>set [4096]. is_free m b \<longrightarrow> block_size m b < 2 * 168)" and lim: "(168::nat) < 2 ^ 29" using f by simp_all
  have "8 dvd (4096::nat)" "(6::nat) \<le> 28" by simp_all
  from tlsf_alloc_correct [OF h' this n lim] big
  obtain a b m' t' L' bs' where r: "global_alloc 100 (2 ^ 6) (m, t) = Inr (a, m', t')" "2 ^ 6 dvd a" "b \<in> set [4096]"
    "b + 32 \<le> a" "a + 100 \<le> b + 32 + block_size m' b" "heap_ok m' t' L' 4096 bs' 8160" by blast
  then have b: "b = 4096" by simp
  have "\<exists>a m' t' L' bs'. global_alloc 100 (2 ^ 6) (m, t) = Inr (a, m', t') \<and> 2 ^ 6 dvd a \<and>
       4096 + 32 \<le> a \<and> a + 100 \<le> 4096 + 32 + block_size m' 4096 \<and> heap_ok m' t' L' 4096 bs' 8160"
    by (intro exI conjI, rule r(1), rule r(2)) (use r(4-6) b in simp_all)
  with h' show ?thesis by blast
qed

subsection \<open>Deallocation\<close>

text \<open>
  C4. \<open>GlobalAlloc::dealloc\<close> of an allocated block frees it: the block, merged with free neighbours only,
  becomes one free block. Every other allocated block keeps its size and contents. The heap is
  well-formed again once the back link of the block after the merged one is set, which the code omits.
\<close>

theorem tlsf_dealloc_correct:
  assumes ok: "heap_ok m t L base bs e" and b: "b \<in> set bs" "\<not> is_free m b" and room: "e \<le> base + 2 ^ 30"
  shows "\<exists>c m' t' L' bs'. global_dealloc (b + 32) (m, t) = Inr (m', t') \<and> c \<in> set bs' \<and> set bs' \<subseteq> set bs \<and>
    is_free m' c \<and> c \<le> b \<and> after m b \<le> after m' c \<and> heap_ok (relink c m') t' L' base bs' e \<and>
    (\<forall>d\<in>set bs. \<not> is_free m d \<longrightarrow> d \<noteq> b \<longrightarrow> d \<in> set bs' \<and> \<not> is_free m' d \<and> block_size m' d = block_size m d \<and>
       (\<forall>x. d + 32 \<le> x \<longrightarrow> x < d + 32 + block_size m d \<longrightarrow> m' x = m x))"
proof -
  obtain m' t' L' xs c ys where r: "tlsf_dealloc (b + 32) (m, t) = Inr (m', t')"
    "heap_ok (relink c m') t' L' base (xs @ c # ys) e" "freed m bs b e m' xs c ys" "is_free m' c"
    by (rule heap_dealloc_ok [OF ok b room])
  have ph: "phys m False 0 base bs e" using ok by (simp add: heap_ok_def)
  have "agree_off (header_bytes (bs @ [e])) m m'" using r(3) by (simp add: freed_def)
  then have area: "agree_off (header_bytes (bs @ [e]) \<union> {b..<b + 32 + block_size m b}) m m'"
    by (rule agree_off_mono) auto
  have "d \<in> set (xs @ c # ys) \<and> \<not> is_free m' d \<and> block_size m' d = block_size m d \<and>
       (\<forall>x. d + 32 \<le> x \<longrightarrow> x < d + 32 + block_size m d \<longrightarrow> m' x = m x)" if d: "d \<in> set bs" "\<not> is_free m d" "d \<noteq> b" for d
  proof -
    have "d \<in> set (xs @ ys)" using r(3) d unfolding freed_def by auto
    moreover from this have "\<not> is_free m' d" "block_size m' d = block_size m d" using r(3) d unfolding freed_def by auto
    ultimately show ?thesis using payload_kept [OF ph area b(1) d(1,3)] by auto
  qed
  moreover have "c \<le> b" "after m b \<le> after m' c" "set (xs @ c # ys) \<subseteq> set bs" "c \<in> set (xs @ c # ys)"
    using r(3) by (auto simp: freed_def)
  ultimately show ?thesis using r(1,2,4) unfolding global_dealloc_def by blast
qed

text \<open>
  C24. The back link goes stale: when the freed block absorbs the block after it, the block that now
  follows is marked as having a free predecessor, but its link still names the absorbed header, an
  address in the middle of the free block. Its own deallocation will treat that address as a block.
\<close>

theorem tlsf_dealloc_stale_link:
  assumes ok: "heap_ok m t L base bs e" and b: "b \<in> set bs" "\<not> is_free m b" and room: "e \<le> base + 2 ^ 30"
    and nx: "is_free m (after m b)" and pv: "\<not> prev_is_free m b"
  shows "\<exists>m' t'. global_dealloc (b + 32) (m, t) = Inr (m', t') \<and> is_free m' b \<and> after m' b = after m (after m b) \<and>
    prev_is_free m' (after m' b) \<and> ld64 m' (after m' b + 8) = after m b \<and> b < after m b \<and> after m b < after m' b"
proof -
  obtain m' t' c where r: "tlsf_dealloc (b + 32) (m, t) = Inr (m', t')" "is_free m' c" "c = b"
    "after m' c = after m (after m b)" "prev_is_free m' (after m' c)" "ld64 m' (after m' c + 8) = ld64 m (after m' c + 8)"
    using heap_dealloc_ok [OF ok b room] nx pv by metis
  have ph: "phys m False 0 base bs e" using ok by (simp add: heap_ok_def)
  obtain us vs where bs: "bs = us @ b # vs" using b(1) by (metis split_list)
  have p1: "phys m False b (after m b) vs e" using ph b(2) by (auto simp: bs phys_append phys_Cons after_def)
  then obtain a ws where vs: "vs = a # ws" using nx by (cases vs) (auto simp: phys_Nil)
  then have "phys m True (after m b) (after m (after m b)) ws e" using p1 nx by (auto simp: phys_Cons after_def)
  then have "ld64 m (after m (after m b) + 8) = after m b" by (cases ws) (auto simp: phys_Nil phys_Cons)
  then show ?thesis using r by (auto simp: global_dealloc_def after_def)
qed

text \<open>
  C26. A request of 1 GiB or more does not return null, as the interface promises for a failure: its
  size class is outside the tables and the search panics.
\<close>

theorem tlsf_large_request_panics:
  assumes t: "bitmaps_ok t" and n: "2 ^ 30 \<le> lsize" "lsize \<le> 2 ^ 60"
  shows "global_alloc lsize 8 (m, t) = Inl Index_out_of_bounds"
proof -
  let ?n = "(lsize + 7) div 8 * 8"
  have "lsize + 7 < ?n + 8" by (metis add.commute dividend_less_div_times zero_less_numeral)
  then have big: "2 ^ 30 \<le> ?n" "32 \<le> ?n" "?n \<le> 2 ^ 62" using n by simp_all
  have small: "lsize + 7 \<le> u64_max" using n by (simp add: u64_max_def)
  obtain fl sl where c: "mapping_search ?n = Inr (fl, sl)" "5 \<le> fl" "sl < 32" "?n \<le> class_floor (fl, sl)"
    by (rule mapping_search_ok [OF big(2,3)])
  have "30 \<le> fl"
  proof (rule ccontr)
    assume "\<not> 30 \<le> fl"
    then have "(2::nat) ^ (fl - 5) \<le> 2 ^ 24" by (intro power_increasing) auto
    with c(3) have "(32 + sl) * 2 ^ (fl - 5) \<le> 63 * 2 ^ 24" by (intro mult_le_mono) auto
    with c(4) big(1) show False by (simp add: class_floor_def)
  qed
  then have idx: "at_index (sl_bitmap t) fl = Inl Index_out_of_bounds" using t by (simp add: at_index_def bitmapsD)
  have mx: "max (max lsize 32) 32 = lsize" using n by simp
  have "find_free t ?n = Inl Index_out_of_bounds" using c(1) idx by (simp add: find_free_def)
  moreover have "and_not (lsize + 7) 7 = ?n" using round_request [OF small] by simp
  ultimately have "tlsf_alloc lsize (m, t) = Inl Index_out_of_bounds"
    using small n by (simp add: tlsf_alloc_def BLOCK_MIN_def Let_def)
  then show ?thesis using n by (simp add: global_alloc_def BLOCK_MIN_def Let_def u64_max_def)
qed

text \<open>A heap in which the first block is allocated and the second one is free.\<close>

lemma sample_heap:
  obtains m t L bs where "heap_ok m t L 4096 bs 8160" and "4096 \<in> set bs" and "\<not> is_free m 4096"
    and "is_free m (after m 4096)" and "\<not> prev_is_free m 4096"
proof -
  obtain m t L where h: "heap_ok m t L 4096 [4096] (4096 + 4096 - 32)" and f: "is_free m 4096" "block_size m 4096 = 4096 - 64"
    by (rule pool_heap [of 4096 4096 "\<lambda>_. 0"]) (auto simp: u64_max_def)
  have h': "heap_ok m t L 4096 [4096] 8160" using h by simp
  have n: "alloc_size 100 = 104" by (simp add: alloc_size_def)
  have "alloc_size 100 < 2 ^ 29" "\<not> (\<forall>b\<in>set [4096]. is_free m b \<longrightarrow> block_size m b < 2 * alloc_size 100)"
    using f n by simp_all
  from tlsf_alloc_ok [OF h' this(1)] this(2) obtain m' t' where "result_ok m m' t' 4096 [4096] 8160 4096 104"
    unfolding n by auto
  then obtain L' bs where r: "heap_ok m' t' L' 4096 bs 8160" "4096 \<in> set bs" "block_size m' 4096 < 168" "\<not> is_free m' 4096"
    "\<forall>c\<in>set bs - {4096}. is_free m' c"
    by (auto simp: result_ok_def)
  have ph: "phys m' False 0 4096 bs 8160" using r(1) by (simp add: heap_ok_def)
  then obtain cs where bs: "bs = 4096 # cs" using r(2) by (cases bs) (auto simp: phys_Cons)
  have p: "phys m' False 4096 (after m' 4096) cs 8160" and pv: "\<not> prev_is_free m' 4096"
    using ph r(4) by (simp_all add: bs phys_Cons after_def)
  have "after m' 4096 \<noteq> 8160" "after m' 4096 \<noteq> 4096" using r(3) by (simp_all add: after_def)
  then have "after m' 4096 \<in> set bs - {4096}" using p by (cases cs) (auto simp: bs phys_Nil phys_Cons)
  with r(5) have "is_free m' (after m' 4096)" by blast
  with that r(1,2,4) pv show thesis by blast
qed

lemma tlsf_dealloc_correct_witness:
  "\<exists>m t L bs c m' t' L' bs'. heap_ok m t L 4096 bs 8160 \<and> \<not> is_free m 4096 \<and>
     global_dealloc (4096 + 32) (m, t) = Inr (m', t') \<and> is_free m' c \<and> c \<le> 4096 \<and> after m 4096 \<le> after m' c \<and>
     heap_ok (relink c m') t' L' 4096 bs' 8160"
proof -
  obtain m t L bs where h: "heap_ok m t L 4096 bs 8160" "4096 \<in> set bs" "\<not> is_free m 4096" by (rule sample_heap)
  have "(8160::nat) \<le> 4096 + 2 ^ 30" by simp
  from tlsf_dealloc_correct [OF h this] h(1,3) show ?thesis by blast
qed

lemma tlsf_dealloc_stale_link_witness:
  "\<exists>m t L bs m' t'. heap_ok m t L 4096 bs 8160 \<and> global_dealloc (4096 + 32) (m, t) = Inr (m', t') \<and>
     is_free m' 4096 \<and> ld64 m' (after m' 4096 + 8) = after m 4096 \<and> after m 4096 < after m' 4096"
proof -
  obtain m t L bs where h: "heap_ok m t L 4096 bs 8160" "4096 \<in> set bs" "\<not> is_free m 4096"
    and o: "is_free m (after m 4096)" "\<not> prev_is_free m 4096" by (rule sample_heap)
  have "(8160::nat) \<le> 4096 + 2 ^ 30" by simp
  from tlsf_dealloc_stale_link [OF h this o] h(1) show ?thesis by blast
qed

lemma tlsf_large_request_panics_witness:
  "global_alloc (2 ^ 30) 8 ((\<lambda>_. 0), tlsf_new) = Inl Index_out_of_bounds"
proof -
  have "bitmaps_ok tlsf_new" using tlsf_new_rep by (simp add: tlsf_rep_def)
  then show ?thesis by (rule tlsf_large_request_panics) simp_all
qed

subsection \<open>Over-aligned blocks\<close>

lemma ld64_zero: "(\<And>x. a \<le> x \<Longrightarrow> x < a + 8 \<Longrightarrow> m x = 0) \<Longrightarrow> ld64 m a = 0"
  by (simp add: ld_def)

text \<open>
  C25. \<open>dealloc\<close> looks for the block header 32 bytes before the address it is given, but \<open>alloc\<close> may have
  moved that address further into the payload to align it. On a heap whose free memory was never
  written, freeing an allocation that was moved by at least 32 bytes panics.
\<close>

theorem overaligned_dealloc_panics:
  assumes ok: "heap_ok m t L base bs e" and base: "8 dvd base" and k: "k \<le> 28"
    and req: "n = alloc_size (max lsize 32 + align_extra (2 ^ k))" "n < 2 ^ 29"
    and zero: "\<forall>b\<in>set bs. is_free m b \<longrightarrow> (\<forall>x. b + 32 \<le> x \<longrightarrow> x < b + 32 + block_size m b \<longrightarrow> m x = 0)"
    and run: "global_alloc lsize (2 ^ k) (m, t) = Inr (a, m', t')" "a \<noteq> 0"
    and moved: "\<forall>b\<in>set bs. a < b + 32 \<or> b + 64 \<le> a"
  shows "global_dealloc a (m', t') = Inl Arithmetic_overflow"
proof -
  obtain b where b: "b \<in> set bs" "is_free m b" and res: "result_ok m m' t' base bs e b n"
    and a: "b + 32 \<le> a" "a + max lsize 32 \<le> b + 32 + n"
    using global_alloc_ok [OF ok base k req] run by auto
  obtain L' bs' where heap: "heap_ok m' t' L' base bs' e" and fit: "n \<le> block_size m b"
      and part: "agree_off (header_bytes (bs @ [e]) \<union> {b + 32 + n..<b + 32 + block_size m b}) m m'"
    using res unfolding result_ok_def by blast
  have far: "b + 64 \<le> a" using moved b(1) a(1) by fastforce
  have ph: "phys m False 0 base bs e" using ok by (simp add: heap_ok_def)
  have z: "m' x = 0" if x: "b + 32 \<le> x" "x < b + 32 + n" for x
  proof -
    have "x < c \<or> c + 32 \<le> x" if c: "c \<in> set (bs @ [e])" for c
    proof (cases "c = b")
      case False
      obtain us vs where bs: "bs = us @ b # vs" using b(1) by (metis split_list)
      have "c \<in> set us \<or> c \<in> set (vs @ [e])" using c False bs by auto
      then show ?thesis using phys_split(3,4) [OF ph [unfolded bs], of c] x fit by auto
    qed (use x in simp)
    then have "x \<notin> header_bytes (bs @ [e]) \<union> {b + 32 + n..<b + 32 + block_size m b}"
      using x unfolding header_bytes_def by fastforce
    then show ?thesis using part zero b x fit by (simp add: agree_off_def)
  qed
  have w: "ld64 m' (a - 32) = 0" "ld64 m' a = 0" by (rule ld64_zero, rule z, use a far in simp_all)+
  have lz: "leading_zeros 0 = 64" by (simp add: leading_zeros_def bit_length.simps)
  have "a \<le> u64_max" using heap a fit phys_range [OF ph] b(1) ok by (fastforce simp: heap_ok_def)
  then show ?thesis using w far lz
    by (simp add: global_dealloc_def tlsf_dealloc_def HEADER_def checked_sub_def prev_is_free_def is_free_def next_phys_def
        block_size_def insert_free_def mapping_def and_not_def)
qed

lemma overaligned_dealloc_panics_witness:
  "\<exists>m t L a m' t'. heap_ok m t L 4096 [4096] 8160 \<and> global_alloc 100 (2 ^ 6) (m, t) = Inr (a, m', t') \<and>
     global_dealloc a (m', t') = Inl Arithmetic_overflow"
proof -
  obtain m t L where h: "heap_ok m t L 4096 [4096] (4096 + 4096 - 32)" and f: "is_free m 4096" "block_size m 4096 = 4096 - 64"
    and ag: "agree_off ({4096..<4096 + 32} \<union> {4096 + 4096 - 32..<4096 + 4096}) (\<lambda>_. 0) m"
    by (rule pool_heap [of 4096 4096 "\<lambda>_. 0"]) (auto simp: u64_max_def)
  have h': "heap_ok m t L 4096 [4096] 8160" using h by simp
  have n: "(168::nat) = alloc_size (max 100 32 + align_extra (2 ^ 6))" by (simp add: alloc_size_def align_extra_def)
  have d: "8 dvd (4096::nat)" "(6::nat) \<le> 28" "(168::nat) < 2 ^ 29" by simp_all
  have "\<not> (\<forall>b\<in>set [4096]. is_free m b \<longrightarrow> block_size m b < 2 * 168)" using f by simp
  with global_alloc_ok [OF h' d(1,2) n d(3)] obtain a b m' t' where r: "global_alloc 100 (2 ^ 6) (m, t) = Inr (a, m', t')"
    "b \<in> set [4096]" "2 ^ 6 dvd a" "b + 32 \<le> a" by blast
  have "a \<noteq> 4128 + j" if "j < 32" for j
  proof
    assume "a = 4128 + j"
    then have "(4128 + j) mod 64 = 0" using r(3) by (simp add: dvd_eq_mod_eq_0)
    then show False using that by presburger
  qed
  from this [of "a - 4128"] have far: "4160 \<le> a" using r(2,4) by fastforce
  have zero: "\<forall>b\<in>set [4096]. is_free m b \<longrightarrow> (\<forall>x. b + 32 \<le> x \<longrightarrow> x < b + 32 + block_size m b \<longrightarrow> m x = 0)"
    using ag f(2) by (simp add: agree_off_def)
  have "a \<noteq> 0" "\<forall>b\<in>set [4096]. a < b + 32 \<or> b + 64 \<le> a" using far by simp_all
  from overaligned_dealloc_panics [OF h' d(1,2) n d(3) zero r(1) this] h' r(1) show ?thesis by blast
qed

end
