(* ===== verification/Tlsf_Search.thy ===== *)
theory Tlsf_Search
  imports Tlsf_Correct
begin

text \<open>
  The bitmap search of \<open>find_free\<close> against a plain scan: going through the size classes in order
  from the class of the request, the first that has a free block gives the head of its list.
\<close>

definition first_fit :: "classes \<Rightarrow> nat \<times> nat \<Rightarrow> nat option" where
  "first_fit L c =
     map_option (\<lambda>(f, s). hd (L f s))
       (find (\<lambda>(f, s). class_le c (f, s) \<and> L f s \<noteq> []) (List.product [0..<30] [0..<32]))"

subsection \<open>Scanning in order\<close>

lemma product_at: "i < n * k \<Longrightarrow> List.product [0..<n] [0..<k] ! i = (i div k, i mod k)"
  by (cases "k = 0") (simp_all add: product_nth less_mult_imp_div_less)

lemma find_product:
  assumes "f < n" and "s < k" and "P (f, s)" and "\<And>f' s'. f' < f \<Longrightarrow> s' < k \<Longrightarrow> \<not> P (f', s')"
    and "\<And>s'. s' < s \<Longrightarrow> \<not> P (f, s')"
  shows "find P (List.product [0..<n] [0..<k]) = Some (f, s)"
proof -
  let ?xs = "List.product [0..<n] [0..<k]" and ?i = "f * k + s"
  have "?i < (f + 1) * k" using assms(2) by simp
  also have "\<dots> \<le> n * k" using assms(1) by (intro mult_le_mono1) simp
  finally have i: "?i < n * k" .
  have at: "?xs ! ?i = (f, s)" using product_at [OF i] assms(2) by simp
  have before: "\<not> P (?xs ! j)" if j: "j < ?i" for j
  proof -
    have "j div k \<le> f"
    proof -
      have "j < (f + 1) * k" using j assms(2) by simp
      then show ?thesis using less_mult_imp_div_less [of j "f + 1" k] by simp
    qed
    then consider "j div k < f" | "j div k = f" by linarith
    then have "\<not> P (j div k, j mod k)"
    proof cases
      case 1
      then show ?thesis using assms(2) by (intro assms(4)) auto
    next
      case 2
      then have "j mod k < s" using j div_mult_mod_eq [of j k] by simp
      then show ?thesis using 2 assms(5) by simp
    qed
    then show ?thesis using product_at [of j n k] j i by simp
  qed
  show ?thesis
    unfolding find_Some_iff using i at before assms(3) by (intro exI [of _ ?i]) simp
qed

lemma low_bit: "j < trailing_zeros32 w \<Longrightarrow> \<not> bit w j"
proof (cases "w = 0")
  case False
  assume j: "j < trailing_zeros32 w"
  then have "j < trailing_zeros (unat w)" using False by (simp add: trailing_zeros32_def)
  then have "(2::nat) ^ Suc j dvd 2 ^ trailing_zeros (unat w)" by (intro le_imp_power_dvd) simp
  moreover have "2 ^ trailing_zeros (unat w) dvd unat w" by (rule trailing_zeros_dvd) (use False in \<open>simp add: unat_eq_0\<close>)
  ultimately obtain q where "unat w = 2 ^ Suc j * q" by (metis dvdE dvd_trans)
  then have "\<not> bit (unat w) j" by (simp add: bit_iff_odd)
  then show ?thesis by (simp add: bit_unsigned_iff)
qed simp

lemma listed_bit:
  assumes "tlsf_rep m t L" and "f < 30" and "s < 32"
  shows "bit (sl_bitmap t ! f) s \<longleftrightarrow> L f s \<noteq> []"
    and "L f s \<noteq> [] \<Longrightarrow> tl_lists t ! f ! s = hd (L f s)"
proof -
  show "bit (sl_bitmap t ! f) s \<longleftrightarrow> L f s \<noteq> []"
    unfolding bitmapsD(5) [OF tlsf_repD(1) [OF assms(1)] assms(2,3)] dll_head_zero [OF tlsf_repD(4) [OF assms]] ..
  show "L f s \<noteq> [] \<Longrightarrow> tl_lists t ! f ! s = hd (L f s)" using dll_head [OF tlsf_repD(4) [OF assms]] by simp
qed

subsection \<open>The two searches agree\<close>

lemma first_fit_at:
  assumes rep: "tlsf_rep m t L" and f: "f < 30" "s < 32" and b: "bit (sl_bitmap t ! f) s" and le: "class_le (fl, sl) (f, s)"
    and mid: "\<And>f'. fl < f' \<Longrightarrow> f' < f \<Longrightarrow> sl_bitmap t ! f' = 0"
    and lo: "fl < f \<Longrightarrow> (\<forall>s'. sl \<le> s' \<longrightarrow> \<not> bit (sl_bitmap t ! fl) s')"
    and row: "\<And>s'. s' < s \<Longrightarrow> f = fl \<Longrightarrow> sl \<le> s' \<Longrightarrow> \<not> bit (sl_bitmap t ! f) s'" "\<And>s'. s' < s \<Longrightarrow> fl < f \<Longrightarrow> \<not> bit (sl_bitmap t ! f) s'"
  shows "first_fit L (fl, sl) = Some (tl_lists t ! f ! s)"
proof -
  have ne: "L f s \<noteq> []" using listed_bit(1) [OF rep f] b by simp
  have "find (\<lambda>(f, s). class_le (fl, sl) (f, s) \<and> L f s \<noteq> []) (List.product [0..<30] [0..<32]) = Some (f, s)"
  proof (rule find_product [OF f])
    show "case (f, s) of (f, s) \<Rightarrow> class_le (fl, sl) (f, s) \<and> L f s \<noteq> []" using le ne by simp
    show "\<not> (case (f', s') of (f, s) \<Rightarrow> class_le (fl, sl) (f, s) \<and> L f s \<noteq> [])" if "f' < f" "s' < 32" for f' s'
    proof -
      have "\<not> bit (sl_bitmap t ! f') s'" if le': "class_le (fl, sl) (f', s')"
      proof (cases "f' = fl")
        case True
        then show ?thesis using lo \<open>f' < f\<close> le' by (simp add: class_le_def)
      next
        case False
        then have "sl_bitmap t ! f' = 0" using mid \<open>f' < f\<close> le' by (simp add: class_le_def)
        then show ?thesis by simp
      qed
      then show ?thesis using listed_bit(1) [OF rep _ \<open>s' < 32\<close>, of f'] \<open>f' < f\<close> f(1) by auto
    qed
    show "\<not> (case (f, s') of (f, s) \<Rightarrow> class_le (fl, sl) (f, s) \<and> L f s \<noteq> [])" if "s' < s" for s'
      using row [OF that] listed_bit(1) [OF rep f(1), of s'] that f(2) le by (auto simp: class_le_def)
  qed
  then show ?thesis using listed_bit(2) [OF rep f ne] by (simp add: first_fit_def)
qed

lemma find_free_scan:
  assumes rep: "tlsf_rep m t L" and ms: "mapping_search n = Inr (fl, sl)" and fl: "fl < 30" and sl: "sl < 32"
  shows "find_free t n = Inr (first_fit L (fl, sl))"
proof -
  note t = tlsf_repD(1) [OF rep]
  define sl_map where "sl_map = drop_bit sl (sl_bitmap t ! fl)"
  define fl_map where "fl_map = drop_bit (fl + 1) (fl_bitmap t)"
  show ?thesis
  proof (cases "sl_map = 0")
    case False
    let ?s = "sl + trailing_zeros32 sl_map"
    have b: "bit (sl_bitmap t ! fl) ?s" using bit_trailing_zeros32 [OF False] by (simp add: sl_map_def bit_simps)
    then have s: "?s < 32" using bit_imp_le_length [OF b] by simp
    have run: "find_free t n = Inr (Some (tl_lists t ! fl ! ?s))"
      using ms False fl t s by (simp add: find_free_def bitmapsD sl_map_def [symmetric] list_at_ok)
    have "\<not> bit (sl_bitmap t ! fl) s'" if "s' < ?s" "sl \<le> s'" for s'
      using low_bit [of "s' - sl" sl_map] that by (simp add: sl_map_def bit_simps)
    then have "first_fit L (fl, sl) = Some (tl_lists t ! fl ! ?s)"
      by (intro first_fit_at [OF rep fl s b]) (auto simp: class_le_def)
    with run show ?thesis by simp
  next
    case True
    have row0: "\<not> bit (sl_bitmap t ! fl) s'" if "sl \<le> s'" for s'
    proof -
      have "\<not> bit sl_map (s' - sl)" using True by simp
      then show ?thesis using that by (simp add: sl_map_def bit_simps)
    qed
    show ?thesis
    proof (cases "fl_map = 0")
      case False
      let ?f = "fl + (1 + trailing_zeros32 fl_map)"
      have "bit (fl_bitmap t) ?f" using bit_trailing_zeros32 [OF False] by (simp add: fl_map_def bit_simps)
      then have f: "?f < 30" "sl_bitmap t ! ?f \<noteq> 0" using bitmapsD(4) [OF t] by simp_all
      let ?s = "trailing_zeros32 (sl_bitmap t ! ?f)"
      have b: "bit (sl_bitmap t ! ?f) ?s" using bit_trailing_zeros32 [OF f(2)] .
      then have s: "?s < 32" using bit_imp_le_length [OF b] by simp
      have run: "find_free t n = Inr (Some (tl_lists t ! ?f ! ?s))"
        using ms True False fl t f s unfolding sl_map_def fl_map_def
        by (simp add: find_free_def bitmapsD list_at_ok Let_def)
      have mid: "sl_bitmap t ! f' = 0" if "fl < f'" "f' < ?f" for f'
      proof -
        have "\<not> bit fl_map (f' - (fl + 1))" by (rule low_bit) (use that in linarith)
        then have "\<not> bit (fl_bitmap t) f'" using that(1) by (simp add: fl_map_def bit_simps)
        then show ?thesis using bitmapsD(4) [OF t, of f'] that f(1) by simp
      qed
      have "first_fit L (fl, sl) = Some (tl_lists t ! ?f ! ?s)"
        by (rule first_fit_at [OF rep f(1) s b]) (use mid row0 low_bit in \<open>auto simp: class_le_def\<close>)
      with run show ?thesis by simp
    next
      case none: True
      have run: "find_free t n = Inr None"
        using ms True none fl t unfolding sl_map_def fl_map_def by (simp add: find_free_def bitmapsD)
      have "L f s = []" if "class_le (fl, sl) (f, s)" "f < 30" "s < 32" for f s
      proof (cases "f = fl")
        case True
        then show ?thesis using that listed_bit(1) [OF rep that(2,3)] row0 [of s] by (simp add: class_le_def)
      next
        case False
        then have "fl < f" using that(1) by (simp add: class_le_def)
        moreover have "\<not> bit fl_map (f - (fl + 1))" using none by simp
        ultimately have "\<not> bit (fl_bitmap t) f" by (simp add: fl_map_def bit_simps)
        then have "sl_bitmap t ! f = 0" using bitmapsD(4) [OF t, of f] that(2) by simp
        then show ?thesis using listed_bit(1) [OF rep that(2,3)] by simp
      qed
      then have "first_fit L (fl, sl) = None" by (auto simp: first_fit_def find_None_iff)
      with run show ?thesis by simp
    qed
  qed
qed

text \<open>
  C23. \<open>find_free\<close>, which looks for a block with two bitmap searches, returns what a scan of all size
  classes would: the head of the first list that is not empty, in order from the class that
  \<open>mapping_search\<close> gives, whose blocks are all large enough for the request; or nothing if all of
  these lists are empty.
\<close>

theorem find_free_is_first_fit:
  assumes "tlsf_rep m t L" and "32 \<le> n" and "n < 2 ^ 29"
  shows "\<exists>c. mapping_search n = Inr c \<and> n \<le> class_floor c \<and> find_free t n = Inr (first_fit L c)"
proof -
  obtain c where c: "start_class n c" by (rule start_class_ex [OF assms(2,3)])
  obtain fl sl where "c = (fl, sl)" by (cases c)
  with c find_free_scan [OF assms(1), of n fl sl] show ?thesis by (auto simp: start_class_def)
qed

theorem find_free_is_first_fit_witness:
  "\<exists>m t. add_pool 4096 4194304 (\<lambda>_. 0, tlsf_new) = Inr (m, t) \<and> find_free t 64 = Inr (Some 4096)"
proof -
  have cl: "mapping (4194304 - 64) = Inr (21, 31)"
  proof -
    have "bit_length 4194240 = 22" by (simp add: bit_length.simps)
    then show ?thesis
      by (simp add: mapping_def leading_zeros_def SL_INDEX_COUNT_def and_31 [simplified] drop_bit_eq_div)
  qed
  have a: "(4096::nat) \<noteq> 0" "(4096::nat) + 4194304 \<le> u64_max" by (simp_all add: u64_max_def)
  obtain m t where p: "add_pool 4096 4194304 (\<lambda>_. 0, tlsf_new) = Inr (m, t)"
    "tlsf_rep m t (set_class 21 31 [4096] (\<lambda>_ _. []))"
    by (rule add_pool_ok [OF tlsf_new_rep [of "\<lambda>_. 0"] _ _ a _ cl]) (simp_all add: free_blocks_def)
  have ms: "mapping_search 64 = Inr (6, 0)"
  proof -
    have "bit_length 64 = 7" "bit_length 65 = 7" by (simp_all add: bit_length.simps)
    then show ?thesis
      by (simp add: mapping_search_def mapping_def leading_zeros_def SL_INDEX_COUNT_def SL_COUNT_def and_31 [simplified]
          drop_bit_eq_div push_bit_eq_mult checked_sub_def checked_add_def u64_max_def Let_def)
  qed
  have "find (\<lambda>(f, s). class_le (6, 0) (f, s) \<and> set_class 21 31 [4096] (\<lambda>_ _. []) f s \<noteq> [])
      (List.product [0..<30] [0..<32]) = Some (21, 31)"
    by (rule find_product) (simp_all add: class_le_def set_class_def)
  then have "first_fit (set_class 21 31 [4096] (\<lambda>_ _. [])) (6, 0) = Some 4096" by (simp add: first_fit_def set_class_def)
  with find_free_is_first_fit [OF p(2), of 64] ms p(1) show ?thesis by auto
qed

end
