(* ===== verification/Boot_Info.thy ===== *)
theory Boot_Info
  imports Bitwise
begin

text \<open>
  \<^verbatim>\<open>src/src/limine_data.rs\<close>, the data: memory regions and what \<open>harvest\<close> copies out of the boot
  loader's responses. The responses (the \<^verbatim>\<open>limine\<close> crate's request statics and type constants) and
  the linker's kernel symbols are the record \<open>limine\<close>. Addresses and lengths are natural numbers
  in checked 64-bit arithmetic.
\<close>

subsection \<open>Memory regions\<close>

datatype region_type =
  Usable | BootloaderReclaimable | AcpiReclaimable | AcpiNvs | ExecutableAndModules
  | Framebuffer_memory | BadMemory | Reserved

record memory_region =
  rg_base :: nat
  rg_length :: nat
  rg_type :: region_type

definition region_end :: "memory_region \<Rightarrow> nat res" where
  "region_end r = checked_add (rg_base r) (rg_length r)"

definition aligned_base :: "bitwise \<Rightarrow> memory_region \<Rightarrow> nat" where
  "aligned_base w r = align_up w (rg_base r) 4096"

definition aligned_end :: "bitwise \<Rightarrow> memory_region \<Rightarrow> nat res" where
  "aligned_end w r = and_then (region_end r) (\<lambda>e. Inr (align_down w e 4096))"

definition has_pages :: "bitwise \<Rightarrow> memory_region \<Rightarrow> bool res" where
  "has_pages w r = and_then (aligned_end w r) (\<lambda>e. Inr (aligned_base w r < e))"

fun is_immediately_usable :: "region_type \<Rightarrow> bool" where
  "is_immediately_usable Usable = True"
| "is_immediately_usable _ = False"

fun is_reclaimable :: "region_type \<Rightarrow> bool" where
  "is_reclaimable BootloaderReclaimable = True"
| "is_reclaimable AcpiReclaimable = True"
| "is_reclaimable _ = False"

subsection \<open>Harvested data\<close>

record framebuffer_info =
  fi_virt_addr :: nat
  fi_phys_addr :: nat
  fi_width :: nat
  fi_height :: nat
  fi_pitch :: nat
  fi_bits_per_pixel :: nat
  fi_byte_size :: nat
  fi_r_shift :: nat
  fi_g_shift :: nat
  fi_b_shift :: nat

record bootloader_info =
  bi_name :: "u8 list"
  bi_name_len :: nat
  bi_version :: "u8 list"
  bi_version_len :: nat

definition MAX_REGIONS :: nat where "MAX_REGIONS = 512"

record limine_data =
  hhdm_offset :: nat
  kernel_phys_start :: nat
  kernel_phys_end :: nat
  kernel_virt_start :: nat
  kernel_virt_end :: nat
  region_array :: "memory_region list"
  region_count :: nat
  framebuffer :: "framebuffer_info option"
  rsdp_phys :: "nat option"
  bootloader :: "bootloader_info option"

definition regions :: "limine_data \<Rightarrow> memory_region list" where
  "regions d = take (region_count d) (region_array d)"

definition usable_regions :: "limine_data \<Rightarrow> memory_region list" where
  "usable_regions d = filter (is_immediately_usable \<circ> rg_type) (regions d)"

definition reclaimable_regions :: "limine_data \<Rightarrow> memory_region list" where
  "reclaimable_regions d = filter (is_reclaimable \<circ> rg_type) (regions d)"

subsection \<open>The boot loader's responses\<close>

record limine_entry =
  le_base :: nat
  le_length :: nat
  le_type :: nat

record limine_framebuffer =
  lf_address :: nat
  lf_width :: nat
  lf_height :: nat
  lf_pitch :: nat
  lf_bpp :: nat
  lf_red_mask_shift :: nat
  lf_green_mask_shift :: nat
  lf_blue_mask_shift :: nat

record limine =
  hhdm_response :: "nat option"
  kernel_address_response :: "(nat \<times> nat) option"
  memmap_response :: "limine_entry list option"
  framebuffer_response :: "limine_framebuffer list option"
  rsdp_response :: "nat option"
  bootloader_info_response :: "(u8 list \<times> u8 list) option"
  kernel_start_symbol :: nat
  kernel_end_symbol :: nat
  MEMMAP_USABLE :: nat
  MEMMAP_BOOTLOADER_RECLAIMABLE :: nat
  MEMMAP_ACPI_RECLAIMABLE :: nat
  MEMMAP_ACPI_NVS :: nat
  MEMMAP_EXECUTABLE_AND_MODULES :: nat
  MEMMAP_FRAMEBUFFER :: nat
  MEMMAP_BAD_MEMORY :: nat

subsection \<open>Harvesting\<close>

definition expect_some :: "string \<Rightarrow> 'a option \<Rightarrow> 'a res" where
  "expect_some msg x = (case x of None \<Rightarrow> Inl (Expect msg) | Some y \<Rightarrow> Inr y)"

definition classify :: "limine \<Rightarrow> nat \<Rightarrow> region_type" where
  "classify l t =
     (if t = MEMMAP_USABLE l then Usable
      else if t = MEMMAP_BOOTLOADER_RECLAIMABLE l then BootloaderReclaimable
      else if t = MEMMAP_ACPI_RECLAIMABLE l then AcpiReclaimable
      else if t = MEMMAP_ACPI_NVS l then AcpiNvs
      else if t = MEMMAP_EXECUTABLE_AND_MODULES l then ExecutableAndModules
      else if t = MEMMAP_FRAMEBUFFER l then Framebuffer_memory
      else if t = MEMMAP_BAD_MEMORY l then BadMemory
      else Reserved)"

fun copy_entries :: "limine \<Rightarrow> limine_entry list \<Rightarrow> memory_region list \<times> nat \<Rightarrow> (memory_region list \<times> nat) res" where
  "copy_entries l [] (rs, n) = Inr (rs, n)"
| "copy_entries l (e # es) (rs, n) =
     (if n \<ge> MAX_REGIONS then Inr (rs, n)
      else
        and_then (set_index rs n \<lparr>rg_base = le_base e, rg_length = le_length e, rg_type = classify l (le_type e)\<rparr>) (\<lambda>rs.
        copy_entries l es (rs, n + 1)))"

definition harvest_framebuffer :: "nat \<Rightarrow> limine_framebuffer \<Rightarrow> framebuffer_info res" where
  "harvest_framebuffer hhdm fb =
     and_then (checked_sub (lf_address fb) hhdm) (\<lambda>phys.
     and_then (checked_mul (lf_height fb) (lf_pitch fb)) (\<lambda>bytes.
     Inr \<lparr>fi_virt_addr = lf_address fb, fi_phys_addr = phys, fi_width = lf_width fb mod 2 ^ 32,
          fi_height = lf_height fb mod 2 ^ 32, fi_pitch = lf_pitch fb mod 2 ^ 32,
          fi_bits_per_pixel = lf_bpp fb, fi_byte_size = bytes, fi_r_shift = lf_red_mask_shift fb,
          fi_g_shift = lf_green_mask_shift fb, fi_b_shift = lf_blue_mask_shift fb\<rparr>))"

definition copy_name :: "u8 list \<Rightarrow> u8 list \<times> nat" where
  "copy_name bytes =
     (let n = min (length bytes) 63
      in (take n bytes @ drop n (replicate 64 0), n))"

definition harvest_bootloader :: "u8 list \<times> u8 list \<Rightarrow> bootloader_info" where
  "harvest_bootloader r =
     (let (name, name_len) = copy_name (fst r);
          (version, version_len) = copy_name (snd r)
      in \<lparr>bi_name = name, bi_name_len = name_len, bi_version = version, bi_version_len = version_len\<rparr>)"

definition harvest :: "bitwise \<Rightarrow> limine \<Rightarrow> bool \<Rightarrow> (limine_data \<times> bool) res" where
  "harvest w l harvested =
     and_then (guard (\<not> harvested) (Assertion ''LimineData::harvest() called more than once'')) (\<lambda>_.
     and_then (expect_some ''Limine: no HHDM response'' (hhdm_response l)) (\<lambda>hhdm.
     and_then (expect_some ''Limine: no kernel address response'' (kernel_address_response l)) (\<lambda>(phys, virt).
     let kernel_size = kernel_end_symbol l - kernel_start_symbol l
     in and_then (checked_add virt kernel_size) (\<lambda>virt_end.
        and_then (checked_add phys kernel_size) (\<lambda>phys_end.
        and_then (expect_some ''Limine: no memory map response'' (memmap_response l)) (\<lambda>entries.
        and_then (copy_entries l entries
          (replicate MAX_REGIONS \<lparr>rg_base = 0, rg_length = 0, rg_type = Reserved\<rparr>, 0)) (\<lambda>(rs, n).
        and_then
          (case Option.bind (framebuffer_response l) (\<lambda>fbs. case fbs of [] \<Rightarrow> None | fb # _ \<Rightarrow> Some fb) of
             None \<Rightarrow> Inr None
           | Some fb \<Rightarrow> and_then (harvest_framebuffer hhdm fb) (\<lambda>f. Inr (Some f))) (\<lambda>fb.
        Inr (\<lparr>hhdm_offset = hhdm, kernel_phys_start = phys, kernel_phys_end = align_up w phys_end 4096,
              kernel_virt_start = virt, kernel_virt_end = virt_end, region_array = rs, region_count = n,
              framebuffer = fb, rsdp_phys = map_option (\<lambda>a. a - hhdm) (rsdp_response l),
              bootloader = map_option harvest_bootloader (bootloader_info_response l)\<rparr>, True)))))))))"

subsection \<open>What is harvested\<close>

lemma copy_entries_ok:
  assumes "length rs = MAX_REGIONS" and "n \<le> MAX_REGIONS"
  shows "\<exists>rs' n'. copy_entries l es (rs, n) = Inr (rs', n') \<and> length rs' = MAX_REGIONS \<and> n' \<le> MAX_REGIONS \<and>
    take n' rs' = take n rs @ map (\<lambda>e. \<lparr>rg_base = le_base e, rg_length = le_length e, rg_type = classify l (le_type e)\<rparr>)
      (take (MAX_REGIONS - n) es)"
  using assms
proof (induction es arbitrary: rs n)
  case Nil
  then show ?case by simp
next
  case (Cons e es)
  show ?case
  proof (cases "n \<ge> MAX_REGIONS")
    case True
    with Cons.prems show ?thesis by simp
  next
    case False
    let ?x = "\<lparr>rg_base = le_base e, rg_length = le_length e, rg_type = classify l (le_type e)\<rparr>"
    have n: "n < length rs" using False Cons.prems by simp
    have "take (Suc n) (rs[n := ?x]) = take n rs @ [?x]" using n by (simp add: take_Suc_conv_app_nth)
    moreover have "MAX_REGIONS - n = Suc (MAX_REGIONS - Suc n)" using False by simp
    ultimately show ?thesis
      using Cons.IH [of "rs[n := ?x]" "Suc n"] Cons.prems False n by auto
  qed
qed


definition demo_limine :: limine where
  "demo_limine =
     \<lparr>hhdm_response = Some 0x1000000, kernel_address_response = Some (0x200000, 0x8000000),
      memmap_response = Some [\<lparr>le_base = 0, le_length = 0x9F000, le_type = 1\<rparr>,
        \<lparr>le_base = 0x100000, le_length = 0x400000, le_type = 0\<rparr>],
      framebuffer_response = None, rsdp_response = Some 0x1000500,
      bootloader_info_response = Some ([76, 105], [50]),
      kernel_start_symbol = 0x8000000, kernel_end_symbol = 0x8001800,
      MEMMAP_USABLE = 0, MEMMAP_BOOTLOADER_RECLAIMABLE = 5, MEMMAP_ACPI_RECLAIMABLE = 2, MEMMAP_ACPI_NVS = 3,
      MEMMAP_EXECUTABLE_AND_MODULES = 6, MEMMAP_FRAMEBUFFER = 7, MEMMAP_BAD_MEMORY = 4\<rparr>"


end
