(* ===== verification/Boot_Memory.thy ===== *)
theory Boot_Memory
  imports Boot_Info Mantle Tlsf
begin

text \<open>
  The memory side of the boot: \<^verbatim>\<open>src/src/memory/heap.rs\<close> (the usable regions become the buddy
  allocator's, and 4 MiB of them the TLSF heap), \<^verbatim>\<open>LimineData::release\<close> of
  \<^verbatim>\<open>src/src/limine_data.rs\<close>, \<^verbatim>\<open>src/src/memory/vmm.rs\<close>, \<^verbatim>\<open>src/src/memory/stack.rs\<close>, and the search for
  the region of the boot stack in \<^verbatim>\<open>src/src/main.rs\<close>. The stack pointer that the inline assembly
  reads is an argument; the lines printed are not modelled.
\<close>

subsection \<open>The heap\<close>

text \<open>Pass 1: the addresses of the usable regions, and the least of them.\<close>

fun usable_bases :: "bitwise \<Rightarrow> nat \<Rightarrow> memory_region list \<Rightarrow> nat list res" where
  "usable_bases w hhdm [] = Inr []"
| "usable_bases w hhdm (r # rs) =
     (if is_immediately_usable (rg_type r) then
        and_then (checked_add hhdm (aligned_base w r)) (\<lambda>v.
        and_then (usable_bases w hhdm rs) (\<lambda>vs. Inr (v # vs)))
      else usable_bases w hhdm rs)"

definition min_virt :: "bitwise \<Rightarrow> nat \<Rightarrow> memory_region list \<Rightarrow> nat res" where
  "min_virt w hhdm rs =
     and_then (usable_bases w hhdm rs) (\<lambda>vs.
     expect_some ''no usable memory'' (if vs = [] then None else Some (min_list vs)))"

text \<open>Pass 2: one region, without the kernel's pages.\<close>

definition add_pages :: "nat \<Rightarrow> nat \<Rightarrow> nat \<Rightarrow> mem \<times> buddy \<Rightarrow> (mem \<times> buddy) res" where
  "add_pages hhdm base part_end s =
     (let page_count = (part_end - base) div 4096
      in if page_count > 0 then
           and_then (checked_add hhdm base) (\<lambda>v. add_region v page_count s)
         else Inr s)"

definition add_usable ::
  "bitwise \<Rightarrow> nat \<Rightarrow> nat \<Rightarrow> nat \<Rightarrow> memory_region \<Rightarrow> mem \<times> buddy \<Rightarrow> (mem \<times> buddy) res" where
  "add_usable w hhdm kernel_start kernel_end r s =
     (if rg_type r \<noteq> Usable then Inr s
      else
        let base = aligned_base w r
        in and_then (aligned_end w r) (\<lambda>end_addr.
           if base \<ge> end_addr then Inr s
           else
             and_then (if base < kernel_start then add_pages hhdm base (min end_addr kernel_start) s else Inr s) (\<lambda>s.
             if end_addr > kernel_end then add_pages hhdm (max base kernel_end) end_addr s else Inr s)))"

fun add_usable_regions ::
  "bitwise \<Rightarrow> nat \<Rightarrow> nat \<Rightarrow> nat \<Rightarrow> memory_region list \<Rightarrow> mem \<times> buddy \<Rightarrow> (mem \<times> buddy) res" where
  "add_usable_regions w hhdm ks ke [] s = Inr s"
| "add_usable_regions w hhdm ks ke (r # rs) s =
     and_then (add_usable w hhdm ks ke r s) (add_usable_regions w hhdm ks ke rs)"

definition init_from_ptr :: "nat \<Rightarrow> nat \<Rightarrow> mem \<times> tlsf \<Rightarrow> (mem \<times> tlsf) res" where
  "init_from_ptr p sz s = add_pool p sz s"

definition heap_init ::
  "bitwise \<Rightarrow> memory_region list \<Rightarrow> nat \<Rightarrow> nat \<Rightarrow> nat \<Rightarrow> mem \<times> buddy \<times> tlsf \<Rightarrow> (mem \<times> buddy \<times> tlsf) res" where
  "heap_init w rs phys_start phys_end hhdm = (\<lambda>(m, b, t).
     let ks = align_down w phys_start 4096;
         ke = align_up w phys_end 4096
     in and_then (min_virt w hhdm rs) (\<lambda>base.
        and_then (set_base base b) (\<lambda>b.
        and_then (add_usable_regions w hhdm ks ke rs (m, b)) (\<lambda>(m, b).
        and_then (alloc_pages 10 (m, b)) (\<lambda>(r, m, b).
        and_then (expect_some ''TLSF init: buddy OOM'' r) (\<lambda>pool.
        and_then (init_from_ptr pool (push_bit 10 4096) (m, t)) (\<lambda>(m, t).
        Inr (m, b, t))))))))"

subsection \<open>Releasing the boot loader's memory\<close>

definition sp_page :: "nat \<Rightarrow> nat \<Rightarrow> nat res" where
  "sp_page hhdm sp = and_then (checked_sub sp hhdm) (\<lambda>x. Inr (and_not x 0xFFF))"

definition release_region ::
  "bitwise \<Rightarrow> nat \<Rightarrow> nat \<Rightarrow> memory_region \<Rightarrow> mem \<times> buddy \<Rightarrow> (mem \<times> buddy) res" where
  "release_region w hhdm page r s =
     (let base = aligned_base w r
      in and_then (aligned_end w r) (\<lambda>end_addr.
         if base \<ge> end_addr then Inr s
         else if base < 0x100000 then Inr s
         else if page \<ge> base \<and> page < end_addr then Inr s
         else
           let page_count = (end_addr - base) div 4096
           in if page_count = 0 then Inr s
              else and_then (checked_add hhdm base) (\<lambda>v. add_region v page_count s)))"

fun release_regions ::
  "bitwise \<Rightarrow> nat \<Rightarrow> nat \<Rightarrow> memory_region list \<Rightarrow> mem \<times> buddy \<Rightarrow> (mem \<times> buddy) res" where
  "release_regions w hhdm page [] s = Inr s"
| "release_regions w hhdm page (r # rs) s =
     and_then (release_region w hhdm page r s) (release_regions w hhdm page rs)"

definition release :: "bitwise \<Rightarrow> limine_data \<Rightarrow> nat \<Rightarrow> mem \<times> buddy \<Rightarrow> (mem \<times> buddy) res" where
  "release w d sp s =
     and_then (sp_page (hhdm_offset d) sp) (\<lambda>page.
     release_regions w (hhdm_offset d) page (reclaimable_regions d) s)"

text \<open>\<open>boot.reclaimable_regions().find(..)\<close>: the region of the boot stack.\<close>

fun find_stack_region :: "bitwise \<Rightarrow> nat \<Rightarrow> memory_region list \<Rightarrow> memory_region option res" where
  "find_stack_region w page [] = Inr None"
| "find_stack_region w page (r # rs) =
     (let base = aligned_base w r
      in and_then (aligned_end w r) (\<lambda>end_addr.
         if base \<ge> 0x100000 \<and> base < end_addr \<and> page \<ge> base \<and> page < end_addr then Inr (Some r)
         else find_stack_region w page rs))"

definition boot_stack_region :: "bitwise \<Rightarrow> limine_data \<Rightarrow> nat \<Rightarrow> (nat \<times> nat) option res" where
  "boot_stack_region w d sp =
     and_then (sp_page (hhdm_offset d) sp) (\<lambda>page.
     and_then (find_stack_region w page (reclaimable_regions d)) (\<lambda>found.
     case found of
       None \<Rightarrow> Inr None
     | Some r \<Rightarrow>
         let base = aligned_base w r
         in and_then (aligned_end w r) (\<lambda>end_addr.
            let pages = (end_addr - base) div 4096
            in if pages > 0 then
                 and_then (checked_add (hhdm_offset d) base) (\<lambda>v. Inr (Some (v, pages)))
               else Inr None)))"

text \<open>The start of \<open>kernel_main_continue\<close>: the deferred region.\<close>

definition release_boot_stack :: "(nat \<times> nat) option \<Rightarrow> mem \<times> buddy \<Rightarrow> (mem \<times> buddy) res" where
  "release_boot_stack region s =
     (case region of None \<Rightarrow> Inr s | Some (virt_base, page_count) \<Rightarrow> add_region virt_base page_count s)"

subsection \<open>The walker instance and the kernel stack\<close>

text \<open>The \<open>Once\<close> cell holds the walker, which is its HHDM offset.\<close>

definition vmm_init :: "nat \<Rightarrow> nat option \<times> mmu \<Rightarrow> nat option \<times> mmu" where
  "vmm_init hhdm = (\<lambda>(vmm, s). case vmm of None \<Rightarrow> (Some hhdm, init_pat s) | Some _ \<Rightarrow> (vmm, s))"

definition vmm_get :: "nat option \<Rightarrow> nat res" where
  "vmm_get vmm = expect_some ''vmm not initialized'' vmm"

definition next_power_of_two :: "nat \<Rightarrow> nat res" where
  "next_power_of_two n =
     (if n \<le> 1 then Inr 1 else checked_add (drop_bit (leading_zeros (n - 1)) u64_max) 1)"

record kernel_stack =
  stack_top :: nat
  stack_guard :: nat

definition alloc_kernel_stack :: "bitwise \<Rightarrow> nat option \<Rightarrow> nat \<Rightarrow> mmu \<Rightarrow> (kernel_stack \<times> mmu) res" where
  "alloc_kernel_stack w vmm min_pages s =
     and_then (checked_add min_pages 1) (\<lambda>n.
     and_then (next_power_of_two n) (\<lambda>p.
     let total_order = trailing_zeros p;
         total_pages = push_bit total_order 1
     in and_then (alloc_pages total_order (mu_mem s, mu_frames s)) (\<lambda>(r, m, b).
        and_then (expect_some ''kernel stack OOM'' r) (\<lambda>base_virt.
        and_then (vmm_get vmm) (\<lambda>hhdm.
        and_then (unmap_page w hhdm base_virt (s\<lparr>mu_mem := m, mu_frames := b\<rparr>)) (\<lambda>s.
        and_then (checked_mul total_pages 0x1000) (\<lambda>bytes.
        and_then (checked_add base_virt bytes) (\<lambda>top.
        Inr (\<lparr>stack_top = top, stack_guard = base_virt\<rparr>, s)))))))))"

end
