(* ===== verification/Machine_State.thy ===== *)
theory Machine_State
  imports Prelude
begin

text \<open>
  The machine state that the interrupt and timer code shares: the history of port operations
  (newest first), the static arrays and atomics of the interrupt modules, and the local APIC.
  The devices are the parameter \<open>bus\<close>: what a read of a port returns after a history of port
  operations. The \<^verbatim>\<open>pic8259\<close> crate is not part of the repository: \<open>chained_init\<close> and
  \<open>chained_eoi\<close> are the port operations its \<^verbatim>\<open>initialize\<close> and \<^verbatim>\<open>notify_end_of_interrupt\<close>
  perform. \<open>call\<close> runs the function a registered pointer stands for.
\<close>

datatype port_op = Out u16 u8 | In u16

type_synonym port_log = "port_op list"

record machine =
  io_log :: port_log
  counters :: "u64 list"
  handler_ptrs :: "nat list"
  ticks :: u64
  idt_loaded :: bool
  kbd_bytes :: "u8 list"
  lapic :: "nat option"
  apic_base :: nat
  apic_enabled :: bool
  mmio_log :: "(nat \<times> u32) list"

record env =
  bus :: "port_log \<Rightarrow> u16 \<Rightarrow> u8"
  chained_init :: "port_log \<Rightarrow> port_log"
  chained_eoi :: "u8 \<Rightarrow> port_log \<Rightarrow> port_log"
  call :: "nat \<Rightarrow> machine \<Rightarrow> machine res"

definition port_write :: "u16 \<Rightarrow> u8 \<Rightarrow> machine \<Rightarrow> machine" where
  "port_write p v s = s\<lparr>io_log := Out p v # io_log s\<rparr>"

definition port_read :: "env \<Rightarrow> u16 \<Rightarrow> machine \<Rightarrow> u8 \<times> machine" where
  "port_read env p s = (bus env (io_log s) p, s\<lparr>io_log := In p # io_log s\<rparr>)"

text \<open>The state of the statics when the kernel starts.\<close>

definition boot_machine :: machine where
  "boot_machine =
     \<lparr>io_log = [], counters = replicate 256 0, handler_ptrs = replicate 16 0, ticks = 0,
      idt_loaded = False, kbd_bytes = [], lapic = None, apic_base = 0, apic_enabled = False,
      mmio_log = []\<rparr>"

text \<open>\<open>x << k\<close> on a \<open>u8\<close>: a shift by the width or more panics in a debug build.\<close>

definition shl8 :: "u8 \<Rightarrow> nat \<Rightarrow> u8 res" where
  "shl8 x k = (if k < 8 then Inr (push_bit k x) else Inl Arithmetic_overflow)"

lemma port_write_simps [simp]:
  "io_log (port_write p v s) = Out p v # io_log s" "counters (port_write p v s) = counters s"
  "handler_ptrs (port_write p v s) = handler_ptrs s" "ticks (port_write p v s) = ticks s"
  by (simp_all add: port_write_def)

lemma port_read_simps [simp]:
  "fst (port_read env p s) = bus env (io_log s) p"
  "io_log (snd (port_read env p s)) = In p # io_log s"
  "counters (snd (port_read env p s)) = counters s"
  "handler_ptrs (snd (port_read env p s)) = handler_ptrs s"
  "ticks (snd (port_read env p s)) = ticks s"
  by (simp_all add: port_read_def)

end
