(* ===== verification/Timer.thy ===== *)
theory Timer
  imports Machine_State
begin

text \<open>
  \<^verbatim>\<open>src/src/timer.rs\<close>: the programmable interval timer and the tick counter. \<open>sleep_ms\<close> is a
  busy-wait on a counter that only the timer interrupt advances; \<open>arrivals i\<close> is the number of
  timer interrupts between poll \<open>i\<close> and the next one, so the loop is a partial function that
  returns only if enough of them arrive.
\<close>

definition PIT_BASE_HZ :: nat where "PIT_BASE_HZ = 1193182"
definition TIMER_HZ :: nat where "TIMER_HZ = 1000"

definition PIT_DIVISOR :: u16 where
  "PIT_DIVISOR = of_nat (PIT_BASE_HZ div TIMER_HZ)"

definition timer_init :: "machine \<Rightarrow> machine" where
  "timer_init s =
     port_write 0x40 (ucast (drop_bit 8 PIT_DIVISOR))
       (port_write 0x40 (ucast PIT_DIVISOR) (port_write 0x43 0x34 s))"

definition tick :: "machine \<Rightarrow> machine" where
  "tick s = s\<lparr>ticks := ticks s + 1\<rparr>"

definition uptime_ms :: "machine \<Rightarrow> u64" where
  "uptime_ms s = ticks s"

definition saturating_add :: "nat \<Rightarrow> nat \<Rightarrow> nat" where
  "saturating_add a b = min (a + b) u64_max"

partial_function (option) sleep_loop :: "(nat \<Rightarrow> nat) \<Rightarrow> nat \<Rightarrow> nat \<Rightarrow> machine \<Rightarrow> (nat \<times> machine) option" where
  "sleep_loop arrivals end_ms i s =
     (if unat (uptime_ms s) < end_ms
      then sleep_loop arrivals end_ms (i + 1) ((tick ^^ arrivals i) s)
      else Some (i, s))"

definition sleep_ms :: "(nat \<Rightarrow> nat) \<Rightarrow> nat \<Rightarrow> machine \<Rightarrow> (nat \<times> machine) option" where
  "sleep_ms arrivals ms s =
     sleep_loop arrivals (saturating_add (unat (uptime_ms s)) ms) 0 s"

subsection \<open>Ticks\<close>

lemma tick_simps [simp]:
  "counters (tick s) = counters s" "handler_ptrs (tick s) = handler_ptrs s" "io_log (tick s) = io_log s"
  "ticks (tick s) = ticks s + 1"
  by (simp_all add: tick_def)

lemma ticks_funpow [simp]: "ticks ((tick ^^ n) s) = ticks s + of_nat n"
  by (induction n) (simp_all add: algebra_simps)

lemma uptime_ticks: "unat (uptime_ms s) + n \<le> u64_max \<Longrightarrow> unat (uptime_ms ((tick ^^ n) s)) = unat (uptime_ms s) + n"
  by (simp add: uptime_ms_def u64_max_def unat_word_ariths unsigned_of_nat take_bit_nat_eq_self)

lemma PIT_DIVISOR_eq: "PIT_DIVISOR = 1193" and unat_PIT_DIVISOR: "unat PIT_DIVISOR = 1193"
  by (simp_all add: PIT_DIVISOR_def PIT_BASE_HZ_def TIMER_HZ_def)

text \<open>
  The loop returns as soon as the interrupts that have arrived reach the target, and not before.
\<close>

lemma sleep_loop_returns:
  assumes "end_ms \<le> unat (uptime_ms s) + (\<Sum>j<n. arrivals (i + j))"
    and "unat (uptime_ms s) + (\<Sum>j<n. arrivals (i + j)) \<le> u64_max"
  shows "\<exists>k\<le>n. sleep_loop arrivals end_ms i s =
      Some (i + k, (tick ^^ (\<Sum>j<k. arrivals (i + j))) s) \<and>
    end_ms \<le> unat (uptime_ms s) + (\<Sum>j<k. arrivals (i + j)) \<and>
    (\<forall>k'<k. unat (uptime_ms s) + (\<Sum>j<k'. arrivals (i + j)) < end_ms)"
  using assms
proof (induction n arbitrary: i s)
  case 0
  then have "\<not> unat (uptime_ms s) < end_ms" by simp
  then have "sleep_loop arrivals end_ms i s = Some (i, s)" by (subst sleep_loop.simps) simp
  with 0 show ?case by simp
next
  case (Suc n)
  show ?case
  proof (cases "unat (uptime_ms s) < end_ms")
    case False
    then have "sleep_loop arrivals end_ms i s = Some (i, s)" by (subst sleep_loop.simps) simp
    with False show ?thesis by (intro exI [of _ 0]) simp
  next
    case True
    let ?s = "(tick ^^ arrivals i) s"
    have shift: "(\<Sum>j<Suc k. arrivals (i + j)) = arrivals i + (\<Sum>j<k. arrivals (Suc i + j))" for k
      by (subst sum.lessThan_Suc_shift) simp
    have up: "unat (uptime_ms ?s) = unat (uptime_ms s) + arrivals i"
      using Suc.prems(2) unfolding shift by (intro uptime_ticks) simp
    have "\<exists>k\<le>n. sleep_loop arrivals end_ms (Suc i) ?s =
        Some (Suc i + k, (tick ^^ (\<Sum>j<k. arrivals (Suc i + j))) ?s) \<and>
      end_ms \<le> unat (uptime_ms ?s) + (\<Sum>j<k. arrivals (Suc i + j)) \<and>
      (\<forall>k'<k. unat (uptime_ms ?s) + (\<Sum>j<k'. arrivals (Suc i + j)) < end_ms)"
      by (rule Suc.IH) (use Suc.prems in \<open>simp_all only: up shift add.assoc\<close>)
    then obtain k where k: "k \<le> n"
      "sleep_loop arrivals end_ms (Suc i) ?s = Some (Suc i + k, (tick ^^ (\<Sum>j<k. arrivals (Suc i + j))) ?s)"
      "end_ms \<le> unat (uptime_ms ?s) + (\<Sum>j<k. arrivals (Suc i + j))"
      "\<forall>k'<k. unat (uptime_ms ?s) + (\<Sum>j<k'. arrivals (Suc i + j)) < end_ms" by blast
    have "sleep_loop arrivals end_ms i s = sleep_loop arrivals end_ms (Suc i) ?s"
      using True by (subst sleep_loop.simps) simp
    also have "\<dots> = Some (i + Suc k, (tick ^^ (\<Sum>j<Suc k. arrivals (i + j))) s)"
      unfolding k(2) shift by (simp add: funpow_add add.commute flip: funpow_swap1)
        (metis add.commute comp_apply funpow_add)
    finally have run: "sleep_loop arrivals end_ms i s = Some (i + Suc k, (tick ^^ (\<Sum>j<Suc k. arrivals (i + j))) s)" .
    have early: "unat (uptime_ms s) + (\<Sum>j<k'. arrivals (i + j)) < end_ms" if "k' < Suc k" for k'
    proof (cases k')
      case 0
      then show ?thesis using True by simp
    next
      case (Suc k'')
      then show ?thesis using k(4) that unfolding Suc shift up by (simp add: add.assoc)
    qed
    show ?thesis
      using run early k(1,3) unfolding up by (intro exI [of _ "Suc k"]) (simp only: shift, simp)
  qed
qed

end
