(* ===== verification/Interrupts.thy ===== *)
theory Interrupts
  imports Timer
begin

text \<open>
  \<^verbatim>\<open>src/src/interrupts/\<close>: the vector numbers (\<^verbatim>\<open>vectors.rs\<close>), the per-vector counters
  (\<^verbatim>\<open>stats.rs\<close>), the table of registered IRQ handlers (\<^verbatim>\<open>dispatch.rs\<close>), the 8259 pair
  (\<^verbatim>\<open>pic.rs\<close>), the local APIC (\<^verbatim>\<open>apic.rs\<close>), the handlers themselves (\<^verbatim>\<open>handlers.rs\<close>) and
  the interrupt descriptor table (\<^verbatim>\<open>exceptions.rs\<close>).
\<close>

subsection \<open>Vectors\<close>

definition EXCEPTION_DIVIDE_ERROR :: u8 where "EXCEPTION_DIVIDE_ERROR = 0x00"
definition EXCEPTION_DEBUG :: u8 where "EXCEPTION_DEBUG = 0x01"
definition EXCEPTION_NMI :: u8 where "EXCEPTION_NMI = 0x02"
definition EXCEPTION_BREAKPOINT :: u8 where "EXCEPTION_BREAKPOINT = 0x03"
definition EXCEPTION_OVERFLOW :: u8 where "EXCEPTION_OVERFLOW = 0x04"
definition EXCEPTION_BOUND_RANGE :: u8 where "EXCEPTION_BOUND_RANGE = 0x05"
definition EXCEPTION_INVALID_OPCODE :: u8 where "EXCEPTION_INVALID_OPCODE = 0x06"
definition EXCEPTION_DEVICE_NOT_AVAIL :: u8 where "EXCEPTION_DEVICE_NOT_AVAIL = 0x07"
definition EXCEPTION_DOUBLE_FAULT :: u8 where "EXCEPTION_DOUBLE_FAULT = 0x08"
definition EXCEPTION_INVALID_TSS :: u8 where "EXCEPTION_INVALID_TSS = 0x0A"
definition EXCEPTION_SEGMENT_NOT_PRESENT :: u8 where "EXCEPTION_SEGMENT_NOT_PRESENT = 0x0B"
definition EXCEPTION_STACK_SEGMENT :: u8 where "EXCEPTION_STACK_SEGMENT = 0x0C"
definition EXCEPTION_GENERAL_PROTECTION :: u8 where "EXCEPTION_GENERAL_PROTECTION = 0x0D"
definition EXCEPTION_PAGE_FAULT :: u8 where "EXCEPTION_PAGE_FAULT = 0x0E"
definition EXCEPTION_X87_FP :: u8 where "EXCEPTION_X87_FP = 0x10"
definition EXCEPTION_ALIGNMENT_CHECK :: u8 where "EXCEPTION_ALIGNMENT_CHECK = 0x11"
definition EXCEPTION_MACHINE_CHECK :: u8 where "EXCEPTION_MACHINE_CHECK = 0x12"
definition EXCEPTION_SIMD_FP :: u8 where "EXCEPTION_SIMD_FP = 0x13"
definition EXCEPTION_VIRTUALIZATION :: u8 where "EXCEPTION_VIRTUALIZATION = 0x14"

definition PIC_IRQ_TIMER :: u8 where "PIC_IRQ_TIMER = 0x20"
definition PIC_IRQ_KEYBOARD :: u8 where "PIC_IRQ_KEYBOARD = 0x21"
definition PIC_IRQ_SPURIOUS_MASTER :: u8 where "PIC_IRQ_SPURIOUS_MASTER = 0x27"
definition PIC_IRQ_RTC :: u8 where "PIC_IRQ_RTC = 0x28"
definition PIC_IRQ_MOUSE :: u8 where "PIC_IRQ_MOUSE = 0x2C"
definition PIC_IRQ_ATA_PRIMARY :: u8 where "PIC_IRQ_ATA_PRIMARY = 0x2E"
definition PIC_IRQ_ATA_SECONDARY :: u8 where "PIC_IRQ_ATA_SECONDARY = 0x2F"
definition APIC_SPURIOUS :: u8 where "APIC_SPURIOUS = 0xFF"

lemmas exception_vectors =
  EXCEPTION_DIVIDE_ERROR_def EXCEPTION_DEBUG_def EXCEPTION_NMI_def EXCEPTION_BREAKPOINT_def
  EXCEPTION_OVERFLOW_def EXCEPTION_BOUND_RANGE_def EXCEPTION_INVALID_OPCODE_def
  EXCEPTION_DEVICE_NOT_AVAIL_def EXCEPTION_DOUBLE_FAULT_def EXCEPTION_INVALID_TSS_def
  EXCEPTION_SEGMENT_NOT_PRESENT_def EXCEPTION_STACK_SEGMENT_def EXCEPTION_GENERAL_PROTECTION_def
  EXCEPTION_PAGE_FAULT_def EXCEPTION_X87_FP_def EXCEPTION_ALIGNMENT_CHECK_def
  EXCEPTION_MACHINE_CHECK_def EXCEPTION_SIMD_FP_def EXCEPTION_VIRTUALIZATION_def

lemmas irq_vectors =
  PIC_IRQ_TIMER_def PIC_IRQ_KEYBOARD_def PIC_IRQ_SPURIOUS_MASTER_def PIC_IRQ_RTC_def
  PIC_IRQ_MOUSE_def PIC_IRQ_ATA_PRIMARY_def PIC_IRQ_ATA_SECONDARY_def APIC_SPURIOUS_def

datatype interrupt_vector =
  Timer | Keyboard | SpuriousMaster | Rtc | Mouse | AtaPrimary | AtaSecondary

fun as_u8 :: "interrupt_vector \<Rightarrow> u8" where
  "as_u8 Timer = PIC_IRQ_TIMER"
| "as_u8 Keyboard = PIC_IRQ_KEYBOARD"
| "as_u8 SpuriousMaster = PIC_IRQ_SPURIOUS_MASTER"
| "as_u8 Rtc = PIC_IRQ_RTC"
| "as_u8 Mouse = PIC_IRQ_MOUSE"
| "as_u8 AtaPrimary = PIC_IRQ_ATA_PRIMARY"
| "as_u8 AtaSecondary = PIC_IRQ_ATA_SECONDARY"

definition as_usize :: "interrupt_vector \<Rightarrow> nat" where
  "as_usize v = unat (as_u8 v)"

fun is_spurious :: "interrupt_vector \<Rightarrow> bool" where
  "is_spurious SpuriousMaster = True"
| "is_spurious AtaSecondary = True"
| "is_spurious _ = False"

subsection \<open>Counters\<close>

text \<open>\<open>fetch_add\<close> wraps around.\<close>

definition record_vector :: "u8 \<Rightarrow> machine \<Rightarrow> machine res" where
  "record_vector v s =
     and_then (at_index (counters s) (unat v)) (\<lambda>c.
     Inr (s\<lparr>counters := (counters s)[unat v := c + 1]\<rparr>))"

definition count :: "u8 \<Rightarrow> machine \<Rightarrow> u64 res" where
  "count v s = at_index (counters s) (unat v)"

definition reset_all :: "machine \<Rightarrow> machine" where
  "reset_all s = s\<lparr>counters := map (\<lambda>_. 0) (counters s)\<rparr>"

subsection \<open>Registered handlers\<close>

definition register :: "u8 \<Rightarrow> nat \<Rightarrow> machine \<Rightarrow> ((unit + unit) \<times> machine) res" where
  "register irq handler s =
     and_then (at_index (handler_ptrs s) (unat irq)) (\<lambda>cur.
     if cur = 0 then Inr (Inr (), s\<lparr>handler_ptrs := (handler_ptrs s)[unat irq := handler]\<rparr>)
     else Inr (Inl (), s))"

definition unregister :: "u8 \<Rightarrow> machine \<Rightarrow> machine res" where
  "unregister irq s =
     and_then (set_index (handler_ptrs s) (unat irq) 0) (\<lambda>hs. Inr (s\<lparr>handler_ptrs := hs\<rparr>))"

definition dispatch :: "env \<Rightarrow> u8 \<Rightarrow> machine \<Rightarrow> machine res" where
  "dispatch env irq s =
     and_then (at_index (handler_ptrs s) (unat irq)) (\<lambda>ptr.
     if ptr \<noteq> 0 then call env ptr s else Inr s)"

subsection \<open>The 8259 pair\<close>

definition PIC_1_OFFSET :: u8 where "PIC_1_OFFSET = 0x20"
definition PIC_2_OFFSET :: u8 where "PIC_2_OFFSET = 0x28"

definition pic_init :: "env \<Rightarrow> machine \<Rightarrow> machine" where
  "pic_init env s =
     port_write 0xA1 0xFF (port_write 0x21 0x00 (s\<lparr>io_log := chained_init env (io_log s)\<rparr>))"

definition end_of_interrupt :: "env \<Rightarrow> u8 \<Rightarrow> machine \<Rightarrow> machine" where
  "end_of_interrupt env v s = s\<lparr>io_log := chained_eoi env v (io_log s)\<rparr>"

definition mask_irq :: "env \<Rightarrow> u8 \<Rightarrow> machine \<Rightarrow> machine res" where
  "mask_irq env irq s =
     (let p = (if irq < 8 then 0x21 else 0xA1);
          shift = (if irq < 8 then irq else irq - 8);
          (current, s) = port_read env p s
      in and_then (shl8 1 (unat shift)) (\<lambda>bit.
         Inr (port_write p (current OR bit) s)))"

definition unmask_irq :: "env \<Rightarrow> u8 \<Rightarrow> machine \<Rightarrow> machine res" where
  "unmask_irq env irq s =
     (let p = (if irq < 8 then 0x21 else 0xA1);
          shift = (if irq < 8 then irq else irq - 8);
          (current, s) = port_read env p s
      in and_then (shl8 1 (unat shift)) (\<lambda>bit.
         Inr (port_write p (current AND NOT bit) s)))"

definition read_imr :: "env \<Rightarrow> machine \<Rightarrow> u16 \<times> machine" where
  "read_imr env s =
     (let (master, s) = port_read env 0x21 s;
          (slave, s) = port_read env 0xA1 s
      in (ucast master OR push_bit 8 (ucast slave), s))"

definition irq_in_service :: "env \<Rightarrow> u8 \<Rightarrow> machine \<Rightarrow> (bool \<times> machine) res" where
  "irq_in_service env irq s =
     (let (p, bit) = (if irq < 8 then (0x20, irq) else (0xA0, irq - 8));
          s = port_write p 0x0B s;
          (isr, s) = port_read env p s
      in and_then (shl8 1 (unat bit)) (\<lambda>bit. Inr (isr AND bit \<noteq> 0, s)))"

definition eoi_if_not_spurious_master :: "env \<Rightarrow> machine \<Rightarrow> machine res" where
  "eoi_if_not_spurious_master env s =
     and_then (irq_in_service env 7 s) (\<lambda>(in_service, s).
     Inr (if in_service then end_of_interrupt env 0x27 s else s))"

definition eoi_if_not_spurious_slave :: "env \<Rightarrow> machine \<Rightarrow> machine res" where
  "eoi_if_not_spurious_slave env s =
     and_then (irq_in_service env 15 s) (\<lambda>(in_service, s).
     Inr (if in_service then end_of_interrupt env 0x2F s else end_of_interrupt env 0x20 s))"

subsection \<open>The local APIC\<close>

definition lapic_write :: "nat \<Rightarrow> nat \<Rightarrow> u32 \<Rightarrow> machine \<Rightarrow> machine res" where
  "lapic_write base offset v s =
     and_then (checked_add base offset) (\<lambda>a. Inr (s\<lparr>mmio_log := (a, v) # mmio_log s\<rparr>))"

definition lapic_init :: "nat \<Rightarrow> u8 \<Rightarrow> machine \<Rightarrow> machine res" where
  "lapic_init base spurious_vector s = lapic_write base 0xF0 (ucast spurious_vector OR push_bit 8 1) s"

text \<open>\<open>Once::call_once\<close> runs its closure only on the first call.\<close>

definition init_lapic :: "nat \<Rightarrow> machine \<Rightarrow> machine res" where
  "init_lapic vaddr s =
     and_then (case lapic s of
         Some _ \<Rightarrow> Inr s
       | None \<Rightarrow> and_then (lapic_init vaddr 0xFF s) (\<lambda>s. Inr (s\<lparr>lapic := Some vaddr\<rparr>))) (\<lambda>s.
     Inr (s\<lparr>apic_base := vaddr, apic_enabled := True\<rparr>))"

definition lapic_eoi :: "nat \<Rightarrow> machine \<Rightarrow> machine res" where
  "lapic_eoi base s = lapic_write base 0xB0 0 s"

definition send_ipi :: "nat \<Rightarrow> u8 \<Rightarrow> u8 \<Rightarrow> machine \<Rightarrow> machine res" where
  "send_ipi base dest_apic_id vector s =
     and_then (lapic_write base 0x310 (push_bit 24 (ucast dest_apic_id)) s) (\<lambda>s.
     lapic_write base 0x300 (ucast vector OR push_bit 14 1) s)"

definition disable_pic :: "machine \<Rightarrow> machine" where
  "disable_pic s = port_write 0x21 0xFF (port_write 0xA1 0xFF s)"

text \<open>\<open>cpuid_edx\<close> is the \<open>EDX\<close> register after \<open>CPUID\<close> leaf 1.\<close>

definition apic_supported :: "u32 \<Rightarrow> bool" where
  "apic_supported cpuid_edx \<longleftrightarrow> cpuid_edx AND push_bit 9 1 \<noteq> 0"

end
