(* ===== verification/Interrupt_Handlers.thy ===== *)
theory Interrupt_Handlers
  imports Interrupts
begin

text \<open>
  \<^verbatim>\<open>handlers.rs\<close> and \<^verbatim>\<open>exceptions.rs\<close>: what runs when a vector is delivered. An exception
  handler records the vector and either returns (the traps) or panics with a message; the panic
  keeps the machine state, since the panic handler runs on it. The formatted stack frame and error
  code of the messages are not part of the model.
\<close>

subsection \<open>Exceptions\<close>

datatype cpu_exception =
  Divide_error | Debug | Nmi | Breakpoint | Overflow | Bound_range
  | Invalid_opcode | Device_not_available | Double_fault | Invalid_tss | Segment_not_present | Stack_segment
  | General_protection | Page_fault | X87_fp | Alignment_check | Machine_check | Simd_fp | Virtualization

datatype outcome = Returns | Panics string

fun exception_handler :: "cpu_exception \<Rightarrow> machine \<Rightarrow> (outcome \<times> machine) res" where
  "exception_handler Divide_error s =
     and_then (record_vector EXCEPTION_DIVIDE_ERROR s) (\<lambda>s. Inr (Panics ''#DE divide error'', s))"
| "exception_handler Debug s =
     and_then (record_vector EXCEPTION_DEBUG s) (\<lambda>s. Inr (Returns, s))"
| "exception_handler Nmi s =
     and_then (record_vector EXCEPTION_NMI s) (\<lambda>s. Inr (Panics ''NMI - hardware failure'', s))"
| "exception_handler Breakpoint s =
     and_then (record_vector EXCEPTION_BREAKPOINT s) (\<lambda>s. Inr (Returns, s))"
| "exception_handler Overflow s =
     and_then (record_vector EXCEPTION_OVERFLOW s) (\<lambda>s. Inr (Returns, s))"
| "exception_handler Bound_range s =
     and_then (record_vector EXCEPTION_BOUND_RANGE s) (\<lambda>s. Inr (Panics ''#BR bound range exceeded'', s))"
| "exception_handler Invalid_opcode s =
     and_then (record_vector EXCEPTION_INVALID_OPCODE s) (\<lambda>s. Inr (Panics ''#UD invalid opcode'', s))"
| "exception_handler Device_not_available s =
     and_then (record_vector EXCEPTION_DEVICE_NOT_AVAIL s) (\<lambda>s. Inr (Panics ''#NM device not available'', s))"
| "exception_handler Double_fault s =
     and_then (record_vector EXCEPTION_DOUBLE_FAULT s) (\<lambda>s. Inr (Panics ''#DF double fault'', s))"
| "exception_handler Invalid_tss s =
     and_then (record_vector EXCEPTION_INVALID_TSS s) (\<lambda>s. Inr (Panics ''#TS invalid TSS'', s))"
| "exception_handler Segment_not_present s =
     and_then (record_vector EXCEPTION_SEGMENT_NOT_PRESENT s) (\<lambda>s. Inr (Panics ''#NP segment not present'', s))"
| "exception_handler Stack_segment s =
     and_then (record_vector EXCEPTION_STACK_SEGMENT s) (\<lambda>s. Inr (Panics ''#SS stack segment fault'', s))"
| "exception_handler General_protection s =
     and_then (record_vector EXCEPTION_GENERAL_PROTECTION s) (\<lambda>s. Inr (Panics ''#GP general protection fault'', s))"
| "exception_handler Page_fault s =
     and_then (record_vector EXCEPTION_PAGE_FAULT s) (\<lambda>s. Inr (Panics ''#PF page fault'', s))"
| "exception_handler X87_fp s =
     and_then (record_vector EXCEPTION_X87_FP s) (\<lambda>s. Inr (Panics ''#MF x87 FP exception'', s))"
| "exception_handler Alignment_check s =
     and_then (record_vector EXCEPTION_ALIGNMENT_CHECK s) (\<lambda>s. Inr (Panics ''#AC alignment check'', s))"
| "exception_handler Machine_check s =
     and_then (record_vector EXCEPTION_MACHINE_CHECK s) (\<lambda>s. Inr (Panics ''#MC machine check - hardware error'', s))"
| "exception_handler Simd_fp s =
     and_then (record_vector EXCEPTION_SIMD_FP s) (\<lambda>s. Inr (Panics ''#XM SIMD FP exception'', s))"
| "exception_handler Virtualization s =
     and_then (record_vector EXCEPTION_VIRTUALIZATION s) (\<lambda>s. Inr (Panics ''#VE virtualization exception'', s))"

subsection \<open>Hardware interrupts\<close>

definition timer_handler :: "env \<Rightarrow> machine \<Rightarrow> machine res" where
  "timer_handler env s =
     and_then (record_vector PIC_IRQ_TIMER s) (\<lambda>s.
     and_then (dispatch env 0 (tick s)) (\<lambda>s.
     Inr (end_of_interrupt env PIC_IRQ_TIMER s)))"

definition apic_spurious_handler :: "machine \<Rightarrow> machine res" where
  "apic_spurious_handler s = record_vector APIC_SPURIOUS s"

text \<open>
  The decoded key is discarded, so the keyboard decoder (the \<^verbatim>\<open>pc_keyboard\<close> crate) only matters
  through the bytes it was given.
\<close>

definition keyboard_handler :: "env \<Rightarrow> machine \<Rightarrow> machine res" where
  "keyboard_handler env s =
     and_then (record_vector PIC_IRQ_KEYBOARD s) (\<lambda>s.
     let (scancode, s) = port_read env 0x60 s;
         s = s\<lparr>kbd_bytes := kbd_bytes s @ [scancode]\<rparr>
     in Inr (end_of_interrupt env PIC_IRQ_KEYBOARD s))"

definition spurious_master_handler :: "env \<Rightarrow> machine \<Rightarrow> machine res" where
  "spurious_master_handler env s =
     and_then (record_vector PIC_IRQ_SPURIOUS_MASTER s) (eoi_if_not_spurious_master env)"

definition rtc_handler :: "env \<Rightarrow> machine \<Rightarrow> machine res" where
  "rtc_handler env s =
     and_then (record_vector PIC_IRQ_RTC s) (\<lambda>s.
     let s = snd (port_read env 0x71 (port_write 0x70 0x0C s))
     in and_then (dispatch env 8 s) (\<lambda>s.
        Inr (end_of_interrupt env PIC_IRQ_RTC s)))"

definition mouse_handler :: "env \<Rightarrow> machine \<Rightarrow> machine res" where
  "mouse_handler env s =
     and_then (record_vector PIC_IRQ_MOUSE s) (\<lambda>s.
     let s = snd (port_read env 0x60 s)
     in and_then (dispatch env 12 s) (\<lambda>s.
        Inr (end_of_interrupt env PIC_IRQ_MOUSE s)))"

definition ata_primary_handler :: "env \<Rightarrow> machine \<Rightarrow> machine res" where
  "ata_primary_handler env s =
     and_then (record_vector PIC_IRQ_ATA_PRIMARY s) (\<lambda>s.
     and_then (dispatch env 14 s) (\<lambda>s.
     Inr (end_of_interrupt env PIC_IRQ_ATA_PRIMARY s)))"

definition ata_secondary_handler :: "env \<Rightarrow> machine \<Rightarrow> machine res" where
  "ata_secondary_handler env s =
     and_then (record_vector PIC_IRQ_ATA_SECONDARY s) (eoi_if_not_spurious_slave env)"

subsection \<open>The descriptor table\<close>

definition DOUBLE_FAULT_IST_INDEX :: nat where "DOUBLE_FAULT_IST_INDEX = 0"
definition NMI_IST_INDEX :: nat where "NMI_IST_INDEX = 1"
definition MACHINE_CHECK_IST_INDEX :: nat where "MACHINE_CHECK_IST_INDEX = 2"

datatype gate =
  Fault cpu_exception | Timer_irq | Keyboard_irq | Spurious_master_irq | Rtc_irq | Mouse_irq
  | Ata_primary_irq | Ata_secondary_irq | Apic_spurious_irq

text \<open>
  The entries in the order they are set, each with its interrupt stack. The named fields of the
  table type (\<^verbatim>\<open>idt.divide_error\<close>, \dots) are the vectors of the architecture.
\<close>

definition idt :: "(u8 \<times> gate \<times> nat option) list" where
  "idt =
     [(0, Fault Divide_error, None), (1, Fault Debug, None), (2, Fault Nmi, Some NMI_IST_INDEX),
      (3, Fault Breakpoint, None), (4, Fault Overflow, None), (5, Fault Bound_range, None),
      (6, Fault Invalid_opcode, None), (7, Fault Device_not_available, None),
      (8, Fault Double_fault, Some DOUBLE_FAULT_IST_INDEX), (10, Fault Invalid_tss, None),
      (11, Fault Segment_not_present, None), (12, Fault Stack_segment, None),
      (13, Fault General_protection, None), (14, Fault Page_fault, None), (16, Fault X87_fp, None),
      (17, Fault Alignment_check, None), (18, Fault Machine_check, Some MACHINE_CHECK_IST_INDEX),
      (19, Fault Simd_fp, None), (20, Fault Virtualization, None),
      (PIC_IRQ_TIMER, Timer_irq, None), (PIC_IRQ_KEYBOARD, Keyboard_irq, None),
      (PIC_IRQ_SPURIOUS_MASTER, Spurious_master_irq, None), (PIC_IRQ_RTC, Rtc_irq, None),
      (PIC_IRQ_MOUSE, Mouse_irq, None), (PIC_IRQ_ATA_PRIMARY, Ata_primary_irq, None),
      (PIC_IRQ_ATA_SECONDARY, Ata_secondary_irq, None), (APIC_SPURIOUS, Apic_spurious_irq, None)]"

definition irq_result :: "machine res \<Rightarrow> (outcome \<times> machine) res" where
  "irq_result r = and_then r (\<lambda>s. Inr (Returns, s))"

fun run_gate :: "env \<Rightarrow> gate \<Rightarrow> machine \<Rightarrow> (outcome \<times> machine) res" where
  "run_gate env (Fault e) s = exception_handler e s"
| "run_gate env Timer_irq s = irq_result (timer_handler env s)"
| "run_gate env Keyboard_irq s = irq_result (keyboard_handler env s)"
| "run_gate env Spurious_master_irq s = irq_result (spurious_master_handler env s)"
| "run_gate env Rtc_irq s = irq_result (rtc_handler env s)"
| "run_gate env Mouse_irq s = irq_result (mouse_handler env s)"
| "run_gate env Ata_primary_irq s = irq_result (ata_primary_handler env s)"
| "run_gate env Ata_secondary_irq s = irq_result (ata_secondary_handler env s)"
| "run_gate env Apic_spurious_irq s = irq_result (apic_spurious_handler s)"

definition exceptions_init :: "machine \<Rightarrow> machine" where
  "exceptions_init s = s\<lparr>idt_loaded := True\<rparr>"

definition interrupts_init :: "env \<Rightarrow> machine \<Rightarrow> machine" where
  "interrupts_init env s = pic_init env (exceptions_init s)"

text \<open>
  The delivery of a vector runs its entry; \<open>None\<close> is a vector without an entry, which the processor
  turns into an exception.
\<close>

definition deliver :: "env \<Rightarrow> u8 \<Rightarrow> machine \<Rightarrow> (outcome \<times> machine) res option" where
  "deliver env v s = map_option (\<lambda>(g, ist). run_gate env g s) (map_of idt v)"

end
