(* ===== verification/Gdt.thy ===== *)
theory Gdt
  imports Interrupt_Handlers
begin

text \<open>
  \<^verbatim>\<open>src/src/gdt.rs\<close>: the interrupt stacks of the task state segment and the segment registers.
  The addresses of the three static stacks and the selectors that the \<^verbatim>\<open>x86_64\<close> crate's descriptor
  table hands out are parameters.
\<close>

definition STACK_SIZE :: nat where "STACK_SIZE = 4096 * 5"

record static_stacks =
  DOUBLE_FAULT_STACK :: nat
  NMI_STACK :: nat
  MACHINE_CHECK_STACK :: nat

definition interrupt_stack_table :: "static_stacks \<Rightarrow> nat list res" where
  "interrupt_stack_table st =
     and_then (checked_add (DOUBLE_FAULT_STACK st) STACK_SIZE) (\<lambda>hi.
     and_then (set_index (replicate 7 0) DOUBLE_FAULT_IST_INDEX hi) (\<lambda>ist.
     and_then (checked_add (NMI_STACK st) STACK_SIZE) (\<lambda>hi.
     and_then (set_index ist NMI_IST_INDEX hi) (\<lambda>ist.
     and_then (checked_add (MACHINE_CHECK_STACK st) STACK_SIZE) (\<lambda>hi.
     set_index ist MACHINE_CHECK_IST_INDEX hi)))))"

record selectors =
  code_selector :: u16
  data_selector :: u16
  tss_selector :: u16

record segment_regs =
  reg_cs :: u16
  reg_ds :: u16
  reg_ss :: u16
  reg_tr :: u16
  gdt_loaded :: bool

definition gdt_init :: "selectors \<Rightarrow> segment_regs \<Rightarrow> segment_regs" where
  "gdt_init sel r =
     r\<lparr>gdt_loaded := True, reg_cs := code_selector sel, reg_ds := data_selector sel, reg_ss := 0,
       reg_tr := tss_selector sel\<rparr>"

definition stack_range :: "nat \<Rightarrow> nat set" where
  "stack_range hi = {hi - STACK_SIZE..<hi}"



end
