(* ===== verification/Post_Stack.thy ===== *)
theory Post_Stack
  imports Prelude
begin

text \<open>
  \<^verbatim>\<open>src/src/post_stack_state.rs\<close>: the cell that carries values across the switch to the kernel's
  own stack. The two flags and the cell are the state; a panic ends the kernel, so a panicking call
  has no successor state.
\<close>

record post_stack_state =
  ps_rsdp_phys :: "nat option"
  ps_boot_stack_region :: "(nat \<times> nat) option"

record post_cell =
  stored :: bool
  taken :: bool
  cell :: "post_stack_state option"

definition empty_cell :: post_cell where
  "empty_cell = \<lparr>stored = False, taken = False, cell = None\<rparr>"

definition store :: "post_stack_state \<Rightarrow> post_cell \<Rightarrow> post_cell res" where
  "store x c =
     and_then (guard (\<not> stored c)
       (Assertion ''post_stack_state::store() called twice without an intervening take()'')) (\<lambda>_.
     Inr (c\<lparr>stored := True, cell := Some x\<rparr>))"

definition take_state :: "post_cell \<Rightarrow> (post_stack_state \<times> post_cell) res" where
  "take_state c =
     and_then (guard (stored c) (Assertion ''post_stack_state::take() called before store()'')) (\<lambda>_.
     and_then (guard (\<not> taken c) (Assertion ''post_stack_state::take() called more than once'')) (\<lambda>_.
     case cell c of
       None \<Rightarrow> Inl (Expect ''post_stack_state: cell was None after store()'')
     | Some x \<Rightarrow> Inr (x, c\<lparr>taken := True, cell := None\<rparr>)))"

subsection \<open>The life of the cell\<close>

datatype cell_event = Stored post_stack_state | Took post_stack_state

inductive cell_step :: "post_cell \<Rightarrow> cell_event \<Rightarrow> post_cell \<Rightarrow> bool" where
  store_step: "store x c = Inr c' \<Longrightarrow> cell_step c (Stored x) c'"
| take_step: "take_state c = Inr (x, c') \<Longrightarrow> cell_step c (Took x) c'"

inductive cell_run :: "cell_event list \<Rightarrow> post_cell \<Rightarrow> bool" where
  start: "cell_run [] empty_cell"
| extend: "cell_run es c \<Longrightarrow> cell_step c e c' \<Longrightarrow> cell_run (es @ [e]) c'"

inductive_cases cell_stepE: "cell_step c e c'"

lemma store_eq: "store x c = (if stored c then Inl (Assertion ''post_stack_state::store() called twice without an intervening take()'')
   else Inr (c\<lparr>stored := True, cell := Some x\<rparr>))"
  by (simp add: store_def)

lemma cell_run_shape:
  assumes "cell_run es c"
  shows "es = [] \<and> c = empty_cell \<or>
    (\<exists>x. es = [Stored x] \<and> c = \<lparr>stored = True, taken = False, cell = Some x\<rparr>) \<or>
    (\<exists>x. es = [Stored x, Took x] \<and> c = \<lparr>stored = True, taken = True, cell = None\<rparr>)"
  using assms
proof (induction rule: cell_run.induct)
  case start
  then show ?case by simp
next
  case (extend es c e c')
  from extend.hyps(2) show ?case
    by (rule cell_stepE)
      (use extend.IH in \<open>auto simp: store_eq take_state_def empty_cell_def guard_def split: if_splits\<close>)
qed

text \<open>
  C34. Whatever the order of the calls, the cell is used at most once: the only runs are nothing, one
  store, and one store followed by one take, which returns the value stored; in each of these
  states the calls that are not allowed panic, and the message that calls itself a bug is never
  reached.
\<close>

theorem cell_used_once:
  assumes "cell_run es c"
  shows "(\<exists>x. es \<in> {[], [Stored x], [Stored x, Took x]}) \<and>
    take_state c \<noteq> Inl (Expect ''post_stack_state: cell was None after store()'') \<and>
    (es = [] \<longleftrightarrow> (\<exists>c'. store y c = Inr c')) \<and>
    (\<forall>x. es = [Stored x] \<longleftrightarrow> (\<exists>c'. take_state c = Inr (x, c')))"
  using cell_run_shape [OF assms] by (auto simp: store_eq take_state_def empty_cell_def)

theorem cell_used_once_witness:
  "\<exists>c. cell_run [Stored \<lparr>ps_rsdp_phys = Some 5, ps_boot_stack_region = None\<rparr>] c \<and>
     (\<exists>c'. take_state c = Inr (\<lparr>ps_rsdp_phys = Some 5, ps_boot_stack_region = None\<rparr>, c'))"
proof -
  let ?x = "\<lparr>ps_rsdp_phys = Some (5::nat), ps_boot_stack_region = None\<rparr>"
  let ?c = "\<lparr>stored = True, taken = False, cell = Some ?x\<rparr>"
  have "cell_step empty_cell (Stored ?x) ?c"
    by (rule store_step) (simp add: store_def empty_cell_def)
  from cell_run.extend [OF cell_run.start this] have r: "cell_run [Stored ?x] ?c" by simp
  from cell_used_once [OF r] show ?thesis using r by blast
qed

text \<open>
  Storing a value and taking it returns the value; afterwards the cell can not be used again: a
  second store panics as if no take had intervened, and so does a second take.
\<close>

theorem store_take_roundtrip:
  "\<exists>c c'. store x empty_cell = Inr c \<and> take_state c = Inr (x, c') \<and>
     store y c' = Inl (Assertion ''post_stack_state::store() called twice without an intervening take()'') \<and>
     take_state c' = Inl (Assertion ''post_stack_state::take() called more than once'')"
  by (simp add: store_def take_state_def empty_cell_def)

end
