(* ===== verification/Loops.thy ===== *)
theory Loops
  imports Prelude
begin

text \<open>
  \<open>for i in a..b\<close> over a state with panics, 32-bit checked arithmetic, and the rules the console
  proofs use: an invariant indexed by the loop counter, and a loop that writes one list element per
  turn.
\<close>

fun for_loop :: "nat \<Rightarrow> nat \<Rightarrow> (nat \<Rightarrow> 's \<Rightarrow> 's res) \<Rightarrow> 's \<Rightarrow> 's res" where
  "for_loop i 0 f s = Inr s"
| "for_loop i (Suc n) f s = and_then (f i s) (for_loop (i + 1) n f)"

definition for_range :: "nat \<Rightarrow> nat \<Rightarrow> (nat \<Rightarrow> 's \<Rightarrow> 's res) \<Rightarrow> 's \<Rightarrow> 's res" where
  "for_range a b f s = for_loop a (b - a) f s"

lemma for_loop_invariant:
  assumes "P i s" and "\<And>j s. i \<le> j \<Longrightarrow> j < i + n \<Longrightarrow> P j s \<Longrightarrow> \<exists>s'. f j s = Inr s' \<and> P (Suc j) s'"
  shows "\<exists>s'. for_loop i n f s = Inr s' \<and> P (i + n) s'"
  using assms
proof (induction n arbitrary: i s)
  case 0
  then show ?case by simp
next
  case (Suc n)
  from Suc.prems(2) [of i s] Suc.prems(1) obtain s1 where s1: "f i s = Inr s1" "P (Suc i) s1" by auto
  have "\<exists>s'. for_loop (Suc i) n f s1 = Inr s' \<and> P (Suc i + n) s'"
    by (rule Suc.IH [OF s1(2)]) (use Suc.prems(2) in auto)
  with s1 show ?case by auto
qed

lemma for_range_invariant:
  assumes "P a s" and "a \<le> b" and "\<And>j s. a \<le> j \<Longrightarrow> j < b \<Longrightarrow> P j s \<Longrightarrow> \<exists>s'. f j s = Inr s' \<and> P (Suc j) s'"
  shows "\<exists>s'. for_range a b f s = Inr s' \<and> P b s'"
  using for_loop_invariant [of P a s "b - a" f] assms by (simp add: for_range_def)

definition u32_max :: nat where "u32_max = 2 ^ 32 - 1"

definition add32 :: "nat \<Rightarrow> nat \<Rightarrow> nat res" where
  "add32 a b = (if a + b \<le> u32_max then Inr (a + b) else Inl Arithmetic_overflow)"

definition sub32 :: "nat \<Rightarrow> nat \<Rightarrow> nat res" where
  "sub32 a b = (if b \<le> a then Inr (a - b) else Inl Arithmetic_overflow)"

definition mul32 :: "nat \<Rightarrow> nat \<Rightarrow> nat res" where
  "mul32 a b = (if a * b \<le> u32_max then Inr (a * b) else Inl Arithmetic_overflow)"

lemma arith32_ok [simp]:
  "a + b \<le> u32_max \<Longrightarrow> add32 a b = Inr (a + b)" "b \<le> a \<Longrightarrow> sub32 a b = Inr (a - b)"
  "a * b \<le> u32_max \<Longrightarrow> mul32 a b = Inr (a * b)"
  by (simp_all add: add32_def sub32_def mul32_def)

lemma u32_max_le: "u32_max \<le> u64_max"
  by (simp add: u32_max_def u64_max_def)

end
