(* ===== verification/Framebuffer.thy ===== *)
theory Framebuffer
  imports Loops Memory Boot_Info
begin

text \<open>
  \<^verbatim>\<open>src/src/writers/framebuffer.rs\<close>: the console on the linear frame buffer. Pixels are 32-bit
  stores into the shared memory; coordinates are checked 32-bit arithmetic and addresses checked
  64-bit arithmetic, as in the source.
\<close>

definition FONT8X8 :: "u8 list list" where
  "FONT8X8 =
     [[0x00, 0x00, 0x00, 0x00, 0x00, 0x00, 0x00, 0x00],
      [0x00, 0x00, 0x00, 0x00, 0x00, 0x00, 0x00, 0x00],
      [0x00, 0x00, 0x00, 0x00, 0x00, 0x00, 0x00, 0x00],
      [0x00, 0x00, 0x00, 0x00, 0x00, 0x00, 0x00, 0x00],
      [0x00, 0x00, 0x00, 0x00, 0x00, 0x00, 0x00, 0x00],
      [0x00, 0x00, 0x00, 0x00, 0x00, 0x00, 0x00, 0x00],
      [0x00, 0x00, 0x00, 0x00, 0x00, 0x00, 0x00, 0x00],
      [0x00, 0x00, 0x00, 0x00, 0x00, 0x00, 0x00, 0x00],
      [0x00, 0x00, 0x00, 0x00, 0x00, 0x00, 0x00, 0x00],
      [0x00, 0x00, 0x00, 0x00, 0x00, 0x00, 0x00, 0x00],
      [0x00, 0x00, 0x00, 0x00, 0x00, 0x00, 0x00, 0x00],
      [0x00, 0x00, 0x00, 0x00, 0x00, 0x00, 0x00, 0x00],
      [0x00, 0x00, 0x00, 0x00, 0x00, 0x00, 0x00, 0x00],
      [0x00, 0x00, 0x00, 0x00, 0x00, 0x00, 0x00, 0x00],
      [0x00, 0x00, 0x00, 0x00, 0x00, 0x00, 0x00, 0x00],
      [0x00, 0x00, 0x00, 0x00, 0x00, 0x00, 0x00, 0x00],
      [0x00, 0x00, 0x00, 0x00, 0x00, 0x00, 0x00, 0x00],
      [0x00, 0x00, 0x00, 0x00, 0x00, 0x00, 0x00, 0x00],
      [0x00, 0x00, 0x00, 0x00, 0x00, 0x00, 0x00, 0x00],
      [0x00, 0x00, 0x00, 0x00, 0x00, 0x00, 0x00, 0x00],
      [0x00, 0x00, 0x00, 0x00, 0x00, 0x00, 0x00, 0x00],
      [0x00, 0x00, 0x00, 0x00, 0x00, 0x00, 0x00, 0x00],
      [0x00, 0x00, 0x00, 0x00, 0x00, 0x00, 0x00, 0x00],
      [0x00, 0x00, 0x00, 0x00, 0x00, 0x00, 0x00, 0x00],
      [0x00, 0x00, 0x00, 0x00, 0x00, 0x00, 0x00, 0x00],
      [0x00, 0x00, 0x00, 0x00, 0x00, 0x00, 0x00, 0x00],
      [0x00, 0x00, 0x00, 0x00, 0x00, 0x00, 0x00, 0x00],
      [0x00, 0x00, 0x00, 0x00, 0x00, 0x00, 0x00, 0x00],
      [0x00, 0x00, 0x00, 0x00, 0x00, 0x00, 0x00, 0x00],
      [0x00, 0x00, 0x00, 0x00, 0x00, 0x00, 0x00, 0x00],
      [0x00, 0x00, 0x00, 0x00, 0x00, 0x00, 0x00, 0x00],
      [0x00, 0x00, 0x00, 0x00, 0x00, 0x00, 0x00, 0x00],
      [0x00, 0x00, 0x00, 0x00, 0x00, 0x00, 0x00, 0x00],
      [0x18, 0x3C, 0x3C, 0x18, 0x18, 0x00, 0x18, 0x00],
      [0x36, 0x36, 0x00, 0x00, 0x00, 0x00, 0x00, 0x00],
      [0x36, 0x36, 0x7F, 0x36, 0x7F, 0x36, 0x36, 0x00],
      [0x0C, 0x3E, 0x03, 0x1E, 0x30, 0x1F, 0x0C, 0x00],
      [0x00, 0x63, 0x33, 0x18, 0x0C, 0x66, 0x63, 0x00],
      [0x1C, 0x36, 0x1C, 0x6E, 0x3B, 0x33, 0x6E, 0x00],
      [0x06, 0x06, 0x03, 0x00, 0x00, 0x00, 0x00, 0x00],
      [0x18, 0x0C, 0x06, 0x06, 0x06, 0x0C, 0x18, 0x00],
      [0x06, 0x0C, 0x18, 0x18, 0x18, 0x0C, 0x06, 0x00],
      [0x00, 0x66, 0x3C, 0xFF, 0x3C, 0x66, 0x00, 0x00],
      [0x00, 0x0C, 0x0C, 0x3F, 0x0C, 0x0C, 0x00, 0x00],
      [0x00, 0x00, 0x00, 0x00, 0x00, 0x0C, 0x0C, 0x06],
      [0x00, 0x00, 0x00, 0x3F, 0x00, 0x00, 0x00, 0x00],
      [0x00, 0x00, 0x00, 0x00, 0x00, 0x0C, 0x0C, 0x00],
      [0x60, 0x30, 0x18, 0x0C, 0x06, 0x03, 0x01, 0x00],
      [0x3E, 0x63, 0x73, 0x7B, 0x6F, 0x67, 0x3E, 0x00],
      [0x0C, 0x0E, 0x0C, 0x0C, 0x0C, 0x0C, 0x3F, 0x00],
      [0x1E, 0x33, 0x30, 0x1C, 0x06, 0x33, 0x3F, 0x00],
      [0x1E, 0x33, 0x30, 0x1C, 0x30, 0x33, 0x1E, 0x00],
      [0x38, 0x3C, 0x36, 0x33, 0x7F, 0x30, 0x78, 0x00],
      [0x3F, 0x03, 0x1F, 0x30, 0x30, 0x33, 0x1E, 0x00],
      [0x1C, 0x06, 0x03, 0x1F, 0x33, 0x33, 0x1E, 0x00],
      [0x3F, 0x33, 0x30, 0x18, 0x0C, 0x0C, 0x0C, 0x00],
      [0x1E, 0x33, 0x33, 0x1E, 0x33, 0x33, 0x1E, 0x00],
      [0x1E, 0x33, 0x33, 0x3E, 0x30, 0x18, 0x0E, 0x00],
      [0x00, 0x0C, 0x0C, 0x00, 0x00, 0x0C, 0x0C, 0x00],
      [0x00, 0x0C, 0x0C, 0x00, 0x00, 0x0C, 0x0C, 0x06],
      [0x18, 0x0C, 0x06, 0x03, 0x06, 0x0C, 0x18, 0x00],
      [0x00, 0x00, 0x3F, 0x00, 0x00, 0x3F, 0x00, 0x00],
      [0x06, 0x0C, 0x18, 0x30, 0x18, 0x0C, 0x06, 0x00],
      [0x1E, 0x33, 0x30, 0x18, 0x0C, 0x00, 0x0C, 0x00],
      [0x3E, 0x63, 0x7B, 0x7B, 0x7B, 0x03, 0x1E, 0x00],
      [0x0C, 0x1E, 0x33, 0x33, 0x3F, 0x33, 0x33, 0x00],
      [0x3F, 0x66, 0x66, 0x3E, 0x66, 0x66, 0x3F, 0x00],
      [0x3C, 0x66, 0x03, 0x03, 0x03, 0x66, 0x3C, 0x00],
      [0x1F, 0x36, 0x66, 0x66, 0x66, 0x36, 0x1F, 0x00],
      [0x7F, 0x46, 0x16, 0x1E, 0x16, 0x46, 0x7F, 0x00],
      [0x7F, 0x46, 0x16, 0x1E, 0x16, 0x06, 0x0F, 0x00],
      [0x3C, 0x66, 0x03, 0x03, 0x73, 0x66, 0x7C, 0x00],
      [0x33, 0x33, 0x33, 0x3F, 0x33, 0x33, 0x33, 0x00],
      [0x1E, 0x0C, 0x0C, 0x0C, 0x0C, 0x0C, 0x1E, 0x00],
      [0x78, 0x30, 0x30, 0x30, 0x33, 0x33, 0x1E, 0x00],
      [0x67, 0x66, 0x36, 0x1E, 0x36, 0x66, 0x67, 0x00],
      [0x0F, 0x06, 0x06, 0x06, 0x46, 0x66, 0x7F, 0x00],
      [0x63, 0x77, 0x7F, 0x7F, 0x6B, 0x63, 0x63, 0x00],
      [0x63, 0x67, 0x6F, 0x7B, 0x73, 0x63, 0x63, 0x00],
      [0x1C, 0x36, 0x63, 0x63, 0x63, 0x36, 0x1C, 0x00],
      [0x3F, 0x66, 0x66, 0x3E, 0x06, 0x06, 0x0F, 0x00],
      [0x1E, 0x33, 0x33, 0x33, 0x3B, 0x1E, 0x38, 0x00],
      [0x3F, 0x66, 0x66, 0x3E, 0x36, 0x66, 0x67, 0x00],
      [0x1E, 0x33, 0x07, 0x0E, 0x38, 0x33, 0x1E, 0x00],
      [0x3F, 0x2D, 0x0C, 0x0C, 0x0C, 0x0C, 0x1E, 0x00],
      [0x33, 0x33, 0x33, 0x33, 0x33, 0x33, 0x3F, 0x00],
      [0x33, 0x33, 0x33, 0x33, 0x33, 0x1E, 0x0C, 0x00],
      [0x63, 0x63, 0x63, 0x6B, 0x7F, 0x77, 0x63, 0x00],
      [0x63, 0x63, 0x36, 0x1C, 0x1C, 0x36, 0x63, 0x00],
      [0x33, 0x33, 0x33, 0x1E, 0x0C, 0x0C, 0x1E, 0x00],
      [0x7F, 0x63, 0x31, 0x18, 0x4C, 0x66, 0x7F, 0x00],
      [0x1E, 0x06, 0x06, 0x06, 0x06, 0x06, 0x1E, 0x00],
      [0x03, 0x06, 0x0C, 0x18, 0x30, 0x60, 0x40, 0x00],
      [0x1E, 0x18, 0x18, 0x18, 0x18, 0x18, 0x1E, 0x00],
      [0x08, 0x1C, 0x36, 0x63, 0x00, 0x00, 0x00, 0x00],
      [0x00, 0x00, 0x00, 0x00, 0x00, 0x00, 0x00, 0xFF],
      [0x0C, 0x0C, 0x18, 0x00, 0x00, 0x00, 0x00, 0x00],
      [0x00, 0x00, 0x1E, 0x30, 0x3E, 0x33, 0x6E, 0x00],
      [0x07, 0x06, 0x06, 0x3E, 0x66, 0x66, 0x3B, 0x00],
      [0x00, 0x00, 0x1E, 0x33, 0x03, 0x33, 0x1E, 0x00],
      [0x38, 0x30, 0x30, 0x3E, 0x33, 0x33, 0x6E, 0x00],
      [0x00, 0x00, 0x1E, 0x33, 0x3F, 0x03, 0x1E, 0x00],
      [0x1C, 0x36, 0x06, 0x0F, 0x06, 0x06, 0x0F, 0x00],
      [0x00, 0x00, 0x6E, 0x33, 0x33, 0x3E, 0x30, 0x1F],
      [0x07, 0x06, 0x36, 0x6E, 0x66, 0x66, 0x67, 0x00],
      [0x0C, 0x00, 0x0E, 0x0C, 0x0C, 0x0C, 0x1E, 0x00],
      [0x30, 0x00, 0x30, 0x30, 0x30, 0x33, 0x33, 0x1E],
      [0x07, 0x06, 0x66, 0x36, 0x1E, 0x36, 0x67, 0x00],
      [0x0E, 0x0C, 0x0C, 0x0C, 0x0C, 0x0C, 0x1E, 0x00],
      [0x00, 0x00, 0x33, 0x7F, 0x7F, 0x6B, 0x63, 0x00],
      [0x00, 0x00, 0x1F, 0x33, 0x33, 0x33, 0x33, 0x00],
      [0x00, 0x00, 0x1E, 0x33, 0x33, 0x33, 0x1E, 0x00],
      [0x00, 0x00, 0x3B, 0x66, 0x66, 0x3E, 0x06, 0x0F],
      [0x00, 0x00, 0x6E, 0x33, 0x33, 0x3E, 0x30, 0x78],
      [0x00, 0x00, 0x3B, 0x6E, 0x66, 0x06, 0x0F, 0x00],
      [0x00, 0x00, 0x3E, 0x03, 0x1E, 0x30, 0x1F, 0x00],
      [0x08, 0x0C, 0x3E, 0x0C, 0x0C, 0x2C, 0x18, 0x00],
      [0x00, 0x00, 0x33, 0x33, 0x33, 0x33, 0x6E, 0x00],
      [0x00, 0x00, 0x33, 0x33, 0x33, 0x1E, 0x0C, 0x00],
      [0x00, 0x00, 0x63, 0x6B, 0x7F, 0x7F, 0x36, 0x00],
      [0x00, 0x00, 0x63, 0x36, 0x1C, 0x36, 0x63, 0x00],
      [0x00, 0x00, 0x33, 0x33, 0x33, 0x3E, 0x30, 0x1F],
      [0x00, 0x00, 0x3F, 0x19, 0x0C, 0x26, 0x3F, 0x00],
      [0x38, 0x0C, 0x0C, 0x07, 0x0C, 0x0C, 0x38, 0x00],
      [0x18, 0x18, 0x18, 0x00, 0x18, 0x18, 0x18, 0x00],
      [0x07, 0x0C, 0x0C, 0x38, 0x0C, 0x0C, 0x07, 0x00],
      [0x6E, 0x3B, 0x00, 0x00, 0x00, 0x00, 0x00, 0x00],
      [0x00, 0x00, 0x00, 0x00, 0x00, 0x00, 0x00, 0x00]]"

definition CHAR_W :: nat where "CHAR_W = 8"
definition CHAR_H :: nat where "CHAR_H = 16"

record fb_writer =
  fw_addr :: nat
  fw_width :: nat
  fw_height :: nat
  fw_pitch :: nat
  fw_bpp :: nat
  fw_r_shl :: nat
  fw_g_shl :: nat
  fw_b_shl :: nat
  fw_col :: nat
  fw_row :: nat
  fw_cols :: nat
  fw_rows :: nat

definition shl32 :: "u32 \<Rightarrow> nat \<Rightarrow> u32 res" where
  "shl32 x k = (if k < 32 then Inr (push_bit k x) else Inl Arithmetic_overflow)"

definition make_pixel :: "fb_writer \<Rightarrow> u8 \<Rightarrow> u8 \<Rightarrow> u8 \<Rightarrow> u32 res" where
  "make_pixel w r g b =
     and_then (shl32 (ucast r) (fw_r_shl w)) (\<lambda>r.
     and_then (shl32 (ucast g) (fw_g_shl w)) (\<lambda>g.
     and_then (shl32 (ucast b) (fw_b_shl w)) (\<lambda>b.
     Inr (r OR g OR b))))"

definition put_pixel :: "fb_writer \<Rightarrow> nat \<Rightarrow> nat \<Rightarrow> u32 \<Rightarrow> mem \<Rightarrow> mem res" where
  "put_pixel w x y color m =
     and_then (mul32 y (fw_pitch w)) (\<lambda>a.
     and_then (mul32 x (fw_bpp w)) (\<lambda>b.
     and_then (add32 a b) (\<lambda>offset.
     and_then (checked_add (fw_addr w) offset) (\<lambda>p.
     Inr (st32 p (unat color) m)))))"

definition draw_row :: "fb_writer \<Rightarrow> nat \<Rightarrow> nat \<Rightarrow> u8 \<Rightarrow> u32 \<Rightarrow> u32 \<Rightarrow> mem \<Rightarrow> mem res" where
  "draw_row w x0 py byte fg bg =
     for_range 0 8 (\<lambda>gx m.
       let color = (if drop_bit gx byte AND 1 \<noteq> 0 then fg else bg)
       in and_then (add32 x0 gx) (\<lambda>x.
          and_then (put_pixel w x py color m) (\<lambda>m.
          and_then (add32 x0 gx) (\<lambda>x.
          and_then (add32 py 1) (\<lambda>y.
          put_pixel w x y color m)))))"

definition draw_char :: "fb_writer \<Rightarrow> u8 \<Rightarrow> nat \<Rightarrow> nat \<Rightarrow> mem \<Rightarrow> mem res" where
  "draw_char w c col row m =
     and_then (at_index FONT8X8 (unat (c AND 0x7F))) (\<lambda>glyph.
     and_then (mul32 col CHAR_W) (\<lambda>x0.
     and_then (mul32 row CHAR_H) (\<lambda>y0.
     and_then (make_pixel w 255 255 0) (\<lambda>fg.
     and_then (make_pixel w 0 0 0) (\<lambda>bg.
     for_range 0 (length glyph) (\<lambda>gy m.
       and_then (at_index glyph gy) (\<lambda>byte.
       and_then (mul32 gy 2) (\<lambda>d.
       and_then (add32 y0 d) (\<lambda>py.
       draw_row w x0 py byte fg bg m)))) m)))))"

definition fb_clear_row :: "fb_writer \<Rightarrow> nat \<Rightarrow> mem \<Rightarrow> mem res" where
  "fb_clear_row w row m =
     and_then (mul32 row CHAR_H) (\<lambda>y0.
     and_then (mul32 y0 (fw_pitch w)) (\<lambda>off.
     and_then (checked_add (fw_addr w) off) (\<lambda>p.
     and_then (mul32 CHAR_H (fw_pitch w)) (\<lambda>n.
     Inr (st n p 0 m)))))"

definition copy_bytes :: "nat \<Rightarrow> nat \<Rightarrow> nat \<Rightarrow> mem \<Rightarrow> mem" where
  "copy_bytes n src dst m = (\<lambda>x. if dst \<le> x \<and> x < dst + n then m (src + (x - dst)) else m x)"

definition scroll_up :: "fb_writer \<Rightarrow> mem \<Rightarrow> mem res" where
  "scroll_up w m =
     and_then
       (for_range 1 (fw_rows w) (\<lambda>row m.
          and_then (mul32 row CHAR_H) (\<lambda>y.
          and_then (mul32 y (fw_pitch w)) (\<lambda>off.
          and_then (checked_add (fw_addr w) off) (\<lambda>src.
          and_then (sub32 row 1) (\<lambda>up.
          and_then (mul32 up CHAR_H) (\<lambda>y.
          and_then (mul32 y (fw_pitch w)) (\<lambda>off.
          and_then (checked_add (fw_addr w) off) (\<lambda>dst.
          and_then (mul32 CHAR_H (fw_pitch w)) (\<lambda>n.
          Inr (copy_bytes n src dst m)))))))))) m) (\<lambda>m.
     and_then (sub32 (fw_rows w) 1) (\<lambda>last_row.
     fb_clear_row w last_row m))"

definition fb_newline :: "fb_writer \<times> mem \<Rightarrow> (fb_writer \<times> mem) res" where
  "fb_newline = (\<lambda>(w, m).
     let w = w\<lparr>fw_col := 0\<rparr>
     in and_then (add32 (fw_row w) 1) (\<lambda>row.
        let w = w\<lparr>fw_row := row\<rparr>
        in if fw_row w \<ge> fw_rows w then
             and_then (scroll_up w m) (\<lambda>m.
             and_then (sub32 (fw_rows w) 1) (\<lambda>row.
             Inr (w\<lparr>fw_row := row\<rparr>, m)))
           else Inr (w, m)))"

definition fb_write_byte :: "u8 \<Rightarrow> fb_writer \<times> mem \<Rightarrow> (fb_writer \<times> mem) res" where
  "fb_write_byte byte s =
     (if byte = 0x0A then fb_newline s
      else
        and_then (if fw_col (fst s) \<ge> fw_cols (fst s) then fb_newline s else Inr s) (\<lambda>(w, m).
        and_then (draw_char w byte (fw_col w) (fw_row w) m) (\<lambda>m.
        and_then (add32 (fw_col w) 1) (\<lambda>col.
        Inr (w\<lparr>fw_col := col\<rparr>, m)))))"

definition fb_byte :: "u8 \<Rightarrow> u8" where
  "fb_byte b = (if 0x20 \<le> b \<and> b \<le> 0x7E \<or> b = 0x0A then b else 0x3F)"

fun fb_write_str :: "u8 list \<Rightarrow> fb_writer \<times> mem \<Rightarrow> (fb_writer \<times> mem) res" where
  "fb_write_str [] s = Inr s"
| "fb_write_str (b # bs) s = and_then (fb_write_byte (fb_byte b) s) (fb_write_str bs)"

text \<open>The static \<open>WRITER\<close> is an option, and the memory is the rest of the state.\<close>

definition init_from_info :: "framebuffer_info \<Rightarrow> fb_writer option \<times> mem \<Rightarrow> (fb_writer option \<times> mem) res" where
  "init_from_info info = (\<lambda>(writer, m).
     if fi_bits_per_pixel info \<noteq> 32 then Inr (writer, m)
     else
       and_then (mul32 (fi_height info) (fi_pitch info)) (\<lambda>n.
       Inr (Some \<lparr>fw_addr = fi_virt_addr info, fw_width = fi_width info, fw_height = fi_height info,
         fw_pitch = fi_pitch info, fw_bpp = 4, fw_r_shl = 16, fw_g_shl = 8, fw_b_shl = 0, fw_col = 0, fw_row = 0,
         fw_cols = fi_width info div CHAR_W, fw_rows = fi_height info div CHAR_H\<rparr>,
         st n (fi_virt_addr info) 0 m)))"

text \<open>\<open>_print\<close> with interrupts disabled; the formatted text is its bytes.\<close>

definition fb_print :: "u8 list \<Rightarrow> fb_writer option \<times> mem \<Rightarrow> (fb_writer option \<times> mem) res" where
  "fb_print bs = (\<lambda>(writer, m).
     case writer of
       None \<Rightarrow> Inr (None, m)
     | Some w \<Rightarrow> and_then (fb_write_str bs (w, m)) (\<lambda>(w, m). Inr (Some w, m)))"

end
