(* ===== verification/Boot_Sequence.thy ===== *)
theory Boot_Sequence
  imports Boot_Memory Gdt Post_Stack Timer Framebuffer Slab
begin

text \<open>
  \<^verbatim>\<open>src/src/main.rs\<close>: the boot sequence over the state of the whole kernel, with \<^verbatim>\<open>src/src/process.rs\<close>
  and \<open>switch_stack\<close> of \<^verbatim>\<open>src/src/memory/stack.rs\<close>. \<open>kernel_main\<close> is cut where its comments number
  the steps: \<open>boot_early\<close> (steps 1 to 4), \<open>map_lapic\<close>, \<open>map_framebuffer\<close>, and \<open>handover\<close> (steps 5.5
  to 9); \<open>kernel_main_continue\<close> runs on the new stack and ends in the halt loop, whose state is the
  result. What the code takes from outside is the record \<open>platform\<close>: the \<^verbatim>\<open>bitwise\<close> crate, the boot
  loader's responses, the devices, the selectors and static stacks, the processor's feature bits,
  the layout of \<open>Process\<close> and the constructor of the \<^verbatim>\<open>seastar\<close> crate's table, the stack pointer as
  \<open>release\<close> reads it, and the return address that the call on the new stack pushes.
\<close>

record 't platform =
  pl_bits :: bitwise
  pl_limine :: limine
  pl_env :: env
  pl_selectors :: selectors
  pl_stacks :: static_stacks
  pl_cpuid_edx :: u32
  pl_process :: elem
  pl_new_table :: "slab_cache \<Rightarrow> 't"
  pl_release_sp :: nat
  pl_return :: nat

record 't kernel =
  kn_harvested :: bool
  kn_segments :: segment_regs
  kn_machine :: machine
  kn_mmu :: mmu
  kn_heap :: tlsf
  kn_processes :: "'t option"
  kn_vmm :: "nat option"
  kn_console :: "fb_writer option"
  kn_cell :: post_cell
  kn_rsp :: nat
  kn_interrupts :: bool

subsection \<open>The process table\<close>

text \<open>\<open>slab_order\<close> 0: one page per slab. \<open>Once::call_once\<close> runs its closure only on the first call.\<close>

definition process_init :: "elem \<Rightarrow> (slab_cache \<Rightarrow> 't) \<Rightarrow> 't option \<Rightarrow> 't option res" where
  "process_init e new_table table =
     (case table of
        Some t \<Rightarrow> Inr (Some t)
      | None \<Rightarrow> and_then (slab_new e 0) (\<lambda>cache. Inr (Some (new_table cache))))"

definition process_get :: "'t option \<Rightarrow> 't res" where
  "process_get table = expect_some ''process::init() not called before process::get()'' table"

subsection \<open>Steps 1 to 4\<close>

definition boot_early :: "'t platform \<Rightarrow> 't kernel \<Rightarrow> (limine_data \<times> 't kernel) res" where
  "boot_early p k =
     and_then (harvest (pl_bits p) (pl_limine p) (kn_harvested k)) (\<lambda>(boot, harvested).
     and_then (interrupt_stack_table (pl_stacks p)) (\<lambda>_.
     let segments = gdt_init (pl_selectors p) (kn_segments k);
         machine = timer_init (interrupts_init (pl_env p) (kn_machine k))
     in and_then (heap_init (pl_bits p) (regions boot) (kernel_phys_start boot) (kernel_phys_end boot)
            (hhdm_offset boot) (mu_mem (kn_mmu k), mu_frames (kn_mmu k), kn_heap k)) (\<lambda>(m, b, t).
        and_then (process_init (pl_process p) (pl_new_table p) (kn_processes k)) (\<lambda>processes.
        let (vmm, s) = vmm_init (hhdm_offset boot) (kn_vmm k, (kn_mmu k)\<lparr>mu_mem := m, mu_frames := b\<rparr>)
        in Inr (boot, k\<lparr>kn_harvested := harvested, kn_segments := segments, kn_machine := machine,
             kn_mmu := s, kn_heap := t, kn_processes := processes, kn_vmm := vmm\<rparr>)))))"

subsection \<open>Steps 4.5 and 5: the devices\<close>

definition expect_ok :: "string \<Rightarrow> map_error + unit \<Rightarrow> unit res" where
  "expect_ok msg r = (case r of Inl _ \<Rightarrow> Inl (Expect msg) | Inr _ \<Rightarrow> Inr ())"

definition LAPIC_PHYS :: nat where "LAPIC_PHYS = 0xFEE00000"
definition LAPIC_SIZE :: nat where "LAPIC_SIZE = 0x1000"

definition map_lapic :: "'t platform \<Rightarrow> limine_data \<Rightarrow> 't kernel \<Rightarrow> 't kernel res" where
  "map_lapic p boot k =
     (if apic_supported (pl_cpuid_edx p) then
        and_then (checked_add (hhdm_offset boot) LAPIC_PHYS) (\<lambda>lapic_virt.
        and_then (vmm_get (kn_vmm k)) (\<lambda>vmm.
        and_then (map_mmio (pl_bits p) vmm lapic_virt LAPIC_PHYS LAPIC_SIZE (MMIO_UC (pl_bits p)) (kn_mmu k)) (\<lambda>(r, s).
        and_then (expect_ok ''LAPIC MMIO map failed'' r) (\<lambda>_.
        and_then (init_lapic lapic_virt (kn_machine k)) (\<lambda>machine.
        Inr (k\<lparr>kn_mmu := s, kn_machine := machine\<rparr>))))))
      else Inr k)"

definition map_framebuffer :: "'t platform \<Rightarrow> limine_data \<Rightarrow> 't kernel \<Rightarrow> 't kernel res" where
  "map_framebuffer p boot k =
     (case framebuffer boot of
        None \<Rightarrow> Inr k
      | Some fb \<Rightarrow>
          and_then (vmm_get (kn_vmm k)) (\<lambda>vmm.
          and_then (map_mmio (pl_bits p) vmm (fi_virt_addr fb) (fi_phys_addr fb) (fi_byte_size fb)
            (MMIO_WC (pl_bits p)) (kn_mmu k)) (\<lambda>(r, s).
          and_then (expect_ok ''fb MMIO map failed'' r) (\<lambda>_.
          and_then (init_from_info fb (kn_console k, mu_mem s)) (\<lambda>(console, m).
          Inr (k\<lparr>kn_mmu := s\<lparr>mu_mem := m\<rparr>, kn_console := console\<rparr>))))))"

subsection \<open>Steps 5.5 to 9: handing over to the kernel's stack and tables\<close>

text \<open>\<open>boot.regions().iter().map(|r| r.end()).max().unwrap_or(0)\<close>\<close>

fun max_region_end :: "memory_region list \<Rightarrow> nat res" where
  "max_region_end [] = Inr 0"
| "max_region_end (r # rs) =
     and_then (region_end r) (\<lambda>e. and_then (max_region_end rs) (\<lambda>n. Inr (max e n)))"

text \<open>Load the stack pointer, then a call, which pushes its return address.\<close>

definition switch_stack :: "nat \<Rightarrow> nat \<Rightarrow> mem \<Rightarrow> nat \<times> mem" where
  "switch_stack new_sp return m = (new_sp - 8, st64 (new_sp - 8) return m)"

definition handover :: "'t platform \<Rightarrow> limine_data \<Rightarrow> 't kernel \<Rightarrow> 't kernel res" where
  "handover p boot k =
     (let w = pl_bits p
      in and_then (boot_stack_region w boot (kn_rsp k)) (\<lambda>region.
         and_then (alloc_kernel_stack w (kn_vmm k) 8 (kn_mmu k)) (\<lambda>(kstack, s).
         and_then (max_region_end (regions boot)) (\<lambda>phys_mem_size.
         and_then (install_kernel_pml4 w (hhdm_offset boot) (kernel_virt_start boot) (kernel_virt_end boot)
           (kernel_phys_start boot) phys_mem_size s) (\<lambda>s.
         and_then (release w boot (pl_release_sp p) (mu_mem s, mu_frames s)) (\<lambda>(m, b).
         and_then (store \<lparr>ps_rsdp_phys = rsdp_phys boot, ps_boot_stack_region = region\<rparr> (kn_cell k)) (\<lambda>cell.
         let (sp, m) = switch_stack (stack_top kstack) (pl_return p) m
         in Inr (k\<lparr>kn_mmu := s\<lparr>mu_mem := m, mu_frames := b\<rparr>, kn_cell := cell, kn_rsp := sp\<rparr>))))))))"

subsection \<open>On the new stack\<close>

definition ascii :: "string \<Rightarrow> u8 list" where
  "ascii cs = map of_char cs"

text \<open>\<open>println!\<close> of a literal: its bytes and a newline, on the frame buffer console.\<close>

definition println :: "string \<Rightarrow> 't kernel \<Rightarrow> 't kernel res" where
  "println msg k =
     and_then (fb_print (ascii msg @ [10]) (kn_console k, mu_mem (kn_mmu k))) (\<lambda>(console, m).
     Inr (k\<lparr>kn_console := console, kn_mmu := (kn_mmu k)\<lparr>mu_mem := m\<rparr>\<rparr>))"

definition kernel_main_continue :: "'t kernel \<Rightarrow> 't kernel res" where
  "kernel_main_continue k =
     and_then (take_state (kn_cell k)) (\<lambda>(st, cell).
     and_then (release_boot_stack (ps_boot_stack_region st) (mu_mem (kn_mmu k), mu_frames (kn_mmu k))) (\<lambda>(m, b).
     let k = k\<lparr>kn_cell := cell, kn_mmu := (kn_mmu k)\<lparr>mu_mem := m, mu_frames := b\<rparr>\<rparr>
     in and_then (println ''my-kernel booting...'' k) (\<lambda>k.
        and_then (println ''heap: ok  vmm: ok'' k) (\<lambda>k.
        let k = k\<lparr>kn_interrupts := True\<rparr>
        in and_then (println ''interrupts: enabled'' k) (\<lambda>k.
           println ''kernel ready.'' k)))))"

definition kernel_main :: "'t platform \<Rightarrow> 't kernel \<Rightarrow> 't kernel res" where
  "kernel_main p k =
     and_then (boot_early p k) (\<lambda>(boot, k).
     and_then (map_lapic p boot k) (\<lambda>k.
     and_then (map_framebuffer p boot k) (\<lambda>k.
     and_then (handover p boot k) kernel_main_continue)))"

end
