(* ===== verification/Boot_Theorems.thy ===== *)
theory Boot_Theorems
  imports Boot_Memory Buddy_Theorems Tlsf_Correct
begin

text \<open>
  What the boot does with memory: the buddy allocator gets exactly the usable pages that are not
  the kernel's, the TLSF heap exactly one free block of 4 MiB of them, and \<open>release\<close> with the
  deferred region of the boot stack exactly the reclaimable regions from 1 MiB on. Pages are
  physical page numbers; the buddy allocator counts them from the lowest usable page \<open>q\<close>.
\<close>

subsection \<open>Pages of regions\<close>

definition first_page :: "memory_region \<Rightarrow> nat" where
  "first_page r = (rg_base r + 4095) div 4096"

definition last_page :: "memory_region \<Rightarrow> nat" where
  "last_page r = (rg_base r + rg_length r) div 4096"

definition region_pages :: "memory_region \<Rightarrow> nat set" where
  "region_pages r = {first_page r..<last_page r}"

definition region_ok :: "memory_region \<Rightarrow> bool" where
  "region_ok r \<longleftrightarrow> rg_base r + rg_length r + 4096 \<le> u64_max"

definition at_pages :: "nat \<Rightarrow> nat set \<Rightarrow> nat set" where
  "at_pages q P = {i. q + i \<in> P}"

lemma align_4096:
  assumes "bitwise_laws w" and "x + 4096 \<le> u64_max"
  shows "align_down w x 4096 = x div 4096 * 4096" and "align_up w x 4096 = (x + 4095) div 4096 * 4096"
proof -
  have "x + 2 ^ 12 \<le> u64_max \<longrightarrow>
      align_down w x (2 ^ 12) = x div 2 ^ 12 * 2 ^ 12 \<and> align_up w x (2 ^ 12) = (x + 2 ^ 12 - 1) div 2 ^ 12 * 2 ^ 12"
    using assms(1) unfolding bitwise_laws_def align_laws_def by blast
  then show "align_down w x 4096 = x div 4096 * 4096" "align_up w x 4096 = (x + 4095) div 4096 * 4096"
    using assms(2) by simp_all
qed

lemma region_bounds:
  assumes "bitwise_laws w" and "region_ok r"
  shows "aligned_base w r = first_page r * 4096" and "aligned_end w r = Inr (last_page r * 4096)"
  using assms(2) align_4096 [OF assms(1)]
  by (simp_all add: aligned_base_def aligned_end_def region_end_def first_page_def last_page_def region_ok_def)

lemma at_pages_simps [simp]:
  "at_pages q (P \<union> Q) = at_pages q P \<union> at_pages q Q" "at_pages q {} = {}"
  "at_pages q (P - Q) = at_pages q P - at_pages q Q"
  by (auto simp: at_pages_def)

lemma at_pages_run: "q \<le> a \<Longrightarrow> a \<le> c \<Longrightarrow> at_pages q {a..<c} = {a - q..<a - q + (c - a)}"
  by (auto simp: at_pages_def)

lemma at_pages_disjoint: "P \<inter> Q = {} \<Longrightarrow> at_pages q P \<inter> at_pages q Q = {}"
  by (auto simp: at_pages_def)

lemma page_bytes_base: "bd_base b' = bd_base b \<Longrightarrow> page_bytes b' = page_bytes b"
  by (simp add: page_bytes_def page_addr_def fun_eq_iff)

text \<open>Adding a run of pages.\<close>

lemma add_run:
  assumes base: "bd_base b = hh + q * 4096" and mg: "manages m b (at_pages q R) (at_pages q S)"
    and run: "q \<le> a" "a < c" "c \<le> q + MAX_PAGES" and dis: "{a..<c} \<inter> R = {}"
  shows "\<exists>m' b'. add_region (hh + a * 4096) (c - a) (m, b) = Inr (m', b') \<and> bd_base b' = hh + q * 4096 \<and>
    manages m' b' (at_pages q (R \<union> {a..<c})) (at_pages q (S \<union> {a..<c})) \<and>
    agree_off (page_bytes b (at_pages q (S \<union> {a..<c}))) m m' \<and>
    used_bytes (bd_stats b') = used_bytes (bd_stats b) \<and> alloc_count (bd_stats b') = alloc_count (bd_stats b) \<and>
    dealloc_count (bd_stats b') = dealloc_count (bd_stats b) \<and>
    (manages_merged m b (at_pages q R) (at_pages q S) \<longrightarrow> c \<notin> S \<longrightarrow> a = q \<or> a - 1 \<notin> S \<longrightarrow>
       manages_merged m' b' (at_pages q (R \<union> {a..<c})) (at_pages q (S \<union> {a..<c})))"
proof -
  let ?o = "a - q" and ?n = "c - a"
  have at: "at_pages q {a..<c} = {?o..<?o + ?n}" using run by (simp add: at_pages_run)
  have "q * 4096 + ?o * 4096 = a * 4096" using run(1) by (simp flip: add_mult_distrib)
  then have addr: "page_addr b ?o = hh + a * 4096" using base by (simp add: page_addr_def PAGE_SIZE_def)
  have win: "?o + ?n \<le> MAX_PAGES" using run by simp
  have d: "{?o..<?o + ?n} \<inter> at_pages q R = {}" using at_pages_disjoint [OF dis, of q] at by simp
  obtain m' b' where *: "add_region (page_addr b ?o) ?n (m, b) = Inr (m', b')"
    "manages m' b' (at_pages q R \<union> {?o..<?o + ?n}) (at_pages q S \<union> {?o..<?o + ?n})"
    "agree_off (page_bytes b (at_pages q S \<union> {?o..<?o + ?n})) m m'" "bd_base b' = bd_base b"
    "used_bytes (bd_stats b') = used_bytes (bd_stats b)" "alloc_count (bd_stats b') = alloc_count (bd_stats b)"
    "dealloc_count (bd_stats b') = dealloc_count (bd_stats b)"
    using add_region_ok [OF mg win d] by blast
  have "manages_merged m' b' (at_pages q R \<union> {?o..<?o + ?n}) (at_pages q S \<union> {?o..<?o + ?n})"
    if mm: "manages_merged m b (at_pages q R) (at_pages q S)" and c: "c \<notin> S" and a: "a = q \<or> a - 1 \<notin> S"
  proof -
    have 1: "?o + ?n \<notin> at_pages q S" using c run by (simp add: at_pages_def)
    have 2: "?o = 0 \<or> ?o - 1 \<notin> at_pages q S" using a run by (auto simp: at_pages_def)
    from add_region_merged [OF mm win d 1 2] *(1) show ?thesis by auto
  qed
  with * at addr base show ?thesis by (intro exI [of _ m'] exI [of _ b']) simp
qed

subsection \<open>The usable regions\<close>

text \<open>While the regions are added: the pages \<open>P\<close> are managed and free, and only they differ from \<open>m0\<close>.\<close>

definition booting :: "nat \<Rightarrow> nat \<Rightarrow> mem \<Rightarrow> mem \<Rightarrow> buddy \<Rightarrow> nat set \<Rightarrow> bool" where
  "booting hh q m0 m b P \<longleftrightarrow> bd_base b = hh + q * 4096 \<and> manages_merged m b (at_pages q P) (at_pages q P) \<and>
     used_bytes (bd_stats b) = 0 \<and> alloc_count (bd_stats b) = 0 \<and> dealloc_count (bd_stats b) = 0 \<and>
     agree_off (page_bytes b (at_pages q P)) m0 m"

definition page_gap :: "nat set \<Rightarrow> nat set \<Rightarrow> bool" where
  "page_gap P Q \<longleftrightarrow> (\<forall>x\<in>P. \<forall>y\<in>Q. x \<noteq> y \<and> x + 1 \<noteq> y \<and> y + 1 \<noteq> x)"

lemma page_gap_simps [simp]:
  "page_gap P {}" "page_gap P (Q \<union> Q') \<longleftrightarrow> page_gap P Q \<and> page_gap P Q'"
  by (auto simp: page_gap_def)

lemma page_gap_mono: "page_gap P Q \<Longrightarrow> P' \<subseteq> P \<Longrightarrow> Q' \<subseteq> Q \<Longrightarrow> page_gap P' Q'"
  unfolding page_gap_def by blast

lemma add_pages_ok:
  assumes bt: "booting hh q m0 m b P" and run: "q \<le> a" "c \<le> q + MAX_PAGES"
    and top: "hh + (q + MAX_PAGES) * 4096 \<le> u64_max" and gap: "page_gap {a..<c} P"
  shows "\<exists>m' b'. add_pages hh (a * 4096) (c * 4096) (m, b) = Inr (m', b') \<and> booting hh q m0 m' b' (P \<union> {a..<c})"
proof (cases "a < c")
  case False
  then show ?thesis using bt by (simp add: add_pages_def)
next
  case True
  have n: "(c * 4096 - a * 4096) div 4096 = c - a" by (simp flip: diff_mult_distrib)
  have "a * 4096 \<le> (q + MAX_PAGES) * 4096" using True run(2) by (intro mult_le_mono1) simp
  then have v: "hh + a * 4096 \<le> u64_max" using top by linarith
  have e: "c - 1 \<in> {a..<c}" "a \<in> {a..<c}" using True by auto
  have dis: "{a..<c} \<inter> P = {}" and c: "c \<notin> P" and a: "a = q \<or> a - 1 \<notin> P"
  proof -
    show "{a..<c} \<inter> P = {}" using gap by (auto simp: page_gap_def)
    have "c - 1 + 1 = c" using True by simp
    then show "c \<notin> P" using gap e(1) by (metis page_gap_def)
    show "a = q \<or> a - 1 \<notin> P"
    proof (cases "a = q")
      case False
      then have "a - 1 + 1 = a" using run(1) by simp
      then show ?thesis using gap e(2) by (metis page_gap_def)
    qed simp
  qed
  have mm: "manages_merged m b (at_pages q P) (at_pages q P)" and base: "bd_base b = hh + q * 4096"
    using bt by (simp_all add: booting_def)
  from add_run [OF base manages_mergedD [OF mm] run(1) True run(2) dis]
  obtain m' b' where r: "add_region (hh + a * 4096) (c - a) (m, b) = Inr (m', b')" "bd_base b' = hh + q * 4096"
    "manages_merged m' b' (at_pages q (P \<union> {a..<c})) (at_pages q (P \<union> {a..<c}))"
    "used_bytes (bd_stats b') = used_bytes (bd_stats b)" "alloc_count (bd_stats b') = alloc_count (bd_stats b)"
    "dealloc_count (bd_stats b') = dealloc_count (bd_stats b)"
    and ag: "agree_off (page_bytes b (at_pages q (P \<union> {a..<c}))) m m'"
    using mm c a by blast
  have pb: "page_bytes b' = page_bytes b" using r(2) base by (intro page_bytes_base) simp
  have "agree_off (page_bytes b (at_pages q (P \<union> {a..<c}))) m0 m"
    by (rule agree_off_mono [OF _ page_bytes_mono]) (use bt in \<open>auto simp: booting_def\<close>)
  then have "agree_off (page_bytes b' (at_pages q (P \<union> {a..<c}))) m0 m'" unfolding pb using ag by (rule agree_off_trans)
  then show ?thesis using r n v True bt by (simp add: add_pages_def booting_def)
qed

lemma add_usable_ok:
  assumes laws: "bitwise_laws w" and ok: "rg_type r = Usable \<Longrightarrow> region_ok r" and k: "k1 < k2"
    and bt: "booting hh q m0 m b P" and top: "hh + (q + MAX_PAGES) * 4096 \<le> u64_max"
    and rng: "rg_type r = Usable \<Longrightarrow> q \<le> first_page r \<and> last_page r \<le> q + MAX_PAGES"
    and gap: "rg_type r = Usable \<Longrightarrow> page_gap (region_pages r) P"
  shows "\<exists>m' b'. add_usable w hh (k1 * 4096) (k2 * 4096) r (m, b) = Inr (m', b') \<and>
    booting hh q m0 m' b' (P \<union> (if rg_type r = Usable then region_pages r - {k1..<k2} else {}))"
proof (cases "rg_type r = Usable \<and> first_page r < last_page r")
  case False
  then show ?thesis
  proof (cases "rg_type r = Usable")
    case True
    then have "region_pages r = {}" using False by (simp add: region_pages_def)
    then show ?thesis using False True bt region_bounds [OF laws ok [OF True]] by (simp add: add_usable_def)
  qed (use bt in \<open>simp add: add_usable_def\<close>)
next
  case True
  let ?f = "first_page r" and ?l = "last_page r"
  let ?A = "if ?f < k1 then {?f..<min ?l k1} else {}" and ?B = "if k2 < ?l then {max ?f k2..<?l} else {}"
  note al = region_bounds [OF laws ok] and g = gap [unfolded region_pages_def]
  have mul: "min (?l * 4096) (k1 * 4096) = min ?l k1 * 4096" "max (?f * 4096) (k2 * 4096) = max ?f k2 * 4096"
    by (simp_all add: min_def max_def)
  obtain m1 b1 where 1: "(if ?f < k1 then add_pages hh (?f * 4096) (min ?l k1 * 4096) (m, b) else Inr (m, b)) = Inr (m1, b1)"
    "booting hh q m0 m1 b1 (P \<union> ?A)"
  proof (cases "?f < k1")
    case f: True
    have "page_gap {?f..<min ?l k1} P" by (rule page_gap_mono [OF g]) (use True in auto)
    then obtain m' b' where "add_pages hh (?f * 4096) (min ?l k1 * 4096) (m, b) = Inr (m', b')"
      "booting hh q m0 m' b' (P \<union> {?f..<min ?l k1})"
      using add_pages_ok [OF bt _ _ top, of ?f "min ?l k1"] rng True by (auto simp: min_le_iff_disj)
    then show thesis using that f by simp
  qed (use bt that in simp)
  obtain m2 b2 where 2: "(if ?l > k2 then add_pages hh (max ?f k2 * 4096) (?l * 4096) (m1, b1) else Inr (m1, b1)) = Inr (m2, b2)"
    "booting hh q m0 m2 b2 (P \<union> ?A \<union> ?B)"
  proof (cases "?l > k2")
    case l: True
    have "page_gap {max ?f k2..<?l} P" by (rule page_gap_mono [OF g]) (use True in auto)
    moreover have "page_gap {max ?f k2..<?l} ?A" using k by (auto simp: page_gap_def)
    ultimately have "page_gap {max ?f k2..<?l} (P \<union> ?A)" by simp
    then obtain m' b' where "add_pages hh (max ?f k2 * 4096) (?l * 4096) (m1, b1) = Inr (m', b')"
      "booting hh q m0 m' b' (P \<union> ?A \<union> {max ?f k2..<?l})"
      using add_pages_ok [OF 1(2) _ _ top, of "max ?f k2" ?l] rng True by (auto simp: le_max_iff_disj split del: if_split)
    then show thesis using that l by simp
  qed (use 1(2) that in simp)
  have "?A \<union> ?B = region_pages r - {k1..<k2}" using k by (auto simp: region_pages_def)
  then have "booting hh q m0 m2 b2 (P \<union> (region_pages r - {k1..<k2}))" using 2(2) by (simp add: Un_assoc)
  moreover have "add_usable w hh (k1 * 4096) (k2 * 4096) r (m, b) = Inr (m2, b2)"
    using True al 1(1) 2(1) mul by (simp add: add_usable_def Let_def cong: if_cong split del: if_split)
  ultimately show ?thesis using True by auto
qed


definition usable_list :: "memory_region list \<Rightarrow> memory_region list" where
  "usable_list rs = filter (\<lambda>r. rg_type r = Usable) rs"

definition usable_pages :: "nat \<Rightarrow> nat \<Rightarrow> memory_region list \<Rightarrow> nat set" where
  "usable_pages k1 k2 rs = (\<Union>r\<in>set (usable_list rs). region_pages r) - {k1..<k2}"

definition gap_regions :: "memory_region list \<Rightarrow> bool" where
  "gap_regions rs \<longleftrightarrow> sorted_wrt (\<lambda>r s. page_gap (region_pages s) (region_pages r)) rs"

lemma add_usable_regions_ok:
  assumes laws: "bitwise_laws w" and k: "k1 < k2" and bt: "booting hh q m0 m b P"
    and top: "hh + (q + MAX_PAGES) * 4096 \<le> u64_max" and gaps: "gap_regions (usable_list rs)"
    and rng: "\<And>r. r \<in> set (usable_list rs) \<Longrightarrow> region_ok r \<and> q \<le> first_page r \<and> last_page r \<le> q + MAX_PAGES \<and>
      page_gap (region_pages r) P"
  shows "\<exists>m' b'. add_usable_regions w hh (k1 * 4096) (k2 * 4096) rs (m, b) = Inr (m', b') \<and>
    booting hh q m0 m' b' (P \<union> usable_pages k1 k2 rs)"
  using bt gaps rng
proof (induction rs arbitrary: m b P)
  case Nil
  then show ?case by (simp add: usable_pages_def usable_list_def)
next
  case (Cons r rs)
  let ?N = "if rg_type r = Usable then region_pages r - {k1..<k2} else {}"
  obtain m1 b1 where 1: "add_usable w hh (k1 * 4096) (k2 * 4096) r (m, b) = Inr (m1, b1)" "booting hh q m0 m1 b1 (P \<union> ?N)"
  proof -
    have "region_ok r \<and> q \<le> first_page r \<and> last_page r \<le> q + MAX_PAGES \<and> page_gap (region_pages r) P" if "rg_type r = Usable"
      using Cons.prems(3) [of r] that by (simp add: usable_list_def)
    then show thesis using add_usable_ok [OF laws _ k Cons.prems(1) top, of r] that by blast
  qed
  have "gap_regions (usable_list rs)" using Cons.prems(2) by (auto simp: gap_regions_def usable_list_def split: if_splits)
  moreover have "region_ok x \<and> q \<le> first_page x \<and> last_page x \<le> q + MAX_PAGES \<and> page_gap (region_pages x) (P \<union> ?N)"
    if x: "x \<in> set (usable_list rs)" for x
  proof -
    have "x \<in> set (usable_list (r # rs))" using x by (simp add: usable_list_def)
    note Cons.prems(3) [OF this]
    moreover have "page_gap (region_pages x) ?N"
    proof (cases "rg_type r = Usable")
      case True
      then have "page_gap (region_pages x) (region_pages r)"
        using Cons.prems(2) x by (simp add: gap_regions_def usable_list_def)
      then show ?thesis using True by (auto elim: page_gap_mono)
    qed simp
    ultimately show ?thesis by simp
  qed
  ultimately obtain m2 b2 where 2: "add_usable_regions w hh (k1 * 4096) (k2 * 4096) rs (m1, b1) = Inr (m2, b2)"
    "booting hh q m0 m2 b2 (P \<union> ?N \<union> usable_pages k1 k2 rs)"
    using Cons.IH [OF 1(2)] by blast
  have "P \<union> ?N \<union> usable_pages k1 k2 rs = P \<union> usable_pages k1 k2 (r # rs)"
    by (auto simp: usable_pages_def usable_list_def)
  with 1 2 show ?case by simp
qed

subsection \<open>The whole initialisation\<close>

definition lowest_page :: "memory_region list \<Rightarrow> nat" where
  "lowest_page rs = Min (first_page ` set (usable_list rs))"

definition memory_map_ok :: "nat \<Rightarrow> memory_region list \<Rightarrow> bool" where
  "memory_map_ok hh rs \<longleftrightarrow>
     usable_list rs \<noteq> [] \<and> gap_regions (usable_list rs) \<and>
     (\<forall>r\<in>set (usable_list rs). region_ok r \<and> last_page r \<le> lowest_page rs + MAX_PAGES) \<and>
     hh mod 4096 = 0 \<and> hh + lowest_page rs * 4096 \<noteq> 0 \<and>
     hh + (lowest_page rs + MAX_PAGES + 1) * 4096 \<le> u64_max"

lemma lowest_page_le: "r \<in> set (usable_list rs) \<Longrightarrow> lowest_page rs \<le> first_page r"
  by (simp add: lowest_page_def)

lemma first_last: "first_page r \<le> last_page r + 1"
  unfolding first_page_def last_page_def by linarith

lemma usable_bases_ok:
  assumes "bitwise_laws w"
    and "\<And>r. r \<in> set (usable_list rs) \<Longrightarrow> region_ok r \<and> hh + first_page r * 4096 \<le> u64_max"
  shows "usable_bases w hh rs = Inr (map (\<lambda>r. hh + first_page r * 4096) (usable_list rs))"
  using assms(2)
proof (induction rs)
  case (Cons r rs)
  have "usable_bases w hh rs = Inr (map (\<lambda>r. hh + first_page r * 4096) (usable_list rs))"
    by (rule Cons.IH, rule Cons.prems) (simp add: usable_list_def)
  moreover have "is_immediately_usable (rg_type r) \<longleftrightarrow> rg_type r = Usable" by (cases "rg_type r") simp_all
  ultimately show ?case
    using Cons.prems [of r] region_bounds(1) [OF assms(1), of r] by (auto simp: usable_list_def)
qed (simp add: usable_list_def)

lemma min_virt_ok:
  assumes laws: "bitwise_laws w" and map: "memory_map_ok hh rs"
  shows "min_virt w hh rs = Inr (hh + lowest_page rs * 4096)"
proof -
  let ?us = "usable_list rs"
  have ne: "?us \<noteq> []" using map by (simp add: memory_map_ok_def)
  have bnd: "region_ok r \<and> hh + first_page r * 4096 \<le> u64_max" if r: "r \<in> set ?us" for r
  proof -
    have "first_page r \<le> lowest_page rs + MAX_PAGES + 1"
      using first_last [of r] map r by (fastforce simp: memory_map_ok_def)
    then have "first_page r * 4096 \<le> (lowest_page rs + MAX_PAGES + 1) * 4096" by (rule mult_le_mono1)
    then show ?thesis using map r unfolding memory_map_ok_def by (meson add_left_mono le_trans)
  qed
  have "min_list (map (\<lambda>r. hh + first_page r * 4096) ?us) = Min ((\<lambda>p. hh + p * 4096) ` first_page ` set ?us)"
    using ne by (simp add: min_list_Min image_image)
  also have "\<dots> = hh + lowest_page rs * 4096"
    unfolding lowest_page_def using ne by (intro mono_Min_commute [symmetric]) (auto simp: mono_def)
  finally show ?thesis using usable_bases_ok [OF laws bnd] ne by (simp add: min_virt_def expect_some_def)
qed

lemma client_frame:
  assumes inv: "client_inv R (m, b, live)" and ag: "agree_off X m m'" and held: "live a = Some k" "X \<subseteq> block_range a k"
  shows "client_inv R (m', b, live)"
proof -
  from inv obtain S where S: "manages_merged m b R S" and blks: "\<forall>a k. live a = Some k \<longrightarrow> live_block b R S a k"
    unfolding client_inv_def prod.case by blast
  have "X \<inter> page_bytes b S = {}" using live_block_bytes blks held by blast
  then have "manages_merged m' b R S" using S buddy_inv_frame [OF _ ag] unfolding manages_merged_def by metis
  with blks inv show ?thesis unfolding client_inv_def prod.case by blast
qed

lemma pool_class: "mapping (4194304 - 64) = Inr (21, 31)"
proof -
  have "bit_length 4194240 = 22" by (simp add: bit_length.simps)
  then show ?thesis
    by (simp add: mapping_def leading_zeros_def SL_INDEX_COUNT_def and_31 [simplified] drop_bit_eq_div)
qed

lemma booting_new:
  assumes "memory_map_ok hh rs"
  shows "set_base (hh + lowest_page rs * 4096) buddy_new = Inr (buddy_new\<lparr>bd_base := hh + lowest_page rs * 4096\<rparr>)"
    and "booting hh (lowest_page rs) m m (buddy_new\<lparr>bd_base := hh + lowest_page rs * 4096\<rparr>) {}"
proof -
  have base: "wf_base (buddy_new\<lparr>bd_base := hh + lowest_page rs * 4096\<rparr>)"
    using assms by (auto simp: memory_map_ok_def wf_base_def PAGE_SIZE_def add_mult_distrib)
  show "set_base (hh + lowest_page rs * 4096) buddy_new = Inr (buddy_new\<lparr>bd_base := hh + lowest_page rs * 4096\<rparr>)"
    by (rule set_base_ok(1) [OF base])
  show "booting hh (lowest_page rs) m m (buddy_new\<lparr>bd_base := hh + lowest_page rs * 4096\<rparr>) {}"
    using set_base_merged [OF base] by (simp add: booting_def buddy_new_def zero_stats_def)
qed

text \<open>From the allocator with all usable pages: the 4 MiB for the heap.\<close>

lemma take_pool:
  assumes bt: "booting hh q m0 m b U" and base: "hh + q * 4096 \<noteq> 0" and top: "hh + (q + MAX_PAGES) * 4096 \<le> u64_max"
    and low: "\<And>x. x \<in> U \<Longrightarrow> q \<le> x"
  shows "\<exists>r m' b'. alloc_pages 10 (m, b) = Inr (r, m', b') \<and>
    (r = None \<longleftrightarrow> (\<forall>i. 1024 dvd i \<longrightarrow> \<not> {q + i..<q + i + 1024} \<subseteq> U)) \<and>
    (\<forall>a. r = Some a \<longrightarrow> (\<exists>p m2 t2. a = hh + p * 4096 \<and> {p..<p + 1024} \<subseteq> U \<and> a \<noteq> 0 \<and>
       add_pool a 4194304 (m', tlsf_new) = Inr (m2, t2) \<and> bd_base b' = hh + q * 4096 \<and>
       client_inv (at_pages q U) (m2, b', [a \<mapsto> 10]) \<and>
       manages_merged m2 b' (at_pages q U) (at_pages q (U - {p..<p + 1024})) \<and>
       tlsf_rep m2 t2 (set_class 21 31 [a] (\<lambda>_ _. [])) \<and> block_size m2 a = 4194304 - 64 \<and>
       alloc_count (bd_stats b') = 1 \<and> agree_off (page_bytes b' (at_pages q U)) m0 m2))"
proof -
  let ?R = "at_pages q U"
  have mm: "manages_merged m b ?R ?R" and b0: "bd_base b = hh + q * 4096" and used: "used_bytes (bd_stats b) = 0"
    and cnt: "alloc_count (bd_stats b) < u64_max"
    using bt by (simp_all add: booting_def u64_max_def)
  have o: "(10::nat) < BUDDY_MAX_ORDER" by (simp add: BUDDY_MAX_ORDER_def)
  have sub: "{i..<i + 1024} \<subseteq> ?R \<longleftrightarrow> {q + i..<q + i + 1024} \<subseteq> U" for i
  proof -
    have "{i..<i + 1024} \<subseteq> ?R \<longleftrightarrow> (\<lambda>j. q + j) ` {i..<i + 1024} \<subseteq> U"
      unfolding at_pages_def image_subset_iff by blast
    also have "(\<lambda>j. q + j) ` {i..<i + 1024} = {q + i..<q + i + 1024}"
      by (simp add: image_add_atLeastLessThan algebra_simps)
    finally show ?thesis .
  qed
  obtain r m' b' where run: "alloc_pages 10 (m, b) = Inr (r, m', b')"
    and none: "r = None \<longleftrightarrow> (\<forall>i. 1024 dvd i \<longrightarrow> \<not> {i..<i + 1024} \<subseteq> ?R)"
    and some: "\<forall>a. r = Some a \<longrightarrow> (\<exists>i. a = page_addr b i \<and> wf_block (10, i) \<and> {i..<i + 1024} \<subseteq> ?R \<and>
      manages_merged m' b' ?R (?R - {i..<i + 1024}))"
    using alloc_merged [OF mm o cnt] by auto
  have "\<exists>p m2 t2. a = hh + p * 4096 \<and> {p..<p + 1024} \<subseteq> U \<and> a \<noteq> 0 \<and>
       add_pool a 4194304 (m', tlsf_new) = Inr (m2, t2) \<and> bd_base b' = hh + q * 4096 \<and>
       client_inv ?R (m2, b', [a \<mapsto> 10]) \<and> manages_merged m2 b' ?R (at_pages q (U - {p..<p + 1024})) \<and>
       tlsf_rep m2 t2 (set_class 21 31 [a] (\<lambda>_ _. [])) \<and> block_size m2 a = 4194304 - 64 \<and>
       alloc_count (bd_stats b') = 1 \<and> agree_off (page_bytes b' (at_pages q U)) m0 m2" if a: "r = Some a" for a
  proof -
    obtain i where i: "a = page_addr b i" "wf_block (10, i)" "{i..<i + 1024} \<subseteq> ?R"
      "manages_merged m' b' ?R (?R - {i..<i + 1024})" using some a by blast
    have addr: "a = hh + (q + i) * 4096" using i(1) b0 by (simp add: page_addr_def PAGE_SIZE_def add_mult_distrib)
    have win: "i + 1024 \<le> MAX_PAGES" using i(2) by simp
    have "(q + i + 1024) * 4096 \<le> (q + MAX_PAGES) * 4096" using win by (intro mult_le_mono1) simp
    then have lim: "a + 4194304 \<le> u64_max" using addr top by (simp add: add_mult_distrib)
    have nz: "a \<noteq> 0" using addr base by (auto simp: add_mult_distrib)
    have b': "bd_base b' = hh + q * 4096" and c': "alloc_count (bd_stats b') = 1" and ag1: "agree_off (page_bytes b ?R) m m'"
      using alloc_ok [OF manages_mergedD [OF mm] o cnt] run a b0 bt by (auto simp: booting_def)
    have pb: "page_bytes b' = page_bytes b" using b' b0 by (intro page_bytes_base) simp
    have ci: "client_inv ?R (m', b', [a \<mapsto> 10])"
      using alloc_step_inv(1) [OF client_inv_init [OF mm used] o cnt, of a m' b'] run a by simp
    obtain m2 t2 where pool: "add_pool a 4194304 (m', tlsf_new) = Inr (m2, t2)"
      "tlsf_rep m2 t2 (set_class 21 31 [a] (\<lambda>_ _. []))" "block_size m2 a = 4194304 - 64"
      "agree_off {a..<a + 4194304} m' m2"
      by (rule add_pool_ok [OF tlsf_new_rep [of m'] _ _ nz lim _ pool_class])
        (simp_all add: free_blocks_def ptr_cells_def)
    have blk: "{a..<a + 4194304} \<subseteq> block_range a 10" by (auto simp: block_range_def PAGE_SIZE_def)
    have ci2: "client_inv ?R (m2, b', [a \<mapsto> 10])" by (rule client_frame [OF ci pool(4) _ blk]) simp
    have "page_addr b' i = a" using i(1) b0 b' by (simp add: page_addr_def)
    then have "{a..<a + 4194304} \<subseteq> page_bytes b' {i..<i + 2 ^ 10}" using blk block_range_pages [of b' i 10] by simp
    then have "{a..<a + 4194304} \<inter> page_bytes b' (?R - {i..<i + 1024}) = {}"
      using page_bytes_disjoint [of "{i..<i + 2 ^ 10}" "?R - {i..<i + 1024}" b'] by auto
    then have mm2: "manages_merged m2 b' ?R (?R - {i..<i + 1024})"
      using i(4) buddy_inv_frame [OF _ pool(4)] unfolding manages_merged_def by metis
    have "{a..<a + 4194304} \<subseteq> page_bytes b' ?R"
      using \<open>{a..<a + 4194304} \<subseteq> page_bytes b' {i..<i + 2 ^ 10}\<close> page_bytes_mono [OF i(3), of b'] by simp
    then have "agree_off (page_bytes b' ?R) m' m2" by (rule agree_off_mono [OF pool(4)])
    moreover have "agree_off (page_bytes b' ?R) m0 m'"
      using bt agree_off_trans [OF _ ag1] unfolding pb by (simp add: booting_def)
    ultimately have ag: "agree_off (page_bytes b' ?R) m0 m2" by (rule agree_off_trans [rotated])
    have "at_pages q {q + i..<q + i + 1024} = {i..<i + 1024}" using at_pages_run [of q "q + i" "q + i + 1024"] by simp
    with mm2 have "manages_merged m2 b' ?R (at_pages q (U - {q + i..<q + i + 1024}))" by simp
    then show ?thesis using addr nz pool b' ci2 i(3) sub c' ag by (intro exI [of _ "q + i"] exI [of _ m2] exI [of _ t2]) simp
  qed
  with run none sub show ?thesis by (intro exI [of _ r] exI [of _ m'] exI [of _ b']) auto
qed

lemma heap_init_ok:
  assumes laws: "bitwise_laws w" and map: "memory_map_ok hh rs"
    and k: "ks + 4096 \<le> u64_max" "ke + 4096 \<le> u64_max" "ks div 4096 < (ke + 4095) div 4096"
    and U: "U = usable_pages (ks div 4096) ((ke + 4095) div 4096) rs" and q: "q = lowest_page rs"
  shows "if \<exists>i. 1024 dvd i \<and> {q + i..<q + i + 1024} \<subseteq> U
    then \<exists>m' b' t' p. heap_init w rs ks ke hh (m, buddy_new, tlsf_new) = Inr (m', b', t') \<and>
      {p..<p + 1024} \<subseteq> U \<and> bd_base b' = hh + q * 4096 \<and>
      client_inv (at_pages q U) (m', b', [hh + p * 4096 \<mapsto> 10]) \<and>
      manages_merged m' b' (at_pages q U) (at_pages q (U - {p..<p + 1024})) \<and>
      tlsf_rep m' t' (set_class 21 31 [hh + p * 4096] (\<lambda>_ _. [])) \<and>
      block_size m' (hh + p * 4096) = 4194304 - 64 \<and>
      alloc_count (bd_stats b') = 1 \<and> agree_off (page_bytes b' (at_pages q U)) m m'
    else heap_init w rs ks ke hh (m, buddy_new, tlsf_new) = Inl (Expect ''TLSF init: buddy OOM'')"
proof -
  note mo = map [unfolded memory_map_ok_def]
  have top: "hh + (q + MAX_PAGES) * 4096 \<le> u64_max" using mo q by (simp add: add_mult_distrib)
  have al: "align_down w ks 4096 = ks div 4096 * 4096" "align_up w ke 4096 = (ke + 4095) div 4096 * 4096"
    using align_4096 [OF laws k(1)] align_4096 [OF laws k(2)] by simp_all
  have rng: "region_ok r \<and> q \<le> first_page r \<and> last_page r \<le> q + MAX_PAGES \<and> page_gap (region_pages r) {}"
    if "r \<in> set (usable_list rs)" for r using mo lowest_page_le that q by auto
  have bt0: "booting hh q m m (buddy_new\<lparr>bd_base := hh + q * 4096\<rparr>) {}" unfolding q by (rule booting_new(2) [OF map])
  have gaps: "gap_regions (usable_list rs)" using mo by blast
  obtain m1 b1 where add: "add_usable_regions w hh (ks div 4096 * 4096) ((ke + 4095) div 4096 * 4096) rs
      (m, buddy_new\<lparr>bd_base := hh + q * 4096\<rparr>) = Inr (m1, b1)" and bt: "booting hh q m m1 b1 U"
    using add_usable_regions_ok [OF laws k(3) bt0 top gaps rng] U by auto
  have low: "q \<le> x" if "x \<in> U" for x
    using that rng U by (fastforce simp: usable_pages_def region_pages_def)
  obtain r m2 b2 where al2: "alloc_pages 10 (m1, b1) = Inr (r, m2, b2)"
    and none: "r = None \<longleftrightarrow> (\<forall>i. 1024 dvd i \<longrightarrow> \<not> {q + i..<q + i + 1024} \<subseteq> U)"
    and some: "\<forall>a. r = Some a \<longrightarrow> (\<exists>p m3 t3. a = hh + p * 4096 \<and> {p..<p + 1024} \<subseteq> U \<and> a \<noteq> 0 \<and>
       add_pool a 4194304 (m2, tlsf_new) = Inr (m3, t3) \<and> bd_base b2 = hh + q * 4096 \<and>
       client_inv (at_pages q U) (m3, b2, [a \<mapsto> 10]) \<and>
       manages_merged m3 b2 (at_pages q U) (at_pages q (U - {p..<p + 1024})) \<and>
       tlsf_rep m3 t3 (set_class 21 31 [a] (\<lambda>_ _. [])) \<and> block_size m3 a = 4194304 - 64 \<and>
       alloc_count (bd_stats b2) = 1 \<and> agree_off (page_bytes b2 (at_pages q U)) m m3)"
    using take_pool [OF bt _ top low] mo q by auto
  have run: "heap_init w rs ks ke hh (m, buddy_new, tlsf_new) =
      and_then (expect_some ''TLSF init: buddy OOM'' r) (\<lambda>pool.
      and_then (add_pool pool 4194304 (m2, tlsf_new)) (\<lambda>(m, t). Inr (m, b2, t)))"
    using al min_virt_ok [OF laws map] booting_new(1) [OF map] add al2 q
    by (simp add: heap_init_def init_from_ptr_def Let_def)
  show ?thesis
  proof (cases r)
    case None
    then show ?thesis using run none by (auto simp: expect_some_def)
  next
    case (Some a)
    then obtain p m3 t3 where "a = hh + p * 4096" "{p..<p + 1024} \<subseteq> U"
       "add_pool a 4194304 (m2, tlsf_new) = Inr (m3, t3)" "bd_base b2 = hh + q * 4096"
       "client_inv (at_pages q U) (m3, b2, [a \<mapsto> 10])"
       "manages_merged m3 b2 (at_pages q U) (at_pages q (U - {p..<p + 1024}))"
       "tlsf_rep m3 t3 (set_class 21 31 [a] (\<lambda>_ _. []))" "block_size m3 a = 4194304 - 64"
       "alloc_count (bd_stats b2) = 1" "agree_off (page_bytes b2 (at_pages q U)) m m3"
      using some by blast
    then show ?thesis using run none Some by (auto simp: expect_some_def)
  qed
qed


definition demo_map :: "memory_region list" where
  "demo_map =
     [\<lparr>rg_base = 0, rg_length = 0x9F000, rg_type = Reserved\<rparr>,
      \<lparr>rg_base = 0x100000, rg_length = 0x800000, rg_type = Usable\<rparr>]"

lemma demo_map_facts:
  "usable_list demo_map = [\<lparr>rg_base = 0x100000, rg_length = 0x800000, rg_type = Usable\<rparr>]"
  "region_pages \<lparr>rg_base = 0x100000, rg_length = 0x800000, rg_type = Usable\<rparr> = {256..<2304}"
  "lowest_page demo_map = 256" "memory_map_ok 0x1000000 demo_map"
  "usable_pages 512 768 demo_map = {256..<2304} - {512..<768}"
proof -
  show u: "usable_list demo_map = [\<lparr>rg_base = 0x100000, rg_length = 0x800000, rg_type = Usable\<rparr>]"
    by (simp add: usable_list_def demo_map_def)
  show r: "region_pages \<lparr>rg_base = 0x100000, rg_length = 0x800000, rg_type = Usable\<rparr> = {256..<2304}"
    by (simp add: region_pages_def first_page_def last_page_def)
  show l: "lowest_page demo_map = 256" by (simp add: lowest_page_def u first_page_def)
  show "memory_map_ok 0x1000000 demo_map"
    by (simp add: memory_map_ok_def u l gap_regions_def region_ok_def last_page_def MAX_PAGES_def BUDDY_MAX_ORDER_def u64_max_def)
  show "usable_pages 512 768 demo_map = {256..<2304} - {512..<768}" by (simp add: usable_pages_def u r)
qed


subsection \<open>Reclaiming the boot loader's memory\<close>

definition reclaim_pages :: "memory_region list \<Rightarrow> nat set" where
  "reclaim_pages rs = (\<Union>r\<in>{r \<in> set rs. 256 \<le> first_page r}. region_pages r)"

definition reclaimable_ok :: "nat \<Rightarrow> nat set \<Rightarrow> memory_region \<Rightarrow> bool" where
  "reclaimable_ok q R r \<longleftrightarrow> region_ok r \<and>
     (256 \<le> first_page r \<longrightarrow> region_pages r \<noteq> {} \<longrightarrow>
        q \<le> first_page r \<and> last_page r \<le> q + MAX_PAGES \<and> region_pages r \<inter> R = {})"

lemma sp_page_ok: "hh \<le> sp \<Longrightarrow> sp \<le> u64_max \<Longrightarrow> sp_page hh sp = Inr ((sp - hh) div 4096 * 4096)"
  using and_not_mask [of "sp - hh" 12] by (simp add: sp_page_def minus_mod_eq_div_mult)

lemma release_region_ok:
  assumes laws: "bitwise_laws w" and ok: "reclaimable_ok q R r"
    and base: "bd_base b = hh + q * 4096" and mg: "manages m b (at_pages q R) (at_pages q S)"
    and top: "hh + (q + MAX_PAGES) * 4096 \<le> u64_max"
    and N: "N = (if 256 \<le> first_page r \<and> k \<notin> region_pages r then region_pages r else {})"
  shows "\<exists>m' b'. release_region w hh (k * 4096) r (m, b) = Inr (m', b') \<and> bd_base b' = hh + q * 4096 \<and>
    manages m' b' (at_pages q (R \<union> N)) (at_pages q (S \<union> N)) \<and> agree_off (page_bytes b (at_pages q (S \<union> N))) m m'"
proof -
  let ?f = "first_page r" and ?l = "last_page r"
  have al: "aligned_base w r = ?f * 4096" "aligned_end w r = Inr (?l * 4096)"
    using region_bounds [OF laws, of r] ok by (simp_all add: reclaimable_ok_def)
  have low: "?f * 4096 < 0x100000 \<longleftrightarrow> ?f < 256" by linarith
  show ?thesis
  proof (cases "?f < ?l \<and> 256 \<le> ?f \<and> k \<notin> region_pages r")
    case False
    then have "N = {}" using N by (auto simp: region_pages_def)
    then show ?thesis using False al low base mg by (auto simp: release_region_def region_pages_def Let_def)
  next
    case True
    then have Nr: "N = {?f..<?l}" using N by (simp add: region_pages_def)
    have rng: "q \<le> ?f" "?l \<le> q + MAX_PAGES" "{?f..<?l} \<inter> R = {}"
      using ok True by (auto simp: reclaimable_ok_def region_pages_def)
    have n: "(?l * 4096 - ?f * 4096) div 4096 = ?l - ?f" by (simp flip: diff_mult_distrib)
    have "?f * 4096 \<le> (q + MAX_PAGES) * 4096" using True rng(2) by (intro mult_le_mono1) simp
    then have v: "hh + ?f * 4096 \<le> u64_max" using top by linarith
    obtain m' b' where "add_region (hh + ?f * 4096) (?l - ?f) (m, b) = Inr (m', b')" "bd_base b' = hh + q * 4096"
      "manages m' b' (at_pages q (R \<union> N)) (at_pages q (S \<union> N))" "agree_off (page_bytes b (at_pages q (S \<union> N))) m m'"
      using add_run [OF base mg rng(1) _ rng(2,3)] True Nr by blast
    then show ?thesis using True al low n v
      by (auto simp: release_region_def region_pages_def Let_def)
  qed
qed

lemma release_regions_ok:
  assumes laws: "bitwise_laws w" and top: "hh + (q + MAX_PAGES) * 4096 \<le> u64_max"
    and base: "bd_base b = hh + q * 4096" and mg: "manages m b (at_pages q R) (at_pages q S)"
    and ok: "\<And>r. r \<in> set rs \<Longrightarrow> reclaimable_ok q R r"
    and apart: "sorted_wrt (\<lambda>r s. region_pages r \<inter> region_pages s = {}) rs"
    and N: "N = (\<Union>r\<in>{r \<in> set rs. 256 \<le> first_page r \<and> k \<notin> region_pages r}. region_pages r)"
  shows "\<exists>m' b'. release_regions w hh (k * 4096) rs (m, b) = Inr (m', b') \<and> bd_base b' = hh + q * 4096 \<and>
    manages m' b' (at_pages q (R \<union> N)) (at_pages q (S \<union> N)) \<and> agree_off (page_bytes b (at_pages q (S \<union> N))) m m'"
  using base mg ok apart N
proof (induction rs arbitrary: m b R S N)
  case Nil
  then show ?case by simp
next
  case (Cons r rs)
  define N1 where "N1 = (if 256 \<le> first_page r \<and> k \<notin> region_pages r then region_pages r else {})"
  define N2 where "N2 = (\<Union>r\<in>{r \<in> set rs. 256 \<le> first_page r \<and> k \<notin> region_pages r}. region_pages r)"
  have N: "N = N1 \<union> N2" using Cons.prems(5) by (auto simp: N1_def N2_def split: if_splits)
  have r: "reclaimable_ok q R r" by (rule Cons.prems(3)) simp
  obtain m1 b1 where 1: "release_region w hh (k * 4096) r (m, b) = Inr (m1, b1)" "bd_base b1 = hh + q * 4096"
    "manages m1 b1 (at_pages q (R \<union> N1)) (at_pages q (S \<union> N1))" "agree_off (page_bytes b (at_pages q (S \<union> N1))) m m1"
    using release_region_ok [OF laws r Cons.prems(1,2) top N1_def] by blast
  have ok: "reclaimable_ok q (R \<union> N1) x" if x: "x \<in> set rs" for x
  proof -
    have "reclaimable_ok q R x" by (rule Cons.prems(3)) (use x in simp)
    moreover have "region_pages x \<inter> N1 = {}" using Cons.prems(4) x by (auto simp: N1_def)
    ultimately show ?thesis by (auto simp: reclaimable_ok_def)
  qed
  have "sorted_wrt (\<lambda>r s. region_pages r \<inter> region_pages s = {}) rs" using Cons.prems(4) by simp
  from Cons.IH [OF 1(2,3) ok this N2_def]
  obtain m2 b2 where 2: "release_regions w hh (k * 4096) rs (m1, b1) = Inr (m2, b2)" "bd_base b2 = hh + q * 4096"
    "manages m2 b2 (at_pages q (R \<union> N1 \<union> N2)) (at_pages q (S \<union> N1 \<union> N2))"
    "agree_off (page_bytes b1 (at_pages q (S \<union> N1 \<union> N2))) m1 m2"
    by blast
  have pb: "page_bytes b1 = page_bytes b" using 1(2) Cons.prems(1) by (intro page_bytes_base) simp
  have "agree_off (page_bytes b (at_pages q (S \<union> N))) m m2"
    by (rule agree_off_trans [OF agree_off_mono [OF 1(4) page_bytes_mono] agree_off_mono [OF 2(4) [unfolded pb] page_bytes_mono]])
      (auto simp: N at_pages_def)
  with 1(1) 2 N show ?case by (simp add: Un_assoc)
qed

lemma regions_apart:
  assumes "sorted_wrt (\<lambda>r s. region_pages r \<inter> region_pages s = {}) rs" and "x \<in> set rs" "y \<in> set rs" "x \<noteq> y"
  shows "region_pages x \<inter> region_pages y = {}"
proof -
  obtain i j where ij: "i < length rs" "rs ! i = x" "j < length rs" "rs ! j = y"
    using assms(2,3) by (metis in_set_conv_nth)
  with assms(4) have "i < j \<or> j < i" by (metis linorder_neqE_nat)
  then show ?thesis using assms(1) ij by (auto simp: sorted_wrt_iff_nth_less Int_commute)
qed

lemma find_stack_region_ok:
  assumes laws: "bitwise_laws w" and ok: "\<And>r. r \<in> set rs \<Longrightarrow> region_ok r"
  shows "find_stack_region w (k * 4096) rs = Inr (find (\<lambda>r. 256 \<le> first_page r \<and> k \<in> region_pages r) rs)"
  using ok
proof (induction rs)
  case (Cons r rs)
  have "region_ok r" by (rule Cons.prems) simp
  note al = region_bounds [OF laws this]
  have "0x100000 \<le> first_page r * 4096 \<longleftrightarrow> 256 \<le> first_page r" by linarith
  moreover have "k \<in> region_pages r \<longleftrightarrow> first_page r < last_page r \<and> first_page r \<le> k \<and> k < last_page r"
    by (auto simp: region_pages_def)
  ultimately show ?case using Cons al by (auto simp: Let_def)
qed simp

text \<open>
  The deferred region may be added to any memory in which the free lists are intact: the switch to
  the new stack comes between the two calls.
\<close>

lemma release_ok:
  assumes laws: "bitwise_laws w" and base: "bd_base b = hhdm_offset d + q * 4096"
    and mg: "manages m b (at_pages q R) (at_pages q S)"
    and top: "hhdm_offset d + (q + MAX_PAGES) * 4096 \<le> u64_max"
    and ok: "\<And>r. r \<in> set (reclaimable_regions d) \<Longrightarrow> reclaimable_ok q R r"
    and apart: "sorted_wrt (\<lambda>r s. region_pages r \<inter> region_pages s = {}) (reclaimable_regions d)"
    and sp: "hhdm_offset d \<le> sp1" "sp1 \<le> u64_max" "hhdm_offset d \<le> sp2" "sp2 \<le> u64_max"
    and k1: "k1 = (sp1 - hhdm_offset d) div 4096" and k2: "k2 = (sp2 - hhdm_offset d) div 4096"
    and same: "\<And>r. r \<in> set (reclaimable_regions d) \<Longrightarrow> k1 \<in> region_pages r \<longleftrightarrow> k2 \<in> region_pages r"
    and Q: "Q = reclaim_pages (reclaimable_regions d)"
  shows "\<exists>region P m1 b1. boot_stack_region w d sp1 = Inr region \<and> release w d sp2 (m, b) = Inr (m1, b1) \<and>
    P \<subseteq> Q \<and> (k2 \<in> Q \<longrightarrow> k2 \<notin> R \<union> P) \<and> bd_base b1 = bd_base b \<and>
    manages m1 b1 (at_pages q (R \<union> P)) (at_pages q (S \<union> P)) \<and>
    agree_off (page_bytes b (at_pages q (S \<union> Q))) m m1 \<and>
    (\<forall>m'. manages m' b1 (at_pages q (R \<union> P)) (at_pages q (S \<union> P)) \<longrightarrow>
       (\<exists>m2 b2. release_boot_stack region (m', b1) = Inr (m2, b2) \<and> bd_base b2 = bd_base b \<and>
          manages m2 b2 (at_pages q (R \<union> Q)) (at_pages q (S \<union> Q)) \<and>
          agree_off (page_bytes b (at_pages q (S \<union> Q))) m' m2))"
proof -
  let ?rs = "reclaimable_regions d" and ?hh = "hhdm_offset d"
  define P where "P = (\<Union>r\<in>{r \<in> set ?rs. 256 \<le> first_page r \<and> k2 \<notin> region_pages r}. region_pages r)"
  obtain m1 b1 where 1: "release_regions w ?hh (k2 * 4096) ?rs (m, b) = Inr (m1, b1)" "bd_base b1 = ?hh + q * 4096"
    "manages m1 b1 (at_pages q (R \<union> P)) (at_pages q (S \<union> P))" "agree_off (page_bytes b (at_pages q (S \<union> P))) m m1"
    using release_regions_ok [OF laws top base mg ok apart P_def] by blast
  have rel: "release w d sp2 (m, b) = Inr (m1, b1)" using 1(1) sp_page_ok [OF sp(3,4)] k2 by (simp add: release_def)
  have rok: "region_ok r" if "r \<in> set ?rs" for r using ok [OF that] by (simp add: reclaimable_ok_def)
  define found where "found = find (\<lambda>r. 256 \<le> first_page r \<and> k1 \<in> region_pages r) ?rs"
  have stack: "boot_stack_region w d sp1 =
      and_then (Inr found) (\<lambda>found. case found of None \<Rightarrow> Inr None
       | Some r \<Rightarrow> let base = aligned_base w r in and_then (aligned_end w r) (\<lambda>e.
           let pages = (e - base) div 4096
           in if pages > 0 then and_then (checked_add ?hh base) (\<lambda>v. Inr (Some (v, pages))) else Inr None))"
    using sp_page_ok [OF sp(1,2)] k1 find_stack_region_ok [OF laws rok, of ?rs k1]
    by (simp add: boot_stack_region_def found_def)
  have PQ: "P \<subseteq> Q" unfolding P_def Q reclaim_pages_def by blast
  have pb: "page_bytes b1 = page_bytes b" using 1(2) base by (intro page_bytes_base) simp
  have b1: "bd_base b1 = bd_base b" using 1(2) base by simp
  have ag: "agree_off (page_bytes b (at_pages q (S \<union> Q))) m m1"
    by (rule agree_off_mono [OF 1(4) page_bytes_mono]) (use PQ in \<open>auto simp: at_pages_def\<close>)
  show ?thesis
  proof (cases found)
    case None
    then have none: "\<not> (256 \<le> first_page r \<and> k2 \<in> region_pages r)" if "r \<in> set ?rs" for r
      using that same [OF that] by (auto simp: found_def find_None_iff)
    then have "P = Q" unfolding P_def Q reclaim_pages_def by blast
    moreover have "k2 \<notin> Q" unfolding Q reclaim_pages_def using none by blast
    ultimately show ?thesis
      using stack None rel 1(3) b1 ag by (intro exI [of _ None] exI [of _ P] exI [of _ m1] exI [of _ b1])
        (simp add: release_boot_stack_def)
  next
    case (Some r)
    then have r: "r \<in> set ?rs" "256 \<le> first_page r" "k1 \<in> region_pages r"
      by (auto simp: found_def find_Some_iff)
    then have k2r: "k2 \<in> region_pages r" using same by blast
    let ?f = "first_page r" and ?l = "last_page r"
    have fl: "?f < ?l" using r(3) by (simp add: region_pages_def)
    have ne: "region_pages r \<noteq> {}" using r(3) by blast
    have rng: "q \<le> ?f" "?l \<le> q + MAX_PAGES" "region_pages r \<inter> R = {}"
      using ok [OF r(1)] r(2) ne by (auto simp: reclaimable_ok_def)
    have other: "region_pages x \<inter> region_pages r = {}" if x: "x \<in> set ?rs" "x \<noteq> r" for x
      by (rule regions_apart [OF apart x(1) r(1) x(2)])
    have one: "x = r" if "x \<in> set ?rs" "k2 \<in> region_pages x" for x using other [OF that(1)] that(2) k2r by blast
    have dP: "region_pages r \<inter> P = {}" unfolding P_def using other k2r by blast
    have QP: "Q = P \<union> region_pages r" unfolding P_def Q reclaim_pages_def using r one by blast
    have "?f * 4096 \<le> (q + MAX_PAGES) * 4096" using fl rng(2) by (intro mult_le_mono1) simp
    then have v: "?hh + ?f * 4096 \<le> u64_max" using top by linarith
    have n: "(?l * 4096 - ?f * 4096) div 4096 = ?l - ?f" by (simp flip: diff_mult_distrib)
    have st: "boot_stack_region w d sp1 = Inr (Some (?hh + ?f * 4096, ?l - ?f))"
      using stack Some region_bounds [OF laws rok [OF r(1)]] n v fl by (simp add: Let_def)
    have d: "{?f..<?l} \<inter> (R \<union> P) = {}" using rng(3) dP by (auto simp: region_pages_def)
    have eq: "R \<union> P \<union> {?f..<?l} = R \<union> Q" "S \<union> P \<union> {?f..<?l} = S \<union> Q"
      using QP by (auto simp: region_pages_def)
    have k2: "k2 \<notin> R \<union> P" using k2r rng(3) dP by blast
    have later: "\<exists>m2 b2. release_boot_stack (Some (?hh + ?f * 4096, ?l - ?f)) (m', b1) = Inr (m2, b2) \<and> bd_base b2 = bd_base b \<and>
        manages m2 b2 (at_pages q (R \<union> Q)) (at_pages q (S \<union> Q)) \<and>
        agree_off (page_bytes b (at_pages q (S \<union> Q))) m' m2"
      if mg': "manages m' b1 (at_pages q (R \<union> P)) (at_pages q (S \<union> P))" for m'
    proof -
      obtain m2 b2 where "add_region (?hh + ?f * 4096) (?l - ?f) (m', b1) = Inr (m2, b2)" "bd_base b2 = ?hh + q * 4096"
        "manages m2 b2 (at_pages q (R \<union> Q)) (at_pages q (S \<union> Q))" "agree_off (page_bytes b (at_pages q (S \<union> Q))) m' m2"
        using add_run [OF 1(2) mg' rng(1) fl rng(2) d] unfolding eq pb by blast
      then show ?thesis unfolding base release_boot_stack_def by simp
    qed
    show ?thesis
      by (rule exI [of _ "Some (?hh + ?f * 4096, ?l - ?f)"], rule exI [of _ P], rule exI [of _ m1], rule exI [of _ b1])
        (intro conjI st rel PQ impI k2 b1 1(3) ag allI later)
  qed
qed


definition demo_data :: limine_data where
  "demo_data =
     \<lparr>hhdm_offset = 0x1000000, kernel_phys_start = 0, kernel_phys_end = 0, kernel_virt_start = 0, kernel_virt_end = 0,
      region_array =
        [\<lparr>rg_base = 0x1000, rg_length = 0x5000, rg_type = BootloaderReclaimable\<rparr>,
         \<lparr>rg_base = 0x900000, rg_length = 0x3000, rg_type = BootloaderReclaimable\<rparr>,
         \<lparr>rg_base = 0x903000, rg_length = 0x2000, rg_type = AcpiReclaimable\<rparr>],
      region_count = 3, framebuffer = None, rsdp_phys = None, bootloader = None\<rparr>"


end
