(* ===== verification/Boot_Stack.thy ===== *)
theory Boot_Stack
  imports Boot_Memory Mantle_Theorems
begin

text \<open>
  The kernel stack: \<open>alloc_kernel_stack\<close> over the page-table invariant, and what becomes of its
  guard page when \<open>kernel_main\<close> installs the kernel's own tables afterwards.
\<close>

subsection \<open>The size of the stack\<close>

lemma leading_zeros_drop: "0 < n \<Longrightarrow> n \<le> u64_max \<Longrightarrow> drop_bit (leading_zeros n) u64_max = 2 ^ bit_length n - 1"
proof -
  assume n: "0 < n" "n \<le> u64_max"
  then have l: "bit_length n \<le> 64" by (intro bit_length_le) (simp add: u64_max_def)
  have "u64_max = mask 64" by (simp add: u64_max_def mask_eq_exp_minus_1)
  moreover have "drop_bit (64 - bit_length n) (mask 64 :: nat) = mask (bit_length n)"
    using l by (simp add: bit_eq_iff bit_simps) auto
  ultimately show ?thesis by (simp add: leading_zeros_def mask_eq_exp_minus_1)
qed

lemma trailing_zeros_pow2: "trailing_zeros (2 ^ k) = k"
proof (induction k)
  case 0
  show ?case by (subst trailing_zeros.simps) simp
next
  case (Suc k)
  then show ?case by (subst trailing_zeros.simps) simp
qed

lemma next_power_of_two_ok:
  assumes "0 < n" and "n \<le> 2 ^ 63"
  obtains k where "next_power_of_two n = Inr (2 ^ k)" and "n \<le> 2 ^ k" and "2 ^ k < 2 * n" and "k \<le> 63"
proof (cases "n = 1")
  case True
  then show thesis using that [of 0] by (simp add: next_power_of_two_def)
next
  case False
  define k where "k = bit_length (n - 1)"
  have n: "0 < n - 1" "n - 1 < 2 ^ 63" using assms False by auto
  have b: "2 ^ (k - 1) \<le> n - 1" "n - 1 < 2 ^ k" using bit_length_bounds [of "n - 1"] n by (simp_all add: k_def)
  have k: "0 < k" "k \<le> 63" using bit_length_pos [of "n - 1"] bit_length_le [OF n(2)] n by (simp_all add: k_def)
  have "(2::nat) ^ k = 2 * 2 ^ (k - 1)" using k(1) by (cases k) simp_all
  then have lt: "2 ^ k < 2 * n" using b(1) n(1) by linarith
  have "(2::nat) ^ k \<le> 2 ^ 63" using k(2) by (rule power_increasing) simp
  then have "2 ^ k \<le> u64_max" by (simp add: u64_max_def)
  then have "checked_add (2 ^ k - 1) 1 = Inr (2 ^ k)" using checked_add_ok [of "2 ^ k - 1" 1] by simp
  moreover have "drop_bit (leading_zeros (n - 1)) u64_max = 2 ^ k - 1"
    unfolding k_def by (rule leading_zeros_drop) (use n in \<open>simp_all add: u64_max_def\<close>)
  ultimately have "next_power_of_two n = Inr (2 ^ k)"
    using False assms(1) by (simp add: next_power_of_two_def)
  then show thesis using that b(2) lt k(2) by (metis Suc_diff_1 Suc_leI assms(1))
qed

subsection \<open>Allocating while tables are in place\<close>

lemma pt_tree_cong:
  assumes tree: "pt_tree w hh root T m"
    and e: "\<And>l p f i. T l p = Some f \<Longrightarrow> i < 512 \<Longrightarrow> entry hh m' f i = entry hh m f i"
  shows "pt_tree w hh root T m'" and "walk w hh m' v 4 root = walk w hh m v 4 root"
proof -
  show "pt_tree w hh root T m'"
    using tree e unfolding pt_tree_def by simp
  show "walk w hh m' v 4 root = walk w hh m v 4 root"
    by (rule walk_agree [OF tree]) (use pt_treeD(1) [OF tree] e in auto)
qed

lemma pt_inv_alloc:
  assumes inv: "pt_inv w hh A root T B s" and can: "can_alloc (mu_frames s)" and k: "k < BUDDY_MAX_ORDER"
    and run: "alloc_pages k (mu_mem s, mu_frames s) = Inr (Some a, m', b')"
    and s': "s' = s\<lparr>mu_mem := m', mu_frames := b'\<rparr>"
  shows "pt_inv w hh A root T (B(a \<mapsto> k)) s'" and "B a = None" and "a + 2 ^ k * PAGE_SIZE \<le> u64_max"
    and "alloc_count (bd_stats b') = alloc_count (bd_stats (mu_frames s)) + 1"
    and "free_bytes (bd_stats (mu_frames s)) = free_bytes (bd_stats b') + 2 ^ k * PAGE_SIZE"
    and "walk w hh (mu_mem s') v 4 root = walk w hh (mu_mem s) v 4 root"
proof -
  note own = pt_invD(3) [OF inv] and tabs = pt_invD(2) [OF inv]
  note al = fo.alloc_some [OF own can k run]
  then show "B a = None" "a + 2 ^ k * PAGE_SIZE \<le> u64_max" by simp_all
  have e: "entry hh m' f i = entry hh (mu_mem s) f i" if f: "T l p = Some f" and i: "i < 512" for l p f i
    unfolding entry_def
  proof (rule ld_cong)
    fix j :: nat
    assume j: "j < 8"
    have "B (f + hh) = Some 0" using tabs f by (auto simp: holds_tables_def)
    moreover have "f + hh + 8 * i + j \<in> block_range (f + hh) 0" using i j by (simp add: block_range_def PAGE_SIZE_def)
    ultimately show "m' (f + hh + 8 * i + j) = mu_mem s (f + hh + 8 * i + j)"
      by (rule fo.alloc_frame [OF own can k run])
  qed
  from frames_alloc [OF own can k] run have base: "bd_base b' = bd_base (mu_frames s)" by auto
  from frames_alloc [OF own can k] run
  show "alloc_count (bd_stats b') = alloc_count (bd_stats (mu_frames s)) + 1"
    "free_bytes (bd_stats (mu_frames s)) = free_bytes (bd_stats b') + 2 ^ k * PAGE_SIZE" by auto
  have tree: "pt_tree w hh root T m'" and wk: "walk w hh m' v 4 root = walk w hh (mu_mem s) v 4 root"
    using pt_tree_cong [OF pt_invD(1) [OF inv], of m'] e by blast+
  have "window_ok hh b'" using pt_invD(4) [OF inv] unfolding window_ok_def base .
  moreover have "holds_tables hh T (B(a \<mapsto> k))" using tabs al by (auto simp: holds_tables_def)
  ultimately show "pt_inv w hh A root T (B(a \<mapsto> k)) s'" using tree al by (simp add: pt_inv_def s')
  show "walk w hh (mu_mem s') v 4 root = walk w hh (mu_mem s) v 4 root" using wk by (simp add: s')
qed

lemma others_kept_held:
  assumes "others_kept hh T (B(a \<mapsto> k)) s s'" and "B a = None"
  shows "others_kept hh T B s s'"
  unfolding others_kept_def
proof (intro allI impI)
  fix c l x
  assume c: "B c = Some l" "x \<in> block_range c l" "\<forall>l p. T l p \<noteq> Some (c - hh) \<or> c < hh"
  have "(B(a \<mapsto> k)) c = Some l" using c(1) assms(2) by auto
  then show "mu_mem s' x = mu_mem s x" using assms(1) c(2,3) unfolding others_kept_def by blast
qed

lemma kernel_stack_ok:
  assumes laws: "bitwise_laws w" and inv: "pt_inv w hh A (current_pml4 s) T B s"
    and can: "can_alloc (mu_frames s)" and n: "n < 2 ^ 16"
  shows "\<exists>k. n + 1 \<le> 2 ^ k \<and> 2 ^ k < 2 * (n + 1) \<and>
    (alloc_kernel_stack w (Some hh) n s = Inl (Expect ''kernel stack OOM'') \<and>
       (\<exists>m b. alloc_pages k (mu_mem s, mu_frames s) = Inr (None, m, b)) \<or>
     (\<exists>st s'. alloc_kernel_stack w (Some hh) n s = Inr (st, s') \<and>
       stack_top st = stack_guard st + 2 ^ k * 0x1000 \<and> B (stack_guard st) = None \<and>
       pt_inv w hh A (current_pml4 s') T (B(stack_guard st \<mapsto> k)) s' \<and>
       alloc_count (bd_stats (mu_frames s')) \<le> alloc_count (bd_stats (mu_frames s)) + 1 \<and>
       free_bytes (bd_stats (mu_frames s)) \<le> free_bytes (bd_stats (mu_frames s')) + 2 ^ k * PAGE_SIZE \<and>
       bd_base (mu_frames s') = bd_base (mu_frames s) \<and> stack_top st \<le> u64_max \<and> others_kept hh T B s s' \<and>
       (\<forall>u. translate w hh u s' =
          (if T 1 (slot 1 (stack_guard st)) \<noteq> None \<and> same_page u (stack_guard st) then Inr None
           else translate w hh u s))))"
proof -
  have n63: "n + 1 \<le> 2 ^ 63" and n64: "n + 1 \<le> u64_max" using n by (simp_all add: u64_max_def)
  obtain k where k: "next_power_of_two (n + 1) = Inr (2 ^ k)" "n + 1 \<le> 2 ^ k" "2 ^ k < 2 * (n + 1)" "k \<le> 63"
    by (rule next_power_of_two_ok [OF _ n63]) simp
  have "(2::nat) ^ k < 2 ^ 17" using k(3) n by simp
  then have k17: "k < BUDDY_MAX_ORDER"
    unfolding BUDDY_MAX_ORDER_def by (rule power_less_imp_less_exp [rotated]) simp
  obtain r m b where run: "alloc_pages k (mu_mem s, mu_frames s) = Inr (r, m, b)"
    using fo.alloc_total [OF pt_invD(3) [OF inv] can k17] by blast
  show ?thesis
  proof (cases r)
    case None
    then have "alloc_kernel_stack w (Some hh) n s = Inl (Expect ''kernel stack OOM'')"
      using k(1) n64 run by (simp add: alloc_kernel_stack_def trailing_zeros_pow2 expect_some_def)
    then show ?thesis using k run None by blast
  next
    case (Some a)
    let ?s = "s\<lparr>mu_mem := m, mu_frames := b\<rparr>"
    note al = pt_inv_alloc [OF inv can k17 run [unfolded Some] refl]
    have cr: "current_pml4 ?s = current_pml4 s" by (simp add: current_pml4_def)
    have inv1: "pt_inv w hh A (current_pml4 ?s) T (B(a \<mapsto> k)) ?s" using al(1) cr by simp
    have base: "bd_base b = bd_base (mu_frames s)"
      using frames_alloc [OF pt_invD(3) [OF inv] can k17] run Some by auto
    have ok1: "others_kept hh T B s ?s"
      unfolding others_kept_def using fo.alloc_frame [OF pt_invD(3) [OF inv] can k17 run] by simp
    obtain s' where un: "unmap_page w hh a ?s = Inr s'" "pt_inv w hh A (current_pml4 s') T (B(a \<mapsto> k)) s'"
      and st: "alloc_count (bd_stats (mu_frames s')) \<le> alloc_count (bd_stats b)"
        "free_bytes (bd_stats b) \<le> free_bytes (bd_stats (mu_frames s'))" "bd_base (mu_frames s') = bd_base b"
        "others_kept hh T B s s'"
      and tr: "\<forall>u. translate w hh u s' = (if T 1 (slot 1 a) \<noteq> None \<and> same_page u a then Inr None else translate w hh u s)"
      using unmap_page_ok [OF laws inv1 refl, of a]
    proof (elim disjE exE conjE)
      assume un: "T 1 (slot 1 a) = None" "unmap_page w hh a ?s = Inr ?s"
      have "translate w hh u ?s = translate w hh u s" for u
        using translate_walk [OF laws inv1, of u] translate_walk [OF laws inv, of u] al(6) cr by simp
      then show thesis using that [OF un(2) inv1] un(1) ok1 by simp
    next
      fix s'
      assume un: "T 1 (slot 1 a) \<noteq> None" "unmap_page w hh a ?s = Inr s'"
        and g: "grows w hh A (current_pml4 ?s) T (B(a \<mapsto> k)) ?s T (B(a \<mapsto> k)) s' 0"
        and wk: "\<forall>u. walk w hh (mu_mem s') u 4 (current_pml4 ?s) =
          (if slot 0 u = slot 0 a then None else walk w hh (mu_mem ?s) u 4 (current_pml4 ?s))"
      have tr: "translate w hh u s' = (if same_page u a then Inr None else translate w hh u s)" for u
        using translate_grown [OF laws g, of u] wk translate_walk [OF laws inv, of u] al(6) [of u] cr
        by (simp add: same_page_slot)
      have "others_kept hh T B ?s s'" by (rule others_kept_held [where a = a and k = k]) (use g al(2) in \<open>simp_all add: grows_def\<close>)
      then have "others_kept hh T B s s'" by (rule others_kept_trans [OF ok1]) simp_all
      moreover have "bd_base (mu_frames s') = bd_base b" using growsD(9) [OF g] by simp
      ultimately show thesis using that [OF un(2)] growsD(1,6,7) [OF g] grows_pml4 [OF g] un(1) tr by simp
    qed
    have "(2::nat) ^ k * 4096 \<le> u64_max" "a + 2 ^ k * 4096 \<le> u64_max" using al(3) by (simp_all add: PAGE_SIZE_def)
    then have "alloc_kernel_stack w (Some hh) n s = Inr (\<lparr>stack_top = a + 2 ^ k * 0x1000, stack_guard = a\<rparr>, s')"
      using k(1) n64 run Some un(1)
      by (simp add: alloc_kernel_stack_def trailing_zeros_pow2 expect_some_def vmm_get_def push_bit_eq_mult)
    moreover have "a + 2 ^ k * 0x1000 \<le> u64_max" using al(3) by (simp add: PAGE_SIZE_def)
    ultimately show ?thesis using k al(2,4,5) un(2) tr st base by (intro exI [of _ k]) auto
  qed
qed


text \<open>A stack of one page in a bare address space.\<close>

lemma demo_stack:
  obtains s T B ks s1 A where "pt_inv x86_bits 0 A (current_pml4 s) T B s" and "can_alloc (mu_frames s)"
    and "alloc_kernel_stack x86_bits (Some 0) 0 s = Inr (ks, s1)" and "stack_top ks \<le> 0x20200000"
    and "\<And>m b k. k = 0 \<Longrightarrow> alloc_pages k (mu_mem s, mu_frames s) \<noteq> Inr (None, m, b)"
    and "alloc_count (bd_stats (mu_frames s1)) \<le> 2" and "PAGE_SIZE * 999 \<le> free_bytes (bd_stats (mu_frames s1))"
proof -
  obtain s T B A where inv: "pt_inv x86_bits 0 A (current_pml4 s) T B s" and cnt: "alloc_count (bd_stats (mu_frames s)) = 1"
    and free: "free_bytes (bd_stats (mu_frames s)) = PAGE_SIZE * 1000" and base: "bd_base (mu_frames s) = 4096"
    by (rule empty_space_of [of 1000]) (simp_all add: MAX_PAGES_def BUDDY_MAX_ORDER_def)
  have can: "can_alloc (mu_frames s)" using cnt by (simp add: can_alloc_def u64_max_def)
  obtain a m b where run: "alloc_pages 0 (mu_mem s, mu_frames s) = Inr (Some a, m, b)"
    and a: "a + PAGE_SIZE \<le> 4096 + MAX_PAGES * PAGE_SIZE"
    using frame_alloc [OF pt_invD(3) [OF inv] can] free base by (auto simp: PAGE_SIZE_def)
  obtain k where "(2::nat) ^ k < 2 * (0 + 1)" and
    k: "alloc_kernel_stack x86_bits (Some 0) 0 s = Inl (Expect ''kernel stack OOM'') \<and>
       (\<exists>m b. alloc_pages k (mu_mem s, mu_frames s) = Inr (None, m, b)) \<or>
     (\<exists>st s'. alloc_kernel_stack x86_bits (Some 0) 0 s = Inr (st, s') \<and>
       stack_top st = stack_guard st + 2 ^ k * 0x1000 \<and>
       alloc_count (bd_stats (mu_frames s')) \<le> alloc_count (bd_stats (mu_frames s)) + 1 \<and>
       free_bytes (bd_stats (mu_frames s)) \<le> free_bytes (bd_stats (mu_frames s')) + 2 ^ k * PAGE_SIZE)"
    using kernel_stack_ok [OF x86_laws inv can, of 0] by auto
  then have "(2::nat) ^ k < 2 ^ 1" by simp
  then have "k < 1" by (rule power_less_imp_less_exp [rotated]) simp
  then have k0: "k = 0" by simp
  then obtain ks s1 where st: "alloc_kernel_stack x86_bits (Some 0) 0 s = Inr (ks, s1)"
    "stack_top ks = stack_guard ks + 0x1000" "alloc_count (bd_stats (mu_frames s1)) \<le> 2"
    "PAGE_SIZE * 999 \<le> free_bytes (bd_stats (mu_frames s1))"
    using k run cnt free by auto
  have "stack_guard ks = a"
  proof -
    have "next_power_of_two (0 + 1) = Inr 1" "trailing_zeros 1 = 0" "checked_add 0 1 = Inr (0 + 1)"
      using trailing_zeros_pow2 [of 0] by (simp_all add: next_power_of_two_def checked_add_def u64_max_def)
    then show ?thesis using st(1) run
      by (auto simp: alloc_kernel_stack_def expect_some_def vmm_get_def res_elims)
  qed
  then have "stack_top ks \<le> 0x20200000" using a st(2) by (simp add: PAGE_SIZE_def MAX_PAGES_def BUDDY_MAX_ORDER_def)
  then show thesis using that [OF inv can st(1)] run st(3,4) by simp
qed




end
