(* ===== verification/Framebuffer_Steps.thy ===== *)
theory Framebuffer_Steps
  imports Framebuffer
begin

text \<open>
  The geometry of a usable frame buffer, and what the drawing routines do to it pixel by pixel and
  byte by byte: none of them panics or writes outside the frame buffer.
\<close>

definition fb_geometry :: "fb_writer \<Rightarrow> bool" where
  "fb_geometry w \<longleftrightarrow>
     fw_bpp w = 4 \<and> 4 * fw_width w \<le> fw_pitch w \<and> fw_height w * fw_pitch w \<le> u32_max \<and>
     fw_addr w + fw_height w * fw_pitch w \<le> u64_max \<and>
     fw_r_shl w < 32 \<and> fw_g_shl w < 32 \<and> fw_b_shl w < 32 \<and>
     fw_cols w = fw_width w div 8 \<and> fw_rows w = fw_height w div 16 \<and> 0 < fw_cols w \<and> 0 < fw_rows w"

definition screen :: "fb_writer \<Rightarrow> nat set" where
  "screen w = {fw_addr w..<fw_addr w + fw_height w * fw_pitch w}"

definition pixel_addr :: "fb_writer \<Rightarrow> nat \<Rightarrow> nat \<Rightarrow> nat" where
  "pixel_addr w x y = fw_addr w + (y * fw_pitch w + x * 4)"

definition pixel :: "fb_writer \<Rightarrow> mem \<Rightarrow> nat \<Rightarrow> nat \<Rightarrow> nat" where
  "pixel w m x y = ld32 m (pixel_addr w x y)"

lemma fb_sizes: "CHAR_W = 8" "CHAR_H = 16"
  by (simp_all add: CHAR_W_def CHAR_H_def)

lemma geometryD:
  assumes "fb_geometry w"
  shows "fw_bpp w = 4" and "4 * fw_width w \<le> fw_pitch w" and "fw_height w * fw_pitch w \<le> u32_max"
    and "fw_addr w + fw_height w * fw_pitch w \<le> u64_max" and "fw_cols w * 8 \<le> fw_width w"
    and "fw_rows w * 16 \<le> fw_height w" and "0 < fw_cols w" and "0 < fw_rows w"
    and "fw_width w \<le> u32_max" and "fw_height w \<le> u32_max" and "16 * fw_pitch w \<le> u32_max"
    and "0 < fw_pitch w"
proof -
  note g = assms [unfolded fb_geometry_def]
  show "fw_bpp w = 4" "4 * fw_width w \<le> fw_pitch w" "fw_height w * fw_pitch w \<le> u32_max"
    "fw_addr w + fw_height w * fw_pitch w \<le> u64_max" "0 < fw_cols w" "0 < fw_rows w"
    using g by blast+
  show r: "fw_cols w * 8 \<le> fw_width w" "fw_rows w * 16 \<le> fw_height w"
    using g by auto
  have "0 < fw_width w" using g by (cases "fw_width w") auto
  then show p: "0 < fw_pitch w" using g by linarith
  have h16: "16 \<le> fw_height w" using g r by linarith
  have "16 * fw_pitch w \<le> fw_height w * fw_pitch w" using h16 by (rule mult_le_mono1)
  then show "16 * fw_pitch w \<le> u32_max" using g by linarith
  moreover have "fw_width w \<le> fw_pitch w" using g by linarith
  ultimately show "fw_width w \<le> u32_max" by linarith
  have "fw_height w \<le> fw_height w * fw_pitch w" using p by simp
  moreover have "fw_height w * fw_pitch w \<le> u32_max" using g by blast
  ultimately show "fw_height w \<le> u32_max" by linarith
qed

lemma pixel_offset:
  assumes "fb_geometry w" and "x < fw_width w" and "y < fw_height w"
  shows "y * fw_pitch w + x * 4 + 4 \<le> fw_height w * fw_pitch w"
proof -
  have "y * fw_pitch w + x * 4 + 4 \<le> Suc y * fw_pitch w" using geometryD(2) [OF assms(1)] assms(2) by simp
  also have "\<dots> \<le> fw_height w * fw_pitch w" using assms(3) by (intro mult_le_mono1) simp
  finally show ?thesis .
qed

lemma pixels_apart:
  assumes g: "fb_geometry w" and "x < fw_width w" "x' < fw_width w" and "(x, y) \<noteq> (x', y')"
  shows "pixel_addr w x y + 4 \<le> pixel_addr w x' y' \<or> pixel_addr w x' y' + 4 \<le> pixel_addr w x y"
proof -
  have rows: "y1 * fw_pitch w + x1 * 4 + 4 \<le> y2 * fw_pitch w" if "y1 < y2" "x1 < fw_width w" for x1 y1 y2
  proof -
    have "y1 * fw_pitch w + x1 * 4 + 4 \<le> Suc y1 * fw_pitch w" using geometryD(2) [OF g] that(2) by simp
    also have "\<dots> \<le> y2 * fw_pitch w" using that(1) by (intro mult_le_mono1) simp
    finally show ?thesis .
  qed
  consider "y < y'" | "y' < y" | "y = y'" "x < x'" | "y = y'" "x' < x" using assms(4) by fastforce
  then show ?thesis
    using rows [of y y' x] rows [of y' y x'] assms(2,3) by cases (auto simp: pixel_addr_def)
qed

lemma put_pixel_ok:
  assumes g: "fb_geometry w" and x: "x < fw_width w" and y: "y < fw_height w"
  shows "put_pixel w x y color m = Inr (st32 (pixel_addr w x y) (unat color) m)"
    and "{pixel_addr w x y..<pixel_addr w x y + 4} \<subseteq> screen w"
    and "x' < fw_width w \<Longrightarrow> y' < fw_height w \<Longrightarrow>
      pixel w (st32 (pixel_addr w x y) (unat color) m) x' y' = (if x' = x \<and> y' = y then unat color else pixel w m x' y')"
proof -
  note off = pixel_offset [OF assms]
  have "y * fw_pitch w \<le> u32_max" "x * 4 \<le> u32_max" "y * fw_pitch w + x * 4 \<le> u32_max"
    "fw_addr w + (y * fw_pitch w + x * 4) \<le> u64_max"
    using off geometryD(3,4) [OF g] by linarith+
  then show "put_pixel w x y color m = Inr (st32 (pixel_addr w x y) (unat color) m)"
    by (simp add: put_pixel_def geometryD(1) [OF g] pixel_addr_def)
  show "{pixel_addr w x y..<pixel_addr w x y + 4} \<subseteq> screen w"
    using off by (auto simp: screen_def pixel_addr_def)
  show "pixel w (st32 (pixel_addr w x y) (unat color) m) x' y' = (if x' = x \<and> y' = y then unat color else pixel w m x' y')"
    if "x' < fw_width w" "y' < fw_height w"
  proof (cases "x' = x \<and> y' = y")
    case True
    have "unat color < 2 ^ 32" using unsigned_less [of color, where ?'a = nat] by simp
    with True show ?thesis by (simp add: pixel_def)
  next
    case False
    then have "(x', y') \<noteq> (x, y)" by auto
    from pixels_apart [OF g that(1) x this] have "ld32 (st32 (pixel_addr w x y) (unat color) m) (pixel_addr w x' y') = ld32 m (pixel_addr w x' y')"
      by (intro ld_st_other) auto
    with False show ?thesis by (auto simp: pixel_def)
  qed
qed

text \<open>A memory whose pixels are given by a function inside the frame buffer and that is unchanged outside.\<close>

definition painted :: "fb_writer \<Rightarrow> mem \<Rightarrow> (nat \<Rightarrow> nat \<Rightarrow> nat) \<Rightarrow> mem \<Rightarrow> bool" where
  "painted w m f m' \<longleftrightarrow> agree_off (screen w) m m' \<and>
     (\<forall>x y. x < fw_width w \<longrightarrow> y < fw_height w \<longrightarrow> pixel w m' x y = f x y)"

lemma put_pixel_painted:
  assumes "fb_geometry w" and "x < fw_width w" and "y < fw_height w" and "painted w m f m'"
  shows "\<exists>m''. put_pixel w x y color m' = Inr m'' \<and>
    painted w m (\<lambda>x' y'. if x' = x \<and> y' = y then unat color else f x' y') m''"
  using put_pixel_ok [OF assms(1-3)] assms(4)
  by (auto simp: painted_def intro: agree_off_st)

lemma bit_at: "(drop_bit k b AND 1 \<noteq> 0) = bit (b :: u8) k"
  by (simp add: bit_iff_odd_drop_bit and_one_eq odd_iff_mod_2_eq_one)

lemma draw_row_painted:
  assumes g: "fb_geometry w" and x0: "x0 + 8 \<le> fw_width w" and py: "py + 2 \<le> fw_height w" and p: "painted w m f m'"
  shows "\<exists>m''. draw_row w x0 py byte fg bg m' = Inr m'' \<and>
    painted w m (\<lambda>x y. if x0 \<le> x \<and> x < x0 + 8 \<and> (y = py \<or> y = py + 1)
      then unat (if bit byte (x - x0) then fg else bg) else f x y) m''"
proof -
  let ?f = "\<lambda>k x y. if x0 \<le> x \<and> x < x0 + k \<and> (y = py \<or> y = py + 1)
      then unat (if bit byte (x - x0) then fg else bg) else f x y"
  have "\<exists>m''. draw_row w x0 py byte fg bg m' = Inr m'' \<and> painted w m (?f 8) m''"
    unfolding draw_row_def
  proof (rule for_range_invariant [where P = "\<lambda>k. painted w m (?f k)"])
    have "?f 0 = f" by (auto simp: fun_eq_iff)
    then show "painted w m (?f 0) m'" using p by simp
  next
    fix k v
    assume k: "k < 8" and v: "painted w m (?f k) v"
    let ?c = "if bit byte k then fg else bg"
    have lim: "x0 + k < fw_width w" "py < fw_height w" "py + 1 < fw_height w" using x0 py k by auto
    have u32: "x0 + k \<le> u32_max" "py + 1 \<le> u32_max" using lim geometryD(9,10) [OF g] by linarith+
    obtain v1 where v1: "put_pixel w (x0 + k) py ?c v = Inr v1"
      "painted w m (\<lambda>x' y'. if x' = x0 + k \<and> y' = py then unat ?c else ?f k x' y') v1"
      using put_pixel_painted [OF g lim(1,2) v] by blast
    obtain v2 where v2: "put_pixel w (x0 + k) (py + 1) ?c v1 = Inr v2"
      "painted w m (\<lambda>x' y'. if x' = x0 + k \<and> y' = py + 1 then unat ?c
         else if x' = x0 + k \<and> y' = py then unat ?c else ?f k x' y') v2"
      using put_pixel_painted [OF g lim(1,3) v1(2)] by blast
    have "(\<lambda>x' y'. if x' = x0 + k \<and> y' = py + 1 then unat ?c
         else if x' = x0 + k \<and> y' = py then unat ?c else ?f k x' y') = ?f (Suc k)"
      by (auto simp: fun_eq_iff less_Suc_eq)
    with v1(1) v2 u32 show "\<exists>v'. (let color = if drop_bit k byte AND 1 \<noteq> 0 then fg else bg
        in and_then (add32 x0 k) (\<lambda>x. and_then (put_pixel w x py color v) (\<lambda>m. and_then (add32 x0 k) (\<lambda>x.
           and_then (add32 py 1) (\<lambda>y. put_pixel w x y color m))))) = Inr v' \<and> painted w m (?f (Suc k)) v'"
      unfolding bit_at by (simp add: Let_def)
  qed simp
  then show ?thesis by simp
qed

definition glyph_of :: "u8 \<Rightarrow> u8 list" where
  "glyph_of c = FONT8X8 ! unat (c AND 0x7F)"

lemma font_size: "length FONT8X8 = 128" "\<forall>g\<in>set FONT8X8. length g = 8"
  by (simp_all add: FONT8X8_def)

lemma glyph_ok: "at_index FONT8X8 (unat (c AND 0x7F)) = Inr (glyph_of c)" "length (glyph_of c) = 8"
proof -
  have "c AND 0x7F \<le> 0x7F" by (rule word_and_le1)
  then have "unat (c AND 0x7F) < 128" by (simp add: word_le_nat_alt)
  then show "at_index FONT8X8 (unat (c AND 0x7F)) = Inr (glyph_of c)" "length (glyph_of c) = 8"
    using font_size by (simp_all add: glyph_of_def)
qed

lemma make_pixel_ok:
  assumes "fb_geometry w"
  shows "make_pixel w r g b = Inr (push_bit (fw_r_shl w) (ucast r) OR push_bit (fw_g_shl w) (ucast g) OR push_bit (fw_b_shl w) (ucast b))"
  using assms by (simp add: make_pixel_def shl32_def fb_geometry_def)

definition fg_color :: "fb_writer \<Rightarrow> u32" where
  "fg_color w = push_bit (fw_r_shl w) 255 OR push_bit (fw_g_shl w) 255"

text \<open>The colour of a pixel of a character cell.\<close>

definition glyph_pixel :: "fb_writer \<Rightarrow> u8 \<Rightarrow> nat \<Rightarrow> nat \<Rightarrow> nat" where
  "glyph_pixel w c dx dy = (if bit (glyph_of c ! (dy div 2)) dx then unat (fg_color w) else 0)"

lemma draw_char_painted:
  assumes g: "fb_geometry w" and col: "col < fw_cols w" and row: "row < fw_rows w" and p: "painted w m f m'"
  shows "\<exists>m''. draw_char w c col row m' = Inr m'' \<and>
    painted w m (\<lambda>x y. if x div 8 = col \<and> y div 16 = row then glyph_pixel w c (x mod 8) (y mod 16) else f x y) m''"
proof -
  define x0 where "x0 = col * 8"
  define y0 where "y0 = row * 16"
  have "(col + 1) * 8 \<le> fw_cols w * 8" "(row + 1) * 16 \<le> fw_rows w * 16" using col row by (intro mult_le_mono1; simp)+
  then have x8: "x0 + 8 \<le> fw_width w" and y16: "y0 + 16 \<le> fw_height w"
    using geometryD(5,6) [OF g] by (simp_all add: x0_def y0_def)
  have u32: "x0 \<le> u32_max" "y0 + 16 \<le> u32_max" using x8 y16 geometryD(9,10) [OF g] by linarith+
  let ?f = "\<lambda>k x y. if x0 \<le> x \<and> x < x0 + 8 \<and> y0 \<le> y \<and> y < y0 + 2 * k
      then glyph_pixel w c (x - x0) (y - y0) else f x y"
  let ?body = "\<lambda>gy m. and_then (at_index (glyph_of c) gy) (\<lambda>byte. and_then (mul32 gy 2) (\<lambda>d.
      and_then (add32 y0 d) (\<lambda>py. draw_row w x0 py byte (fg_color w) 0 m)))"
  have run: "draw_char w c col row m' = for_range 0 8 ?body m'"
    using u32 glyph_ok [of c] unfolding draw_char_def fb_sizes make_pixel_ok [OF g]
    by (simp add: x0_def [symmetric] y0_def [symmetric] fg_color_def)
  have "\<exists>m''. for_range 0 8 ?body m' = Inr m'' \<and> painted w m (?f 8) m''"
  proof (rule for_range_invariant [where P = "\<lambda>k. painted w m (?f k)"])
    have "?f 0 = f" by (auto simp: fun_eq_iff)
    then show "painted w m (?f 0) m'" using p by simp
  next
    fix k v
    assume k: "k < 8" and v: "painted w m (?f k) v"
    have py: "(y0 + k * 2) + 2 \<le> fw_height w" using y16 k by simp
    have arith: "at_index (glyph_of c) k = Inr (glyph_of c ! k)" "mul32 k 2 = Inr (k * 2)" "add32 y0 (k * 2) = Inr (y0 + k * 2)"
      using k glyph_ok(2) [of c] u32 by (simp_all add: u32_max_def)
    obtain v1 where v1: "draw_row w x0 (y0 + k * 2) (glyph_of c ! k) (fg_color w) 0 v = Inr v1"
      "painted w m (\<lambda>x y. if x0 \<le> x \<and> x < x0 + 8 \<and> (y = y0 + k * 2 \<or> y = y0 + k * 2 + 1)
        then unat (if bit (glyph_of c ! k) (x - x0) then fg_color w else 0) else ?f k x y) v1"
      using draw_row_painted [OF g x8 py v] by blast
    have "(\<lambda>x y. if x0 \<le> x \<and> x < x0 + 8 \<and> (y = y0 + k * 2 \<or> y = y0 + k * 2 + 1)
        then unat (if bit (glyph_of c ! k) (x - x0) then fg_color w else 0) else ?f k x y) = ?f (Suc k)"
      by (auto simp: fun_eq_iff glyph_pixel_def)
    with v1 arith show "\<exists>v'. ?body k v = Inr v' \<and> painted w m (?f (Suc k)) v'" by simp
  qed simp
  moreover have "?f 8 = (\<lambda>x y. if x div 8 = col \<and> y div 16 = row then glyph_pixel w c (x mod 8) (y mod 16) else f x y)"
  proof (intro ext)
    fix x y
    have "x0 \<le> x \<and> x < x0 + 8 \<longleftrightarrow> x div 8 = col" "y0 \<le> y \<and> y < y0 + 2 * 8 \<longleftrightarrow> y div 16 = row"
      by (auto simp: x0_def y0_def)
    moreover have "x div 8 = col \<Longrightarrow> x - x0 = x mod 8" "y div 16 = row \<Longrightarrow> y - y0 = y mod 16"
      by (auto simp: x0_def y0_def minus_div_mult_eq_mod)
    ultimately show "?f 8 x y = (if x div 8 = col \<and> y div 16 = row then glyph_pixel w c (x mod 8) (y mod 16) else f x y)"
      by auto
  qed
  ultimately show ?thesis unfolding run by simp
qed

end
