(* ===== verification/Framebuffer_Theorems.thy ===== *)
theory Framebuffer_Theorems
  imports Framebuffer_Steps
begin

text \<open>
  The frame buffer console refines a text screen: a grid of characters with a cursor, where a
  newline below the last row moves the grid up. Every pixel of the text area is the pixel of its
  character's glyph, and nothing outside the frame buffer is written.
\<close>

subsection \<open>Scrolling\<close>

lemma row_area:
  assumes g: "fb_geometry w" and r: "r < fw_rows w"
  shows "r * 16 * fw_pitch w + 16 * fw_pitch w \<le> fw_height w * fw_pitch w"
proof -
  have "(r + 1) * 16 \<le> fw_rows w * 16" using r by (intro mult_le_mono1) simp
  also have "\<dots> \<le> fw_height w" by (rule geometryD(6) [OF g])
  finally have "(r * 16 + 16) * fw_pitch w \<le> fw_height w * fw_pitch w" by (intro mult_le_mono1) simp
  then show ?thesis by (simp add: algebra_simps)
qed

lemma pixel_in_row:
  assumes g: "fb_geometry w" and x: "x < fw_width w"
  shows "y div 16 = r \<Longrightarrow> fw_addr w + r * 16 * fw_pitch w \<le> pixel_addr w x y \<and>
      pixel_addr w x y + 4 \<le> fw_addr w + r * 16 * fw_pitch w + 16 * fw_pitch w"
    and "y div 16 \<noteq> r \<Longrightarrow> pixel_addr w x y + 4 \<le> fw_addr w + r * 16 * fw_pitch w \<or>
      fw_addr w + r * 16 * fw_pitch w + 16 * fw_pitch w \<le> pixel_addr w x y"
proof -
  have x4: "x * 4 + 4 \<le> fw_pitch w" using geometryD(2) [OF g] x by simp
  have lo: "a * fw_pitch w \<le> y * fw_pitch w" if "a \<le> y" for a using that by (rule mult_le_mono1)
  have hi: "y * fw_pitch w + x * 4 + 4 \<le> a * fw_pitch w" if "y < a" for a
  proof -
    have "y * fw_pitch w + x * 4 + 4 \<le> Suc y * fw_pitch w" using x4 by simp
    also have "\<dots> \<le> a * fw_pitch w" using that by (intro mult_le_mono1) simp
    finally show ?thesis .
  qed
  have end_row: "r * 16 * fw_pitch w + 16 * fw_pitch w = (r * 16 + 16) * fw_pitch w" by (simp add: algebra_simps)
  show "fw_addr w + r * 16 * fw_pitch w \<le> pixel_addr w x y \<and>
      pixel_addr w x y + 4 \<le> fw_addr w + r * 16 * fw_pitch w + 16 * fw_pitch w" if "y div 16 = r"
  proof -
    have "r * 16 * fw_pitch w \<le> y * fw_pitch w" by (rule lo) (use that in auto)
    moreover have "y * fw_pitch w + x * 4 + 4 \<le> (r * 16 + 16) * fw_pitch w" by (rule hi) (use that in auto)
    ultimately show ?thesis unfolding pixel_addr_def end_row [symmetric] by linarith
  qed
  show "pixel_addr w x y + 4 \<le> fw_addr w + r * 16 * fw_pitch w \<or>
      fw_addr w + r * 16 * fw_pitch w + 16 * fw_pitch w \<le> pixel_addr w x y" if "y div 16 \<noteq> r"
  proof (cases "y < r * 16")
    case True
    then show ?thesis using hi [OF True] by (simp add: pixel_addr_def)
  next
    case False
    then have "r * 16 + 16 \<le> y" using that by auto
    from lo [OF this] show ?thesis unfolding pixel_addr_def using end_row by linarith
  qed
qed

lemma copy_row_painted:
  assumes g: "fb_geometry w" and r: "Suc r < fw_rows w" and p: "painted w m f m'"
  shows "painted w m (\<lambda>x y. if y div 16 = r then f x (y + 16) else f x y)
    (copy_bytes (16 * fw_pitch w) (fw_addr w + Suc r * 16 * fw_pitch w) (fw_addr w + r * 16 * fw_pitch w) m')"
    (is "painted w m _ ?c")
proof -
  let ?n = "16 * fw_pitch w" and ?d = "fw_addr w + r * 16 * fw_pitch w"
  have src: "fw_addr w + Suc r * 16 * fw_pitch w = ?d + ?n" by (simp add: algebra_simps)
  have "{?d..<?d + ?n} \<subseteq> screen w" using row_area [OF g, of r] r by (auto simp: screen_def)
  moreover have "agree_off {?d..<?d + ?n} m' ?c" by (auto simp: agree_off_def copy_bytes_def)
  ultimately have "agree_off (screen w) m ?c"
    using p agree_off_trans [OF _ agree_off_mono] by (auto simp: painted_def)
  moreover have "pixel w ?c x y = (if y div 16 = r then f x (y + 16) else f x y)"
    if x: "x < fw_width w" and y: "y < fw_height w" for x y
  proof (cases "y div 16 = r")
    case True
    note a = pixel_in_row(1) [OF g x True]
    have "pixel_addr w x (y + 16) = pixel_addr w x y + ?n" by (simp add: pixel_addr_def algebra_simps)
    moreover have "ld32 ?c (pixel_addr w x y) = ld32 m' (pixel_addr w x y + ?n)"
      using a unfolding ld_def src
      by (intro sum.cong refl arg_cong2 [where f = "(*)"] arg_cong [where f = unat]) (simp add: copy_bytes_def add.assoc add.left_commute)
    moreover have "y + 16 < fw_height w"
    proof -
      have "y < r * 16 + 16" "r * 16 + 32 \<le> fw_rows w * 16" using True r by auto
      then show ?thesis using geometryD(6) [OF g] by linarith
    qed
    moreover have "ld32 m' (pixel_addr w x (y + 16)) = f x (y + 16)"
      using p x calculation(3) by (simp add: painted_def pixel_def)
    ultimately show ?thesis using True by (simp add: pixel_def)
  next
    case False
    have "ld32 ?c (pixel_addr w x y) = ld32 m' (pixel_addr w x y)"
      using pixel_in_row(2) [OF g x False] unfolding ld_def
      by (intro sum.cong refl arg_cong2 [where f = "(*)"] arg_cong [where f = unat]) (auto simp: copy_bytes_def)
    then show ?thesis using p x y False by (simp add: painted_def pixel_def)
  qed
  ultimately show ?thesis by (simp add: painted_def)
qed

lemma clear_row_painted:
  assumes g: "fb_geometry w" and r: "r < fw_rows w" and p: "painted w m f m'"
  shows "\<exists>m''. fb_clear_row w r m' = Inr m'' \<and> painted w m (\<lambda>x y. if y div 16 = r then 0 else f x y) m''"
proof -
  let ?n = "16 * fw_pitch w" and ?d = "fw_addr w + r * 16 * fw_pitch w"
  let ?c = "st ?n ?d 0 m'"
  note area = row_area [OF g r]
  have small: "r * 16 * fw_pitch w \<le> u32_max" "?n \<le> u32_max" "?d \<le> u64_max"
    using area geometryD(3,4,11) [OF g] by linarith+
  have "r * 16 \<le> r * 16 * fw_pitch w" using geometryD(12) [OF g] by simp
  then have "r * 16 \<le> u32_max" using small(1) by linarith
  then have "fb_clear_row w r m' = Inr ?c" using small by (simp add: fb_clear_row_def fb_sizes)
  moreover have "agree_off (screen w) m ?c"
    using p area by (auto simp: painted_def screen_def intro!: agree_off_st)
  moreover have "pixel w ?c x y = (if y div 16 = r then 0 else f x y)" if x: "x < fw_width w" and y: "y < fw_height w" for x y
  proof (cases "y div 16 = r")
    case True
    have "ld32 ?c (pixel_addr w x y) = 0"
      using pixel_in_row(1) [OF g x True] by (simp add: ld_def st_def)
    then show ?thesis using True by (simp add: pixel_def)
  next
    case False
    have "ld32 ?c (pixel_addr w x y) = ld32 m' (pixel_addr w x y)"
      using pixel_in_row(2) [OF g x False] by (intro ld_st_other) auto
    then show ?thesis using p x y False by (simp add: painted_def pixel_def)
  qed
  ultimately show ?thesis by (auto simp: painted_def)
qed

lemma scroll_painted:
  assumes g: "fb_geometry w" and p: "painted w m f m'"
  shows "\<exists>m''. scroll_up w m' = Inr m'' \<and>
    painted w m (\<lambda>x y. if y div 16 + 1 < fw_rows w then f x (y + 16) else if y div 16 + 1 = fw_rows w then 0 else f x y) m''"
proof -
  let ?f = "\<lambda>k x y. if y div 16 + 1 < k then f x (y + 16) else f x y"
  let ?body = "\<lambda>row m. and_then (mul32 row CHAR_H) (\<lambda>y. and_then (mul32 y (fw_pitch w)) (\<lambda>off.
      and_then (checked_add (fw_addr w) off) (\<lambda>src. and_then (sub32 row 1) (\<lambda>up. and_then (mul32 up CHAR_H) (\<lambda>y.
      and_then (mul32 y (fw_pitch w)) (\<lambda>off. and_then (checked_add (fw_addr w) off) (\<lambda>dst.
      and_then (mul32 CHAR_H (fw_pitch w)) (\<lambda>n. Inr (copy_bytes n src dst m)))))))))"
  have "\<exists>m1. for_range 1 (fw_rows w) ?body m' = Inr m1 \<and> painted w m (?f (fw_rows w)) m1"
  proof (rule for_range_invariant [where P = "\<lambda>k. painted w m (?f k)"])
    show "painted w m (?f 1) m'" using p by simp
    show "1 \<le> fw_rows w" using geometryD(8) [OF g] by simp
  next
    fix k v
    assume "1 \<le> k" and k: "k < fw_rows w" and v: "painted w m (?f k) v"
    then obtain r where r: "k = Suc r" by (cases k) auto
    have area: "Suc r * 16 * fw_pitch w + 16 * fw_pitch w \<le> fw_height w * fw_pitch w"
      "r * 16 * fw_pitch w + 16 * fw_pitch w \<le> fw_height w * fw_pitch w"
      using row_area [OF g, of "Suc r"] row_area [OF g, of r] k r by auto
    have small: "Suc r * 16 * fw_pitch w \<le> u32_max" "r * 16 * fw_pitch w \<le> u32_max" "16 * fw_pitch w \<le> u32_max"
      "fw_addr w + Suc r * 16 * fw_pitch w \<le> u64_max" "fw_addr w + r * 16 * fw_pitch w \<le> u64_max"
      using area geometryD(3,4,11) [OF g] by linarith+
    have "Suc r * 16 \<le> Suc r * 16 * fw_pitch w" "r * 16 \<le> r * 16 * fw_pitch w" using geometryD(12) [OF g] by simp_all
    then have "Suc r * 16 \<le> u32_max" "r * 16 \<le> u32_max" using small by linarith+
    then have "?body k v = Inr (copy_bytes (16 * fw_pitch w) (fw_addr w + Suc r * 16 * fw_pitch w) (fw_addr w + r * 16 * fw_pitch w) v)"
      using small unfolding fb_sizes r by (simp del: mult_Suc)
    moreover have "(\<lambda>x y. if y div 16 = r then ?f k x (y + 16) else ?f k x y) = ?f (Suc k)"
      by (auto simp: fun_eq_iff r)
    ultimately show "\<exists>v'. ?body k v = Inr v' \<and> painted w m (?f (Suc k)) v'"
      using copy_row_painted [OF g _ v, of r] k r by auto
  qed
  then obtain m1 where m1: "for_range 1 (fw_rows w) ?body m' = Inr m1" "painted w m (?f (fw_rows w)) m1" by blast
  have last: "fw_rows w - 1 < fw_rows w" using geometryD(8) [OF g] by simp
  from clear_row_painted [OF g last m1(2)] obtain m2 where m2: "fb_clear_row w (fw_rows w - 1) m1 = Inr m2"
    "painted w m (\<lambda>x y. if y div 16 = fw_rows w - 1 then 0 else ?f (fw_rows w) x y) m2" by blast
  have "(\<lambda>x y. if y div 16 = fw_rows w - 1 then 0 else ?f (fw_rows w) x y) =
      (\<lambda>x y. if y div 16 + 1 < fw_rows w then f x (y + 16) else if y div 16 + 1 = fw_rows w then 0 else f x y)"
    using last by (auto simp: fun_eq_iff)
  then show ?thesis using m1(1) m2 last by (simp add: scroll_up_def)
qed


subsection \<open>The text screen\<close>

record text_screen =
  ts_grid :: "u8 list list"
  ts_row :: nat
  ts_col :: nat

definition text_newline :: "nat \<Rightarrow> nat \<Rightarrow> text_screen \<Rightarrow> text_screen" where
  "text_newline rows cols t =
     (if ts_row t + 1 < rows then t\<lparr>ts_row := ts_row t + 1, ts_col := 0\<rparr>
      else t\<lparr>ts_grid := tl (ts_grid t) @ [replicate cols 0x20], ts_row := rows - 1, ts_col := 0\<rparr>)"

definition text_byte :: "nat \<Rightarrow> nat \<Rightarrow> u8 \<Rightarrow> text_screen \<Rightarrow> text_screen" where
  "text_byte rows cols b t =
     (if b = 0x0A then text_newline rows cols t
      else
        let t = (if cols \<le> ts_col t then text_newline rows cols t else t)
        in t\<lparr>ts_grid := (ts_grid t)[ts_row t := (ts_grid t ! ts_row t)[ts_col t := b]], ts_col := ts_col t + 1\<rparr>)"

definition text_string :: "nat \<Rightarrow> nat \<Rightarrow> u8 list \<Rightarrow> text_screen \<Rightarrow> text_screen" where
  "text_string rows cols s = fold (\<lambda>b. text_byte rows cols (fb_byte b)) s"

definition text_wf :: "nat \<Rightarrow> nat \<Rightarrow> text_screen \<Rightarrow> bool" where
  "text_wf rows cols t \<longleftrightarrow> length (ts_grid t) = rows \<and> (\<forall>r\<in>set (ts_grid t). length r = cols) \<and>
     ts_row t < rows \<and> ts_col t \<le> cols"

definition text_pixels :: "fb_writer \<Rightarrow> text_screen \<Rightarrow> (nat \<Rightarrow> nat \<Rightarrow> nat) \<Rightarrow> bool" where
  "text_pixels w t f \<longleftrightarrow>
     (\<forall>x y. x < fw_cols w * 8 \<longrightarrow> y < fw_rows w * 16 \<longrightarrow>
        f x y = glyph_pixel w (ts_grid t ! (y div 16) ! (x div 8)) (x mod 8) (y mod 16))"

text \<open>The writer and the memory show a text screen.\<close>

definition shows_text :: "fb_writer \<Rightarrow> mem \<Rightarrow> text_screen \<Rightarrow> bool" where
  "shows_text w m t \<longleftrightarrow> fb_geometry w \<and> text_wf (fw_rows w) (fw_cols w) t \<and>
     fw_row w = ts_row t \<and> fw_col w = ts_col t \<and> text_pixels w t (pixel w m)"

lemma blank_glyph: "dy < 16 \<Longrightarrow> glyph_pixel w 0x20 dx dy = 0"
proof -
  assume "dy < 16"
  then have "dy div 2 < 8" by simp
  moreover have "glyph_of 0x20 = [0, 0, 0, 0, 0, 0, 0, 0]" by (simp add: glyph_of_def FONT8X8_def)
  then have "glyph_of 0x20 = replicate 8 0" by (simp add: eval_nat_numeral)
  ultimately show ?thesis by (simp add: glyph_pixel_def)
qed

text \<open>Cursor and colours do not matter to where pixels are.\<close>

lemma cursor_irrelevant [simp]:
  "fb_geometry (w\<lparr>fw_row := r\<rparr>) = fb_geometry w" "fb_geometry (w\<lparr>fw_col := c\<rparr>) = fb_geometry w"
  "pixel (w\<lparr>fw_row := r\<rparr>) = pixel w" "pixel (w\<lparr>fw_col := c\<rparr>) = pixel w"
  "screen (w\<lparr>fw_row := r\<rparr>) = screen w" "screen (w\<lparr>fw_col := c\<rparr>) = screen w"
  "text_pixels (w\<lparr>fw_row := r\<rparr>) = text_pixels w" "text_pixels (w\<lparr>fw_col := c\<rparr>) = text_pixels w"
  "painted (w\<lparr>fw_row := r\<rparr>) = painted w" "painted (w\<lparr>fw_col := c\<rparr>) = painted w"
  by (simp_all add: fb_geometry_def fun_eq_iff pixel_def pixel_addr_def screen_def text_pixels_def glyph_pixel_def
      fg_color_def painted_def)

lemma painted_self: "painted w m (pixel w m) m"
  by (simp add: painted_def)

lemma painted_text:
  assumes "fb_geometry w" and "painted w m f m'" and "text_pixels w t f"
  shows "text_pixels w t (pixel w m')"
  using assms geometryD(5,6) [OF assms(1)] unfolding painted_def text_pixels_def
  by (metis less_le_trans)

definition fb_step_ok :: "fb_writer \<Rightarrow> mem \<Rightarrow> text_screen \<Rightarrow> (fb_writer \<times> mem) res \<Rightarrow> bool" where
  "fb_step_ok w m t r \<longleftrightarrow>
     (\<exists>w' m'. r = Inr (w', m') \<and> shows_text w' m' t \<and> agree_off (screen w) m m' \<and>
        screen w' = screen w \<and> fw_rows w' = fw_rows w \<and> fw_cols w' = fw_cols w)"

lemma newline_shows:
  assumes sh: "shows_text w m t"
  shows "fb_step_ok w m (text_newline (fw_rows w) (fw_cols w) t) (fb_newline (w, m))"
proof -
  have g: "fb_geometry w" and wf: "text_wf (fw_rows w) (fw_cols w) t" and px: "text_pixels w t (pixel w m)"
    and cur: "fw_row w = ts_row t" using sh by (simp_all add: shows_text_def)
  have row: "ts_row t < fw_rows w" using wf by (simp add: text_wf_def)
  then have u32: "ts_row t + 1 \<le> u32_max" using geometryD(6,10) [OF g] by linarith
  show ?thesis
  proof (cases "ts_row t + 1 < fw_rows w")
    case True
    let ?w = "w\<lparr>fw_col := 0, fw_row := ts_row t + 1\<rparr>"
    have "fb_newline (w, m) = Inr (?w, m)" using True u32 cur by (simp add: fb_newline_def Let_def)
    moreover have "shows_text ?w m (text_newline (fw_rows w) (fw_cols w) t)"
      using True g wf px by (simp add: shows_text_def text_newline_def text_wf_def) (simp add: text_pixels_def)
    ultimately show ?thesis by (simp add: fb_step_ok_def)
  next
    case False
    then have last: "ts_row t + 1 = fw_rows w" using row by simp
    let ?w = "w\<lparr>fw_col := 0, fw_row := ts_row t + 1\<rparr>"
    obtain m' where m': "scroll_up ?w m = Inr m'"
      "painted w m (\<lambda>x y. if y div 16 + 1 < fw_rows w then pixel w m x (y + 16)
         else if y div 16 + 1 = fw_rows w then 0 else pixel w m x y) m'"
      using scroll_painted [of ?w m "pixel w m" m] g painted_self [of w m] by (auto cong: if_cong)
    let ?t = "text_newline (fw_rows w) (fw_cols w) t"
    have grid: "ts_grid ?t = tl (ts_grid t) @ [replicate (fw_cols w) 0x20]" "ts_row ?t = fw_rows w - 1" "ts_col ?t = 0"
      using False by (simp_all add: text_newline_def)
    have len: "length (ts_grid t) = fw_rows w" using wf by (simp add: text_wf_def)
    have wf': "text_wf (fw_rows w) (fw_cols w) ?t"
      using wf row grid len by (auto simp: text_wf_def dest: list.set_sel(2) [rotated])
    have "text_pixels w ?t (\<lambda>x y. if y div 16 + 1 < fw_rows w then pixel w m x (y + 16)
         else if y div 16 + 1 = fw_rows w then 0 else pixel w m x y)"
      unfolding text_pixels_def
    proof (intro allI impI)
      fix x y
      assume x: "x < fw_cols w * 8" and y: "y < fw_rows w * 16"
      have xc: "x div 8 < fw_cols w" using x by (simp add: less_mult_imp_div_less)
      have yr: "y div 16 < fw_rows w" using y by (simp add: less_mult_imp_div_less)
      show "(if y div 16 + 1 < fw_rows w then pixel w m x (y + 16)
         else if y div 16 + 1 = fw_rows w then 0 else pixel w m x y) =
         glyph_pixel w (ts_grid ?t ! (y div 16) ! (x div 8)) (x mod 8) (y mod 16)"
      proof (cases "y div 16 + 1 < fw_rows w")
        case True
        then have "y + 16 < fw_rows w * 16" by auto
        then have "pixel w m x (y + 16) = glyph_pixel w (ts_grid t ! (y div 16 + 1) ! (x div 8)) (x mod 8) (y mod 16)"
          using px x div_add_self2 [of 16 y] by (simp add: text_pixels_def)
        moreover have "ts_grid ?t ! (y div 16) = ts_grid t ! (y div 16 + 1)"
        proof -
          have "y div 16 < length (tl (ts_grid t))" using True len by simp
          then show ?thesis by (simp add: grid nth_append nth_tl)
        qed
        ultimately show ?thesis using True by simp
      next
        case False
        then have "y div 16 = fw_rows w - 1" using yr by simp
        then have "ts_grid ?t ! (y div 16) = replicate (fw_cols w) 0x20" using len by (simp add: grid nth_append)
        then show ?thesis using False yr xc blank_glyph by simp
      qed
    qed
    then have "text_pixels w ?t (pixel w m')" by (rule painted_text [OF g m'(2)])
    moreover have "fb_newline (w, m) = Inr (w\<lparr>fw_col := 0, fw_row := fw_rows w - 1\<rparr>, m')"
      using m'(1) u32 cur last g geometryD(8) [OF g] by (simp add: fb_newline_def Let_def)
    ultimately show ?thesis
      using g wf' grid m'(2) by (simp add: fb_step_ok_def shows_text_def painted_def)
  qed
qed


lemma byte_shows:
  assumes sh: "shows_text w m t"
  shows "fb_step_ok w m (text_byte (fw_rows w) (fw_cols w) b t) (fb_write_byte b (w, m))"
proof (cases "b = 0x0A")
  case True
  then show ?thesis using newline_shows [OF sh] by (simp add: text_byte_def fb_write_byte_def)
next
  case False
  let ?t = "if fw_cols w \<le> ts_col t then text_newline (fw_rows w) (fw_cols w) t else t"
  let ?r = "if fw_col w \<ge> fw_cols w then fb_newline (w, m) else Inr (w, m)"
  have "fb_step_ok w m ?t ?r"
    using newline_shows [OF sh] sh by (auto simp: shows_text_def fb_step_ok_def)
  then obtain w1 m1 where r: "?r = Inr (w1, m1)" and sh1: "shows_text w1 m1 ?t" and ag: "agree_off (screen w) m m1"
    and same: "screen w1 = screen w" "fw_rows w1 = fw_rows w" "fw_cols w1 = fw_cols w"
    unfolding fb_step_ok_def by blast
  have g: "fb_geometry w1" and wf: "text_wf (fw_rows w1) (fw_cols w1) ?t" and px: "text_pixels w1 ?t (pixel w1 m1)"
    and cur: "fw_row w1 = ts_row ?t" "fw_col w1 = ts_col ?t" using sh1 by (simp_all add: shows_text_def)
  have col: "ts_col ?t < fw_cols w1" using sh geometryD(7) [of w] same by (auto simp: shows_text_def text_newline_def)
  have row: "ts_row ?t < fw_rows w1" using wf by (simp add: text_wf_def)
  have u32: "ts_col ?t + 1 \<le> u32_max" using col geometryD(5,9) [OF g] by linarith
  obtain m2 where m2: "draw_char w1 b (ts_col ?t) (ts_row ?t) m1 = Inr m2"
    "painted w1 m1 (\<lambda>x y. if x div 8 = ts_col ?t \<and> y div 16 = ts_row ?t then glyph_pixel w1 b (x mod 8) (y mod 16)
       else pixel w1 m1 x y) m2"
    using draw_char_painted [OF g col row painted_self] by blast
  let ?t2 = "?t\<lparr>ts_grid := (ts_grid ?t)[ts_row ?t := (ts_grid ?t ! ts_row ?t)[ts_col ?t := b]], ts_col := ts_col ?t + 1\<rparr>"
  have t2: "text_byte (fw_rows w) (fw_cols w) b t = ?t2" using False by (simp add: text_byte_def Let_def)
  have len: "length (ts_grid ?t) = fw_rows w1" "length (ts_grid ?t ! ts_row ?t) = fw_cols w1"
    using wf row by (simp_all add: text_wf_def)
  have wf2: "text_wf (fw_rows w1) (fw_cols w1) ?t2"
    using wf col row len by (auto simp: text_wf_def dest!: set_update_subset_insert [THEN subsetD])
  have "text_pixels w1 ?t2 (\<lambda>x y. if x div 8 = ts_col ?t \<and> y div 16 = ts_row ?t then glyph_pixel w1 b (x mod 8) (y mod 16)
       else pixel w1 m1 x y)"
    unfolding text_pixels_def
  proof (intro allI impI)
    fix x y
    assume x: "x < fw_cols w1 * 8" and y: "y < fw_rows w1 * 16"
    have "ts_grid ?t2 ! (y div 16) ! (x div 8) =
        (if x div 8 = ts_col ?t \<and> y div 16 = ts_row ?t then b else ts_grid ?t ! (y div 16) ! (x div 8))"
      using len col row by (auto simp: nth_list_update simp del: if_split_asm)
    moreover have "pixel w1 m1 x y = glyph_pixel w1 (ts_grid ?t ! (y div 16) ! (x div 8)) (x mod 8) (y mod 16)"
      using px x y unfolding text_pixels_def by blast
    ultimately show "(if x div 8 = ts_col ?t \<and> y div 16 = ts_row ?t then glyph_pixel w1 b (x mod 8) (y mod 16)
       else pixel w1 m1 x y) = glyph_pixel w1 (ts_grid ?t2 ! (y div 16) ! (x div 8)) (x mod 8) (y mod 16)"
      by (simp only: if_distrib [of "\<lambda>c. glyph_pixel w1 c _ _"])
  qed
  then have px2: "text_pixels w1 ?t2 (pixel w1 m2)" by (rule painted_text [OF g m2(2)])
  let ?w2 = "w1\<lparr>fw_col := ts_col ?t + 1\<rparr>"
  have run: "fb_write_byte b (w, m) = Inr (?w2, m2)"
    using False r m2(1) u32 cur by (simp add: fb_write_byte_def split del: if_split)
  have sh2: "shows_text ?w2 m2 ?t2" using g wf2 px2 cur by (simp add: shows_text_def)
  have ag2: "agree_off (screen w) m m2"
    using agree_off_trans [OF ag] m2(2) by (simp add: painted_def same)
  show ?thesis
    unfolding fb_step_ok_def t2 using run sh2 ag2 same
    by (intro exI [of _ ?w2] exI [of _ m2]) (simp split del: if_split)
qed

lemma string_shows:
  "shows_text w m t \<Longrightarrow> fb_step_ok w m (text_string (fw_rows w) (fw_cols w) s t) (fb_write_str s (w, m))"
proof (induction s arbitrary: w m t)
  case Nil
  then show ?case by (simp add: fb_step_ok_def text_string_def)
next
  case (Cons b s)
  from byte_shows [OF Cons.prems, of "fb_byte b"] obtain w1 m1 where
    1: "fb_write_byte (fb_byte b) (w, m) = Inr (w1, m1)" "shows_text w1 m1 (text_byte (fw_rows w) (fw_cols w) (fb_byte b) t)"
      "agree_off (screen w) m m1" "screen w1 = screen w" "fw_rows w1 = fw_rows w" "fw_cols w1 = fw_cols w"
    unfolding fb_step_ok_def by blast
  from Cons.IH [OF 1(2)] show ?case
    using 1 agree_off_trans [OF 1(3)] by (auto simp: fb_step_ok_def text_string_def)
qed

text \<open>
  C30. Printing on a frame buffer that shows a text screen never panics, writes no byte outside the
  frame buffer, and shows the text screen after the string: every pixel of the text area is the
  pixel of its character's glyph, lines wrap at the last column, and a newline below the last row
  moves the text up by one row.
\<close>

theorem framebuffer_refines_text:
  assumes "shows_text w m t"
  shows "\<exists>w' m'. fb_print s (Some w, m) = Inr (Some w', m') \<and>
    shows_text w' m' (text_string (fw_rows w) (fw_cols w) s t) \<and> agree_off (screen w) m m'"
  using string_shows [OF assms, of s] by (auto simp: fb_print_def fb_step_ok_def)


text \<open>What \<open>init_from_info\<close> needs of a 32-bit frame buffer.\<close>

definition usable_framebuffer :: "framebuffer_info \<Rightarrow> bool" where
  "usable_framebuffer i \<longleftrightarrow> fi_bits_per_pixel i = 32 \<and> 8 \<le> fi_width i \<and> 16 \<le> fi_height i \<and>
     4 * fi_width i \<le> fi_pitch i \<and> fi_height i * fi_pitch i \<le> u32_max \<and>
     fi_virt_addr i + fi_height i * fi_pitch i \<le> u64_max"

definition blank_text :: "framebuffer_info \<Rightarrow> text_screen" where
  "blank_text i =
     \<lparr>ts_grid = replicate (fi_height i div 16) (replicate (fi_width i div 8) 0x20), ts_row = 0, ts_col = 0\<rparr>"

lemma init_shows_blank:
  assumes u: "usable_framebuffer i"
  shows "\<exists>w m'. init_from_info i (v, m) = Inr (Some w, m') \<and> shows_text w m' (blank_text i) \<and>
    fw_rows w = fi_height i div 16 \<and> fw_cols w = fi_width i div 8 \<and>
    screen w = {fi_virt_addr i..<fi_virt_addr i + fi_height i * fi_pitch i} \<and> agree_off (screen w) m m'"
proof -
  let ?w = "\<lparr>fw_addr = fi_virt_addr i, fw_width = fi_width i, fw_height = fi_height i,
    fw_pitch = fi_pitch i, fw_bpp = 4, fw_r_shl = 16, fw_g_shl = 8, fw_b_shl = 0, fw_col = 0, fw_row = 0,
    fw_cols = fi_width i div CHAR_W, fw_rows = fi_height i div CHAR_H\<rparr>"
  let ?m = "st (fi_height i * fi_pitch i) (fi_virt_addr i) 0 m"
  have run: "init_from_info i (v, m) = Inr (Some ?w, ?m)"
    using u by (simp add: init_from_info_def usable_framebuffer_def)
  have g: "fb_geometry ?w" using u by (simp add: fb_geometry_def usable_framebuffer_def fb_sizes div_greater_zero_iff)
  have zero: "pixel ?w ?m x y = 0" if "x < fi_width i" "y < fi_height i" for x y
  proof -
    have "y * fi_pitch i + x * 4 + 4 \<le> fi_height i * fi_pitch i" using pixel_offset [OF g] that by simp
    then show ?thesis by (simp add: pixel_def pixel_addr_def ld_def st_def)
  qed
  have "text_pixels ?w (blank_text i) (pixel ?w ?m)"
    unfolding text_pixels_def
  proof (intro allI impI)
    fix x y
    assume xy: "x < fw_cols ?w * 8" "y < fw_rows ?w * 16"
    then have c: "x div 8 < fi_width i div 8" "y div 16 < fi_height i div 16"
      by (simp_all add: fb_sizes less_mult_imp_div_less)
    have "x < fi_width i" "y < fi_height i" using xy by (auto simp: fb_sizes)
    then show "pixel ?w ?m x y = glyph_pixel ?w (ts_grid (blank_text i) ! (y div 16) ! (x div 8)) (x mod 8) (y mod 16)"
      using zero c blank_glyph by (simp add: blank_text_def)
  qed
  moreover have "text_wf (fw_rows ?w) (fw_cols ?w) (blank_text i)"
    using u by (simp add: text_wf_def blank_text_def fb_sizes usable_framebuffer_def div_greater_zero_iff)
  ultimately have "shows_text ?w ?m (blank_text i)" using g by (simp add: shows_text_def blank_text_def)
  moreover have "agree_off (screen ?w) m ?m" by (rule agree_off_st) (simp_all add: screen_def)
  ultimately show ?thesis using run by (simp add: fb_sizes screen_def)
qed

text \<open>
  Initialising the console on a usable 32-bit frame buffer clears it and shows an empty text
  screen, and the colour shifts reported by the boot loader are ignored: two infos that differ only
  in them give the same console. A frame buffer of another depth leaves the console as it was.
\<close>

theorem framebuffer_init_blank:
  "(usable_framebuffer i \<longrightarrow>
     (\<exists>w m'. init_from_info i (v, m) = Inr (Some w, m') \<and> shows_text w m' (blank_text i) \<and> agree_off (screen w) m m')) \<and>
   init_from_info (i\<lparr>fi_r_shift := r, fi_g_shift := g, fi_b_shift := b\<rparr>) (v, m) = init_from_info i (v, m) \<and>
   (fi_bits_per_pixel i \<noteq> 32 \<longrightarrow> init_from_info i (v, m) = Inr (v, m))"
  using init_shows_blank [of i v m] by (auto simp: init_from_info_def)

definition tiny_info :: framebuffer_info where
  "tiny_info = \<lparr>fi_virt_addr = 0x1000, fi_phys_addr = 0x1000, fi_width = 16, fi_height = 32, fi_pitch = 64,
     fi_bits_per_pixel = 32, fi_byte_size = 0x800, fi_r_shift = 16, fi_g_shift = 8, fi_b_shift = 0\<rparr>"

lemma tiny_usable: "usable_framebuffer tiny_info"
  by (simp add: usable_framebuffer_def tiny_info_def u32_max_def u64_max_def)

theorem framebuffer_init_blank_witness:
  "\<exists>w m'. init_from_info tiny_info (None, \<lambda>_. 1) = Inr (Some w, m') \<and> shows_text w m' (blank_text tiny_info)"
  using framebuffer_init_blank [of tiny_info None "\<lambda>_. 1"] tiny_usable by blast

theorem framebuffer_refines_text_witness:
  "\<exists>w m w' m'. fb_print [0x48, 0x69, 0x21] (Some w, m) = Inr (Some w', m') \<and>
     shows_text w' m' \<lparr>ts_grid = [[0x48, 0x69], [0x21, 0x20]], ts_row = 1, ts_col = 1\<rparr>"
proof -
  obtain w m where w: "shows_text w m (blank_text tiny_info)" "fw_rows w = 2" "fw_cols w = 2"
    using init_shows_blank [OF tiny_usable, of None "\<lambda>_. 0"] by (auto simp: tiny_info_def)
  have "blank_text tiny_info = \<lparr>ts_grid = [[0x20, 0x20], [0x20, 0x20]], ts_row = 0, ts_col = 0\<rparr>"
    by (simp add: blank_text_def tiny_info_def numeral_2_eq_2)
  then have "text_string 2 2 [0x48, 0x69, 0x21] (blank_text tiny_info) =
      \<lparr>ts_grid = [[0x48, 0x69], [0x21, 0x20]], ts_row = 1, ts_col = 1\<rparr>"
    by (simp add: text_string_def text_byte_def text_newline_def fb_byte_def)
  with framebuffer_refines_text [OF w(1), of "[0x48, 0x69, 0x21]"] w(2,3) show ?thesis by auto
qed

text \<open>
  A frame buffer that is lower than one character row, or narrower than one character, is
  accepted by \<open>init_from_info\<close>; on one that is too low the first newline panics with an arithmetic
  overflow.
\<close>

theorem low_framebuffer_panics:
  assumes "fi_bits_per_pixel i = 32" and "fi_height i < 16" and "fi_height i * fi_pitch i \<le> u32_max"
    and "16 * fi_pitch i \<le> u32_max"
  shows "\<exists>w m'. init_from_info i (v, m) = Inr (Some w, m') \<and> fb_print [0x0A] (Some w, m') = Inl Arithmetic_overflow"
  using assms
  by (simp add: init_from_info_def fb_print_def fb_byte_def fb_write_byte_def fb_newline_def scroll_up_def
      for_range_def sub32_def fb_sizes u32_max_def Let_def)

theorem low_framebuffer_panics_witness:
  "\<exists>w m'. init_from_info (tiny_info\<lparr>fi_height := 15\<rparr>) (None, \<lambda>_. 0) = Inr (Some w, m') \<and>
     fb_print [0x0A] (Some w, m') = Inl Arithmetic_overflow"
  using low_framebuffer_panics [of "tiny_info\<lparr>fi_height := 15\<rparr>"] by (simp add: tiny_info_def u32_max_def)

end
