(* ===== verification/Interrupt_Theorems.thy ===== *)
theory Interrupt_Theorems
  imports Interrupt_Handlers
begin

text \<open>
  What the interrupt code guarantees: the handler table is a partial map, masking a line and
  unmasking it change that line of the mask only, every interrupt is acknowledged as often as the
  8259 pair needs it, the counters and the tick count are the numbers of deliveries, and
  \<open>sleep_ms\<close> returns once enough timer interrupts have arrived. The laws of the devices and of the
  \<^verbatim>\<open>pic8259\<close> crate are \<open>imr_laws\<close> and \<open>eoi_laws\<close>.
\<close>

definition irq_wf :: "machine \<Rightarrow> bool" where
  "irq_wf s \<longleftrightarrow> length (counters s) = 256 \<and> length (handler_ptrs s) = 16"

lemma irq_wf_boot: "irq_wf boot_machine"
  by (simp add: irq_wf_def boot_machine_def)

lemma u8_index: "unat (v :: u8) < 256"
  using unsigned_less [of v, where ?'a = nat] by simp

lemma record_vector_ok: "irq_wf s \<Longrightarrow> record_vector v s = Inr (s\<lparr>counters := (counters s)[unat v := counters s ! unat v + 1]\<rparr>)"
  by (simp add: record_vector_def irq_wf_def u8_index)

subsection \<open>The handler table\<close>

definition handler_map :: "machine \<Rightarrow> nat \<Rightarrow> nat option" where
  "handler_map s n = (if n < 16 \<and> handler_ptrs s ! n \<noteq> 0 then Some (handler_ptrs s ! n) else None)"

lemma handler_map_update:
  "irq_wf s \<Longrightarrow> n < 16 \<Longrightarrow>
   handler_map (s\<lparr>handler_ptrs := (handler_ptrs s)[n := h]\<rparr>) = (handler_map s)(n := if h = 0 then None else Some h)"
  by (auto simp: handler_map_def irq_wf_def fun_eq_iff nth_list_update)

text \<open>
  C32. The handler table refines a partial map from the 16 lines to functions: \<open>register\<close> inserts if
  the line is free and otherwise is rejected and changes nothing, \<open>unregister\<close> deletes, and
  \<open>dispatch\<close> calls the function of the line or does nothing. Any other line number panics.
\<close>

theorem handler_table_refines_map:
  assumes "irq_wf s" and "h \<noteq> 0"
  shows "if irq < 16 then
      (\<exists>s'. register irq h s = Inr (if handler_map s (unat irq) = None then Inr () else Inl (), s') \<and> irq_wf s' \<and>
         s' = s\<lparr>handler_ptrs := handler_ptrs s'\<rparr> \<and>
         handler_map s' = (if handler_map s (unat irq) = None then (handler_map s)(unat irq \<mapsto> h) else handler_map s)) \<and>
      (\<exists>s'. unregister irq s = Inr s' \<and> irq_wf s' \<and> s' = s\<lparr>handler_ptrs := handler_ptrs s'\<rparr> \<and>
         handler_map s' = (handler_map s)(unat irq := None)) \<and>
      dispatch env irq s = (case handler_map s (unat irq) of None \<Rightarrow> Inr s | Some f \<Rightarrow> call env f s)
    else register irq h s = Inl Index_out_of_bounds \<and> unregister irq s = Inl Index_out_of_bounds \<and>
      dispatch env irq s = Inl Index_out_of_bounds"
proof (cases "irq < 16")
  case True
  then have n: "unat irq < 16" by (simp add: word_less_nat_alt)
  have len: "length (handler_ptrs s) = 16" using assms(1) by (simp add: irq_wf_def)
  have reg: "\<exists>s'. register irq h s = Inr (if handler_map s (unat irq) = None then Inr () else Inl (), s') \<and> irq_wf s' \<and>
      s' = s\<lparr>handler_ptrs := handler_ptrs s'\<rparr> \<and>
      handler_map s' = (if handler_map s (unat irq) = None then (handler_map s)(unat irq \<mapsto> h) else handler_map s)"
  proof (cases "handler_ptrs s ! unat irq = 0")
    case True
    then have "handler_map s (unat irq) = None" by (simp add: handler_map_def)
    with True n len assms handler_map_update [OF assms(1) n, of h] show ?thesis
      by (simp add: register_def) (simp add: irq_wf_def)
  next
    case False
    then have "handler_map s (unat irq) \<noteq> None" using n by (simp add: handler_map_def)
    with False n len assms show ?thesis by (simp add: register_def)
  qed
  have "\<exists>s'. unregister irq s = Inr s' \<and> irq_wf s' \<and> s' = s\<lparr>handler_ptrs := handler_ptrs s'\<rparr> \<and>
      handler_map s' = (handler_map s)(unat irq := None)"
    using n len assms(1) handler_map_update [OF assms(1) n, of 0]
    by (simp add: unregister_def) (simp add: irq_wf_def)
  moreover have "dispatch env irq s = (case handler_map s (unat irq) of None \<Rightarrow> Inr s | Some f \<Rightarrow> call env f s)"
    using n len by (simp add: dispatch_def handler_map_def)
  ultimately show ?thesis using True reg by simp
next
  case False
  then have "\<not> unat irq < length (handler_ptrs s)" using assms(1) by (simp add: irq_wf_def word_less_nat_alt)
  then show ?thesis using False by (simp add: register_def unregister_def dispatch_def at_index_def set_index_def)
qed

definition demo_env :: env where
  "demo_env =
     \<lparr>bus = (\<lambda>log p. case find (\<lambda>x. \<exists>v. x = Out p v) log of Some (Out _ v) \<Rightarrow> v | _ \<Rightarrow> 0),
      chained_init = (\<lambda>log. log),
      chained_eoi = (\<lambda>v log.
        if 0x20 \<le> v \<and> v < 0x28 then Out 0x20 0x20 # log
        else if 0x28 \<le> v \<and> v < 0x30 then Out 0x20 0x20 # Out 0xA0 0x20 # log else log),
      call = (\<lambda>h s. Inr s)\<rparr>"

theorem handler_table_refines_map_witness:
  "\<exists>s'. register 3 7 boot_machine = Inr (Inr (), s') \<and> handler_map s' 3 = Some 7"
proof -
  have "handler_map boot_machine 3 = None" by (simp add: handler_map_def boot_machine_def)
  with handler_table_refines_map [OF irq_wf_boot, of 7 3 demo_env] show ?thesis
    by (auto split: if_splits)
qed

subsection \<open>The interrupt mask\<close>

text \<open>
  The mask registers hold the last byte written to their port; reads and other ports do not
  change them.
\<close>

definition imr_laws :: "env \<Rightarrow> bool" where
  "imr_laws env \<longleftrightarrow>
     (\<forall>log v. bus env (Out 0x21 v # log) 0x21 = v \<and> bus env (Out 0xA1 v # log) 0xA1 = v \<and>
        bus env (Out 0xA1 v # log) 0x21 = bus env log 0x21 \<and> bus env (Out 0x21 v # log) 0xA1 = bus env log 0xA1) \<and>
     (\<forall>log p. bus env (In p # log) 0x21 = bus env log 0x21 \<and> bus env (In p # log) 0xA1 = bus env log 0xA1)"

definition imr :: "env \<Rightarrow> machine \<Rightarrow> u16" where
  "imr env s = ucast (bus env (io_log s) 0x21) OR push_bit 8 (ucast (bus env (io_log s) 0xA1))"

lemma read_imr_eq: "imr_laws env \<Longrightarrow> fst (read_imr env s) = imr env s"
  by (simp add: read_imr_def imr_def imr_laws_def port_read_def split_def Let_def)

lemma bit_imr:
  "bit (imr env s) n \<longleftrightarrow> (if n < 8 then bit (bus env (io_log s) 0x21) n else n < 16 \<and> bit (bus env (io_log s) 0xA1) (n - 8))"
  by (auto simp: imr_def bit_simps dest: bit_imp_le_length)

lemma line_cases:
  fixes irq :: u8
  assumes "irq < 16"
  obtains "irq < 8" "unat irq < 8"
    | "\<not> irq < 8" "unat (irq - 8) = unat irq - 8" "8 \<le> unat irq" "unat irq < 16"
proof (cases "irq < 8")
  case True
  then show thesis using that(1) by (simp add: word_less_nat_alt)
next
  case False
  then have "8 \<le> irq" by simp
  then have "unat (irq - 8) = unat irq - 8" by (simp add: unat_sub)
  then show thesis using that(2) False assms by (simp add: word_less_nat_alt)
qed

lemma bit_line: "n < LENGTH(16) \<Longrightarrow> bit (push_bit k (1 :: u16)) n \<longleftrightarrow> n = k"
  by (simp only: bit_push_bit_iff bit_1_iff possible_bit_word) auto

lemma imr_written:
  assumes "imr_laws env"
  shows "bit (imr env (port_write 0x21 v (snd (port_read env 0x21 s)))) n \<longleftrightarrow> (if n < 8 then bit v n else bit (imr env s) n)"
    and "bit (imr env (port_write 0xA1 v (snd (port_read env 0xA1 s)))) n \<longleftrightarrow>
      (if n < 8 then bit (imr env s) n else n < 16 \<and> bit v (n - 8))"
  using assms by (simp_all add: bit_imr imr_laws_def)

lemma mask_irq_ok:
  assumes laws: "imr_laws env" and n: "irq < 16"
  shows "\<exists>s'. mask_irq env irq s = Inr s' \<and> imr env s' = imr env s OR push_bit (unat irq) 1"
  using n
proof (cases rule: line_cases)
  case 1
  let ?s' = "port_write 0x21 (bus env (io_log s) 0x21 OR push_bit (unat irq) 1) (snd (port_read env 0x21 s))"
  have "mask_irq env irq s = Inr ?s'" using 1 by (simp add: mask_irq_def split_def Let_def shl8_def)
  moreover have "imr env ?s' = imr env s OR push_bit (unat irq) 1"
  proof (rule bit_word_eqI)
    fix n assume "n < LENGTH(16)"
    then show "bit (imr env ?s') n \<longleftrightarrow> bit (imr env s OR push_bit (unat irq) 1) n"
      using 1 by (simp only: imr_written [OF laws] bit_or_iff bit_and_iff bit_not_iff bit_imr [where s = s] bit_push_bit_iff)
        (auto simp: possible_bit_def bit_1_iff)
  qed
  ultimately show ?thesis by blast
next
  case 2
  let ?s' = "port_write 0xA1 (bus env (io_log s) 0xA1 OR push_bit (unat irq - 8) 1) (snd (port_read env 0xA1 s))"
  have "mask_irq env irq s = Inr ?s'" using 2 by (simp add: mask_irq_def split_def Let_def shl8_def)
  moreover have "imr env ?s' = imr env s OR push_bit (unat irq) 1"
  proof (rule bit_word_eqI)
    fix n assume "n < LENGTH(16)"
    then show "bit (imr env ?s') n \<longleftrightarrow> bit (imr env s OR push_bit (unat irq) 1) n"
      using 2 by (simp only: imr_written [OF laws] bit_or_iff bit_and_iff bit_not_iff bit_imr [where s = s] bit_push_bit_iff)
        (auto simp: possible_bit_def bit_1_iff)
  qed
  ultimately show ?thesis by blast
qed

lemma unmask_irq_ok:
  assumes laws: "imr_laws env" and n: "irq < 16"
  shows "\<exists>s'. unmask_irq env irq s = Inr s' \<and> imr env s' = imr env s AND NOT (push_bit (unat irq) 1)"
  using n
proof (cases rule: line_cases)
  case 1
  let ?s' = "port_write 0x21 (bus env (io_log s) 0x21 AND NOT (push_bit (unat irq) 1)) (snd (port_read env 0x21 s))"
  have "unmask_irq env irq s = Inr ?s'" using 1 by (simp add: unmask_irq_def split_def Let_def shl8_def)
  moreover have "imr env ?s' = imr env s AND NOT (push_bit (unat irq) 1)"
  proof (rule bit_word_eqI)
    fix n assume "n < LENGTH(16)"
    then show "bit (imr env ?s') n \<longleftrightarrow> bit (imr env s AND NOT (push_bit (unat irq) 1)) n"
      using 1 by (simp only: imr_written [OF laws] bit_or_iff bit_and_iff bit_not_iff bit_imr [where s = s] bit_push_bit_iff)
        (auto simp: possible_bit_def bit_1_iff)
  qed
  ultimately show ?thesis by blast
next
  case 2
  let ?s' = "port_write 0xA1 (bus env (io_log s) 0xA1 AND NOT (push_bit (unat irq - 8) 1)) (snd (port_read env 0xA1 s))"
  have "unmask_irq env irq s = Inr ?s'" using 2 by (simp add: unmask_irq_def split_def Let_def shl8_def)
  moreover have "imr env ?s' = imr env s AND NOT (push_bit (unat irq) 1)"
  proof (rule bit_word_eqI)
    fix n assume "n < LENGTH(16)"
    then show "bit (imr env ?s') n \<longleftrightarrow> bit (imr env s AND NOT (push_bit (unat irq) 1)) n"
      using 2 by (simp only: imr_written [OF laws] bit_or_iff bit_and_iff bit_not_iff bit_imr [where s = s] bit_push_bit_iff)
        (auto simp: possible_bit_def bit_1_iff)
  qed
  ultimately show ?thesis by blast
qed

text \<open>
  C37. Masking a line sets its bit of the 16-bit interrupt mask and no other, whatever the mask was,
  and unmasking it afterwards gives the old mask with the bit cleared: the two undo each other on
  an unmasked line. A line number of 16 or more panics.
\<close>

theorem mask_unmask_roundtrip:
  assumes "imr_laws env"
  shows "if irq < 16 then
      \<exists>s1 s2. mask_irq env irq s = Inr s1 \<and> unmask_irq env irq s1 = Inr s2 \<and>
        fst (read_imr env s1) = fst (read_imr env s) OR push_bit (unat irq) 1 \<and>
        fst (read_imr env s2) = fst (read_imr env s) AND NOT (push_bit (unat irq) 1) \<and>
        (\<not> bit (fst (read_imr env s)) (unat irq) \<longrightarrow> fst (read_imr env s2) = fst (read_imr env s))
    else mask_irq env irq s = Inl Arithmetic_overflow \<and> unmask_irq env irq s = Inl Arithmetic_overflow"
proof (cases "irq < 16")
  case True
  let ?b = "push_bit (unat irq) (1 :: u16)"
  obtain s1 where s1: "mask_irq env irq s = Inr s1" "imr env s1 = imr env s OR ?b"
    using mask_irq_ok [OF assms True] by blast
  obtain s2 where s2: "unmask_irq env irq s1 = Inr s2" "imr env s2 = imr env s1 AND NOT ?b"
    using unmask_irq_ok [OF assms True] by blast
  have s: "imr env s2 = imr env s AND NOT ?b" unfolding s1 s2 by (auto simp: bit_eq_iff bit_simps)
  have "\<not> bit (imr env s) (unat irq) \<Longrightarrow> imr env s AND NOT ?b = imr env s"
    by (rule bit_word_eqI) (auto simp only: bit_and_iff bit_not_iff bit_line possible_bit_word word_size)
  with True s1 s2(1) s show ?thesis by (auto simp: read_imr_eq [OF assms])
next
  case False
  then have "\<not> irq < 8" "8 \<le> irq" by (simp_all add: word_less_nat_alt word_le_nat_alt)
  then have "\<not> unat (irq - 8) < 8" using False by (simp add: unat_sub word_less_nat_alt word_le_nat_alt)
  with False \<open>\<not> irq < 8\<close> show ?thesis
    by (simp add: mask_irq_def unmask_irq_def split_def Let_def shl8_def)
qed

lemma demo_imr: "imr_laws demo_env"
  by (simp add: imr_laws_def demo_env_def)

theorem mask_unmask_roundtrip_witness:
  "\<exists>s1 s2. mask_irq demo_env 9 (pic_init demo_env boot_machine) = Inr s1 \<and> unmask_irq demo_env 9 s1 = Inr s2 \<and>
     \<not> bit (fst (read_imr demo_env s2)) 9"
proof -
  have "\<not> bit (x AND NOT (push_bit 9 1)) 9" for x :: u16 by (simp add: bit_simps)
  then show ?thesis
    using mask_unmask_roundtrip [OF demo_imr, of 9 "pic_init demo_env boot_machine"] by fastforce
qed


subsection \<open>Acknowledgement\<close>

text \<open>
  \<^verbatim>\<open>notify_end_of_interrupt\<close> of the \<^verbatim>\<open>pic8259\<close> crate sends the end-of-interrupt command
  (\<open>0x20\<close>) to the controllers that handle the vector: to the first only, or to both.
\<close>

definition eoi_laws :: "env \<Rightarrow> bool" where
  "eoi_laws env \<longleftrightarrow>
     (\<forall>v log. chained_eoi env v log =
        (if 0x20 \<le> v \<and> v < 0x28 then Out 0x20 0x20 # log
         else if 0x28 \<le> v \<and> v < 0x30 then Out 0x20 0x20 # Out 0xA0 0x20 # log else log))"

text \<open>The acknowledgements each controller has received.\<close>

definition acks :: "port_log \<Rightarrow> nat \<times> nat" where
  "acks log = (count_list log (Out 0x20 0x20), count_list log (Out 0xA0 0x20))"

text \<open>A registered function leaves the interrupt controllers and the statics alone.\<close>

definition calls_neutral :: "env \<Rightarrow> bool" where
  "calls_neutral env \<longleftrightarrow>
     (\<forall>h s s'. call env h s = Inr s' \<longrightarrow> acks (io_log s') = acks (io_log s) \<and>
        counters s' = counters s \<and> handler_ptrs s' = handler_ptrs s \<and> ticks s' = ticks s)"

text \<open>Whether a controller reports its line 7 in service, read as the code reads it.\<close>

definition in_service :: "env \<Rightarrow> u16 \<Rightarrow> machine \<Rightarrow> bool" where
  "in_service env p s \<longleftrightarrow> bit (bus env (Out p 0x0B # io_log s) p) 7"

definition acks_due :: "env \<Rightarrow> u8 \<Rightarrow> machine \<Rightarrow> nat \<times> nat" where
  "acks_due env v s =
     (if v = 0x27 then (if in_service env 0x20 s then 1 else 0, 0)
      else if v = 0x2F then (1, if in_service env 0xA0 s then 1 else 0)
      else if 0x20 \<le> v \<and> v < 0x28 then (1, 0)
      else if 0x28 \<le> v \<and> v < 0x30 then (1, 1) else (0, 0))"

lemma acks_simps [simp]:
  "acks (Out 0x20 0x20 # log) = (Suc (fst (acks log)), snd (acks log))"
  "acks (Out 0xA0 0x20 # log) = (fst (acks log), Suc (snd (acks log)))"
  "acks (In p # log) = acks log" "acks (Out 0x70 v # log) = acks log"
  "acks (Out 0x20 0x0B # log) = acks log" "acks (Out 0xA0 0x0B # log) = acks log"
  by (simp_all add: acks_def)

lemma record_vector_frame:
  "record_vector v s = Inr s' \<Longrightarrow> io_log s' = io_log s \<and> handler_ptrs s' = handler_ptrs s \<and> ticks s' = ticks s \<and>
   length (counters s') = length (counters s) \<and> (\<forall>i. counters s' ! i = counters s ! i + (if i = unat v \<and> i < length (counters s) then 1 else 0))"
  by (auto simp: record_vector_def nth_list_update elim!: res_elims [THEN iffD1, elim_format])

lemma dispatch_frame:
  assumes "calls_neutral env" and "dispatch env irq s = Inr s'"
  shows "acks (io_log s') = acks (io_log s) \<and> counters s' = counters s \<and> handler_ptrs s' = handler_ptrs s \<and>
    ticks s' = ticks s"
  using assms by (auto simp: dispatch_def calls_neutral_def res_elims split: if_splits)

lemma in_service_ok:
  "irq_in_service env 7 s = Inr (b, s') \<Longrightarrow> b = in_service env 0x20 s \<and> s' = snd (port_read env 0x20 (port_write 0x20 0x0B s))"
  "irq_in_service env 15 s = Inr (b, s') \<Longrightarrow> b = in_service env 0xA0 s \<and> s' = snd (port_read env 0xA0 (port_write 0xA0 0x0B s))"
proof -
  have bit7: "(x AND 0x80 \<noteq> 0) = bit x 7" for x :: u8
    using and_exp_eq_0_iff_not_bit [of x 7] by simp
  show "irq_in_service env 7 s = Inr (b, s') \<Longrightarrow> b = in_service env 0x20 s \<and> s' = snd (port_read env 0x20 (port_write 0x20 0x0B s))"
    "irq_in_service env 15 s = Inr (b, s') \<Longrightarrow> b = in_service env 0xA0 s \<and> s' = snd (port_read env 0xA0 (port_write 0xA0 0x0B s))"
    by (auto simp: irq_in_service_def in_service_def Let_def split_def shl8_def bit7)
qed


lemma idt_cases:
  assumes "map_of idt v = Some (g, ist)"
  obtains e where "g = Fault e" "v < 0x20" "\<And>s r s'. exception_handler e s = Inr (r, s') \<Longrightarrow> record_vector v s = Inr s'"
    | "v = PIC_IRQ_TIMER" "g = Timer_irq" | "v = PIC_IRQ_KEYBOARD" "g = Keyboard_irq"
    | "v = PIC_IRQ_SPURIOUS_MASTER" "g = Spurious_master_irq" | "v = PIC_IRQ_RTC" "g = Rtc_irq"
    | "v = PIC_IRQ_MOUSE" "g = Mouse_irq" | "v = PIC_IRQ_ATA_PRIMARY" "g = Ata_primary_irq"
    | "v = PIC_IRQ_ATA_SECONDARY" "g = Ata_secondary_irq" | "v = APIC_SPURIOUS" "g = Apic_spurious_irq"
  using assms by (auto simp: idt_def exception_vectors and_then_eq_Inr split: if_splits)

definition accounted :: "env \<Rightarrow> u8 \<Rightarrow> nat \<times> nat \<Rightarrow> machine \<Rightarrow> machine \<Rightarrow> bool" where
  "accounted env v due s s' \<longleftrightarrow>
     acks (io_log s') = (fst (acks (io_log s)) + fst due, snd (acks (io_log s)) + snd due) \<and>
     length (counters s') = length (counters s) \<and> handler_ptrs s' = handler_ptrs s \<and>
     (\<forall>i. counters s' ! i = counters s ! i + (if i = unat v \<and> i < length (counters s) then 1 else 0)) \<and>
     ticks s' = ticks s + (if v = PIC_IRQ_TIMER then 1 else 0)"

lemma eoi_acks:
  assumes "eoi_laws env"
  shows "acks (chained_eoi env v log) =
    (if 0x20 \<le> v \<and> v < 0x28 then (Suc (fst (acks log)), snd (acks log))
     else if 0x28 \<le> v \<and> v < 0x30 then (Suc (fst (acks log)), Suc (snd (acks log))) else acks log)"
  using assms by (simp add: eoi_laws_def)

lemma end_of_interrupt_simps [simp]:
  "io_log (end_of_interrupt env v s) = chained_eoi env v (io_log s)"
  "counters (end_of_interrupt env v s) = counters s" "handler_ptrs (end_of_interrupt env v s) = handler_ptrs s"
  "ticks (end_of_interrupt env v s) = ticks s"
  by (simp_all add: end_of_interrupt_def)

lemma irq_handlers_accounted:
  assumes laws: "eoi_laws env" and calls: "calls_neutral env"
  shows "timer_handler env s = Inr s' \<Longrightarrow> accounted env PIC_IRQ_TIMER (1, 0) s s'"
    and "keyboard_handler env s = Inr s' \<Longrightarrow> accounted env PIC_IRQ_KEYBOARD (1, 0) s s'"
    and "rtc_handler env s = Inr s' \<Longrightarrow> accounted env PIC_IRQ_RTC (1, 1) s s'"
    and "mouse_handler env s = Inr s' \<Longrightarrow> accounted env PIC_IRQ_MOUSE (1, 1) s s'"
    and "ata_primary_handler env s = Inr s' \<Longrightarrow> accounted env PIC_IRQ_ATA_PRIMARY (1, 1) s s'"
    and "apic_spurious_handler s = Inr s' \<Longrightarrow> accounted env APIC_SPURIOUS (0, 0) s s'"
    and "v \<noteq> PIC_IRQ_TIMER \<Longrightarrow> record_vector v s = Inr s' \<Longrightarrow> accounted env v (0, 0) s s'"
  by (auto simp: timer_handler_def keyboard_handler_def rtc_handler_def mouse_handler_def ata_primary_handler_def
        apic_spurious_handler_def accounted_def and_then_eq_Inr Let_def split_def irq_vectors eoi_acks [OF laws]
      dest!: record_vector_frame dispatch_frame [OF calls])

lemma spurious_handlers_accounted:
  assumes laws: "eoi_laws env"
  shows "spurious_master_handler env s = Inr s' \<Longrightarrow>
      accounted env PIC_IRQ_SPURIOUS_MASTER (acks_due env 0x27 s) s s'"
    and "ata_secondary_handler env s = Inr s' \<Longrightarrow>
      accounted env PIC_IRQ_ATA_SECONDARY (acks_due env 0x2F s) s s'"
  by (auto simp: spurious_master_handler_def ata_secondary_handler_def eoi_if_not_spurious_master_def
        eoi_if_not_spurious_slave_def accounted_def acks_due_def and_then_eq_Inr irq_vectors eoi_acks [OF laws]
        in_service_def
      dest!: record_vector_frame in_service_ok)

lemma delivery_accounted_step:
  assumes "eoi_laws env" and "calls_neutral env" and "deliver env v s = Some (Inr (r, s'))"
  shows "accounted env v (acks_due env v s) s s'"
proof -
  obtain g ist where g: "map_of idt v = Some (g, ist)" and run: "run_gate env g s = Inr (r, s')"
    using assms(3) by (auto simp: deliver_def)
  note acc = irq_handlers_accounted [OF assms(1,2)] spurious_handlers_accounted [OF assms(1)]
  from g show ?thesis
  proof (cases rule: idt_cases)
    case (1 e)
    have "acks_due env v s = (0, 0)" "v \<noteq> PIC_IRQ_TIMER"
      using 1(2) by (auto simp: acks_due_def irq_vectors word_less_nat_alt word_le_nat_alt)
    moreover have "record_vector v s = Inr s'" using 1(1,3) run by simp
    ultimately show ?thesis using acc(7) by simp
  qed (use run acc in \<open>auto simp: irq_result_def and_then_eq_Inr acks_due_def irq_vectors\<close>)
qed


text \<open>
  C31. Every delivery of a vector that the table handles adds one to the counter of that vector and
  to no other, adds a tick exactly for the timer, leaves the handler table, and acknowledges the
  interrupt exactly as the controllers need: nothing for exceptions and the APIC's spurious vector,
  the first controller for lines 0 to 7, both for lines 8 to 15, nothing for a spurious line 7, and
  only the first controller for a spurious line 15.
\<close>

theorem delivery_accounted:
  assumes "eoi_laws env" and "calls_neutral env" and "deliver env v s = Some (Inr (r, s'))"
  shows "accounted env v (acks_due env v s) s s'"
  by (rule delivery_accounted_step [OF assms])

lemma demo_laws: "eoi_laws demo_env" "calls_neutral demo_env"
  by (simp_all add: eoi_laws_def calls_neutral_def demo_env_def)

lemma demo_dispatch: "dispatch demo_env 0 (tick (boot_machine\<lparr>counters := cs\<rparr>)) = Inr (tick (boot_machine\<lparr>counters := cs\<rparr>))"
  by (simp add: dispatch_def boot_machine_def tick_def at_index_def)

lemma demo_timer: "\<exists>s'. deliver demo_env 0x20 boot_machine = Some (Inr (Returns, s'))"
proof -
  have "map_of idt 0x20 = Some (Timer_irq, None)" by (simp add: idt_def irq_vectors)
  moreover have "unat PIC_IRQ_TIMER = 32" by (simp add: irq_vectors)
  ultimately show ?thesis
    by (simp add: deliver_def irq_result_def timer_handler_def record_vector_ok [OF irq_wf_boot] demo_dispatch)
qed

theorem delivery_accounted_witness:
  "\<exists>s'. deliver demo_env 0x20 boot_machine = Some (Inr (Returns, s')) \<and>
     accounted demo_env 0x20 (1, 0) boot_machine s'"
  using demo_timer delivery_accounted [OF demo_laws, where v = "0x20" and s = boot_machine and r = Returns]
  by (auto simp: acks_due_def)

subsection \<open>Runs\<close>

text \<open>A run of deliveries that all return to the interrupted code.\<close>

inductive delivered :: "env \<Rightarrow> u8 list \<Rightarrow> machine \<Rightarrow> machine \<Rightarrow> bool" for env where
  none: "delivered env [] s s"
| next_vector: "deliver env v s = Some (Inr (Returns, s1)) \<Longrightarrow> delivered env vs s1 s' \<Longrightarrow> delivered env (v # vs) s s'"

inductive_simps delivered_simps: "delivered env [] s s'" "delivered env (v # vs) s s'"

lemma delivered_wf:
  assumes "delivered env vs s s'" and "eoi_laws env" and "calls_neutral env" and "irq_wf s"
  shows "irq_wf s'"
  using assms
proof (induction rule: delivered.induct)
  case (next_vector v s s1 vs s')
  from delivery_accounted_step [OF next_vector.prems(1,2) next_vector.hyps(1)] have "irq_wf s1"
    using next_vector.prems(3) by (simp add: accounted_def irq_wf_def)
  with next_vector show ?case by simp
qed


text \<open>
  C39. After any sequence of interrupts that return, each counter has grown by the number of times
  its vector was delivered (modulo \<open>2 ^ 64\<close>), and the tick count by the number of timer interrupts.
\<close>

theorem counters_count_deliveries:
  assumes "delivered env vs s s'" and "eoi_laws env" and "calls_neutral env" and "irq_wf s"
  shows "count v s' = Inr (counters s ! unat v + of_nat (count_list vs v)) \<and>
    uptime_ms s' = uptime_ms s + of_nat (count_list vs PIC_IRQ_TIMER)"
  using assms
proof (induction rule: delivered.induct)
  case (none s)
  then show ?case by (simp add: count_def irq_wf_def u8_index)
next
  case (next_vector w s s1 vs s')
  have acc: "accounted env w (acks_due env w s) s s1"
    by (rule delivery_accounted_step [OF next_vector.prems(1,2) next_vector.hyps(1)])
  then have "irq_wf s1" using next_vector.prems(3) by (simp add: accounted_def irq_wf_def)
  with next_vector have "count v s' = Inr (counters s1 ! unat v + of_nat (count_list vs v)) \<and>
    uptime_ms s' = uptime_ms s1 + of_nat (count_list vs PIC_IRQ_TIMER)" by simp
  moreover have "counters s1 ! unat v = counters s ! unat v + (if v = w then 1 else 0)"
    using acc next_vector.prems(3) by (auto simp: accounted_def irq_wf_def u8_index dest: unsigned_word_eqI)
  ultimately show ?case using acc by (auto simp: accounted_def uptime_ms_def)
qed

theorem counters_count_deliveries_witness:
  "\<exists>s'. delivered demo_env [0x20] boot_machine s' \<and> uptime_ms s' = 1"
proof -
  obtain s' where run: "deliver demo_env 0x20 boot_machine = Some (Inr (Returns, s'))"
    using demo_timer by blast
  then have d: "delivered demo_env [0x20] boot_machine s'" by (simp add: delivered_simps)
  from counters_count_deliveries [OF d demo_laws irq_wf_boot] d show ?thesis
    by (auto simp: PIC_IRQ_TIMER_def uptime_ms_def boot_machine_def)
qed

subsection \<open>Exceptions\<close>

lemma low_vector:
  fixes v :: u8
  assumes "v < 0x20"
  shows "v \<in> {0, 1, 2, 3, 4, 5, 6, 7, 8, 9, 10, 11, 12, 13, 14, 15, 16, 17, 18, 19, 20, 21, 22, 23, 24, 25, 26, 27, 28, 29, 30, 31}"
proof -
  have "v \<in> set (map of_nat [0..<32])"
    using assms by (auto simp: word_less_nat_alt intro!: image_eqI [of _ _ "unat v"])
  moreover have "map of_nat [0..<32] = [0, 1, 2, 3, 4, 5, 6, 7, 8, 9, 10, 11, 12, 13, 14, 15, 16, 17, 18, 19, 20, 21,
      22, 23, 24, 25, 26, 27, 28, 29, 30, 31 :: u8]"
    by (simp add: upt_rec)
  ultimately show ?thesis by (simp only: set_simps)
qed

text \<open>
  C40. Of the processor's exceptions, the debug, breakpoint and overflow traps return to the code
  that caused them and every other one that has an entry panics, after being counted; vectors 9, 15
  and 21 to 31 have no entry, and exactly the non-maskable interrupt, the double fault and the
  machine check run on a stack of their own.
\<close>

theorem exceptions_return_or_panic:
  assumes "irq_wf s" and "v < 0x20"
  shows "(if v \<in> {1, 3, 4} then \<exists>s'. deliver env v s = Some (Inr (Returns, s')) \<and> record_vector v s = Inr s'
     else if v \<in> {9, 15} \<or> 20 < v then deliver env v s = None
     else \<exists>s' msg. deliver env v s = Some (Inr (Panics msg, s')) \<and> record_vector v s = Inr s') \<and>
    ((\<exists>g n. map_of idt v = Some (g, Some n)) \<longleftrightarrow> v \<in> {2, 8, 18})"
proof -
  from low_vector [OF assms(2)] show ?thesis
    by (elim insertE emptyE)
      (simp_all add: deliver_def idt_def irq_vectors exception_vectors record_vector_ok [OF assms(1)] NMI_IST_INDEX_def)
qed

theorem exceptions_return_or_panic_witness:
  "\<exists>s' msg. deliver demo_env 14 boot_machine = Some (Inr (Panics msg, s'))"
  using exceptions_return_or_panic [OF irq_wf_boot, of 14 demo_env] by auto


subsection \<open>Lines without a handler\<close>

text \<open>
  After \<open>interrupts::init\<close> every line of the first controller is enabled and every line of
  the second is masked, whatever the masks were before; the enabled lines 2 to 6 have no entry in
  the descriptor table, and the lines 8, 12, 14 and 15 that have one cannot be raised.
\<close>

theorem init_enables_lines_without_handlers:
  assumes "imr_laws env"
  shows "fst (read_imr env (interrupts_init env s)) = 0xFF00 \<and>
    (\<forall>v \<in> {0x22, 0x23, 0x24, 0x25, 0x26}. deliver env v (interrupts_init env s) = None) \<and>
    (\<forall>v \<in> {PIC_IRQ_RTC, PIC_IRQ_MOUSE, PIC_IRQ_ATA_PRIMARY, PIC_IRQ_ATA_SECONDARY}.
       bit (fst (read_imr env (interrupts_init env s))) (unat (v - PIC_1_OFFSET)) \<and>
       deliver env v (interrupts_init env s) \<noteq> None)"
proof -
  have "imr env (interrupts_init env s) = 0xFF00"
    using assms by (simp add: imr_def interrupts_init_def pic_init_def imr_laws_def)
  then show ?thesis
    by (simp add: read_imr_eq [OF assms] irq_vectors PIC_1_OFFSET_def deliver_def idt_def)
qed

theorem init_enables_lines_without_handlers_witness:
  "fst (read_imr demo_env (interrupts_init demo_env boot_machine)) = 0xFF00"
  using init_enables_lines_without_handlers [OF demo_imr] by blast

text \<open>
  The interrupts of lines 1, 7 and 15 never run the function registered for their line: what
  a delivery does is the same whatever registered functions do, although \<open>register\<close> accepts these
  lines. Lines 0, 8, 12 and 14 do run theirs.
\<close>

theorem some_lines_never_dispatch:
  assumes "irq_wf s"
  shows "(\<forall>v \<in> {PIC_IRQ_KEYBOARD, PIC_IRQ_SPURIOUS_MASTER, PIC_IRQ_ATA_SECONDARY}.
      deliver (env\<lparr>call := f\<rparr>) v s = deliver env v s) \<and>
    (\<forall>irq \<in> {1, 7, 15}. handler_map s (unat irq) = None \<longrightarrow> h \<noteq> 0 \<longrightarrow>
      (\<exists>s'. register irq h s = Inr (Inr (), s') \<and> handler_map s' (unat irq) = Some h)) \<and>
    (\<forall>(v, irq) \<in> {(PIC_IRQ_TIMER, 0), (PIC_IRQ_RTC, 8), (PIC_IRQ_MOUSE, 12), (PIC_IRQ_ATA_PRIMARY, 14)}.
      handler_map s irq = Some h \<longrightarrow> (\<forall>s'. call env h s' = Inl e) \<longrightarrow> deliver env v s = Some (Inl e))"
proof -
  have len: "length (handler_ptrs s) = 16" using assms by (simp add: irq_wf_def)
  have "\<forall>v \<in> {PIC_IRQ_KEYBOARD, PIC_IRQ_SPURIOUS_MASTER, PIC_IRQ_ATA_SECONDARY}.
      deliver (env\<lparr>call := f\<rparr>) v s = deliver env v s"
    by (simp add: deliver_def idt_def irq_vectors keyboard_handler_def spurious_master_handler_def
        ata_secondary_handler_def eoi_if_not_spurious_master_def [abs_def] eoi_if_not_spurious_slave_def [abs_def]
        irq_in_service_def port_read_def end_of_interrupt_def cong: if_cong)
  moreover have "\<forall>irq \<in> {1, 7, 15}. handler_map s (unat irq) = None \<longrightarrow> h \<noteq> 0 \<longrightarrow>
      (\<exists>s'. register irq h s = Inr (Inr (), s') \<and> handler_map s' (unat irq) = Some h)"
    using len by (auto simp: register_def handler_map_def)
  moreover have "\<forall>(v, irq) \<in> {(PIC_IRQ_TIMER, 0), (PIC_IRQ_RTC, 8), (PIC_IRQ_MOUSE, 12), (PIC_IRQ_ATA_PRIMARY, 14)}.
      handler_map s irq = Some h \<longrightarrow> (\<forall>s'. call env h s' = Inl e) \<longrightarrow> deliver env v s = Some (Inl e)"
    using len assms record_vector_ok [OF assms]
    by (simp add: deliver_def idt_def irq_vectors timer_handler_def rtc_handler_def mouse_handler_def
        ata_primary_handler_def irq_result_def dispatch_def handler_map_def Let_def)
  ultimately show ?thesis by blast
qed

theorem some_lines_never_dispatch_witness:
  "deliver (demo_env\<lparr>call := \<lambda>h s. Inl Index_out_of_bounds\<rparr>) PIC_IRQ_KEYBOARD boot_machine =
     deliver demo_env PIC_IRQ_KEYBOARD boot_machine"
  using some_lines_never_dispatch [OF irq_wf_boot] by blast

subsection \<open>Sleeping\<close>

lemma sleep_never:
  assumes "sleep_loop arr end_ms i s = Some r"
  shows "(\<forall>j. arr j = 0) \<longrightarrow> \<not> unat (uptime_ms s) < end_ms"
proof (rule sleep_loop.raw_induct [where P = "\<lambda>arr e i s r. (\<forall>j. arr j = 0) \<longrightarrow> \<not> unat (uptime_ms s) < e", OF _ assms])
  fix loop :: "(nat \<Rightarrow> nat) \<Rightarrow> nat \<Rightarrow> nat \<Rightarrow> machine \<Rightarrow> (nat \<times> machine) option"
  fix arr e i s r
  assume "\<And>arr e i s r. loop arr e i s = Some r \<Longrightarrow> (\<forall>j. arr j = 0) \<longrightarrow> \<not> unat (uptime_ms s) < e"
    and "(if unat (uptime_ms s) < e then loop arr e (i + 1) ((tick ^^ arr i) s) else Some (i, s)) = Some r"
  then show "(\<forall>j. arr j = 0) \<longrightarrow> \<not> unat (uptime_ms s) < e" by (fastforce split: if_splits)
qed



text \<open>
  The reload value is 1193, so a tick is 1193 periods of the oscillator and \<open>ms\<close> ticks last
  less than \<open>ms\<close> milliseconds, which are \<open>ms * PIT_BASE_HZ div 1000\<close> periods: after any sleep of
  six ticks or more the promised time has not elapsed.
\<close>

theorem ticks_shorter_than_milliseconds:
  "unat PIT_DIVISOR * TIMER_HZ < PIT_BASE_HZ \<and>
   (\<forall>k. (k + 6) * unat PIT_DIVISOR < (k + 6) * PIT_BASE_HZ div 1000) \<and>
   (\<exists>log. io_log (timer_init s) = Out 0x40 0x04 # Out 0x40 0xA9 # Out 0x43 0x34 # log)"
proof -
  have "(k + 6) * 1193 < (k + 6) * 1193182 div 1000" for k :: nat
  proof -
    have "((k + 6) * 1193 + 1) * 1000 \<le> (k + 6) * 1193182" by simp
    then show ?thesis by (simp add: less_eq_div_iff_mult_less_eq Suc_le_eq [symmetric])
  qed
  then show ?thesis
    by (simp add: unat_PIT_DIVISOR PIT_BASE_HZ_def TIMER_HZ_def timer_init_def PIT_DIVISOR_eq)
qed

end
