(* ===== verification/Boot_Handover.thy ===== *)
theory Boot_Handover
  imports Boot_Sequence Boot_Theorems Boot_Stack Framebuffer_Theorems Interrupt_Theorems Slab_Theorems
begin

text \<open>
  The hand-over at the end of the boot, from the search for the boot stack's region to the halt
  loop: the allocator, the page tables, the boot loader's memory, the cell and the console together.
\<close>

subsection \<open>Printing\<close>

definition printed :: "fb_writer \<Rightarrow> mem \<Rightarrow> u8 list \<Rightarrow> text_screen \<Rightarrow> fb_writer \<Rightarrow> mem \<Rightarrow> bool" where
  "printed w m bs t w' m' \<longleftrightarrow>
     shows_text w' m' (text_string (fw_rows w) (fw_cols w) bs t) \<and> agree_off (screen w) m m' \<and>
     screen w' = screen w \<and> fw_rows w' = fw_rows w \<and> fw_cols w' = fw_cols w"

lemma printed_trans:
  assumes "printed w m bs t w' m'" and "printed w' m' cs (text_string (fw_rows w) (fw_cols w) bs t) w'' m''"
  shows "printed w m (bs @ cs) t w'' m''"
  using assms agree_off_trans by (auto simp: printed_def text_string_def)

lemma println_none: "kn_console k = None \<Longrightarrow> println msg k = Inr k"
  by (cases k) (simp add: println_def fb_print_def)

lemma println_some:
  assumes "kn_console k = Some w" and "shows_text w (mu_mem (kn_mmu k)) t"
  obtains w' m' where "println msg k = Inr (k\<lparr>kn_console := Some w', kn_mmu := (kn_mmu k)\<lparr>mu_mem := m'\<rparr>\<rparr>)"
    and "printed w (mu_mem (kn_mmu k)) (ascii msg @ [10]) t w' m'"
proof -
  from string_shows [OF assms(2), of "ascii msg @ [10]"] obtain w' m' where
    "fb_write_str (ascii msg @ [10]) (w, mu_mem (kn_mmu k)) = Inr (w', m')"
    "printed w (mu_mem (kn_mmu k)) (ascii msg @ [10]) t w' m'"
    by (auto simp: fb_step_ok_def printed_def)
  then show thesis using assms(1) that by (simp add: println_def fb_print_def)
qed

lemma shows_text_cong:
  assumes t: "shows_text w m t" and same: "\<And>x. x \<in> screen w \<Longrightarrow> m' x = m x"
  shows "shows_text w m' t"
proof -
  have g: "fb_geometry w" using t by (simp add: shows_text_def)
  have px: "pixel w m' x y = pixel w m x y" if "x < fw_width w" "y < fw_height w" for x y
    unfolding pixel_def
  proof (rule ld_cong)
    fix i :: nat
    assume "i < 4"
    then have "pixel_addr w x y + i \<in> screen w"
      using pixel_offset [OF g that] by (auto simp: pixel_addr_def screen_def)
    then show "m' (pixel_addr w x y + i) = m (pixel_addr w x y + i)" by (rule same)
  qed
  have "text_pixels w t (pixel w m')"
    using t px geometryD(5,6) [OF g] unfolding shows_text_def text_pixels_def by (metis less_le_trans)
  then show ?thesis using t by (simp add: shows_text_def)
qed

definition boot_lines :: "u8 list" where
  "boot_lines = (ascii ''my-kernel booting...'' @ [10]) @ (ascii ''heap: ok  vmm: ok'' @ [10]) @
     (ascii ''interrupts: enabled'' @ [10]) @ (ascii ''kernel ready.'' @ [10])"

lemma continue_ok:
  assumes take: "take_state (kn_cell k) = Inr (ps, c')"
    and rel: "release_boot_stack (ps_boot_stack_region ps) (mu_mem (kn_mmu k), mu_frames (kn_mmu k)) = Inr (m, b)"
    and con: "\<And>w. kn_console k = Some w \<Longrightarrow> shows_text w m t"
  shows "\<exists>cn m'. kernel_main_continue k =
      Inr (k\<lparr>kn_cell := c', kn_mmu := (kn_mmu k)\<lparr>mu_mem := m', mu_frames := b\<rparr>, kn_console := cn, kn_interrupts := True\<rparr>) \<and>
    (kn_console k = None \<longrightarrow> cn = None \<and> m' = m) \<and>
    (\<forall>w. kn_console k = Some w \<longrightarrow> (\<exists>w'. cn = Some w' \<and> printed w m boot_lines t w' m'))"
proof (cases "kn_console k")
  case None
  then show ?thesis using take rel
    by (simp add: kernel_main_continue_def println_none Let_def)
next
  case (Some w)
  define k0 where "k0 = k\<lparr>kn_cell := c', kn_mmu := (kn_mmu k)\<lparr>mu_mem := m, mu_frames := b\<rparr>\<rparr>"
  let ?p = "\<lambda>k w m. k\<lparr>kn_console := Some w, kn_mmu := (kn_mmu k)\<lparr>mu_mem := m\<rparr>\<rparr>"
  have 0: "kn_console k0 = Some w" "shows_text w (mu_mem (kn_mmu k0)) t" using Some con by (simp_all add: k0_def)
  obtain w1 m1 where 1: "println ''my-kernel booting...'' k0 = Inr (?p k0 w1 m1)"
    "printed w (mu_mem (kn_mmu k0)) (ascii ''my-kernel booting...'' @ [10]) t w1 m1"
    by (rule println_some [OF 0])
  define t1 where "t1 = text_string (fw_rows w) (fw_cols w) (ascii ''my-kernel booting...'' @ [10]) t"
  have s1: "kn_console (?p k0 w1 m1) = Some w1" "shows_text w1 (mu_mem (kn_mmu (?p k0 w1 m1))) t1"
    using 1(2) by (simp_all add: printed_def t1_def)
  obtain w2 m2 where 2: "println ''heap: ok  vmm: ok'' (?p k0 w1 m1) = Inr (?p (?p k0 w1 m1) w2 m2)"
    "printed w1 (mu_mem (kn_mmu (?p k0 w1 m1))) (ascii ''heap: ok  vmm: ok'' @ [10]) t1 w2 m2"
    by (rule println_some [OF s1])
  have p2: "printed w (mu_mem (kn_mmu k0)) ((ascii ''my-kernel booting...'' @ [10]) @ (ascii ''heap: ok  vmm: ok'' @ [10])) t w2 m2"
    by (rule printed_trans [OF 1(2)]) (use 2(2) in \<open>simp add: t1_def\<close>)
  define k2 where "k2 = (?p (?p k0 w1 m1) w2 m2)\<lparr>kn_interrupts := True\<rparr>"
  define t2 where "t2 = text_string (fw_rows w) (fw_cols w) ((ascii ''my-kernel booting...'' @ [10]) @ (ascii ''heap: ok  vmm: ok'' @ [10])) t"
  have s2: "kn_console k2 = Some w2" "shows_text w2 (mu_mem (kn_mmu k2)) t2"
    using p2 by (simp_all add: printed_def t2_def k2_def)
  obtain w3 m3 where 3: "println ''interrupts: enabled'' k2 = Inr (?p k2 w3 m3)"
    "printed w2 (mu_mem (kn_mmu k2)) (ascii ''interrupts: enabled'' @ [10]) t2 w3 m3"
    by (rule println_some [OF s2])
  have p3: "printed w (mu_mem (kn_mmu k0)) (((ascii ''my-kernel booting...'' @ [10]) @ (ascii ''heap: ok  vmm: ok'' @ [10])) @
      (ascii ''interrupts: enabled'' @ [10])) t w3 m3"
    by (rule printed_trans [OF p2]) (use 3(2) in \<open>simp add: t2_def k2_def\<close>)
  define t3 where "t3 = text_string (fw_rows w) (fw_cols w) (((ascii ''my-kernel booting...'' @ [10]) @
      (ascii ''heap: ok  vmm: ok'' @ [10])) @ (ascii ''interrupts: enabled'' @ [10])) t"
  have s3: "kn_console (?p k2 w3 m3) = Some w3" "shows_text w3 (mu_mem (kn_mmu (?p k2 w3 m3))) t3"
    using p3 by (simp_all add: printed_def t3_def)
  obtain w4 m4 where 4: "println ''kernel ready.'' (?p k2 w3 m3) = Inr (?p (?p k2 w3 m3) w4 m4)"
    "printed w3 (mu_mem (kn_mmu (?p k2 w3 m3))) (ascii ''kernel ready.'' @ [10]) t3 w4 m4"
    by (rule println_some [OF s3])
  have "printed w (mu_mem (kn_mmu k0)) ((((ascii ''my-kernel booting...'' @ [10]) @ (ascii ''heap: ok  vmm: ok'' @ [10])) @
      (ascii ''interrupts: enabled'' @ [10])) @ (ascii ''kernel ready.'' @ [10])) t w4 m4"
    by (rule printed_trans [OF p3]) (use 4(2) in \<open>simp add: t3_def\<close>)
  then have p4: "printed w m boot_lines t w4 m4" unfolding boot_lines_def k0_def append_assoc by simp
  have k2: "k0\<lparr>kn_console := Some w2, kn_mmu := (kn_mmu k0)\<lparr>mu_mem := m2\<rparr>, kn_interrupts := True\<rparr> = k2"
    by (simp add: k2_def)
  have "kernel_main_continue k = Inr (?p (?p k2 w3 m3) w4 m4)"
    using take rel 1(1) 2(1) 3(1) 4(1)
    by (simp add: kernel_main_continue_def k0_def [symmetric] k2 Let_def)
  with p4 Some show ?thesis by (intro exI [of _ "Some w4"] exI [of _ m4]) (simp add: k2_def k0_def)
qed


subsection \<open>The hand-over\<close>

lemma live_block_in: "live_block b R S a k \<Longrightarrow> block_range a k \<subseteq> page_bytes b R"
  unfolding live_block_def using block_range_pages page_bytes_mono by (metis Diff_subset subset_trans)

lemma translate_kept:
  assumes laws: "bitwise_laws w" and inv: "pt_inv w hh A (current_pml4 s) T B s"
    and same: "\<And>c x. B c = Some 0 \<Longrightarrow> x \<in> block_range c 0 \<Longrightarrow> m' x = mu_mem s x"
  shows "translate w hh u (s\<lparr>mu_mem := m', mu_frames := b'\<rparr>) = translate w hh u s"
proof -
  let ?s = "s\<lparr>mu_mem := m', mu_frames := b'\<rparr>"
  have e: "entry hh m' f i = entry hh (mu_mem s) f i" if f: "T l p = Some f" and i: "i < 512" for l p f i
    unfolding entry_def
  proof (rule ld_cong)
    fix j :: nat
    assume j: "j < 8"
    have "B (f + hh) = Some 0" using pt_invD(2) [OF inv] f by (auto simp: holds_tables_def)
    moreover have "f + hh + 8 * i + j \<in> block_range (f + hh) 0" using i j by (simp add: block_range_def PAGE_SIZE_def)
    ultimately show "m' (f + hh + 8 * i + j) = mu_mem s (f + hh + 8 * i + j)" by (rule same)
  qed
  have tree: "pt_tree w hh (current_pml4 s) T m'" and wk: "walk w hh m' u 4 (current_pml4 s) = walk w hh (mu_mem s) u 4 (current_pml4 s)"
    using pt_tree_cong [OF pt_invD(1) [OF inv], of m'] e by blast+
  have cr: "current_pml4 ?s = current_pml4 s" by (simp add: current_pml4_def)
  have "translate w hh u ?s = Inr (walk w hh (mu_mem ?s) u 4 (current_pml4 ?s))"
    by (rule translate_tree [OF laws]) (use tree cr in simp)
  then show ?thesis using translate_walk [OF laws inv, of u] wk cr by simp
qed

definition not_table :: "nat \<Rightarrow> table_map \<Rightarrow> nat \<Rightarrow> bool" where
  "not_table hh T c \<longleftrightarrow> (\<forall>l p. T l p \<noteq> Some (c - hh) \<or> c < hh)"

text \<open>
  The state before the hand-over: the walker exists, the cell is empty, the boot loader's tables \<open>T\<close>
  lie in blocks \<open>B\<close>, some of them (\<open>X\<close>) in memory that the allocator does not manage, and there is
  room for the stack and the new tables.
\<close>

definition boot_ready ::
  "bitwise \<Rightarrow> limine_data \<Rightarrow> 't kernel \<Rightarrow> nat \<Rightarrow> nat set \<Rightarrow> (nat \<rightharpoonup> nat) \<Rightarrow> table_map \<Rightarrow> (nat \<rightharpoonup> nat) \<Rightarrow> nat \<Rightarrow> bool" where
  "boot_ready w boot k q R X T B msize \<longleftrightarrow>
     (let hh = hhdm_offset boot; s = kn_mmu k; stats = bd_stats (mu_frames s);
          n = 1 + 2 * huge_pages_of msize + 3 * pages_of (kernel_virt_end boot - kernel_virt_start boot)
      in kn_vmm k = Some hh \<and> kn_cell k = empty_cell \<and>
         pt_inv w hh (at_pages q R, X) (current_pml4 s) T B s \<and> bd_base (mu_frames s) = hh + q * 4096 \<and>
         max_region_end (regions boot) = Inr msize \<and>
         layout_ok hh (kernel_virt_start boot) (kernel_virt_end boot) (kernel_phys_start boot) msize \<and>
         alloc_count stats + (1 + n) \<le> u64_max \<and> (16 + n) * PAGE_SIZE \<le> free_bytes stats)"

text \<open>
  The reclaimable regions: disjoint from each other and from the managed pages \<open>R\<close>, and the two
  readings of the stack pointer are in the same region.
\<close>

definition reclaim_ready :: "limine_data \<Rightarrow> nat \<Rightarrow> nat set \<Rightarrow> nat \<Rightarrow> nat \<Rightarrow> bool" where
  "reclaim_ready boot q R sp1 sp2 \<longleftrightarrow>
     (\<forall>r\<in>set (reclaimable_regions boot). reclaimable_ok q R r \<and>
        ((sp1 - hhdm_offset boot) div 4096 \<in> region_pages r \<longleftrightarrow> (sp2 - hhdm_offset boot) div 4096 \<in> region_pages r)) \<and>
     sorted_wrt (\<lambda>r s. region_pages r \<inter> region_pages s = {}) (reclaimable_regions boot) \<and>
     hhdm_offset boot \<le> sp1 \<and> sp1 \<le> u64_max \<and> hhdm_offset boot \<le> sp2 \<and> sp2 \<le> u64_max"

lemma reclaim_apart: "reclaim_ready boot q R sp1 sp2 \<Longrightarrow> reclaim_pages (reclaimable_regions boot) \<inter> R = {}"
  by (fastforce simp: reclaim_ready_def reclaimable_ok_def reclaim_pages_def)

lemma at_pages_back: "at_pages q ((+) q ` S) = S"
  by (auto simp: at_pages_def)

lemma map_le_some: "f \<subseteq>\<^sub>m g \<Longrightarrow> f c = Some l \<Longrightarrow> g c = Some l"
  by (metis domI map_le_def)

lemma stack_and_tables:
  assumes laws: "bitwise_laws w" and rdy: "boot_ready w boot k q R X T B msize"
    and hh: "hh = hhdm_offset boot" and vs: "vs = kernel_virt_start boot" and ve: "ve = kernel_virt_end boot"
    and ps: "ps = kernel_phys_start boot"
  shows "alloc_kernel_stack w (kn_vmm k) 8 (kn_mmu k) = Inl (Expect ''kernel stack OOM'') \<and>
      (\<exists>m b. alloc_pages 4 (mu_mem (kn_mmu k), mu_frames (kn_mmu k)) = Inr (None, m, b)) \<or>
    (\<exists>ks s1 s2 T2 B2. alloc_kernel_stack w (kn_vmm k) 8 (kn_mmu k) = Inr (ks, s1) \<and>
      install_kernel_pml4 w hh vs ve ps msize s1 = Inr s2 \<and>
      stack_top ks = stack_guard ks + 16 * 4096 \<and> B (stack_guard ks) = None \<and> B2 (stack_guard ks) = Some 4 \<and>
      pt_inv w hh (at_pages q R, Map.empty) (current_pml4 s2) T2 B2 s2 \<and>
      bd_base (mu_frames s2) = bd_base (mu_frames (kn_mmu k)) \<and>
      (\<forall>c l. (B |` (- dom X)) c = Some l \<longrightarrow> B2 c = Some l) \<and> others_kept hh T B (kn_mmu k) s2 \<and>
      (\<forall>u. translate w hh u s2 = Inr (case page_run vs ps (pages_of (ve - vs)) u of
         Some p \<Rightarrow> Some p | None \<Rightarrow> huge_run hh (huge_pages_of msize) u)))"
proof -
  let ?s = "kn_mmu k" and ?A = "(at_pages q R, X)"
  note r = rdy [unfolded boot_ready_def Let_def, folded hh vs ve ps]
  have vmm: "kn_vmm k = Some hh" and inv: "pt_inv w hh ?A (current_pml4 ?s) T B ?s"
    and lay: "layout_ok hh vs ve ps msize" using r by blast+
  have can: "can_alloc (mu_frames ?s)" using r unfolding can_alloc_def by linarith
  have n: "(8::nat) < 2 ^ 16" by simp
  obtain j where j: "8 + 1 \<le> (2::nat) ^ j" "(2::nat) ^ j < 2 * (8 + 1)" and
    st: "alloc_kernel_stack w (Some hh) 8 ?s = Inl (Expect ''kernel stack OOM'') \<and>
       (\<exists>m b. alloc_pages j (mu_mem ?s, mu_frames ?s) = Inr (None, m, b)) \<or>
     (\<exists>ks s1. alloc_kernel_stack w (Some hh) 8 ?s = Inr (ks, s1) \<and>
       stack_top ks = stack_guard ks + 2 ^ j * 0x1000 \<and> B (stack_guard ks) = None \<and>
       pt_inv w hh ?A (current_pml4 s1) T (B(stack_guard ks \<mapsto> j)) s1 \<and>
       alloc_count (bd_stats (mu_frames s1)) \<le> alloc_count (bd_stats (mu_frames ?s)) + 1 \<and>
       free_bytes (bd_stats (mu_frames ?s)) \<le> free_bytes (bd_stats (mu_frames s1)) + 2 ^ j * PAGE_SIZE \<and>
       bd_base (mu_frames s1) = bd_base (mu_frames ?s) \<and> others_kept hh T B ?s s1)"
    using kernel_stack_ok [OF laws inv can n] by blast
  have lo: "(2::nat) ^ 3 < 2 ^ j" and up: "(2::nat) ^ j < 2 ^ 5" using j by simp_all
  have "3 < j" by (rule power_less_imp_less_exp [OF _ lo]) simp
  moreover have "j < 5" by (rule power_less_imp_less_exp [OF _ up]) simp
  ultimately have j4: "j = 4" by simp
  from st [unfolded j4] show ?thesis
  proof (elim disjE exE conjE)
    fix m b
    assume "alloc_kernel_stack w (Some hh) 8 ?s = Inl (Expect ''kernel stack OOM'')"
      "alloc_pages 4 (mu_mem ?s, mu_frames ?s) = Inr (None, m, b)"
    then show ?thesis unfolding vmm by blast
  next
    fix ks :: kernel_stack and s1
    let ?a = "stack_guard ks" and ?n = "1 + 2 * huge_pages_of msize + 3 * pages_of (ve - vs)"
    assume st: "alloc_kernel_stack w (Some hh) 8 ?s = Inr (ks, s1)" "stack_top ks = ?a + 2 ^ 4 * 0x1000"
      and new: "B ?a = None" and i1: "pt_inv w hh ?A (current_pml4 s1) T (B(?a \<mapsto> 4)) s1"
      and c1: "alloc_count (bd_stats (mu_frames s1)) \<le> alloc_count (bd_stats (mu_frames ?s)) + 1"
        "free_bytes (bd_stats (mu_frames ?s)) \<le> free_bytes (bd_stats (mu_frames s1)) + 2 ^ 4 * PAGE_SIZE"
      and base: "bd_base (mu_frames s1) = bd_base (mu_frames ?s)" and k1: "others_kept hh T B ?s s1"
    let ?B1 = "B(?a \<mapsto> 4)" and ?B1' = "(B(?a \<mapsto> 4)) |` (- dom X)"
    note own = pt_invD(3) [OF i1] and win = pt_invD(4) [OF i1]
    have cnt: "alloc_count (bd_stats (mu_frames s1)) + ?n \<le> u64_max" using r c1(1) by linarith
    have room: "?n * PAGE_SIZE \<le> free_bytes (bd_stats (mu_frames s1))"
    proof -
      have "(16 + ?n) * PAGE_SIZE = 2 ^ 4 * PAGE_SIZE + ?n * PAGE_SIZE" by (simp add: distrib_right)
      moreover have "(16 + ?n) * PAGE_SIZE \<le> free_bytes (bd_stats (mu_frames ?s))" using r by blast
      ultimately show ?thesis using c1(2) by linarith
    qed
    have own': "frames_owned (at_pages q R, Map.empty) (mu_mem s1) (mu_frames s1) ?B1'"
      using frames_owned_client [OF own] client_frames_owned by blast
    obtain s2 where run: "install_kernel_pml4 w hh vs ve ps msize s1 = Inr s2" and kept: "kept_blocks ?B1 s1 s2"
      using install_translates [OF laws own win lay cnt room] by blast
    from install_translates [OF laws own' win lay cnt room] run
    obtain T2 B2 where i2: "pt_inv w hh (at_pages q R, Map.empty) (current_pml4 s2) T2 B2 s2"
      and sub: "?B1' \<subseteq>\<^sub>m B2" and b2: "bd_base (mu_frames s2) = bd_base (mu_frames s1)"
      and tr: "\<forall>u. translate w hh u s2 = Inr (case page_run vs ps (pages_of (ve - vs)) u of
         Some p \<Rightarrow> Some p | None \<Rightarrow> huge_run hh (huge_pages_of msize) u)" by auto
    have "?a \<notin> dom X" using foreign_block [OF pt_invD(3) [OF inv]] new by force
    then have "?B1' ?a = Some 4" by simp
    then have a2: "B2 ?a = Some 4" by (rule map_le_some [OF sub])
    have held: "B2 c = Some l" if "(B |` (- dom X)) c = Some l" for c l
    proof -
      have "?B1' c = Some l" using that new by (auto simp: restrict_map_def split: if_splits)
      then show ?thesis by (rule map_le_some [OF sub])
    qed
    have "others_kept hh T B ?s s2"
      unfolding others_kept_def
    proof (intro allI impI)
      fix c l x
      assume c: "B c = Some l" "x \<in> block_range c l" "\<forall>l p. T l p \<noteq> Some (c - hh) \<or> c < hh"
      have "?B1 c = Some l" using c(1) new by auto
      then have "mu_mem s2 x = mu_mem s1 x" using kept c(2) by (auto simp: kept_blocks_def)
      also have "\<dots> = mu_mem ?s x" using k1 c unfolding others_kept_def by blast
      finally show "mu_mem s2 x = mu_mem ?s x" .
    qed
    moreover have "stack_top ks = ?a + 16 * 4096" using st(2) by simp
    ultimately show ?thesis
      unfolding vmm using st(1) run new a2 i2 b2 base held tr
      by (intro disjI2 exI [of _ ks] exI [of _ s1] exI [of _ s2] exI [of _ T2] exI [of _ B2]) simp
  qed
qed

lemma release_ready:
  assumes laws: "bitwise_laws w" and rec: "reclaim_ready boot q R sp1 sp2"
    and base: "bd_base b = hhdm_offset boot + q * 4096" and mg: "manages m b (at_pages q R) (at_pages q S)"
    and Q: "Q = reclaim_pages (reclaimable_regions boot)"
  shows "\<exists>region P m1 b1. boot_stack_region w boot sp1 = Inr region \<and> release w boot sp2 (m, b) = Inr (m1, b1) \<and>
    P \<subseteq> Q \<and> bd_base b1 = bd_base b \<and> manages m1 b1 (at_pages q (R \<union> P)) (at_pages q (S \<union> P)) \<and>
    agree_off (page_bytes b (at_pages q (S \<union> Q))) m m1 \<and>
    (\<forall>m'. manages m' b1 (at_pages q (R \<union> P)) (at_pages q (S \<union> P)) \<longrightarrow>
       (\<exists>m2 b2. release_boot_stack region (m', b1) = Inr (m2, b2) \<and> bd_base b2 = bd_base b \<and>
          manages m2 b2 (at_pages q (R \<union> Q)) (at_pages q (S \<union> Q)) \<and>
          agree_off (page_bytes b (at_pages q (S \<union> Q))) m' m2))"
proof -
  have "wf_base b" using manages_bounds [OF mg] by simp
  then have top: "hhdm_offset boot + (q + MAX_PAGES) * 4096 \<le> u64_max"
    using base by (simp add: wf_base_def PAGE_SIZE_def distrib_right)
  note rc = rec [unfolded reclaim_ready_def]
  have ok: "reclaimable_ok q R r" if "r \<in> set (reclaimable_regions boot)" for r using rc that by blast
  have same: "(sp1 - hhdm_offset boot) div 4096 \<in> region_pages r \<longleftrightarrow> (sp2 - hhdm_offset boot) div 4096 \<in> region_pages r"
    if "r \<in> set (reclaimable_regions boot)" for r using rc that by blast
  have ap: "sorted_wrt (\<lambda>r s. region_pages r \<inter> region_pages s = {}) (reclaimable_regions boot)"
    and sp: "hhdm_offset boot \<le> sp1" "sp1 \<le> u64_max" "hhdm_offset boot \<le> sp2" "sp2 \<le> u64_max"
    using rc by blast+
  from release_ok [OF laws base mg top ok ap sp refl refl same Q] show ?thesis by blast
qed

text \<open>
  \<open>Z\<close> is what the allocator may write to once the boot loader's memory is its own: the free pages.
  The blocks of \<open>B2\<close>, which hold the stack and the new tables, are outside it.
\<close>

lemma handover_ok:
  assumes laws: "bitwise_laws (pl_bits p)" and rdy: "boot_ready (pl_bits p) boot k q R X T B msize"
    and rec: "reclaim_ready boot q R (kn_rsp k) (pl_release_sp p)" and Q: "Q = reclaim_pages (reclaimable_regions boot)"
  shows "handover p boot k = Inl (Expect ''kernel stack OOM'') \<and>
      (\<exists>m b. alloc_pages 4 (mu_mem (kn_mmu k), mu_frames (kn_mmu k)) = Inr (None, m, b)) \<or>
    (\<exists>a s2 m1 b1 m3 b3 S T2 B2 Z ps. handover p boot k = Inr (k\<lparr>kn_mmu := s2\<lparr>mu_mem := m1, mu_frames := b1\<rparr>,
        kn_cell := \<lparr>stored = True, taken = False, cell = Some ps\<rparr>, kn_rsp := a + 16 * 4096 - 8\<rparr>) \<and>
      release_boot_stack (ps_boot_stack_region ps) (m1, b1) = Inr (m3, b3) \<and>
      S \<subseteq> R \<and> manages m3 b3 (at_pages q (R \<union> Q)) (at_pages q (S \<union> Q)) \<and>
      bd_base b3 = bd_base (mu_frames (kn_mmu k)) \<and> Z = page_bytes b3 (at_pages q (S \<union> Q)) \<and>
      pt_inv (pl_bits p) (hhdm_offset boot) (at_pages q R, Map.empty) (current_pml4 s2) T2 B2 s2 \<and>
      B a = None \<and> B2 a = Some 4 \<and> (\<forall>c l. (B |` (- dom X)) c = Some l \<longrightarrow> B2 c = Some l) \<and>
      (\<forall>c l. B2 c = Some l \<longrightarrow> block_range c l \<inter> Z = {} \<and> block_range c l \<subseteq> page_bytes b3 (at_pages q R)) \<and>
      agree_off (Z \<union> block_range a 4) (mu_mem s2) m3 \<and> others_kept (hhdm_offset boot) T B (kn_mmu k) s2 \<and>
      (\<forall>u. translate (pl_bits p) (hhdm_offset boot) u s2 =
         Inr (case page_run (kernel_virt_start boot) (kernel_phys_start boot)
                (pages_of (kernel_virt_end boot - kernel_virt_start boot)) u of
            Some x \<Rightarrow> Some x | None \<Rightarrow> huge_run (hhdm_offset boot) (huge_pages_of msize) u)))"
proof -
  let ?w = "pl_bits p" and ?hh = "hhdm_offset boot" and ?s = "kn_mmu k"
  note r = rdy [unfolded boot_ready_def Let_def]
  note rc = rec [unfolded reclaim_ready_def]
  have msz: "max_region_end (regions boot) = Inr msize" using r by blast
  from stack_and_tables [OF laws rdy refl refl refl refl] show ?thesis
  proof (elim disjE exE conjE)
    fix m b
    assume oom: "alloc_kernel_stack ?w (kn_vmm k) 8 ?s = Inl (Expect ''kernel stack OOM'')"
      "alloc_pages 4 (mu_mem ?s, mu_frames ?s) = Inr (None, m, b)"
    have inv: "pt_inv ?w ?hh (at_pages q R, X) (current_pml4 ?s) T B ?s" and base: "bd_base (mu_frames ?s) = ?hh + q * 4096"
      using r by blast+
    obtain F where "manages (mu_mem ?s) (mu_frames ?s) (at_pages q R) F"
      by (rule frames_free_pages [OF pt_invD(3) [OF inv]]) blast
    then have mg: "manages (mu_mem ?s) (mu_frames ?s) (at_pages q R) (at_pages q ((+) q ` F))" unfolding at_pages_back .
    obtain region where "boot_stack_region ?w boot (kn_rsp k) = Inr region"
      using release_ready [OF laws rec base mg Q] by blast
    then show ?thesis using oom by (simp add: handover_def Let_def)
  next
    fix ks :: kernel_stack and s1 s2 T2 B2
    let ?a = "stack_guard ks"
    assume st: "alloc_kernel_stack ?w (kn_vmm k) 8 ?s = Inr (ks, s1)" and top: "stack_top ks = ?a + 16 * 4096"
      and inst: "install_kernel_pml4 ?w ?hh (kernel_virt_start boot) (kernel_virt_end boot) (kernel_phys_start boot) msize s1 = Inr s2"
      and new: "B ?a = None" and a2: "B2 ?a = Some 4"
      and i2: "pt_inv ?w ?hh (at_pages q R, Map.empty) (current_pml4 s2) T2 B2 s2"
      and base: "bd_base (mu_frames s2) = bd_base (mu_frames ?s)"
      and held: "\<forall>c l. (B |` (- dom X)) c = Some l \<longrightarrow> B2 c = Some l" and kept: "others_kept ?hh T B ?s s2"
      and tr: "\<forall>u. translate ?w ?hh u s2 = Inr (case page_run (kernel_virt_start boot) (kernel_phys_start boot)
                (pages_of (kernel_virt_end boot - kernel_virt_start boot)) u of
            Some x \<Rightarrow> Some x | None \<Rightarrow> huge_run ?hh (huge_pages_of msize) u)"
    have bq: "bd_base (mu_frames s2) = ?hh + q * 4096" using base r by simp
    obtain F where "manages_merged (mu_mem s2) (mu_frames s2) (at_pages q R) F" and mg: "manages (mu_mem s2) (mu_frames s2) (at_pages q R) F"
      and blks: "\<forall>a k. B2 a = Some k \<longrightarrow> live_block (mu_frames s2) (at_pages q R) F a k"
      by (rule frames_free_pages [OF pt_invD(3) [OF i2]]) (simp add: restrict_map_def)
    define S where "S = (+) q ` F"
    have F: "F = at_pages q S" unfolding S_def at_pages_back ..
    have FR: "F \<subseteq> at_pages q R" using manages_bounds [OF mg] by simp
    have SR: "S \<subseteq> R" using FR by (auto simp: S_def at_pages_def)
    obtain region P m1 b1 where reg: "boot_stack_region ?w boot (kn_rsp k) = Inr region"
      and rl: "release ?w boot (pl_release_sp p) (mu_mem s2, mu_frames s2) = Inr (m1, b1)"
      and PQ: "P \<subseteq> Q" and b1: "bd_base b1 = bd_base (mu_frames s2)"
      and mg1: "manages m1 b1 (at_pages q (R \<union> P)) (at_pages q (S \<union> P))"
      and ag1: "agree_off (page_bytes (mu_frames s2) (at_pages q (S \<union> Q))) (mu_mem s2) m1"
      and later: "\<forall>m'. manages m' b1 (at_pages q (R \<union> P)) (at_pages q (S \<union> P)) \<longrightarrow>
       (\<exists>m2 b2. release_boot_stack region (m', b1) = Inr (m2, b2) \<and> bd_base b2 = bd_base (mu_frames s2) \<and>
          manages m2 b2 (at_pages q (R \<union> Q)) (at_pages q (S \<union> Q)) \<and>
          agree_off (page_bytes (mu_frames s2) (at_pages q (S \<union> Q))) m' m2)"
      using release_ready [OF laws rec bq mg [unfolded F] Q] by blast
    let ?Z = "page_bytes (mu_frames s2) (at_pages q (S \<union> Q))"
    have dRQ: "Q \<inter> R = {}" using reclaim_apart [OF rec] Q by simp
    have blk: "block_range c l \<inter> ?Z = {}" "block_range c l \<subseteq> page_bytes (mu_frames s2) (at_pages q R)"
      if c: "B2 c = Some l" for c l
    proof -
      have lb: "live_block (mu_frames s2) (at_pages q R) F c l" using blks c by simp
      then show "block_range c l \<subseteq> page_bytes (mu_frames s2) (at_pages q R)" by (rule live_block_in)
      have "at_pages q (S \<union> Q) \<inter> (at_pages q R - F) = {}" using dRQ unfolding F by (auto simp: at_pages_def)
      with lb show "block_range c l \<inter> ?Z = {}" by (rule live_blocks_apart)
    qed
    let ?m1 = "st64 (?a + 16 * 4096 - 8) (pl_return p) m1"
    have agm: "agree_off (block_range ?a 4) m1 ?m1"
      by (rule agree_off_st) (auto simp: block_range_def PAGE_SIZE_def)
    have pb: "page_bytes b1 = page_bytes (mu_frames s2)" using b1 by (rule page_bytes_base)
    have "at_pages q (S \<union> P) \<subseteq> at_pages q (S \<union> Q)" using PQ by (auto simp: at_pages_def)
    then have "block_range ?a 4 \<inter> page_bytes b1 (at_pages q (S \<union> P)) = {}"
      using blk(1) [OF a2] page_bytes_mono unfolding pb by blast
    then have "manages ?m1 b1 (at_pages q (R \<union> P)) (at_pages q (S \<union> P))" by (rule manages_frame [OF mg1 agm])
    with later obtain m3 b3 where rb: "release_boot_stack region (?m1, b1) = Inr (m3, b3)"
      and b3: "bd_base b3 = bd_base (mu_frames s2)" and mg3: "manages m3 b3 (at_pages q (R \<union> Q)) (at_pages q (S \<union> Q))"
      and ag3: "agree_off ?Z ?m1 m3" by blast
    have pb3: "page_bytes b3 = page_bytes (mu_frames s2)" using b3 by (rule page_bytes_base)
    have ag: "agree_off (?Z \<union> block_range ?a 4) (mu_mem s2) m3"
      using ag1 agm ag3 by (auto simp: agree_off_def)
    let ?ps = "\<lparr>ps_rsdp_phys = rsdp_phys boot, ps_boot_stack_region = region\<rparr>"
    have "handover p boot k = Inr (k\<lparr>kn_mmu := s2\<lparr>mu_mem := ?m1, mu_frames := b1\<rparr>,
        kn_cell := \<lparr>stored = True, taken = False, cell = Some ?ps\<rparr>, kn_rsp := ?a + 16 * 4096 - 8\<rparr>)"
    proof -
      have "kn_cell k = empty_cell" using r by blast
      then have "store ?ps (kn_cell k) = Inr \<lparr>stored = True, taken = False, cell = Some ?ps\<rparr>"
        by (simp add: store_def empty_cell_def)
      then show ?thesis using reg st msz inst rl top by (simp add: handover_def Let_def switch_stack_def)
    qed
    then show ?thesis
      using rb SR mg3 b3 base pb3 i2 new a2 held blk ag kept tr
      by (intro disjI2 exI [of _ ?a] exI [of _ s2] exI [of _ ?m1] exI [of _ b1] exI [of _ m3] exI [of _ b3] exI [of _ S]
          exI [of _ T2] exI [of _ B2] exI [of _ ?Z] exI [of _ ?ps]) simp
  qed
qed

text \<open>The frame buffer: foreign memory that holds no table and is not reclaimed.\<close>

definition screen_apart :: "nat \<Rightarrow> table_map \<Rightarrow> (nat \<rightharpoonup> nat) \<Rightarrow> nat set \<Rightarrow> fb_writer \<Rightarrow> bool" where
  "screen_apart hh T X reclaimed w \<longleftrightarrow> screen w \<inter> reclaimed = {} \<and>
     (\<forall>x\<in>screen w. \<exists>c l. X c = Some l \<and> x \<in> block_range c l \<and> not_table hh T c)"

lemma screen_not_managed:
  assumes own: "frames_owned (R, X) m b B" and sc: "screen_apart hh T X Z w" and b': "bd_base b' = bd_base b"
  shows "screen w \<inter> page_bytes b' R = {}"
proof -
  have "page_bytes b' R = page_bytes b R" using page_bytes_base [OF b'] by simp
  moreover have "x \<notin> page_bytes b R" if "x \<in> screen w" for x
  proof -
    obtain c l where "X c = Some l" "x \<in> block_range c l" using sc \<open>x \<in> screen w\<close> unfolding screen_apart_def by blast
    moreover have "block_range c l \<inter> page_bytes b R = {}" using own \<open>X c = Some l\<close> by (simp add: frames_owned_def)
    ultimately show ?thesis by blast
  qed
  ultimately show ?thesis by blast
qed

lemma others_keptD:
  "others_kept hh T B s s' \<Longrightarrow> B c = Some l \<Longrightarrow> x \<in> block_range c l \<Longrightarrow> not_table hh T c \<Longrightarrow> mu_mem s' x = mu_mem s x"
  unfolding others_kept_def not_table_def by blast

lemma screen_survives:
  assumes own: "frames_owned (R, X) (mu_mem s) b B" and sc: "screen_apart hh T X Z w" and t: "shows_text w (mu_mem s) t"
    and kept: "others_kept hh T B s s'" and ag: "agree_off Y (mu_mem s') m'" and dis: "screen w \<inter> Y = {}"
  shows "shows_text w m' t"
proof (rule shows_text_cong [OF t])
  fix x
  assume x: "x \<in> screen w"
  obtain c l where "X c = Some l" "x \<in> block_range c l" "not_table hh T c"
    using sc x unfolding screen_apart_def by blast
  then have "mu_mem s' x = mu_mem s x" using others_keptD [OF kept] foreign_block [OF own] by blast
  moreover have "m' x = mu_mem s' x" using ag dis x by (auto simp: agree_off_def)
  ultimately show "m' x = mu_mem s x" by simp
qed

lemma handover_reaches:
  assumes laws: "bitwise_laws (pl_bits p)" and rdy: "boot_ready (pl_bits p) boot k q R X T B msize"
    and rec: "reclaim_ready boot q R (kn_rsp k) (pl_release_sp p)" and Q: "Q = reclaim_pages (reclaimable_regions boot)"
    and con: "\<And>w. kn_console k = Some w \<Longrightarrow> shows_text w (mu_mem (kn_mmu k)) t \<and>
      screen_apart (hhdm_offset boot) T X (page_bytes (mu_frames (kn_mmu k)) (at_pages q Q)) w"
  shows "handover p boot k = Inl (Expect ''kernel stack OOM'') \<and>
      (\<exists>m b. alloc_pages 4 (mu_mem (kn_mmu k), mu_frames (kn_mmu k)) = Inr (None, m, b)) \<or>
    (\<exists>k1 k2 a S. handover p boot k = Inr k1 \<and> kernel_main_continue k1 = Inr k2 \<and>
      kn_interrupts k2 \<and> taken (kn_cell k2) \<and> kn_rsp k2 = a + 16 * 4096 - 8 \<and> B a = None \<and> S \<subseteq> R \<and>
      manages (mu_mem (kn_mmu k2)) (mu_frames (kn_mmu k2)) (at_pages q (R \<union> Q)) (at_pages q (S \<union> Q)) \<and>
      block_range a 4 \<inter> page_bytes (mu_frames (kn_mmu k2)) (at_pages q (S \<union> Q)) = {} \<and>
      (\<forall>u. translate (pl_bits p) (hhdm_offset boot) u (kn_mmu k2) =
         Inr (case page_run (kernel_virt_start boot) (kernel_phys_start boot)
                (pages_of (kernel_virt_end boot - kernel_virt_start boot)) u of
            Some x \<Rightarrow> Some x | None \<Rightarrow> huge_run (hhdm_offset boot) (huge_pages_of msize) u)) \<and>
      (\<forall>c l x. (B |` (- dom X)) c = Some l \<longrightarrow> not_table (hhdm_offset boot) T c \<longrightarrow> x \<in> block_range c l \<longrightarrow>
         mu_mem (kn_mmu k2) x = mu_mem (kn_mmu k) x) \<and>
      (kn_console k = None \<longrightarrow> kn_console k2 = None) \<and>
      (\<forall>w. kn_console k = Some w \<longrightarrow> (\<exists>w'. kn_console k2 = Some w' \<and>
         shows_text w' (mu_mem (kn_mmu k2)) (text_string (fw_rows w) (fw_cols w) boot_lines t))))"
  using handover_ok [OF laws rdy rec Q]
proof (elim disjE exE conjE, goal_cases)
  case 1
  then show ?case by blast
next
  case (2 a s2 m1 b1 m3 b3 S T2 B2 Z ps)
  let ?hh = "hhdm_offset boot" and ?s = "kn_mmu k"
  note run = 2(1) and rel = 2(2) and SR = 2(3) and mg = 2(4) and base = 2(5) and Z = 2(6) and i2 = 2(7)
    and new = 2(8) and a2 = 2(9) and held = 2(10) and blk = 2(11) and ag = 2(12) and kept = 2(13) and tr = 2(14)
  have own: "frames_owned (at_pages q R, X) (mu_mem ?s) (mu_frames ?s) B"
    using rdy by (auto simp: boot_ready_def Let_def pt_inv_def)
  let ?k1 = "k\<lparr>kn_mmu := s2\<lparr>mu_mem := m1, mu_frames := b1\<rparr>,
        kn_cell := \<lparr>stored = True, taken = False, cell = Some ps\<rparr>, kn_rsp := a + 16 * 4096 - 8\<rparr>"
  have pq: "page_bytes b3 = page_bytes (mu_frames ?s)" using base by (rule page_bytes_base)
  have sR: "screen w \<inter> page_bytes b3 (at_pages q R) = {}" if "kn_console k = Some w" for w
    by (rule screen_not_managed [OF own _ base]) (use con [OF that] in blast)
  have sQ: "screen w \<inter> page_bytes b3 (at_pages q (R \<union> Q)) = {}" if w: "kn_console k = Some w" for w
    using sR [OF w] con [OF w] unfolding pq by (simp add: page_bytes_Un screen_apart_def Int_Un_distrib)
  have mono: "page_bytes b3 (at_pages q (S \<union> Q)) \<subseteq> page_bytes b3 (at_pages q (R \<union> Q))"
    by (rule page_bytes_mono) (use SR in \<open>auto simp: at_pages_def\<close>)
  have m3: "shows_text w m3 t" if w: "kn_console k = Some w" for w
    by (rule screen_survives [OF own _ _ kept ag]) (use con [OF w] sQ [OF w] sR [OF w] mono Z blk a2 in blast)+
  have "take_state (kn_cell ?k1) = Inr (ps, \<lparr>stored = True, taken = True, cell = None\<rparr>)"
    by (simp add: take_state_def)
  moreover have "release_boot_stack (ps_boot_stack_region ps) (mu_mem (kn_mmu ?k1), mu_frames (kn_mmu ?k1)) = Inr (m3, b3)"
    using rel by simp
  moreover have "shows_text w m3 t" if "kn_console ?k1 = Some w" for w using m3 that by simp
  ultimately obtain cn m4 where fin: "kernel_main_continue ?k1 =
      Inr (?k1\<lparr>kn_cell := \<lparr>stored = True, taken = True, cell = None\<rparr>,
        kn_mmu := (kn_mmu ?k1)\<lparr>mu_mem := m4, mu_frames := b3\<rparr>, kn_console := cn, kn_interrupts := True\<rparr>)"
    and none: "kn_console k = None \<longrightarrow> cn = None \<and> m4 = m3"
    and some: "\<forall>w. kn_console k = Some w \<longrightarrow> (\<exists>w'. cn = Some w' \<and> printed w m3 boot_lines t w' m4)"
    using continue_ok [of ?k1 ps _ m3 b3 t] by auto
  define Y where "Y = (case kn_console k of None \<Rightarrow> {} | Some w \<Rightarrow> screen w)"
  have ag4: "agree_off Y m3 m4" using none some by (cases "kn_console k") (auto simp: Y_def printed_def)
  have Y: "Y \<inter> page_bytes b3 (at_pages q (R \<union> Q)) = {}" "Y \<inter> page_bytes b3 (at_pages q R) = {}"
    using sQ sR by (cases "kn_console k"; simp add: Y_def)+
  have mg4: "manages m4 b3 (at_pages q (R \<union> Q)) (at_pages q (S \<union> Q))"
    by (rule manages_frame [OF mg ag4]) (use Y(1) mono in blast)
  have same: "m4 x = mu_mem s2 x" if c: "B2 c = Some l" "c \<noteq> a" "x \<in> block_range c l" for c l x
  proof -
    have "block_range c l \<inter> block_range a 4 = {}" by (rule fo.owned_apart [OF pt_invD(3) [OF i2] c(1) a2 c(2)])
    then have "x \<notin> Z \<union> block_range a 4" "x \<notin> Y" using blk c Y(2) by blast+
    then show ?thesis using ag ag4 by (simp add: agree_off_def)
  qed
  have hold: "m4 x = mu_mem ?s x" if c: "(B |` (- dom X)) c = Some l" "not_table ?hh T c" "x \<in> block_range c l" for c l x
  proof -
    have Bc: "B c = Some l" using c(1) by (simp add: restrict_map_def split: if_splits)
    then have "c \<noteq> a" using new by auto
    then have "m4 x = mu_mem s2 x" using same held c(1,3) by blast
    also have "\<dots> = mu_mem ?s x" using others_keptD [OF kept Bc c(3,2)] .
    finally show ?thesis .
  qed
  have tr4: "translate (pl_bits p) ?hh u (s2\<lparr>mu_mem := m4, mu_frames := b3\<rparr>) = translate (pl_bits p) ?hh u s2" for u
    by (rule translate_kept [OF laws i2]) (use same a2 in fastforce)
  let ?k2 = "?k1\<lparr>kn_cell := \<lparr>stored = True, taken = True, cell = None\<rparr>,
        kn_mmu := (kn_mmu ?k1)\<lparr>mu_mem := m4, mu_frames := b3\<rparr>, kn_console := cn, kn_interrupts := True\<rparr>"
  have stk: "block_range a 4 \<inter> page_bytes b3 (at_pages q (S \<union> Q)) = {}" using blk a2 Z by simp
  have scr: "\<exists>w'. kn_console ?k2 = Some w' \<and>
      shows_text w' (mu_mem (kn_mmu ?k2)) (text_string (fw_rows w) (fw_cols w) boot_lines t)" if "kn_console k = Some w" for w
    using some that by (auto simp: printed_def)
  show ?case
    by (rule disjI2, rule exI [of _ ?k1], rule exI [of _ ?k2], rule exI [of _ a], rule exI [of _ S],
        intro conjI allI impI run fin new SR scr)
      (use mg4 stk tr4 tr hold none in simp_all)
qed


subsection \<open>A machine that boots\<close>

text \<open>Foreign memory with new contents beside a managed area.\<close>

lemma pt_inv_foreign:
  assumes inv: "pt_inv w hh (R, Map.empty) root T B s"
    and apart: "block_range a k \<inter> page_bytes (mu_frames s) R = {}" and ag: "agree_off (block_range a k) (mu_mem s) m'"
    and s': "s' = s\<lparr>mu_mem := m'\<rparr>"
  shows "pt_inv w hh (R, [a \<mapsto> k]) root T (B(a \<mapsto> k)) s'" and "B a = None"
proof -
  let ?b = "mu_frames s"
  have client: "client_inv R (mu_mem s, ?b, B)" using pt_invD(3) [OF inv] client_frames_owned by blast
  then obtain S where S: "manages_merged (mu_mem s) ?b R S" and blks: "\<And>c l. B c = Some l \<Longrightarrow> live_block ?b R S c l"
    by (auto simp: client_inv_def)
  have off: "block_range c l \<inter> block_range a k = {}" if "B c = Some l" for c l
    using live_block_in [OF blks [OF that]] apart by blast
  have self: "c \<in> block_range c l" for c l by (simp add: block_range_def PAGE_SIZE_def)
  show new: "B a = None"
  proof (cases "B a")
    case (Some l)
    then have False using off [of a l] self [of a l] self [of a k] by blast
    then show ?thesis ..
  qed
  have "S \<subseteq> R" using manages_bounds [OF manages_mergedD [OF S]] by simp
  then have "block_range a k \<inter> page_bytes ?b S = {}" using apart page_bytes_mono by blast
  then have "manages_merged m' ?b R S" using S buddy_inv_frame [OF _ ag] unfolding manages_merged_def by metis
  then have "client_inv R (m', ?b, B)" using client blks unfolding client_inv_def prod.case by blast
  moreover have "(B(a \<mapsto> k)) |` (- dom [a \<mapsto> k]) = B" using new by (auto simp: restrict_map_def fun_eq_iff)
  moreover have "block_range c l \<inter> block_range c' l' = {}"
    if "(B(a \<mapsto> k)) c = Some l" "(B(a \<mapsto> k)) c' = Some l'" "c \<noteq> c'" for c l c' l'
    using that off client_apart [OF client] by (auto split: if_splits)
  ultimately have own: "frames_owned (R, [a \<mapsto> k]) m' ?b (B(a \<mapsto> k))"
    using apart by (auto simp: frames_owned_def map_le_def split: if_splits)
  have e: "entry hh m' f i = entry hh (mu_mem s) f i" if f: "T l p = Some f" and i: "i < 512" for l p f i
    unfolding entry_def
  proof (rule ld_cong)
    fix j :: nat
    assume j: "j < 8"
    have "B (f + hh) = Some 0" using pt_invD(2) [OF inv] f by (auto simp: holds_tables_def)
    moreover have "f + hh + 8 * i + j \<in> block_range (f + hh) 0" using i j by (simp add: block_range_def PAGE_SIZE_def)
    ultimately have "f + hh + 8 * i + j \<notin> block_range a k" using off by blast
    then show "m' (f + hh + 8 * i + j) = mu_mem s (f + hh + 8 * i + j)" using ag by (simp add: agree_off_def)
  qed
  have "holds_tables hh T (B(a \<mapsto> k))" using pt_invD(2) [OF inv] new by (auto simp: holds_tables_def)
  then show "pt_inv w hh (R, [a \<mapsto> k]) root T (B(a \<mapsto> k)) s'"
    using own pt_tree_cong(1) [OF pt_invD(1) [OF inv], of m'] e pt_invD(4) [OF inv] by (simp add: pt_inv_def s')
qed

definition demo_boot :: limine_data where
  "demo_boot =
     \<lparr>hhdm_offset = 0, kernel_phys_start = 0x100000, kernel_phys_end = 0x102000,
      kernel_virt_start = 0x40000000, kernel_virt_end = 0x40002000,
      region_array =
        [\<lparr>rg_base = 0x1000, rg_length = 0x3E9000, rg_type = Usable\<rparr>,
         \<lparr>rg_base = 0x10000000, rg_length = 0x3000, rg_type = BootloaderReclaimable\<rparr>,
         \<lparr>rg_base = 0x20000000, rg_length = 0x200000, rg_type = Reserved\<rparr>],
      region_count = 3, framebuffer = None, rsdp_phys = Some 0xE0000, bootloader = None\<rparr>"

definition demo_platform :: "slab_cache platform" where
  "demo_platform =
     \<lparr>pl_bits = x86_bits, pl_limine = demo_limine, pl_env = demo_env,
      pl_selectors = \<lparr>code_selector = 8, data_selector = 16, tss_selector = 24\<rparr>,
      pl_stacks = \<lparr>DOUBLE_FAULT_STACK = 0x10000, NMI_STACK = 0x20000, MACHINE_CHECK_STACK = 0x30000\<rparr>,
      pl_cpuid_edx = 0, pl_process = demo_elem, pl_new_table = (\<lambda>c. c), pl_release_sp = 0x10001700,
      pl_return = 0x40000100\<rparr>"

definition demo_kernel :: "mmu \<Rightarrow> fb_writer option \<Rightarrow> slab_cache kernel" where
  "demo_kernel s c =
     \<lparr>kn_harvested = True, kn_segments = \<lparr>reg_cs = 8, reg_ds = 16, reg_ss = 0, reg_tr = 24, gdt_loaded = True\<rparr>,
      kn_machine = boot_machine, kn_mmu = s, kn_heap = tlsf_new, kn_processes = None, kn_vmm = Some 0,
      kn_console = c, kn_cell = empty_cell, kn_rsp = 0x10001800, kn_interrupts = False\<rparr>"

lemma demo_regions:
  "reclaimable_regions demo_boot = [\<lparr>rg_base = 0x10000000, rg_length = 0x3000, rg_type = BootloaderReclaimable\<rparr>]"
  "max_region_end (regions demo_boot) = Inr 0x20200000"
  "reclaim_pages (reclaimable_regions demo_boot) = {65536..<65539}"
proof -
  show r: "reclaimable_regions demo_boot = [\<lparr>rg_base = 0x10000000, rg_length = 0x3000, rg_type = BootloaderReclaimable\<rparr>]"
    by (simp add: reclaimable_regions_def regions_def demo_boot_def)
  show "max_region_end (regions demo_boot) = Inr 0x20200000"
    by (simp add: regions_def demo_boot_def region_end_def checked_add_def u64_max_def)
  show "reclaim_pages (reclaimable_regions demo_boot) = {65536..<65539}"
    unfolding r by (simp add: reclaim_pages_def first_page_def region_pages_def last_page_def)
qed

lemma page_bytes_below:
  assumes "P \<subseteq> {..<n}" and "bd_base b + n * PAGE_SIZE \<le> lo"
  shows "{lo..<hi} \<inter> page_bytes b P = {}"
proof -
  have "x < lo" if "i \<in> P" "x < page_addr b i + PAGE_SIZE" for i x
  proof -
    have "i + 1 \<le> n" using assms(1) that(1) by auto
    then have "(i + 1) * PAGE_SIZE \<le> n * PAGE_SIZE" by (rule mult_le_mono1)
    then show ?thesis using that(2) assms(2) unfolding page_addr_def distrib_right by linarith
  qed
  then show ?thesis by (fastforce simp: page_bytes_def)
qed

lemma demo_state:
  obtains s T B w where "boot_ready x86_bits demo_boot (demo_kernel s (Some w)) 1 {1..<1002} [0x30000000 \<mapsto> 0] T B 0x20200000"
    and "shows_text w (mu_mem s) (blank_text (tiny_info\<lparr>fi_virt_addr := 0x30000000\<rparr>))" and "fw_rows w = 2" and "fw_cols w = 2"
    and "screen_apart 0 T [0x30000000 \<mapsto> 0] (page_bytes (mu_frames s) (at_pages 1 {65536..<65539})) w"
    and "\<And>m b. alloc_pages 4 (mu_mem s, mu_frames s) \<noteq> Inr (None, m, b)"
proof -
  let ?i = "tiny_info\<lparr>fi_virt_addr := 0x30000000\<rparr>" and ?a = "0x30000000 :: nat"
  obtain s T B where inv: "pt_inv x86_bits 0 ({0..<1001}, Map.empty) (current_pml4 s) T B s"
    and st: "alloc_count (bd_stats (mu_frames s)) = 1" "free_bytes (bd_stats (mu_frames s)) = PAGE_SIZE * 1000"
      "bd_base (mu_frames s) = 4096"
    by (rule empty_space_area [of 1000]) (simp_all add: MAX_PAGES_def BUDDY_MAX_ORDER_def)
  have "usable_framebuffer ?i" by (simp add: usable_framebuffer_def tiny_info_def u32_max_def u64_max_def)
  from init_shows_blank [OF this, of None "mu_mem s"] obtain w m' where
    w: "shows_text w m' (blank_text ?i)" "fw_rows w = 2" "fw_cols w = 2"
    and scr: "screen w = {?a..<?a + 0x800}" and ag: "agree_off (screen w) (mu_mem s) m'"
    by (auto simp: tiny_info_def)
  have rng: "block_range ?a 0 = {?a..<?a + 4096}" by (auto simp: block_range_def PAGE_SIZE_def)
  have ap: "block_range ?a 0 \<inter> page_bytes (mu_frames s) {0..<1001} = {}"
    unfolding rng by (rule page_bytes_below [of _ 1001]) (auto simp: st(3) PAGE_SIZE_def)
  have ag': "agree_off (block_range ?a 0) (mu_mem s) m'"
    by (rule agree_off_mono [OF ag]) (auto simp: scr rng)
  define s' where "s' = s\<lparr>mu_mem := m'\<rparr>"
  note foreign = pt_inv_foreign [OF inv ap ag' s'_def]
  have cr: "current_pml4 s' = current_pml4 s" by (simp add: s'_def current_pml4_def)
  have at: "at_pages 1 {1..<1002} = {0..<1001}" by (auto simp: at_pages_def)
  have inv': "pt_inv x86_bits 0 (at_pages 1 {1..<1002}, [?a \<mapsto> 0]) (current_pml4 s') T (B(?a \<mapsto> 0)) s'"
    using foreign(1) unfolding cr at .
  have st': "alloc_count (bd_stats (mu_frames s')) = 1" "free_bytes (bd_stats (mu_frames s')) = PAGE_SIZE * 1000"
      "bd_base (mu_frames s') = 4096" using st by (simp_all add: s'_def)
  have n: "huge_pages_of 0x20200000 = 257" "pages_of (0x40002000 - 0x40000000) = 2"
    by (simp_all add: huge_pages_of_def pages_of_def)
  have lay: "layout_ok 0 0x40000000 0x40002000 0x100000 0x20200000"
    by (simp add: layout_ok_def huge_pages_of_def pages_of_def phys_limit_def u64_max_def)
  have fields: "hhdm_offset demo_boot = 0" "kernel_virt_start demo_boot = 0x40000000"
    "kernel_virt_end demo_boot = 0x40002000" "kernel_phys_start demo_boot = 0x100000"
    by (simp_all add: demo_boot_def)
  have ready: "boot_ready x86_bits demo_boot (demo_kernel s' (Some w)) 1 {1..<1002} [?a \<mapsto> 0] T (B(?a \<mapsto> 0)) 0x20200000"
    unfolding boot_ready_def Let_def fields n
    using inv' st' lay demo_regions(2) by (simp add: demo_kernel_def u64_max_def PAGE_SIZE_def)
  have nt: "not_table 0 T ?a"
    using pt_invD(2) [OF inv] foreign(2) by (force simp: not_table_def holds_tables_def)
  have "\<exists>c l. [?a \<mapsto> 0] c = Some l \<and> x \<in> block_range c l \<and> not_table 0 T c" if "x \<in> screen w" for x
    using that nt by (intro exI [of _ ?a] exI [of _ 0]) (simp add: scr rng)
  moreover have "at_pages 1 {65536..<65539} \<subseteq> {..<65539}" by (auto simp: at_pages_def)
  from page_bytes_below [OF this, of "mu_frames s'" ?a "?a + 0x800"]
  have "screen w \<inter> page_bytes (mu_frames s') (at_pages 1 {65536..<65539}) = {}"
    unfolding scr by (simp add: st'(3) PAGE_SIZE_def)
  ultimately have sa: "screen_apart 0 T [?a \<mapsto> 0] (page_bytes (mu_frames s') (at_pages 1 {65536..<65539})) w"
    unfolding screen_apart_def by blast
  have "alloc_pages 4 (mu_mem s', mu_frames s') \<noteq> Inr (None, m, b)" for m b
  proof -
    obtain S where S: "manages_merged (mu_mem s') (mu_frames s') {0..<1001} S"
      and mg: "manages (mu_mem s') (mu_frames s') {0..<1001} S"
      using frames_free_pages [OF pt_invD(3) [OF inv'] ] unfolding at by blast
    have SR: "S \<subseteq> {0..<1001}" using manages_bounds [OF mg] by simp
    have "free_bytes (bd_stats (mu_frames s')) = PAGE_SIZE * card S"
      using mg by (auto simp: manages_def buddy_inv_def stats_match_def)
    then have card: "card S = 1000" using st'(2) by (simp add: PAGE_SIZE_def)
    have "{0..<16} \<subseteq> S \<or> {16..<32} \<subseteq> S"
    proof (rule ccontr)
      assume "\<not> ({0..<16} \<subseteq> S \<or> {16..<32} \<subseteq> S)"
      then obtain x y where "x \<in> {0..<16} - S" "y \<in> {16..<32} - S" by blast
      then have xy: "x \<notin> S" "y \<notin> S" "x < 16" "16 \<le> y" "y < 32" by auto
      have "S \<subseteq> {0..<1001} - {x, y}" using SR xy by auto
      then have "card S \<le> card ({0..<1001} - {x, y})" by (intro card_mono) simp
      also have "\<dots> = 999" using xy by (subst card_Diff_subset) auto
      finally show False using card by simp
    qed
    then have "\<exists>i. 2 ^ 4 dvd i \<and> {i..<i + 2 ^ 4} \<subseteq> S"
    proof
      show ?thesis if "{0..<16} \<subseteq> S" by (rule exI [of _ 0]) (use that in simp)
      show ?thesis if "{16..<32} \<subseteq> S" by (rule exI [of _ 16]) (use that in simp)
    qed
    moreover have "4 < BUDDY_MAX_ORDER" "alloc_count (bd_stats (mu_frames s')) < u64_max"
      using st'(1) by (simp_all add: BUDDY_MAX_ORDER_def u64_max_def)
    from alloc_merged [OF S this] obtain r m' b' where "alloc_pages 4 (mu_mem s', mu_frames s') = Inr (r, m', b')"
      "r = None \<longleftrightarrow> (\<forall>i. 2 ^ 4 dvd i \<longrightarrow> \<not> {i..<i + 2 ^ 4} \<subseteq> S)" by blast
    ultimately show ?thesis by auto
  qed
  moreover have "shows_text w (mu_mem s') (blank_text ?i)" using w(1) by (simp add: s'_def)
  ultimately show thesis using that [OF ready _ w(2,3) sa] by blast
qed


end
