(* ===== verification/Kernel_Steps.thy ===== *)
theory Kernel_Steps
  imports Boot_Handover
begin

text \<open>
  The steps of \<open>kernel_main\<close> before the hand-over, each with what it needs and what it leaves:
  \<open>heap::init\<close>, the mappings of the local APIC and of the frame buffer. The boot loader's tables and
  the device memory lie in blocks that the allocator does not manage; \<open>booted\<close> is the state between
  the steps, indexed by the pages that may still be taken.
\<close>

subsection \<open>Memory that the allocator does not manage\<close>

text \<open>The bytes of physical pages in the direct map.\<close>

definition direct_map :: "nat \<Rightarrow> nat set \<Rightarrow> nat set" where
  "direct_map hh P = (\<Union>i\<in>P. {hh + i * 4096..<hh + (i + 1) * 4096})"

lemma page_bytes_direct: "bd_base b = hh + q * 4096 \<Longrightarrow> page_bytes b (at_pages q P) \<subseteq> direct_map hh P"
  unfolding page_bytes_def page_addr_def PAGE_SIZE_def direct_map_def at_pages_def
  by (fastforce simp: add_mult_distrib)

lemma card_at_pages: "(\<And>x. x \<in> P \<Longrightarrow> q \<le> x) \<Longrightarrow> card (at_pages q P) = card P"
proof -
  assume low: "\<And>x. x \<in> P \<Longrightarrow> q \<le> x"
  have "(+) q ` at_pages q P = P"
  proof
    show "P \<subseteq> (+) q ` at_pages q P"
    proof
      fix x
      assume "x \<in> P"
      moreover from low [OF this] have "x = q + (x - q)" by simp
      ultimately show "x \<in> (+) q ` at_pages q P" unfolding at_pages_def by (metis (mono_tags, lifting) image_eqI mem_Collect_eq)
    qed
  qed (auto simp: at_pages_def)
  moreover have "inj_on ((+) q) (at_pages q P)" by simp
  ultimately show ?thesis by (metis card_image)
qed

lemma block_self: "c \<in> block_range c l"
  by (simp add: block_range_def PAGE_SIZE_def)

lemma frames_with_foreign:
  assumes client: "client_inv R (m, b, live)" and out: "\<And>a k. X a = Some k \<Longrightarrow> block_range a k \<inter> page_bytes b R = {}"
    and apart: "\<And>a k c l. X a = Some k \<Longrightarrow> X c = Some l \<Longrightarrow> a \<noteq> c \<Longrightarrow> block_range a k \<inter> block_range c l = {}"
  shows "frames_owned (R, X) m b (live ++ X)" and "live c = Some l \<Longrightarrow> X c = None"
proof -
  obtain S where blks: "\<And>c l. live c = Some l \<Longrightarrow> live_block b R S c l" using client unfolding client_inv_def prod.case by blast
  have off: "block_range c l \<inter> block_range a k = {}" if "live c = Some l" "X a = Some k" for a c k l
    using live_block_in [OF blks [OF that(1)]] out [OF that(2)] by blast
  show none: "X c = None" if "live c = Some l" for c l
  proof (cases "X c")
    case (Some k)
    then show ?thesis using off [OF that Some] block_self [of c l] block_self [of c k] by blast
  qed
  have "(live ++ X) |` (- dom X) = live"
  proof
    fix c
    show "((live ++ X) |` (- dom X)) c = live c"
      using none [of c] by (cases "X c"; cases "live c") (simp_all add: restrict_map_def map_add_def domIff)
  qed
  moreover have pick: "X a = Some k \<or> X a = None \<and> live a = Some k" if "(live ++ X) a = Some k" for a k
    using that by (auto simp: map_add_def split: option.splits)
  have "block_range a k \<inter> block_range c l = {}" if "(live ++ X) a = Some k" "(live ++ X) c = Some l" "a \<noteq> c" for a k c l
    using pick [OF that(1)] pick [OF that(2)] off [of a k c l] off [of c l a k] apart [of a k c l] client_apart [OF client, of a k c l] that(3)
    by blast
  ultimately show "frames_owned (R, X) m b (live ++ X)"
    using client out unfolding frames_owned_def prod.case by (simp add: map_le_map_add)
qed

text \<open>A write into blocks that hold no table.\<close>

lemma table_cell:
  assumes "holds_tables hh T B" and "T l p = Some f" and "i < 512" and "j < 8"
  shows "B (f + hh) = Some 0" and "f + hh + 8 * i + j \<in> block_range (f + hh) 0"
  using assms by (auto simp: holds_tables_def block_range_def PAGE_SIZE_def)

lemma pt_inv_write:
  assumes inv: "pt_inv w hh A root T B s" and ag: "agree_off Y (mu_mem s) m'" and fin: "finite Y"
    and Y: "\<And>x. x \<in> Y \<Longrightarrow> \<exists>c l. B c = Some l \<and> x \<in> block_range c l \<and> not_table hh T c"
  shows "pt_inv w hh A root T B (s\<lparr>mu_mem := m'\<rparr>)"
proof -
  note own = pt_invD(3) [OF inv]
  have e: "entry hh m' f i = entry hh (mu_mem s) f i" if f: "T l p = Some f" and i: "i < 512" for l p f i
    unfolding entry_def
  proof (rule ld_cong)
    fix j :: nat
    assume j: "j < 8"
    note cell = table_cell [OF pt_invD(2) [OF inv] f i j]
    have "f + hh + 8 * i + j \<notin> Y"
    proof
      assume "f + hh + 8 * i + j \<in> Y"
      then obtain c k where c: "B c = Some k" "f + hh + 8 * i + j \<in> block_range c k" "not_table hh T c" using Y by blast
      have "f + hh \<noteq> c" using c(3) f unfolding not_table_def by (metis add_diff_cancel_right' not_add_less2)
      then show False using fo.owned_apart [OF own cell(1) c(1)] cell(2) c(2) by blast
    qed
    then show "m' (f + hh + 8 * i + j) = mu_mem s (f + hh + 8 * i + j)" using ag by (simp add: agree_off_def)
  qed
  have "frames_owned A m' (mu_frames s) B" by (rule fo.agree_owned [OF own ag fin]) (use Y in blast)
  then show ?thesis using pt_tree_cong(1) [OF pt_invD(1) [OF inv], of m'] e inv by (simp add: pt_inv_def)
qed

subsection \<open>The state between the steps\<close>

text \<open>
  The heap that \<open>heap::init\<close> made: one free block at the start of the pool. \<open>covered\<close>: bytes of
  foreign blocks that hold no table, where a device's memory lies. \<open>booted\<close>: the tables, the pool and
  the heap are in order, and \<open>n\<close> more pages can be allocated.
\<close>

definition pool_lists :: "nat \<Rightarrow> classes" where
  "pool_lists pool = set_class 21 31 [pool] (\<lambda>_ _. [])"

definition heap_in :: "nat \<Rightarrow> tlsf \<Rightarrow> mem \<Rightarrow> bool" where
  "heap_in pool t m \<longleftrightarrow> tlsf_rep m t (pool_lists pool) \<and> block_size m pool = 4194304 - 64"

definition covered :: "nat \<Rightarrow> table_map \<Rightarrow> (nat \<rightharpoonup> nat) \<Rightarrow> nat set \<Rightarrow> bool" where
  "covered hh T X Y \<longleftrightarrow> (\<forall>x\<in>Y. \<exists>c l. X c = Some l \<and> x \<in> block_range c l \<and> not_table hh T c)"

definition booted ::
  "bitwise \<Rightarrow> nat \<Rightarrow> nat set \<times> (nat \<rightharpoonup> nat) \<Rightarrow> nat \<Rightarrow> nat \<Rightarrow> tlsf \<Rightarrow> table_map \<Rightarrow> (nat \<rightharpoonup> nat) \<Rightarrow> mmu \<Rightarrow> nat \<Rightarrow> bool" where
  "booted w hh A base pool t T B s n \<longleftrightarrow>
     pt_inv w hh A (current_pml4 s) T B s \<and> B pool = Some 10 \<and> snd A pool = None \<and> not_table hh T pool \<and>
     heap_in pool t (mu_mem s) \<and> bd_base (mu_frames s) = base \<and>
     alloc_count (bd_stats (mu_frames s)) + n \<le> u64_max \<and> n * PAGE_SIZE \<le> free_bytes (bd_stats (mu_frames s))"

definition mmio_fits :: "bitwise \<Rightarrow> nat \<Rightarrow> table_map \<Rightarrow> mem \<Rightarrow> nat \<Rightarrow> nat \<Rightarrow> nat \<Rightarrow> bool" where
  "mmio_fits w hh T m v ph len \<longleftrightarrow>
     v mod 0x1000 = 0 \<and> ph mod 0x1000 = 0 \<and> ph + pages_of len * 0x1000 \<le> phys_limit \<and>
     v + pages_of len * 0x1000 \<le> u64_max \<and> v mod 2 ^ 48 + pages_of len * 0x1000 \<le> 2 ^ 48 \<and>
     len + 0x1000 \<le> u64_max \<and> (\<forall>j<pages_of len. no_huge w hh T (v + j * 0x1000) m)"

lemma heap_in_cong:
  assumes heap: "heap_in pool t m" and same: "\<And>x. x \<in> block_range pool 10 \<Longrightarrow> m' x = m x"
  shows "heap_in pool t m'"
proof -
  have r: "{pool..<pool + 32} \<subseteq> block_range pool 10" by (auto simp: block_range_def PAGE_SIZE_def)
  have "tlsf_rep m' t (pool_lists pool)"
  proof (rule rep_frame)
    show "tlsf_rep m t (pool_lists pool)" using heap by (simp add: heap_in_def)
    show "agree_off (- block_range pool 10) m m'" using same by (auto simp: agree_off_def)
    show "{x..<x + 32} \<inter> - block_range pool 10 = {}" if "x \<in> free_blocks (pool_lists pool)" for x
      using that r by (auto simp: free_blocks_def pool_lists_def set_class_def split: if_splits)
  qed
  moreover have "ld64 m' pool = ld64 m pool" by (rule ld_cong) (use same subsetD [OF r] in simp)
  ultimately show ?thesis using heap by (simp add: heap_in_def block_size_def)
qed

lemma booted_less: "booted w hh A base pool t T B s n \<Longrightarrow> k \<le> n \<Longrightarrow> booted w hh A base pool t T B s k"
  unfolding booted_def by (auto intro: order_trans [OF mult_right_mono] order_trans [OF add_left_mono])

lemma not_table_grown:
  assumes g: "grows w hh A root T B s T' B' s' n" and c: "B c = Some l" and nt: "not_table hh T c"
  shows "not_table hh T' c"
proof -
  have False if "T' k p = Some (c - hh)" "hh \<le> c" for k p
    using growsD(8) [OF g that(1)] that(2) c nt by (auto simp: not_table_def)
  then show ?thesis by (auto simp: not_table_def not_less [symmetric])
qed

lemma covered_grown:
  assumes g: "grows w hh (R, X) root T B s T' B' s' n" and own: "frames_owned (R, X) m b B" and c: "covered hh T X Y"
  shows "covered hh T' X Y"
  using c not_table_grown [OF g foreign_block [OF own]] unfolding covered_def by blast

lemma booted_map:
  assumes laws: "bitwise_laws w" and bt: "booted w hh (R, X) base pool t T B s (n + 3 * pages_of len)" and n: "0 < n"
    and fit: "mmio_fits w hh T (mu_mem s) v ph len" and fs: "set fs \<subseteq> set (flag_list w)"
  obtains s' T' B' where "map_mmio w hh v ph len (or_all fs) s = Inr (Inr (), s')"
    and "booted w hh (R, X) base pool t T' B' s' n" and "clear_kept w hh T s T' s'"
    and "\<And>Y. covered hh T X Y \<Longrightarrow> covered hh T' X Y"
proof -
  note f = fit [unfolded mmio_fits_def]
  note b = bt [unfolded booted_def snd_conv]
  let ?N = "3 * pages_of len"
  have inv: "pt_inv w hh (R, X) (current_pml4 s) T B s" using b by blast
  have cnt: "alloc_count (bd_stats (mu_frames s)) + ?N \<le> u64_max" using b by linarith
  have al: "v mod 0x1000 = 0" "ph mod 0x1000 = 0"
    and lim: "ph + pages_of len * 0x1000 \<le> phys_limit" "v + pages_of len * 0x1000 \<le> u64_max"
      "v mod 2 ^ 48 + pages_of len * 0x1000 \<le> 2 ^ 48" "len + 0x1000 \<le> u64_max" using f by simp_all
  from f have nh: "\<And>j. j < pages_of len \<Longrightarrow> no_huge w hh T (v + j * 0x1000) (mu_mem s)" by blast
  obtain r k s' T' B' where run: "map_mmio w hh v ph len (or_all fs) s = Inr (r, s')"
    and g: "grows w hh (R, X) (current_pml4 s) T B s T' B' s' ?N" and kc: "clear_kept w hh T s T' s'"
    and r: "r = Inr () \<and> k = pages_of len \<or> r = Inl OutOfFrames \<and> k < pages_of len \<and> free_bytes (bd_stats (mu_frames s')) = 0"
    using map_mmio_ok [OF laws inv al fs lim nh cnt] by blast
  have free: "n * PAGE_SIZE \<le> free_bytes (bd_stats (mu_frames s'))"
    using growsD(7) [OF g] b unfolding distrib_right by linarith
  then have "free_bytes (bd_stats (mu_frames s')) \<noteq> 0" using n by (auto simp: PAGE_SIZE_def)
  with r have r: "r = Inr ()" by simp
  have pool: "B pool = Some 10" and nt: "not_table hh T pool" using b by blast+
  have "heap_in pool t (mu_mem s')"
    by (rule heap_in_cong [of _ _ "mu_mem s"]) (use b others_keptD [OF growsD(4) [OF g] pool _ nt] in blast)+
  moreover have "B' pool = Some 10" using growsD(3) [OF g] pool by (rule map_le_some)
  moreover have "not_table hh T' pool" by (rule not_table_grown [OF g pool nt])
  moreover have "current_pml4 s' = current_pml4 s" using growsD(5) [OF g] by (simp add: current_pml4_def)
  moreover have "alloc_count (bd_stats (mu_frames s')) + n \<le> u64_max" using growsD(6) [OF g] b by linarith
  ultimately have "booted w hh (R, X) base pool t T' B' s' n"
    using growsD(1,9) [OF g] b free by (simp add: booted_def)
  then show thesis using that run r kc covered_grown [OF g pt_invD(3) [OF inv]] by blast
qed

lemma booted_write:
  assumes bt: "booted w hh (R, X) base pool t T B s n" and cov: "covered hh T X Y" and fin: "finite Y"
    and ag: "agree_off Y (mu_mem s) m'"
  shows "booted w hh (R, X) base pool t T B (s\<lparr>mu_mem := m'\<rparr>) n"
proof -
  note b = bt [unfolded booted_def snd_conv]
  have inv: "pt_inv w hh (R, X) (current_pml4 s) T B s" and pool: "B pool = Some 10" "X pool = None" using b by blast+
  note own = pt_invD(3) [OF inv]
  have Y: "\<exists>c l. B c = Some l \<and> x \<in> block_range c l \<and> not_table hh T c" if "x \<in> Y" for x
    using cov that foreign_block [OF own] unfolding covered_def by blast
  have "pt_inv w hh (R, X) (current_pml4 s) T B (s\<lparr>mu_mem := m'\<rparr>)" by (rule pt_inv_write [OF inv ag fin Y])
  moreover have "heap_in pool t m'"
  proof (rule heap_in_cong)
    show "heap_in pool t (mu_mem s)" using b by blast
    fix x
    assume x: "x \<in> block_range pool 10"
    have "x \<notin> Y"
    proof
      assume "x \<in> Y"
      then obtain c l where c: "X c = Some l" "x \<in> block_range c l" using cov unfolding covered_def by blast
      have "pool \<noteq> c" using pool(2) c(1) by auto
      then show False using fo.owned_apart [OF own pool(1) foreign_block [OF own c(1)]] x c(2) by blast
    qed
    then show "m' x = mu_mem s x" using ag by (simp add: agree_off_def)
  qed
  ultimately show ?thesis using b by (simp add: booted_def current_pml4_def)
qed

subsection \<open>The steps\<close>

text \<open>
  Before the kernel runs: the statics are as linked, and the boot loader's tables \<open>T\<close> lie in blocks
  \<open>X\<close> that share no byte with the direct map of the pages \<open>U\<close>, nor with each other.
\<close>

definition fresh_kernel :: "'t kernel \<Rightarrow> bool" where
  "fresh_kernel k \<longleftrightarrow> \<not> kn_harvested k \<and> mu_frames (kn_mmu k) = buddy_new \<and> kn_heap k = tlsf_new \<and>
     kn_processes k = None \<and> kn_vmm k = None \<and> kn_console k = None \<and> kn_cell k = empty_cell"

definition loader_tables :: "bitwise \<Rightarrow> nat \<Rightarrow> nat set \<Rightarrow> (nat \<rightharpoonup> nat) \<Rightarrow> table_map \<Rightarrow> mmu \<Rightarrow> bool" where
  "loader_tables w hh U X T s \<longleftrightarrow>
     pt_tree w hh (current_pml4 s) T (mu_mem s) \<and> holds_tables hh T X \<and>
     (\<forall>a k. X a = Some k \<longrightarrow> block_range a k \<inter> direct_map hh U = {}) \<and>
     (\<forall>a k c l. X a = Some k \<longrightarrow> X c = Some l \<longrightarrow> a \<noteq> c \<longrightarrow> block_range a k \<inter> block_range c l = {})"

lemma usable_above: "x \<in> usable_pages k1 k2 rs \<Longrightarrow> lowest_page rs \<le> x"
  using lowest_page_le by (fastforce simp: usable_pages_def region_pages_def)

lemma at_pages_Diff: "at_pages q (A - B) = at_pages q A - at_pages q B"
  by (auto simp: at_pages_def)

lemma loader_entries:
  assumes ld: "loader_tables w hh U X T s" and ag: "agree_off (direct_map hh U) (mu_mem s) m'" and f: "T l p = Some f" "i < 512"
  shows "entry hh m' f i = entry hh (mu_mem s) f i"
  unfolding entry_def
proof (rule ld_cong)
  fix j :: nat
  assume j: "j < 8"
  have h: "holds_tables hh T X" using ld by (simp add: loader_tables_def)
  have "block_range (f + hh) 0 \<inter> direct_map hh U = {}" using ld table_cell(1) [OF h f j] by (simp add: loader_tables_def)
  then have "f + hh + 8 * i + j \<notin> direct_map hh U" using table_cell(2) [OF h f j] by blast
  then show "m' (f + hh + 8 * i + j) = mu_mem s (f + hh + 8 * i + j)" using ag by (simp add: agree_off_def)
qed

lemma heap_step:
  assumes laws: "bitwise_laws w" and map: "memory_map_ok hh rs"
    and k: "ks + 4096 \<le> u64_max" "ke + 4096 \<le> u64_max" "ks div 4096 < (ke + 4095) div 4096"
    and U: "U = usable_pages (ks div 4096) ((ke + 4095) div 4096) rs" and q: "q = lowest_page rs"
    and win: "(q + MAX_PAGES) * 4096 \<le> phys_limit" and ld: "loader_tables w hh U X T s"
    and run: "\<exists>i. 1024 dvd i \<and> {q + i..<q + i + 1024} \<subseteq> U"
  obtains m' b' t' pool where "heap_init w rs ks ke hh (mu_mem s, buddy_new, tlsf_new) = Inr (m', b', t')"
    and "booted w hh (at_pages q U, X) (hh + q * 4096) pool t' T ([pool \<mapsto> 10] ++ X) (s\<lparr>mu_mem := m', mu_frames := b'\<rparr>) (card U - 1024)"
    and "agree_off (direct_map hh U) (mu_mem s) m'"
proof -
  from heap_init_ok [OF laws map k U q, of "mu_mem s", unfolded if_P [OF run]] obtain m' b' t' p0 where
    init: "heap_init w rs ks ke hh (mu_mem s, buddy_new, tlsf_new) = Inr (m', b', t')"
    and sub: "{p0..<p0 + 1024} \<subseteq> U" and base: "bd_base b' = hh + q * 4096"
    and client: "client_inv (at_pages q U) (m', b', [hh + p0 * 4096 \<mapsto> 10])"
    and mg: "manages_merged m' b' (at_pages q U) (at_pages q (U - {p0..<p0 + 1024}))"
    and rep: "tlsf_rep m' t' (pool_lists (hh + p0 * 4096))" "block_size m' (hh + p0 * 4096) = 4194304 - 64"
    and cnt: "alloc_count (bd_stats b') = 1" and ag: "agree_off (page_bytes b' (at_pages q U)) (mu_mem s) m'"
    unfolding pool_lists_def by blast
  let ?pool = "hh + p0 * 4096" and ?s = "s\<lparr>mu_mem := m', mu_frames := b'\<rparr>"
  let ?B = "[?pool \<mapsto> 10] ++ X"
  have pb: "page_bytes b' (at_pages q U) \<subseteq> direct_map hh U" by (rule page_bytes_direct [OF base])
  then have agd: "agree_off (direct_map hh U) (mu_mem s) m'" by (rule agree_off_mono [OF ag])
  note l = ld [unfolded loader_tables_def]
  have out: "block_range a j \<inter> page_bytes b' (at_pages q U) = {}" if "X a = Some j" for a j using l that pb by blast
  have apart: "block_range a j \<inter> block_range c i = {}" if "X a = Some j" "X c = Some i" "a \<noteq> c" for a j c i using l that by blast
  note own = frames_with_foreign [OF client out apart]
  have Xp: "X ?pool = None" by (rule own(2)) auto
  have h: "holds_tables hh T X" using l by blast
  have nt: "not_table hh T ?pool"
    using h Xp unfolding not_table_def holds_tables_def by (metis add.commute add_diff_cancel_left' option.distinct(1))
  have "holds_tables hh T ?B" using h by (simp add: holds_tables_def)
  moreover have cr: "current_pml4 ?s = current_pml4 s" by (simp add: current_pml4_def)
  moreover have "pt_tree w hh (current_pml4 s) T m'" using pt_tree_cong(1) [of w hh _ T "mu_mem s" m'] l loader_entries [OF ld agd] by blast
  moreover have "window_ok hh b'"
  proof -
    have "hh mod 4096 = 0" using map by (simp add: memory_map_ok_def)
    then show ?thesis using base win by (simp add: window_ok_def PAGE_SIZE_def distrib_right)
  qed
  ultimately have inv: "pt_inv w hh (at_pages q U, X) (current_pml4 ?s) T ?B ?s" using own(1) by (simp add: pt_inv_def)
  have low: "q \<le> x" if "x \<in> U" for x using usable_above that U q by blast
  have fin: "finite (at_pages q U)" using manages_bounds [OF manages_mergedD [OF mg]] by simp
  have cardU: "card (at_pages q U) = card U" by (rule card_at_pages) (rule low)
  have "card (at_pages q (U - {p0..<p0 + 1024})) = card (U - {p0..<p0 + 1024})" by (rule card_at_pages) (use low in blast)
  also have "\<dots> = card U - 1024" using sub by (simp add: card_Diff_subset)
  finally have "free_bytes (bd_stats b') = PAGE_SIZE * (card U - 1024)"
    using manages_mergedD [OF mg] by (auto simp: manages_def buddy_inv_def stats_match_def)
  moreover have "card U \<le> MAX_PAGES"
    using manages_bounds [OF manages_mergedD [OF mg]] card_mono [of "{..<MAX_PAGES}" "at_pages q U"] cardU by simp
  then have "alloc_count (bd_stats b') + (card U - 1024) \<le> u64_max"
    using cnt by (simp add: MAX_PAGES_def BUDDY_MAX_ORDER_def u64_max_def)
  moreover have "?B ?pool = Some 10" using Xp by (simp add: map_add_def)
  ultimately have "booted w hh (at_pages q U, X) (hh + q * 4096) ?pool t' T ?B ?s (card U - 1024)"
    using inv nt rep Xp base by (simp add: booted_def heap_in_def)
  then show thesis using that init agd by blast
qed

lemma no_huge_loader:
  assumes "loader_tables w hh U X T s" and "agree_off (direct_map hh U) (mu_mem s) m'" and "no_huge w hh T v (mu_mem s)"
  shows "no_huge w hh T v m'"
proof -
  have "entry hh m' f (index l v) = entry hh (mu_mem s) f (index l v)" if "T l p = Some f" for l p f
    by (rule loader_entries [OF assms(1,2) that]) (simp add: index_def)
  then show ?thesis using assms(3) unfolding no_huge_def by metis
qed

definition process_ok :: "elem \<Rightarrow> bool" where
  "process_ok e \<longleftrightarrow> 8 \<le> el_size e \<and> el_align e \<le> PAGE_SIZE"

lemma boot_early_eq:
  assumes fresh: "fresh_kernel k" and harv: "harvest (pl_bits p) (pl_limine p) False = Inr (boot, True)"
    and ist: "interrupt_stack_table (pl_stacks p) = Inr ist" and proc: "process_ok (pl_process p)"
  obtains c where "boot_early p k =
    and_then (heap_init (pl_bits p) (regions boot) (kernel_phys_start boot) (kernel_phys_end boot) (hhdm_offset boot)
        (mu_mem (kn_mmu k), buddy_new, tlsf_new)) (\<lambda>(m, b, t).
      Inr (boot, k\<lparr>kn_harvested := True, kn_segments := gdt_init (pl_selectors p) (kn_segments k),
        kn_machine := timer_init (interrupts_init (pl_env p) (kn_machine k)),
        kn_mmu := init_pat ((kn_mmu k)\<lparr>mu_mem := m, mu_frames := b\<rparr>), kn_heap := t,
        kn_processes := Some (pl_new_table p c), kn_vmm := Some (hhdm_offset boot)\<rparr>))"
proof -
  obtain c where "slab_new (pl_process p) 0 = Inr c" using proc by (simp add: slab_new_def process_ok_def)
  then show thesis
    using fresh harv ist that [of c] by (simp add: boot_early_def fresh_kernel_def process_init_def vmm_init_def split_def Let_def)
qed

lemma booted_pat: "booted w hh A base pool t T B s n \<Longrightarrow> booted w hh A base pool t T B (init_pat s) n"
  by (simp add: booted_def init_pat_def pt_inv_def current_pml4_def)

text \<open>The local APIC, where the processor has one.\<close>

definition apic_pages :: "'t platform \<Rightarrow> nat" where
  "apic_pages p = (if apic_supported (pl_cpuid_edx p) then 1 else 0)"

definition apic_fits :: "'t platform \<Rightarrow> nat \<Rightarrow> table_map \<Rightarrow> mem \<Rightarrow> bool" where
  "apic_fits p hh T m \<longleftrightarrow> (apic_supported (pl_cpuid_edx p) \<longrightarrow>
     mmio_fits (pl_bits p) hh T m (hh + LAPIC_PHYS) LAPIC_PHYS LAPIC_SIZE)"

lemma pages_of_lapic: "pages_of LAPIC_SIZE = 1"
  by (simp add: pages_of_def LAPIC_SIZE_def)

lemma device_flags:
  "\<exists>fs. MMIO_UC w = or_all fs \<and> set fs \<subseteq> set (flag_list w)"
  "\<exists>fs. MMIO_WC w = or_all fs \<and> set fs \<subseteq> set (flag_list w)"
proof -
  show "\<exists>fs. MMIO_UC w = or_all fs \<and> set fs \<subseteq> set (flag_list w)"
    by (rule exI [of _ "[pf_WRITABLE w, pf_NO_EXECUTE w, pf_CACHE_DISABLE w, pf_WRITE_THROUGH w]"])
      (simp add: MMIO_UC_def or_all_def flag_list_def)
  show "\<exists>fs. MMIO_WC w = or_all fs \<and> set fs \<subseteq> set (flag_list w)"
    by (rule exI [of _ "[pf_WRITABLE w, pf_NO_EXECUTE w, pf_CACHE_DISABLE w, pf_WRITE_THROUGH w, pf_PAT w]"])
      (simp add: MMIO_WC_def or_all_def flag_list_def)
qed

lemma init_lapic_ok: "v + 0x1000 \<le> u64_max \<Longrightarrow> \<exists>mc. init_lapic v s = Inr mc"
  by (cases "lapic s") (simp_all add: init_lapic_def lapic_init_def lapic_write_def)

lemma map_lapic_ok:
  assumes laws: "bitwise_laws (pl_bits p)" and hh: "hh = hhdm_offset boot" and vmm: "kn_vmm k = Some hh"
    and bt: "booted (pl_bits p) hh (R, X) base pool t T B (kn_mmu k) (n + 3 * apic_pages p)" and n: "0 < n"
    and fit: "apic_fits p hh T (mu_mem (kn_mmu k))"
  obtains s' mc T' B' where "map_lapic p boot k = Inr (k\<lparr>kn_mmu := s', kn_machine := mc\<rparr>)"
    and "booted (pl_bits p) hh (R, X) base pool t T' B' s' n" and "clear_kept (pl_bits p) hh T (kn_mmu k) T' s'"
    and "\<And>Y. covered hh T X Y \<Longrightarrow> covered hh T' X Y"
proof (cases "apic_supported (pl_cpuid_edx p)")
  case False
  then have "map_lapic p boot k = Inr (k\<lparr>kn_mmu := kn_mmu k, kn_machine := kn_machine k\<rparr>)" by (simp add: map_lapic_def)
  then show thesis by (rule that) (use False bt clear_kept_refl in \<open>simp_all add: apic_pages_def\<close>)
next
  case True
  let ?w = "pl_bits p"
  have bt': "booted ?w hh (R, X) base pool t T B (kn_mmu k) (n + 3 * pages_of LAPIC_SIZE)"
    using bt True by (simp add: apic_pages_def pages_of_lapic)
  have fit': "mmio_fits ?w hh T (mu_mem (kn_mmu k)) (hh + LAPIC_PHYS) LAPIC_PHYS LAPIC_SIZE" using fit True by (simp add: apic_fits_def)
  obtain fs where fs: "MMIO_UC ?w = or_all fs" "set fs \<subseteq> set (flag_list ?w)" using device_flags(1) by blast
  obtain s' T' B' where run: "map_mmio ?w hh (hh + LAPIC_PHYS) LAPIC_PHYS LAPIC_SIZE (MMIO_UC ?w) (kn_mmu k) = Inr (Inr (), s')"
    and b: "booted ?w hh (R, X) base pool t T' B' s' n" and c: "clear_kept ?w hh T (kn_mmu k) T' s'"
    and y: "\<And>Y. covered hh T X Y \<Longrightarrow> covered hh T' X Y"
    unfolding fs(1) by (rule booted_map [OF laws bt' n fit' fs(2)]) blast
  have lim: "hh + LAPIC_PHYS + 0x1000 \<le> u64_max" using fit' by (simp add: mmio_fits_def pages_of_lapic)
  then obtain mc where "init_lapic (hh + LAPIC_PHYS) (kn_machine k) = Inr mc" using init_lapic_ok by blast
  then have "map_lapic p boot k = Inr (k\<lparr>kn_mmu := s', kn_machine := mc\<rparr>)"
    using True run vmm lim hh by (simp add: map_lapic_def vmm_get_def expect_some_def expect_ok_def)
  then show thesis using that b c y by blast
qed

text \<open>The frame buffer, where the boot loader reports one: its memory lies in foreign blocks.\<close>

definition fb_range :: "framebuffer_info \<Rightarrow> nat set" where
  "fb_range f = {fi_virt_addr f..<fi_virt_addr f + fi_height f * fi_pitch f}"

definition fb_pages :: "limine_data \<Rightarrow> nat" where
  "fb_pages boot = (case framebuffer boot of None \<Rightarrow> 0 | Some f \<Rightarrow> pages_of (fi_byte_size f))"

definition fb_fits :: "bitwise \<Rightarrow> nat \<Rightarrow> table_map \<Rightarrow> (nat \<rightharpoonup> nat) \<Rightarrow> mem \<Rightarrow> framebuffer_info \<Rightarrow> bool" where
  "fb_fits w hh T X m f \<longleftrightarrow> usable_framebuffer f \<and> covered hh T X (fb_range f) \<and>
     mmio_fits w hh T m (fi_virt_addr f) (fi_phys_addr f) (fi_byte_size f)"

lemma map_framebuffer_ok:
  assumes laws: "bitwise_laws (pl_bits p)" and vmm: "kn_vmm k = Some hh"
    and bt: "booted (pl_bits p) hh (R, X) base pool t T B (kn_mmu k) (n + 3 * fb_pages boot)" and n: "0 < n"
    and con: "kn_console k = None"
    and fit: "\<And>f. framebuffer boot = Some f \<Longrightarrow> fb_fits (pl_bits p) hh T X (mu_mem (kn_mmu k)) f"
  obtains s' cn T' B' where "map_framebuffer p boot k = Inr (k\<lparr>kn_mmu := s', kn_console := cn\<rparr>)"
    and "booted (pl_bits p) hh (R, X) base pool t T' B' s' n"
    and "\<And>w. cn = Some w \<Longrightarrow> \<exists>f. framebuffer boot = Some f \<and> shows_text w (mu_mem s') (blank_text f) \<and>
      fw_rows w = fi_height f div 16 \<and> fw_cols w = fi_width f div 8 \<and> screen w = fb_range f \<and> covered hh T' X (screen w)"
    and "framebuffer boot \<noteq> None \<Longrightarrow> cn \<noteq> None"
proof (cases "framebuffer boot")
  case None
  then have "map_framebuffer p boot k = Inr (k\<lparr>kn_mmu := kn_mmu k, kn_console := None\<rparr>)"
    using con by (simp add: map_framebuffer_def)
  then show thesis using that [of None "kn_mmu k"] bt None by (simp add: fb_pages_def)
next
  case (Some f)
  let ?w = "pl_bits p"
  note ft = fit [OF Some, unfolded fb_fits_def]
  have bt': "booted ?w hh (R, X) base pool t T B (kn_mmu k) (n + 3 * pages_of (fi_byte_size f))"
    using bt Some by (simp add: fb_pages_def)
  have fit': "mmio_fits ?w hh T (mu_mem (kn_mmu k)) (fi_virt_addr f) (fi_phys_addr f) (fi_byte_size f)" using ft by blast
  obtain fs where fs: "MMIO_WC ?w = or_all fs" "set fs \<subseteq> set (flag_list ?w)" using device_flags(2) by blast
  obtain s' T' B' where run: "map_mmio ?w hh (fi_virt_addr f) (fi_phys_addr f) (fi_byte_size f) (MMIO_WC ?w) (kn_mmu k) = Inr (Inr (), s')"
    and b: "booted ?w hh (R, X) base pool t T' B' s' n" and y: "\<And>Y. covered hh T X Y \<Longrightarrow> covered hh T' X Y"
    unfolding fs(1) by (rule booted_map [OF laws bt' n fit' fs(2)]) blast
  from init_shows_blank [of f "kn_console k" "mu_mem s'"] ft obtain w m' where
    init: "init_from_info f (kn_console k, mu_mem s') = Inr (Some w, m')"
    and sh: "shows_text w m' (blank_text f)" "fw_rows w = fi_height f div 16" "fw_cols w = fi_width f div 8"
    and scr: "screen w = fb_range f" and ag: "agree_off (screen w) (mu_mem s') m'" unfolding fb_range_def by blast
  have cov: "covered hh T' X (screen w)" using y ft scr by simp
  have "finite (screen w)" using scr by (simp add: fb_range_def)
  from booted_write [OF b cov this ag] have "booted ?w hh (R, X) base pool t T' B' (s'\<lparr>mu_mem := m'\<rparr>) n" .
  moreover have "map_framebuffer p boot k = Inr (k\<lparr>kn_mmu := s'\<lparr>mu_mem := m'\<rparr>, kn_console := Some w\<rparr>)"
    using Some run vmm init by (simp add: map_framebuffer_def vmm_get_def expect_some_def expect_ok_def)
  ultimately show thesis using that [of "Some w" "s'\<lparr>mu_mem := m'\<rparr>"] sh scr cov Some by simp
qed

subsection \<open>Room for the stack\<close>

text \<open>If more aligned runs of 16 pages are managed than pages are taken, one run is free.\<close>

definition aligned_runs :: "nat set \<Rightarrow> nat set" where
  "aligned_runs R = {i. 16 dvd i \<and> {i..<i + 16} \<subseteq> R}"

lemma runs_apart: "16 dvd i \<Longrightarrow> 16 dvd j \<Longrightarrow> x \<in> {i..<i + 16} \<Longrightarrow> x \<in> {j..<j + 16} \<Longrightarrow> i = j" for i j x :: nat
  by (auto elim!: dvdE)

lemma free_run:
  assumes "finite R" and "S \<subseteq> R" and "card R - card S < card (aligned_runs R)"
  shows "\<exists>i. 16 dvd i \<and> {i..<i + 16} \<subseteq> S"
proof (rule ccontr)
  assume no: "\<not> ?thesis"
  then have "\<forall>i\<in>aligned_runs R. \<exists>x. x \<in> {i..<i + 16} \<and> x \<in> R - S" unfolding aligned_runs_def by blast
  then obtain f where f: "\<And>i. i \<in> aligned_runs R \<Longrightarrow> f i \<in> {i..<i + 16} \<and> f i \<in> R - S" by metis
  have "inj_on f (aligned_runs R)"
  proof (rule inj_onI)
    fix i j
    assume "i \<in> aligned_runs R" "j \<in> aligned_runs R" "f i = f j"
    then show "i = j" using f [of i] f [of j] runs_apart [of i j "f i"] by (simp add: aligned_runs_def)
  qed
  moreover have "f ` aligned_runs R \<subseteq> R - S" using f by blast
  ultimately have "card (aligned_runs R) \<le> card (R - S)" using assms(1) by (intro card_inj_on_le) simp_all
  also have "card (R - S) = card R - card S" using assms(1,2) by (simp add: card_Diff_subset finite_subset)
  finally show False using assms(3) by simp
qed

lemma stack_available:
  assumes own: "frames_owned (R, X) m b B" and can: "can_alloc b"
    and free: "n * PAGE_SIZE \<le> free_bytes (bd_stats b)" and many: "card R - n < card (aligned_runs R)"
  shows "alloc_pages 4 (m, b) \<noteq> Inr (None, m', b')"
proof -
  obtain S where S: "manages_merged m b R S" and mg: "manages m b R S" by (rule frames_free_pages [OF own]) blast
  have R: "finite R" "S \<subseteq> R" using manages_bounds [OF mg] by simp_all
  have "free_bytes (bd_stats b) = PAGE_SIZE * card S" using mg by (auto simp: manages_def buddy_inv_def stats_match_def)
  then have "n \<le> card S" using free by (simp add: PAGE_SIZE_def)
  then have "card R - card S < card (aligned_runs R)" using many by linarith
  from free_run [OF R this] have run: "\<exists>i. 2 ^ 4 dvd i \<and> {i..<i + 2 ^ 4} \<subseteq> S" by simp
  have "4 < BUDDY_MAX_ORDER" "alloc_count (bd_stats b) < u64_max" using can by (simp_all add: BUDDY_MAX_ORDER_def can_alloc_def)
  from alloc_merged [OF S this] obtain r m1 b1 where "alloc_pages 4 (m, b) = Inr (r, m1, b1)"
    "r = None \<longleftrightarrow> (\<forall>i. 2 ^ 4 dvd i \<longrightarrow> \<not> {i..<i + 2 ^ 4} \<subseteq> S)" by blast
  then show ?thesis using run by auto
qed

subsection \<open>What the hand-over leaves alone\<close>

lemma handover_keeps:
  "handover p boot k = Inr k1 \<Longrightarrow> kn_heap k1 = kn_heap k \<and> kn_processes k1 = kn_processes k \<and> kn_vmm k1 = kn_vmm k"
  by (auto simp: handover_def Let_def split_def res_elims)

lemma println_keeps:
  "println msg k = Inr k1 \<Longrightarrow> kn_heap k1 = kn_heap k \<and> kn_processes k1 = kn_processes k \<and> kn_vmm k1 = kn_vmm k"
  by (auto simp: println_def split_def res_elims)

lemma continue_keeps:
  assumes "kernel_main_continue k = Inr k1"
  shows "kn_heap k1 = kn_heap k \<and> kn_processes k1 = kn_processes k \<and> kn_vmm k1 = kn_vmm k"
  using assms by (auto simp: kernel_main_continue_def Let_def split_def res_elims dest!: println_keeps)

end
