(* ===== verification/Kernel_Main.thy ===== *)
theory Kernel_Main
  imports Kernel_Steps
begin

text \<open>
  \<open>kernel_main\<close> from the boot loader's hand-over to the halt loop, composed of the results on the
  steps and on the hand-over, and a concrete machine on which it boots.
\<close>

subsection \<open>The whole boot\<close>

text \<open>
  What \<open>kernel_main\<close> relies on. \<open>boot\<close> is what \<open>harvest\<close> copies out of the boot loader's responses;
  \<open>U\<close> are the usable pages outside the kernel image, counted from page \<open>q\<close>; \<open>Q\<close> are the pages it
  will reclaim; \<open>T\<close> are the boot loader's tables, in foreign blocks \<open>X\<close>; \<open>need\<close> is what the kernel's
  stack and tables take at most.
\<close>

definition boot_need :: "limine_data \<Rightarrow> nat \<Rightarrow> nat" where
  "boot_need boot msize = 17 + 2 * huge_pages_of msize + 3 * pages_of (kernel_virt_end boot - kernel_virt_start boot)"

definition boot_devices :: "'t platform \<Rightarrow> limine_data \<Rightarrow> nat" where
  "boot_devices p boot = 1024 + 3 * (apic_pages p + fb_pages boot)"

definition machine_ok :: "'t platform \<Rightarrow> limine_data \<Rightarrow> 't kernel \<Rightarrow> bool" where
  "machine_ok p boot k \<longleftrightarrow>
     bitwise_laws (pl_bits p) \<and> harvest (pl_bits p) (pl_limine p) False = Inr (boot, True) \<and>
     (\<exists>ist. interrupt_stack_table (pl_stacks p) = Inr ist) \<and> process_ok (pl_process p) \<and> fresh_kernel k"

definition memory_ok :: "limine_data \<Rightarrow> nat \<Rightarrow> nat set \<Rightarrow> nat \<Rightarrow> bool" where
  "memory_ok boot q U msize \<longleftrightarrow>
     memory_map_ok (hhdm_offset boot) (regions boot) \<and> max_region_end (regions boot) = Inr msize \<and>
     kernel_phys_start boot + 4096 \<le> u64_max \<and> kernel_phys_end boot + 4096 \<le> u64_max \<and>
     kernel_phys_start boot div 4096 < (kernel_phys_end boot + 4095) div 4096 \<and>
     U = usable_pages (kernel_phys_start boot div 4096) ((kernel_phys_end boot + 4095) div 4096) (regions boot) \<and>
     q = lowest_page (regions boot) \<and> (q + MAX_PAGES) * 4096 \<le> phys_limit \<and>
     layout_ok (hhdm_offset boot) (kernel_virt_start boot) (kernel_virt_end boot) (kernel_phys_start boot) msize"

definition devices_ok :: "'t platform \<Rightarrow> limine_data \<Rightarrow> table_map \<Rightarrow> (nat \<rightharpoonup> nat) \<Rightarrow> mem \<Rightarrow> nat set \<Rightarrow> nat \<Rightarrow> bool" where
  "devices_ok p boot T X m Q msize \<longleftrightarrow>
     apic_fits p (hhdm_offset boot) T m \<and>
     (\<forall>f. framebuffer boot = Some f \<longrightarrow>
        fb_fits (pl_bits p) (hhdm_offset boot) T X m f \<and> fb_range f \<inter> direct_map (hhdm_offset boot) Q = {} \<and>
        fi_virt_addr f = hhdm_offset boot + fi_phys_addr f \<and> fi_phys_addr f + fi_height f * fi_pitch f \<le> msize)"

definition room_ok :: "'t platform \<Rightarrow> limine_data \<Rightarrow> nat \<Rightarrow> nat set \<Rightarrow> nat \<Rightarrow> bool" where
  "room_ok p boot q U msize \<longleftrightarrow> boot_devices p boot + boot_need boot msize \<le> card U \<and>
     boot_devices p boot < card (aligned_runs (at_pages q U))"

lemma clear_fits: "clear_kept w hh T s T' s' \<Longrightarrow> mmio_fits w hh T (mu_mem s) v ph len \<Longrightarrow> mmio_fits w hh T' (mu_mem s') v ph len"
  by (auto simp: clear_kept_def mmio_fits_def)

lemma loader_fits:
  "loader_tables w hh U X T s \<Longrightarrow> agree_off (direct_map hh U) (mu_mem s) m' \<Longrightarrow> mmio_fits w hh T (mu_mem s) v ph len \<Longrightarrow>
    mmio_fits w hh T m' v ph len"
  using no_huge_loader unfolding mmio_fits_def by blast

lemma devices_step:
  assumes mach: "machine_ok p boot k" and mem: "memory_ok boot q U msize"
    and ld: "loader_tables (pl_bits p) (hhdm_offset boot) U X T (kn_mmu k)"
    and dev: "devices_ok p boot T X (mu_mem (kn_mmu k)) Q msize" and room: "boot_devices p boot < card U"
    and run: "\<exists>i. 1024 dvd i \<and> {q + i..<q + i + 1024} \<subseteq> U"
  obtains k1 k2 k3 pool T' B' where "boot_early p k = Inr (boot, k1)" and "map_lapic p boot k1 = Inr k2"
    and "map_framebuffer p boot k2 = Inr k3"
    and "booted (pl_bits p) (hhdm_offset boot) (at_pages q U, X) (hhdm_offset boot + q * 4096) pool (kn_heap k3) T' B' (kn_mmu k3)
      (card U - boot_devices p boot)"
    and "kn_vmm k3 = Some (hhdm_offset boot)" and "kn_cell k3 = empty_cell" and "kn_rsp k3 = kn_rsp k"
    and "\<exists>c. kn_processes k3 = Some (pl_new_table p c)"
    and "\<And>w. kn_console k3 = Some w \<Longrightarrow> \<exists>f. framebuffer boot = Some f \<and> shows_text w (mu_mem (kn_mmu k3)) (blank_text f) \<and>
      fw_rows w = fi_height f div 16 \<and> fw_cols w = fi_width f div 8 \<and> screen w = fb_range f \<and>
      covered (hhdm_offset boot) T' X (screen w)"
    and "framebuffer boot \<noteq> None \<Longrightarrow> kn_console k3 \<noteq> None"
proof -
  let ?w = "pl_bits p" and ?hh = "hhdm_offset boot" and ?s = "kn_mmu k" and ?n = "card U - boot_devices p boot"
  note mc = mach [unfolded machine_ok_def] and me = mem [unfolded memory_ok_def] and dv = dev [unfolded devices_ok_def]
  have laws: "bitwise_laws ?w" and fresh: "fresh_kernel k" and harv: "harvest ?w (pl_limine p) False = Inr (boot, True)"
    and proc: "process_ok (pl_process p)" using mc by blast+
  have map: "memory_map_ok ?hh (regions boot)"
    and ks: "kernel_phys_start boot + 4096 \<le> u64_max" "kernel_phys_end boot + 4096 \<le> u64_max"
      "kernel_phys_start boot div 4096 < (kernel_phys_end boot + 4095) div 4096"
    and U: "U = usable_pages (kernel_phys_start boot div 4096) ((kernel_phys_end boot + 4095) div 4096) (regions boot)"
    and q: "q = lowest_page (regions boot)" and win: "(q + MAX_PAGES) * 4096 \<le> phys_limit" using me by blast+
  obtain ist where ist: "interrupt_stack_table (pl_stacks p) = Inr ist" using mc by blast
  obtain c where early: "boot_early p k =
    and_then (heap_init ?w (regions boot) (kernel_phys_start boot) (kernel_phys_end boot) ?hh (mu_mem ?s, buddy_new, tlsf_new)) (\<lambda>(m, b, t).
      Inr (boot, k\<lparr>kn_harvested := True, kn_segments := gdt_init (pl_selectors p) (kn_segments k),
        kn_machine := timer_init (interrupts_init (pl_env p) (kn_machine k)),
        kn_mmu := init_pat (?s\<lparr>mu_mem := m, mu_frames := b\<rparr>), kn_heap := t,
        kn_processes := Some (pl_new_table p c), kn_vmm := Some ?hh\<rparr>))"
    by (rule boot_early_eq [OF fresh harv ist proc])
  obtain m1 b1 t1 pool where heap: "heap_init ?w (regions boot) (kernel_phys_start boot) (kernel_phys_end boot) ?hh
      (mu_mem ?s, buddy_new, tlsf_new) = Inr (m1, b1, t1)"
    and bt: "booted ?w ?hh (at_pages q U, X) (?hh + q * 4096) pool t1 T ([pool \<mapsto> 10] ++ X) (?s\<lparr>mu_mem := m1, mu_frames := b1\<rparr>) (card U - 1024)"
    and ag: "agree_off (direct_map ?hh U) (mu_mem ?s) m1"
    by (rule heap_step [OF laws map ks U q win ld run]) blast
  define k1 where "k1 = k\<lparr>kn_harvested := True, kn_segments := gdt_init (pl_selectors p) (kn_segments k),
        kn_machine := timer_init (interrupts_init (pl_env p) (kn_machine k)),
        kn_mmu := init_pat (?s\<lparr>mu_mem := m1, mu_frames := b1\<rparr>), kn_heap := t1,
        kn_processes := Some (pl_new_table p c), kn_vmm := Some ?hh\<rparr>"
  have run1: "boot_early p k = Inr (boot, k1)" using early heap by (simp add: k1_def)
  have k1: "kn_mmu k1 = init_pat (?s\<lparr>mu_mem := m1, mu_frames := b1\<rparr>)" "mu_mem (kn_mmu k1) = m1" "kn_vmm k1 = Some ?hh"
    "kn_heap k1 = t1" "kn_console k1 = None" "kn_cell k1 = empty_cell" "kn_rsp k1 = kn_rsp k" "kn_processes k1 = Some (pl_new_table p c)"
    using fresh by (simp_all add: k1_def init_pat_def fresh_kernel_def)
  have "?n + 3 * fb_pages boot + 3 * apic_pages p = card U - 1024" using room by (simp add: boot_devices_def)
  then have bt1: "booted ?w ?hh (at_pages q U, X) (?hh + q * 4096) pool t1 T ([pool \<mapsto> 10] ++ X) (kn_mmu k1)
      (?n + 3 * fb_pages boot + 3 * apic_pages p)" using booted_pat [OF bt] k1(1) by simp
  have n: "0 < ?n + 3 * fb_pages boot" "0 < ?n" using room by simp_all
  have "apic_fits p ?hh T (mu_mem (kn_mmu k1))" using dv loader_fits [OF ld ag] k1(2) by (simp add: apic_fits_def)
  from map_lapic_ok [OF laws refl k1(3) bt1 n(1) this] obtain s2 c2 T2 B2 where run2: "map_lapic p boot k1 = Inr (k1\<lparr>kn_mmu := s2, kn_machine := c2\<rparr>)"
    and bt2: "booted ?w ?hh (at_pages q U, X) (?hh + q * 4096) pool t1 T2 B2 s2 (?n + 3 * fb_pages boot)"
    and c2: "clear_kept ?w ?hh T (kn_mmu k1) T2 s2" and y2: "\<And>Y. covered ?hh T X Y \<Longrightarrow> covered ?hh T2 X Y" by metis
  let ?k2 = "k1\<lparr>kn_mmu := s2, kn_machine := c2\<rparr>"
  have fb: "fb_fits ?w ?hh T2 X (mu_mem (kn_mmu ?k2)) f" if "framebuffer boot = Some f" for f
  proof -
    have f: "fb_fits ?w ?hh T X (mu_mem ?s) f" using dv that by blast
    then have "mmio_fits ?w ?hh T (mu_mem (kn_mmu k1)) (fi_virt_addr f) (fi_phys_addr f) (fi_byte_size f)"
      unfolding k1(2) fb_fits_def using loader_fits [OF ld ag] by blast
    from clear_fits [OF c2 this] f y2 show ?thesis by (simp add: fb_fits_def)
  qed
  have k2: "kn_vmm ?k2 = Some ?hh" "kn_console ?k2 = None" "booted ?w ?hh (at_pages q U, X) (?hh + q * 4096) pool t1 T2 B2 (kn_mmu ?k2) (?n + 3 * fb_pages boot)"
    using k1 bt2 by simp_all
  from map_framebuffer_ok [OF laws k2(1,3) n(2) k2(2) fb] obtain s3 cn T3 B3 where
    run3: "map_framebuffer p boot ?k2 = Inr (?k2\<lparr>kn_mmu := s3, kn_console := cn\<rparr>)"
    and bt3: "booted ?w ?hh (at_pages q U, X) (?hh + q * 4096) pool t1 T3 B3 s3 ?n"
    and scr: "\<And>w. cn = Some w \<Longrightarrow> \<exists>f. framebuffer boot = Some f \<and> shows_text w (mu_mem s3) (blank_text f) \<and>
      fw_rows w = fi_height f div 16 \<and> fw_cols w = fi_width f div 8 \<and> screen w = fb_range f \<and> covered ?hh T3 X (screen w)"
    and some: "framebuffer boot \<noteq> None \<Longrightarrow> cn \<noteq> None" by metis
  show thesis
    by (rule that [OF run1 run2 run3]) (use bt3 scr some k1 in auto)
qed

lemma handover_returns:
  assumes laws: "bitwise_laws (pl_bits p)" and rdy: "boot_ready (pl_bits p) boot k q R X T B msize"
    and rec: "reclaim_ready boot q R (kn_rsp k) (pl_release_sp p)" and Q: "Q = reclaim_pages (reclaimable_regions boot)"
    and con: "\<forall>w. kn_console k = Some w \<longrightarrow> shows_text w (mu_mem (kn_mmu k)) t \<and>
      screen_apart (hhdm_offset boot) T X (page_bytes (mu_frames (kn_mmu k)) (at_pages q Q)) w"
    and room: "\<And>m b. alloc_pages 4 (mu_mem (kn_mmu k), mu_frames (kn_mmu k)) \<noteq> Inr (None, m, b)"
  shows "\<exists>k1 k2 a S. handover p boot k = Inr k1 \<and> kernel_main_continue k1 = Inr k2 \<and>
      kn_interrupts k2 \<and> taken (kn_cell k2) \<and> kn_rsp k2 = a + 16 * 4096 - 8 \<and> B a = None \<and> S \<subseteq> R \<and>
      manages (mu_mem (kn_mmu k2)) (mu_frames (kn_mmu k2)) (at_pages q (R \<union> Q)) (at_pages q (S \<union> Q)) \<and>
      block_range a 4 \<inter> page_bytes (mu_frames (kn_mmu k2)) (at_pages q (S \<union> Q)) = {} \<and>
      (\<forall>u. translate (pl_bits p) (hhdm_offset boot) u (kn_mmu k2) =
         Inr (case page_run (kernel_virt_start boot) (kernel_phys_start boot)
                (pages_of (kernel_virt_end boot - kernel_virt_start boot)) u of
            Some x \<Rightarrow> Some x | None \<Rightarrow> huge_run (hhdm_offset boot) (huge_pages_of msize) u)) \<and>
      (\<forall>c l x. (B |` (- dom X)) c = Some l \<longrightarrow> not_table (hhdm_offset boot) T c \<longrightarrow> x \<in> block_range c l \<longrightarrow>
         mu_mem (kn_mmu k2) x = mu_mem (kn_mmu k) x) \<and>
      (kn_console k = None \<longrightarrow> kn_console k2 = None) \<and>
      (\<forall>w. kn_console k = Some w \<longrightarrow> (\<exists>w'. kn_console k2 = Some w' \<and>
         shows_text w' (mu_mem (kn_mmu k2)) (text_string (fw_rows w) (fw_cols w) boot_lines t)))"
proof (rule disjE [OF handover_reaches [OF laws rdy rec Q]])
  show "shows_text w (mu_mem (kn_mmu k)) t \<and>
      screen_apart (hhdm_offset boot) T X (page_bytes (mu_frames (kn_mmu k)) (at_pages q Q)) w" if "kn_console k = Some w" for w
    using con that by blast
  assume "handover p boot k = Inl (Expect ''kernel stack OOM'') \<and>
      (\<exists>m b. alloc_pages 4 (mu_mem (kn_mmu k), mu_frames (kn_mmu k)) = Inr (None, m, b))"
  then show ?thesis using room by blast
qed assumption

text \<open>The tables translate each byte of memory in the direct map.\<close>

lemma direct_map_translated:
  assumes lay: "layout_ok hh vs ve ps msize" and x: "x < msize"
  shows "(case page_run vs ps (pages_of (ve - vs)) (hh + x) of Some y \<Rightarrow> Some y
     | None \<Rightarrow> huge_run hh (huge_pages_of msize) (hh + x)) = Some x"
proof -
  define h v N where "h = hh mod 2 ^ 48" and "v = vs mod 2 ^ 48" and "N = huge_pages_of msize"
  have l: "hh mod 0x200000 = 0" "vs mod 0x1000 = 0" "h + N * 0x200000 \<le> v"
    using lay by (simp_all add: layout_ok_def h_def v_def N_def)
  have hm: "h mod 0x200000 = 0" using l(1) unfolding h_def by (subst mod_mod_cancel) (simp_all add: dvd_def)
  have vm: "v mod 0x1000 = 0" using l(2) unfolding v_def by (subst mod_mod_cancel) (simp_all add: dvd_def)
  have N: "x < N * 0x200000" using x by (simp add: N_def huge_pages_of_def)
  have "v < 2 ^ 48" by (simp add: v_def)
  then have sum: "(hh + x) mod 2 ^ 48 = h + x" using l(3) N mod_add_left_eq [of hh "2 ^ 48" x] by (simp add: h_def)
  have "v div 0x1000 * 0x1000 = v" using div_mult_mod_eq [of v "0x1000"] vm by simp
  then have "h + x < v div 0x1000 * 0x1000" using l(3) N by linarith
  then have "(h + x) div 0x1000 < v div 0x1000" by (rule less_mult_imp_div_less)
  then have "page_run vs ps n (hh + x) = None" for n
    unfolding page_run_def sum v_def [symmetric] Let_def by simp
  moreover have "huge_run hh N (hh + x) = Some x"
  proof -
    have d: "(h + x) div 0x200000 = h div 0x200000 + x div 0x200000" using hm by (simp add: div_add1_eq [of h x])
    have m: "(hh + x) mod 0x200000 = x mod 0x200000" using l(1) mod_add_left_eq [of hh "0x200000" x] by simp
    have "x div 0x200000 < N" using N by (simp add: less_mult_imp_div_less)
    then show ?thesis unfolding huge_run_def sum h_def [symmetric] d m Let_def by simp
  qed
  ultimately show ?thesis by (simp add: N_def)
qed

lemma kernel_main_reaches:
  assumes mach: "machine_ok p boot k" and mem: "memory_ok boot q U msize"
    and ld: "loader_tables (pl_bits p) (hhdm_offset boot) U X T (kn_mmu k)"
    and dev: "devices_ok p boot T X (mu_mem (kn_mmu k)) Q msize" and room: "room_ok p boot q U msize"
    and rec: "reclaim_ready boot q U (kn_rsp k) (pl_release_sp p)" and Q: "Q = reclaim_pages (reclaimable_regions boot)"
    and run: "\<exists>i. 1024 dvd i \<and> {q + i..<q + i + 1024} \<subseteq> U"
  shows "\<exists>k' a pool S. kernel_main p k = Inr k' \<and> kn_interrupts k' \<and> taken (kn_cell k') \<and>
      kn_rsp k' = a + 16 * 4096 - 8 \<and> a \<noteq> pool \<and> S \<subseteq> U \<and>
      manages (mu_mem (kn_mmu k')) (mu_frames (kn_mmu k')) (at_pages q (U \<union> Q)) (at_pages q (S \<union> Q)) \<and>
      block_range a 4 \<inter> page_bytes (mu_frames (kn_mmu k')) (at_pages q (S \<union> Q)) = {} \<and>
      heap_in pool (kn_heap k') (mu_mem (kn_mmu k')) \<and>
      (\<forall>u. translate (pl_bits p) (hhdm_offset boot) u (kn_mmu k') =
         Inr (case page_run (kernel_virt_start boot) (kernel_phys_start boot)
                (pages_of (kernel_virt_end boot - kernel_virt_start boot)) u of
            Some x \<Rightarrow> Some x | None \<Rightarrow> huge_run (hhdm_offset boot) (huge_pages_of msize) u)) \<and>
      kn_vmm k' = Some (hhdm_offset boot) \<and> (\<exists>c. kn_processes k' = Some (pl_new_table p c)) \<and>
      (case framebuffer boot of None \<Rightarrow> kn_console k' = None
       | Some f \<Rightarrow> (\<exists>w. kn_console k' = Some w \<and> shows_text w (mu_mem (kn_mmu k'))
           (text_string (fi_height f div 16) (fi_width f div 8) boot_lines (blank_text f))) \<and>
           (\<forall>x\<in>fb_range f. translate (pl_bits p) (hhdm_offset boot) x (kn_mmu k') = Inr (Some (x - hhdm_offset boot))))"
proof -
  let ?w = "pl_bits p" and ?hh = "hhdm_offset boot" and ?n = "card U - boot_devices p boot"
  have laws: "bitwise_laws ?w" using mach by (simp add: machine_ok_def)
  note me = mem [unfolded memory_ok_def]
  have need: "boot_devices p boot + boot_need boot msize \<le> card U" and many: "boot_devices p boot < card (aligned_runs (at_pages q U))"
    using room by (simp_all add: room_ok_def)
  have rm: "boot_devices p boot < card U" "boot_need boot msize \<le> ?n" using need by (simp_all add: boot_need_def)
  obtain k1 k2 k3 pool T' B' where run1: "boot_early p k = Inr (boot, k1)" and run2: "map_lapic p boot k1 = Inr k2"
    and run3: "map_framebuffer p boot k2 = Inr k3"
    and bt: "booted ?w ?hh (at_pages q U, X) (?hh + q * 4096) pool (kn_heap k3) T' B' (kn_mmu k3) ?n"
    and kn: "kn_vmm k3 = Some ?hh" "kn_cell k3 = empty_cell" "kn_rsp k3 = kn_rsp k"
    and proc: "\<exists>c. kn_processes k3 = Some (pl_new_table p c)"
    and scr: "\<And>w. kn_console k3 = Some w \<Longrightarrow> \<exists>f. framebuffer boot = Some f \<and> shows_text w (mu_mem (kn_mmu k3)) (blank_text f) \<and>
      fw_rows w = fi_height f div 16 \<and> fw_cols w = fi_width f div 8 \<and> screen w = fb_range f \<and> covered ?hh T' X (screen w)"
    and some: "framebuffer boot \<noteq> None \<Longrightarrow> kn_console k3 \<noteq> None"
    by (rule devices_step [OF mach mem ld dev rm(1) run]) blast
  note b = bt [unfolded booted_def snd_conv]
  have inv: "pt_inv ?w ?hh (at_pages q U, X) (current_pml4 (kn_mmu k3)) T' B' (kn_mmu k3)" and pool: "B' pool = Some 10"
    and base: "bd_base (mu_frames (kn_mmu k3)) = ?hh + q * 4096" and nt: "not_table ?hh T' pool"
    and free: "?n * PAGE_SIZE \<le> free_bytes (bd_stats (mu_frames (kn_mmu k3)))" using b by blast+
  let ?h = "1 + 2 * huge_pages_of msize + 3 * pages_of (kernel_virt_end boot - kernel_virt_start boot)"
  have h: "16 + ?h \<le> ?n" using rm(2) by (simp add: boot_need_def)
  have "(16 + ?h) * PAGE_SIZE \<le> ?n * PAGE_SIZE" using h by (rule mult_le_mono1)
  then have "(16 + ?h) * PAGE_SIZE \<le> free_bytes (bd_stats (mu_frames (kn_mmu k3)))" using free by (rule order_trans)
  moreover have "alloc_count (bd_stats (mu_frames (kn_mmu k3))) + (1 + ?h) \<le> u64_max" using b h by linarith
  ultimately have rdy: "boot_ready ?w boot k3 q U X T' B' msize"
    unfolding boot_ready_def Let_def using inv base kn me by blast
  have rec3: "reclaim_ready boot q U (kn_rsp k3) (pl_release_sp p)" using rec kn(3) by simp
  have zQ: "page_bytes (mu_frames (kn_mmu k3)) (at_pages q Q) \<subseteq> direct_map ?hh Q" by (rule page_bytes_direct [OF base])
  let ?t = "blank_text (the (framebuffer boot))"
  have con: "\<forall>w. kn_console k3 = Some w \<longrightarrow> shows_text w (mu_mem (kn_mmu k3)) ?t \<and>
      screen_apart ?hh T' X (page_bytes (mu_frames (kn_mmu k3)) (at_pages q Q)) w"
  proof (intro allI impI)
    fix w
    assume w: "kn_console k3 = Some w"
    from scr [OF w] obtain f where f: "framebuffer boot = Some f" "shows_text w (mu_mem (kn_mmu k3)) (blank_text f)"
      "screen w = fb_range f" "covered ?hh T' X (screen w)" by blast
    moreover have "fb_range f \<inter> direct_map ?hh Q = {}" using dev f(1) by (simp add: devices_ok_def)
    ultimately show "shows_text w (mu_mem (kn_mmu k3)) ?t \<and>
      screen_apart ?hh T' X (page_bytes (mu_frames (kn_mmu k3)) (at_pages q Q)) w"
      using zQ unfolding screen_apart_def covered_def by auto
  qed
  have own: "frames_owned (at_pages q U, X) (mu_mem (kn_mmu k3)) (mu_frames (kn_mmu k3)) B'" by (rule pt_invD(3) [OF inv])
  have "finite U \<and> card (at_pages q U) = card U"
  proof
    show "card (at_pages q U) = card U"
      by (rule card_at_pages) (use usable_above me in blast)
    show "finite U" using need by (intro card_ge_0_finite) (simp add: boot_need_def)
  qed
  then have "card (at_pages q U) - ?n < card (aligned_runs (at_pages q U))" using many rm(1) by simp
  moreover have "0 < ?n" using rm(1) by simp
  then have "can_alloc (mu_frames (kn_mmu k3))" using b unfolding can_alloc_def by linarith
  ultimately have room: "alloc_pages 4 (mu_mem (kn_mmu k3), mu_frames (kn_mmu k3)) \<noteq> Inr (None, m, b)" for m b
    using stack_available [OF own _ free] by blast
  obtain k4 k5 a S where run4: "handover p boot k3 = Inr k4" "kernel_main_continue k4 = Inr k5"
    and st: "kn_interrupts k5" "taken (kn_cell k5)" "kn_rsp k5 = a + 16 * 4096 - 8" "B' a = None" "S \<subseteq> U"
    and fin: "manages (mu_mem (kn_mmu k5)) (mu_frames (kn_mmu k5)) (at_pages q (U \<union> Q)) (at_pages q (S \<union> Q))"
      "block_range a 4 \<inter> page_bytes (mu_frames (kn_mmu k5)) (at_pages q (S \<union> Q)) = {}"
      "\<forall>u. translate ?w ?hh u (kn_mmu k5) =
         Inr (case page_run (kernel_virt_start boot) (kernel_phys_start boot)
                (pages_of (kernel_virt_end boot - kernel_virt_start boot)) u of
            Some x \<Rightarrow> Some x | None \<Rightarrow> huge_run ?hh (huge_pages_of msize) u)"
    and hold: "\<forall>c l x. (B' |` (- dom X)) c = Some l \<longrightarrow> not_table ?hh T' c \<longrightarrow> x \<in> block_range c l \<longrightarrow>
         mu_mem (kn_mmu k5) x = mu_mem (kn_mmu k3) x"
    and cons: "kn_console k3 = None \<longrightarrow> kn_console k5 = None"
      "\<forall>w. kn_console k3 = Some w \<longrightarrow> (\<exists>w'. kn_console k5 = Some w' \<and>
         shows_text w' (mu_mem (kn_mmu k5)) (text_string (fw_rows w) (fw_cols w) boot_lines ?t))"
    using handover_returns [OF laws rdy rec3 Q con room] by (elim exE conjE) (rule that)
  have keeps: "kn_heap k5 = kn_heap k3 \<and> kn_processes k5 = kn_processes k3 \<and> kn_vmm k5 = kn_vmm k3"
    using handover_keeps [OF run4(1)] continue_keeps [OF run4(2)] by simp
  have main: "kernel_main p k = Inr k5" using run1 run2 run3 run4 by (simp add: kernel_main_def)
  have heap: "heap_in pool (kn_heap k5) (mu_mem (kn_mmu k5))"
  proof (rule heap_in_cong)
    show "heap_in pool (kn_heap k5) (mu_mem (kn_mmu k3))" using b keeps by simp
    have "(B' |` (- dom X)) pool = Some 10" using pool b by (auto simp: restrict_map_def)
    then show "mu_mem (kn_mmu k5) x = mu_mem (kn_mmu k3) x" if "x \<in> block_range pool 10" for x using hold nt that by blast
  qed
  have screen: "case framebuffer boot of None \<Rightarrow> kn_console k5 = None
       | Some f \<Rightarrow> (\<exists>w. kn_console k5 = Some w \<and> shows_text w (mu_mem (kn_mmu k5))
           (text_string (fi_height f div 16) (fi_width f div 8) boot_lines (blank_text f))) \<and>
           (\<forall>x\<in>fb_range f. translate ?w ?hh x (kn_mmu k5) = Inr (Some (x - ?hh)))"
  proof (cases "kn_console k3")
    case None
    then show ?thesis using some cons(1) by (cases "framebuffer boot") auto
  next
    case (Some w)
    from scr [OF this] obtain f where f: "framebuffer boot = Some f" "shows_text w (mu_mem (kn_mmu k3)) (blank_text f)"
      "fw_rows w = fi_height f div 16" "fw_cols w = fi_width f div 8" by blast
    have lay: "layout_ok ?hh (kernel_virt_start boot) (kernel_virt_end boot) (kernel_phys_start boot) msize" using me by blast
    have at: "fi_virt_addr f = ?hh + fi_phys_addr f" "fi_phys_addr f + fi_height f * fi_pitch f \<le> msize"
      using dev f(1) by (simp_all add: devices_ok_def)
    have "translate ?w ?hh x (kn_mmu k5) = Inr (Some (x - ?hh))" if "x \<in> fb_range f" for x
    proof -
      have "x - ?hh < msize" "?hh + (x - ?hh) = x" using that at by (auto simp: fb_range_def)
      then show ?thesis using direct_map_translated [OF lay, of "x - ?hh"] fin(3) by metis
    qed
    then show ?thesis using f cons(2) Some by simp
  qed
  have "a \<noteq> pool" using st(4) pool by auto
  then show ?thesis
    by (intro exI [of _ k5] exI [of _ a] exI [of _ pool] exI [of _ S] conjI main heap screen st(1-3,5) fin)
      (use keeps kn proc in auto)
qed

lemma kernel_main_pool_oom:
  assumes mach: "machine_ok p boot k" and mem: "memory_ok boot q U msize"
    and none: "\<not> (\<exists>i. 1024 dvd i \<and> {q + i..<q + i + 1024} \<subseteq> U)"
  shows "kernel_main p k = Inl (Expect ''TLSF init: buddy OOM'')"
proof -
  note mc = mach [unfolded machine_ok_def] and me = mem [unfolded memory_ok_def]
  have laws: "bitwise_laws (pl_bits p)" and fresh: "fresh_kernel k" and proc: "process_ok (pl_process p)"
    and harv: "harvest (pl_bits p) (pl_limine p) False = Inr (boot, True)" using mc by blast+
  have map: "memory_map_ok (hhdm_offset boot) (regions boot)"
    and ks: "kernel_phys_start boot + 4096 \<le> u64_max" "kernel_phys_end boot + 4096 \<le> u64_max"
      "kernel_phys_start boot div 4096 < (kernel_phys_end boot + 4095) div 4096"
    and U: "U = usable_pages (kernel_phys_start boot div 4096) ((kernel_phys_end boot + 4095) div 4096) (regions boot)"
    and q: "q = lowest_page (regions boot)" using me by blast+
  obtain ist where ist: "interrupt_stack_table (pl_stacks p) = Inr ist" using mc by blast
  have oom: "heap_init (pl_bits p) (regions boot) (kernel_phys_start boot) (kernel_phys_end boot) (hhdm_offset boot)
      (mu_mem (kn_mmu k), buddy_new, tlsf_new) = Inl (Expect ''TLSF init: buddy OOM'')"
    using heap_init_ok [OF laws map ks U q, of "mu_mem (kn_mmu k)"] unfolding if_not_P [OF none] .
  have "boot_early p k = Inl (Expect ''TLSF init: buddy OOM'')"
    by (rule boot_early_eq [OF fresh harv ist proc]) (simp add: oom)
  then show ?thesis by (simp add: kernel_main_def)
qed


subsection \<open>A machine that boots\<close>

text \<open>
  128 MiB of usable memory above 1 MiB with the kernel image inside, the boot loader's single, empty
  table below, a frame buffer of two by two characters, a local APIC, and the direct map at 0. The
  memory map ends below the local APIC's registers, so the page that \<open>map_lapic\<close> maps for them in
  the boot loader's tables is not mapped in the kernel's, and a later access to them faults.
\<close>

definition small_limine :: limine where
  "small_limine =
     \<lparr>hhdm_response = Some 0, kernel_address_response = Some (0x200000, 0x40000000),
      memmap_response = Some [\<lparr>le_base = 0x100000, le_length = 0x8000000, le_type = 0\<rparr>,
        \<lparr>le_base = 0x10000000, le_length = 0x3000, le_type = 5\<rparr>, \<lparr>le_base = 0x30000000, le_length = 0x1000, le_type = 7\<rparr>],
      framebuffer_response = Some [\<lparr>lf_address = 0x30000000, lf_width = 16, lf_height = 32, lf_pitch = 64, lf_bpp = 32,
        lf_red_mask_shift = 16, lf_green_mask_shift = 8, lf_blue_mask_shift = 0\<rparr>],
      rsdp_response = Some 0xE0000, bootloader_info_response = None,
      kernel_start_symbol = 0x40000000, kernel_end_symbol = 0x40002000,
      MEMMAP_USABLE = 0, MEMMAP_BOOTLOADER_RECLAIMABLE = 5, MEMMAP_ACPI_RECLAIMABLE = 2, MEMMAP_ACPI_NVS = 3,
      MEMMAP_EXECUTABLE_AND_MODULES = 6, MEMMAP_FRAMEBUFFER = 7, MEMMAP_BAD_MEMORY = 4\<rparr>"

definition small_platform :: "slab_cache platform" where
  "small_platform = demo_platform\<lparr>pl_limine := small_limine, pl_cpuid_edx := 0x200\<rparr>"

definition small_kernel :: "slab_cache kernel" where
  "small_kernel = (demo_kernel \<lparr>mu_mem = (\<lambda>_. 0), mu_frames = buddy_new, mu_cr3 = 0x40000, mu_pat = 0, mu_invlpg = []\<rparr> None)
     \<lparr>kn_harvested := False, kn_vmm := None\<rparr>"

definition small_regions :: "memory_region list" where
  "small_regions =
     [\<lparr>rg_base = 0x100000, rg_length = 0x8000000, rg_type = Usable\<rparr>,
      \<lparr>rg_base = 0x10000000, rg_length = 0x3000, rg_type = BootloaderReclaimable\<rparr>,
      \<lparr>rg_base = 0x30000000, rg_length = 0x1000, rg_type = Framebuffer_memory\<rparr>]"

definition small_fb :: framebuffer_info where
  "small_fb = tiny_info\<lparr>fi_virt_addr := 0x30000000, fi_phys_addr := 0x30000000\<rparr>"

definition small_tables :: table_map where
  "small_tables = (\<lambda>l p. if l = 4 \<and> p = 0 then Some 0x40000 else None)"

definition small_blocks :: "nat \<rightharpoonup> nat" where
  "small_blocks = [0x40000 \<mapsto> 0, 0x30000000 \<mapsto> 0]"

definition small_pages :: "nat set" where
  "small_pages = {256..<33024} - {512..<514}"

lemma small_harvest:
  obtains boot where "harvest x86_bits small_limine False = Inr (boot, True)" and "regions boot = small_regions"
    and "hhdm_offset boot = 0" and "kernel_phys_start boot = 0x200000" and "kernel_phys_end boot = 0x202000"
    and "kernel_virt_start boot = 0x40000000" and "kernel_virt_end boot = 0x40002000" and "framebuffer boot = Some small_fb"
proof -
  define r0 where "r0 = replicate MAX_REGIONS \<lparr>rg_base = 0, rg_length = 0, rg_type = Reserved\<rparr>"
  define es :: "limine_entry list" where "es = [\<lparr>le_base = 0x100000, le_length = 0x8000000, le_type = 0\<rparr>,
        \<lparr>le_base = 0x10000000, le_length = 0x3000, le_type = 5\<rparr>, \<lparr>le_base = 0x30000000, le_length = 0x1000, le_type = 7\<rparr>]"
  have r0: "length r0 = MAX_REGIONS" by (simp add: r0_def)
  from copy_entries_ok [OF r0, of 0 small_limine es] obtain rs n where c: "copy_entries small_limine es (r0, 0) = Inr (rs, n)"
    "take n rs = map (\<lambda>e. \<lparr>rg_base = le_base e, rg_length = le_length e, rg_type = classify small_limine (le_type e)\<rparr>)
      (take MAX_REGIONS es)" by auto
  have sel: "hhdm_response small_limine = Some 0" "kernel_address_response small_limine = Some (0x200000, 0x40000000)"
    "memmap_response small_limine = Some es" "kernel_end_symbol small_limine - kernel_start_symbol small_limine = 0x2000"
    "framebuffer_response small_limine = Some [\<lparr>lf_address = 0x30000000, lf_width = 16, lf_height = 32, lf_pitch = 64, lf_bpp = 32,
        lf_red_mask_shift = 16, lf_green_mask_shift = 8, lf_blue_mask_shift = 0\<rparr>]"
    by (simp_all add: small_limine_def es_def)
  have rg: "take n rs = small_regions"
    unfolding c(2) by (simp add: es_def small_regions_def classify_def small_limine_def MAX_REGIONS_def)
  have fb: "harvest_framebuffer 0 \<lparr>lf_address = 0x30000000, lf_width = 16, lf_height = 32, lf_pitch = 64, lf_bpp = 32,
        lf_red_mask_shift = 16, lf_green_mask_shift = 8, lf_blue_mask_shift = 0\<rparr> = Inr small_fb"
    by (simp add: harvest_framebuffer_def small_fb_def tiny_info_def u64_max_def)
  have up: "align_up x86_bits 0x202000 4096 = 0x202000" by (simp add: x86_bits_def)
  let ?b = "\<lparr>hhdm_offset = 0, kernel_phys_start = 0x200000, kernel_phys_end = 0x202000,
     kernel_virt_start = 0x40000000, kernel_virt_end = 0x40002000, region_array = rs, region_count = n,
     framebuffer = Some small_fb, rsdp_phys = map_option (\<lambda>a. a - 0) (rsdp_response small_limine),
     bootloader = map_option harvest_bootloader (bootloader_info_response small_limine)\<rparr>"
  have "harvest x86_bits small_limine False = Inr (?b, True)"
    unfolding harvest_def sel expect_some_def
    by (simp add: r0_def [symmetric] c(1) fb up u64_max_def)
  then show thesis by (rule that) (simp_all add: regions_def rg)
qed

lemma small_usable:
  "usable_list small_regions = [\<lparr>rg_base = 0x100000, rg_length = 0x8000000, rg_type = Usable\<rparr>]"
  "lowest_page small_regions = 256" "usable_pages 512 514 small_regions = small_pages"
proof -
  show u: "usable_list small_regions = [\<lparr>rg_base = 0x100000, rg_length = 0x8000000, rg_type = Usable\<rparr>]"
    by (simp add: usable_list_def small_regions_def)
  show "lowest_page small_regions = 256" by (simp add: lowest_page_def u first_page_def)
  show "usable_pages 512 514 small_regions = small_pages"
    by (simp add: usable_pages_def u region_pages_def first_page_def last_page_def small_pages_def)
qed

lemma small_tree:
  assumes "\<And>x. m x = 0"
  shows "pt_tree x86_bits 0 0x40000 small_tables m" and "no_huge x86_bits 0 small_tables v m"
proof -
  have e: "entry 0 m f i = 0" for f i by (simp add: entry_def ld_def assms)
  have p: "\<not> pte_is_present x86_bits 0" by (simp add: x86_bits_def)
  have "frame_ok 0 0x40000" by (simp add: frame_ok_def PAGE_SIZE_def u64_max_def phys_limit_def)
  then show "pt_tree x86_bits 0 0x40000 small_tables m"
    by (auto simp: pt_tree_def small_tables_def e p split: if_splits)
  show "no_huge x86_bits 0 small_tables v m" by (simp add: no_huge_def e p)
qed

lemma small_loader: "loader_tables x86_bits 0 small_pages small_blocks small_tables (kn_mmu small_kernel)"
proof -
  have "current_pml4 (kn_mmu small_kernel) = 0x40000"
    using and_not_mask [of "0x40000" 12] by (simp add: current_pml4_def small_kernel_def demo_kernel_def u64_max_def)
  moreover have "mu_mem (kn_mmu small_kernel) = (\<lambda>_. 0)" by (simp add: small_kernel_def demo_kernel_def)
  moreover have dm: "direct_map 0 small_pages \<subseteq> {0x100000..<0x8100000}"
  proof
    fix x
    assume "x \<in> direct_map 0 small_pages"
    then obtain i where "256 \<le> i" "i < 33024" "i * 4096 \<le> x" "x < (i + 1) * 4096"
      by (auto simp: direct_map_def small_pages_def)
    moreover from this have "256 * 4096 \<le> i * 4096" "(i + 1) * 4096 \<le> 33024 * 4096" by simp_all
    ultimately show "x \<in> {0x100000..<0x8100000}" by simp
  qed
  have br: "block_range a 0 = {a..<a + 4096}" for a by (simp add: block_range_def PAGE_SIZE_def)
  have "block_range a j \<inter> direct_map 0 small_pages = {}" if "small_blocks a = Some j" for a j
    using that dm by (force simp: small_blocks_def br split: if_splits)
  moreover have "block_range a j \<inter> block_range c l = {}" if "small_blocks a = Some j" "small_blocks c = Some l" "a \<noteq> c" for a j c l
    using that by (auto simp: small_blocks_def br split: if_splits)
  moreover have "holds_tables 0 small_tables small_blocks"
    by (simp add: holds_tables_def small_tables_def small_blocks_def)
  ultimately show ?thesis using small_tree(1) [of "\<lambda>_. 0"] by (simp add: loader_tables_def)
qed

lemma small_card: "card small_pages = 32766" and small_runs: "1030 < card (aligned_runs (at_pages 256 small_pages))"
proof -
  show "card small_pages = 32766" by (simp add: small_pages_def card_Diff_subset)
  have at: "at_pages 256 small_pages = {0..<32768} - {256, 257}" by (auto simp: at_pages_def small_pages_def)
  have "aligned_runs (at_pages 256 small_pages) \<subseteq> {0..<32768}" unfolding aligned_runs_def at by force
  then have fin: "finite (aligned_runs (at_pages 256 small_pages))" by (rule finite_subset) simp
  have "(\<lambda>j. 16 * (j + 17)) ` {..<1100} \<subseteq> aligned_runs (at_pages 256 small_pages)"
    unfolding aligned_runs_def at by auto
  from card_mono [OF fin this] have "card ((\<lambda>j::nat. 16 * (j + 17)) ` {..<1100}) \<le> card (aligned_runs (at_pages 256 small_pages))" .
  moreover have "card ((\<lambda>j::nat. 16 * (j + 17)) ` {..<1100}) = 1100" by (subst card_image) (auto intro: inj_onI)
  ultimately show "1030 < card (aligned_runs (at_pages 256 small_pages))" by simp
qed

lemma small_reclaim: "reclaimable_regions b = [\<lparr>rg_base = 0x10000000, rg_length = 0x3000, rg_type = BootloaderReclaimable\<rparr>]"
  "reclaim_pages (reclaimable_regions b) = {65536..<65539}" if "regions b = small_regions"
proof -
  show r: "reclaimable_regions b = [\<lparr>rg_base = 0x10000000, rg_length = 0x3000, rg_type = BootloaderReclaimable\<rparr>]"
    using that by (simp add: reclaimable_regions_def small_regions_def)
  show "reclaim_pages (reclaimable_regions b) = {65536..<65539}"
    unfolding r by (simp add: reclaim_pages_def first_page_def region_pages_def last_page_def)
qed


end
