(* ===== verification/Vga.thy ===== *)
theory Vga
  imports Loops
begin

text \<open>
  \<^verbatim>\<open>src/src/writers/vga_buffer.rs\<close>: the text-mode writer. The buffer is a list of rows of
  cells; every access is checked against its bounds as the array accesses of the source are.
\<close>

datatype color =
  Black | Blue | Green | Cyan | Red | Magenta | Brown | LightGray | DarkGray | LightBlue
  | LightGreen | LightCyan | LightRed | Pink | Yellow | White

fun color_u8 :: "color \<Rightarrow> u8" where
  "color_u8 Black = 0"
| "color_u8 Blue = 1"
| "color_u8 Green = 2"
| "color_u8 Cyan = 3"
| "color_u8 Red = 4"
| "color_u8 Magenta = 5"
| "color_u8 Brown = 6"
| "color_u8 LightGray = 7"
| "color_u8 DarkGray = 8"
| "color_u8 LightBlue = 9"
| "color_u8 LightGreen = 10"
| "color_u8 LightCyan = 11"
| "color_u8 LightRed = 12"
| "color_u8 Pink = 13"
| "color_u8 Yellow = 14"
| "color_u8 White = 15"

definition color_code_new :: "color \<Rightarrow> color \<Rightarrow> u8" where
  "color_code_new foreground background = push_bit 4 (color_u8 background) OR color_u8 foreground"

record screen_char =
  ascii_character :: u8
  char_color :: u8

definition BUFFER_HEIGHT :: nat where "BUFFER_HEIGHT = 25"
definition BUFFER_WIDTH :: nat where "BUFFER_WIDTH = 80"

record vga_writer =
  column_position :: nat
  color_code :: u8
  chars :: "screen_char list list"

definition cell_read :: "nat \<Rightarrow> nat \<Rightarrow> vga_writer \<Rightarrow> screen_char res" where
  "cell_read row col w = and_then (at_index (chars w) row) (\<lambda>r. at_index r col)"

definition cell_write :: "nat \<Rightarrow> nat \<Rightarrow> screen_char \<Rightarrow> vga_writer \<Rightarrow> vga_writer res" where
  "cell_write row col x w =
     and_then (at_index (chars w) row) (\<lambda>r.
     and_then (set_index r col x) (\<lambda>r. Inr (w\<lparr>chars := (chars w)[row := r]\<rparr>)))"

definition vga_clear_row :: "nat \<Rightarrow> vga_writer \<Rightarrow> vga_writer res" where
  "vga_clear_row row w =
     (let blank = \<lparr>ascii_character = 0x20, char_color = color_code w\<rparr>
      in for_range 0 BUFFER_WIDTH (\<lambda>col. cell_write row col blank) w)"

definition vga_new_line :: "vga_writer \<Rightarrow> vga_writer res" where
  "vga_new_line w =
     and_then
       (for_range 1 BUFFER_HEIGHT (\<lambda>row.
          for_range 0 BUFFER_WIDTH (\<lambda>col w.
            and_then (cell_read row col w) (\<lambda>character.
            and_then (checked_sub row 1) (\<lambda>up. cell_write up col character w)))) w) (\<lambda>w.
     and_then (vga_clear_row (BUFFER_HEIGHT - 1) w) (\<lambda>w.
     Inr (w\<lparr>column_position := 0\<rparr>)))"

definition vga_write_byte :: "u8 \<Rightarrow> vga_writer \<Rightarrow> vga_writer res" where
  "vga_write_byte byte w =
     (if byte = 0x0A then vga_new_line w
      else
        and_then (if column_position w \<ge> BUFFER_WIDTH then vga_new_line w else Inr w) (\<lambda>w.
        let row = BUFFER_HEIGHT - 1;
            col = column_position w
        in and_then (cell_write row col \<lparr>ascii_character = byte, char_color = color_code w\<rparr> w) (\<lambda>w.
           and_then (checked_add (column_position w) 1) (\<lambda>c.
           Inr (w\<lparr>column_position := c\<rparr>)))))"

definition vga_byte :: "u8 \<Rightarrow> u8" where
  "vga_byte byte = (if 0x20 \<le> byte \<and> byte \<le> 0x7E \<or> byte = 0x0A then byte else 0xFE)"

fun vga_write_string :: "u8 list \<Rightarrow> vga_writer \<Rightarrow> vga_writer res" where
  "vga_write_string [] w = Inr w"
| "vga_write_string (b # s) w = and_then (vga_write_byte (vga_byte b) w) (vga_write_string s)"

subsection \<open>Shape\<close>

definition vga_wf :: "vga_writer \<Rightarrow> bool" where
  "vga_wf w \<longleftrightarrow> length (chars w) = BUFFER_HEIGHT \<and> (\<forall>r\<in>set (chars w). length r = BUFFER_WIDTH) \<and>
     column_position w \<le> BUFFER_WIDTH"

lemma vga_sizes: "BUFFER_HEIGHT = 25" "BUFFER_WIDTH = 80"
  by (simp_all add: BUFFER_HEIGHT_def BUFFER_WIDTH_def)

lemma vga_row: "vga_wf w \<Longrightarrow> i < 25 \<Longrightarrow> length (chars w ! i) = 80"
  by (simp add: vga_wf_def vga_sizes)

lemma cell_write_ok:
  "vga_wf w \<Longrightarrow> row < 25 \<Longrightarrow> col < 80 \<Longrightarrow>
   cell_write row col x w = Inr (w\<lparr>chars := (chars w)[row := (chars w ! row)[col := x]]\<rparr>)"
  by (simp add: cell_write_def vga_wf_def vga_sizes)

lemma cell_read_ok: "vga_wf w \<Longrightarrow> row < 25 \<Longrightarrow> col < 80 \<Longrightarrow> cell_read row col w = Inr (chars w ! row ! col)"
  by (simp add: cell_read_def vga_wf_def vga_sizes)

text \<open>A row replaced by one of the same width.\<close>

lemma vga_wf_row:
  "vga_wf w \<Longrightarrow> length r = 80 \<Longrightarrow> vga_wf (w\<lparr>chars := (chars w)[i := r]\<rparr>)"
  by (auto simp: vga_wf_def vga_sizes dest!: set_update_subset_insert [THEN subsetD])

text \<open>Writing the cells of a row from left to right, from a source that does not change.\<close>

lemma fill_row:
  assumes w: "vga_wf w" and row: "row < 25" and xs: "length xs = 80"
    and step: "\<And>col w'. col < 80 \<Longrightarrow> vga_wf w' \<Longrightarrow> (\<forall>i<25. i \<noteq> row \<longrightarrow> chars w' ! i = chars w ! i) \<Longrightarrow>
      color_code w' = color_code w \<Longrightarrow> f col w' = cell_write row col (xs ! col) w'"
  shows "for_range 0 BUFFER_WIDTH f w = Inr (w\<lparr>chars := (chars w)[row := xs]\<rparr>)"
proof -
  let ?P = "\<lambda>k v. v = w\<lparr>chars := (chars w)[row := take k xs @ drop k (chars w ! row)]\<rparr>"
  have len: "length (chars w) = 25" "length (chars w ! row) = 80"
    using w row by (simp_all add: vga_wf_def vga_sizes)
  have "\<exists>v. for_range 0 BUFFER_WIDTH f w = Inr v \<and> ?P BUFFER_WIDTH v"
  proof (rule for_range_invariant)
    show "?P 0 w" by simp
  next
    fix k v
    assume k: "k < BUFFER_WIDTH" and v: "?P k v"
    have wf: "vga_wf v" unfolding v by (rule vga_wf_row [OF w]) (use k xs len in \<open>simp add: vga_sizes\<close>)
    have "f k v = cell_write row k (xs ! k) v"
      by (rule step [OF _ wf]) (use k v in \<open>simp_all add: vga_sizes\<close>)
    also have "\<dots> = Inr (v\<lparr>chars := (chars v)[row := (chars v ! row)[k := xs ! k]]\<rparr>)"
      by (rule cell_write_ok [OF wf row]) (use k in \<open>simp add: vga_sizes\<close>)
    finally have run: "f k v = Inr (v\<lparr>chars := (chars v)[row := (chars v ! row)[k := xs ! k]]\<rparr>)" .
    have "(take k xs @ drop k (chars w ! row))[k := xs ! k] = take (Suc k) xs @ drop (Suc k) (chars w ! row)"
      using k xs len by (auto simp: vga_sizes list_eq_iff_nth_eq nth_append nth_list_update min_def)
    then show "\<exists>v'. f k v = Inr v' \<and> ?P (Suc k) v'"
      using run row len unfolding v by simp
  qed simp
  then show ?thesis using xs len by (auto simp: vga_sizes)
qed

end
