(* ===== verification/Vga_Theorems.thy ===== *)
theory Vga_Theorems
  imports Vga
begin

text \<open>
  The text-mode writer shows the end of an unbounded page: the reference model \<open>page\<close> only appends
  rows, and the screen is always its last 25 rows. No access leaves the buffer.
\<close>

record page =
  scrolled :: "screen_char list list"
  current :: "screen_char list"
  page_col :: nat

definition blank :: "u8 \<Rightarrow> screen_char" where
  "blank c = \<lparr>ascii_character = 0x20, char_color = c\<rparr>"

definition page_newline :: "u8 \<Rightarrow> page \<Rightarrow> page" where
  "page_newline c p =
     p\<lparr>scrolled := scrolled p @ [current p], current := replicate 80 (blank c), page_col := 0\<rparr>"

definition page_byte :: "u8 \<Rightarrow> u8 \<Rightarrow> page \<Rightarrow> page" where
  "page_byte c b p =
     (if b = 0x0A then page_newline c p
      else
        let p = (if 80 \<le> page_col p then page_newline c p else p)
        in p\<lparr>current := (current p)[page_col p := \<lparr>ascii_character = b, char_color = c\<rparr>],
             page_col := page_col p + 1\<rparr>)"

definition page_string :: "u8 \<Rightarrow> u8 list \<Rightarrow> page \<Rightarrow> page" where
  "page_string c s = fold (\<lambda>b. page_byte c (vga_byte b)) s"

definition shows_page :: "vga_writer \<Rightarrow> page \<Rightarrow> bool" where
  "shows_page w p \<longleftrightarrow> 24 \<le> length (scrolled p) \<and>
     chars w = drop (length (scrolled p) - 24) (scrolled p) @ [current p] \<and> column_position w = page_col p"

lemma clear_row_ok:
  assumes w: "vga_wf w" and row: "row < 25"
  shows "vga_clear_row row w = Inr (w\<lparr>chars := (chars w)[row := replicate 80 (blank (color_code w))]\<rparr>)"
  unfolding vga_clear_row_def Let_def blank_def
  by (rule fill_row [OF w row]) simp_all

text \<open>The rows move up one by one; the rows below the loop's position are still the old ones.\<close>

lemma scroll_rows:
  assumes w: "vga_wf w"
  shows "for_range 1 BUFFER_HEIGHT (\<lambda>row.
      for_range 0 BUFFER_WIDTH (\<lambda>col w.
        and_then (cell_read row col w) (\<lambda>character.
        and_then (checked_sub row 1) (\<lambda>up. cell_write up col character w)))) w =
    Inr (w\<lparr>chars := tl (chars w) @ [last (chars w)]\<rparr>)" (is "for_range 1 _ ?f w = _")
proof -
  have len: "length (chars w) = 25" using w by (simp add: vga_wf_def vga_sizes)
  let ?P = "\<lambda>k v. v = w\<lparr>chars := take (k - 1) (tl (chars w)) @ drop (k - 1) (chars w)\<rparr>"
  have "\<exists>v. for_range 1 BUFFER_HEIGHT ?f w = Inr v \<and> ?P BUFFER_HEIGHT v"
  proof (rule for_range_invariant)
    fix k v
    assume k: "1 \<le> k" "k < BUFFER_HEIGHT" and v: "?P k v"
    have k25: "k < 25" using k by (simp add: vga_sizes)
    have mem: "set (take (k - 1) (tl (chars w)) @ drop (k - 1) (chars w)) \<subseteq> set (chars w)"
      by (metis Un_subset_iff list.set_sel(2) set_append set_drop_subset set_take_subset subset_trans tl_Nil subsetI)
    have wf: "vga_wf v"
      using w k25 mem unfolding v by (auto simp: vga_wf_def vga_sizes min_def)
    have vk: "chars v ! k = chars w ! k"
    proof -
      obtain j where j: "k = Suc j" using k(1) by (cases k) auto
      then have "length (take j (tl (chars w))) = j" using k25 len by simp
      then show ?thesis using k25 len unfolding v j by (simp add: nth_append)
    qed
    have "?f k v = Inr (v\<lparr>chars := (chars v)[k - 1 := chars w ! k]\<rparr>)"
    proof (rule fill_row [OF wf])
      show "k - 1 < 25" "length (chars w ! k) = 80" using k25 vga_row [OF w] by auto
      fix col :: nat and v'
      assume c: "col < 80" and wf': "vga_wf v'" and keep: "\<forall>i<25. i \<noteq> k - 1 \<longrightarrow> chars v' ! i = chars v ! i"
      have "chars v' ! k = chars w ! k" using keep k k25 vk by simp
      then show "and_then (cell_read k col v') (\<lambda>character.
          and_then (checked_sub k 1) (\<lambda>up. cell_write up col character v')) = cell_write (k - 1) col (chars w ! k ! col) v'"
        using cell_read_ok [OF wf' k25 c] k by simp
    qed
    moreover have "(chars v)[k - 1 := chars w ! k] = take (Suc k - 1) (tl (chars w)) @ drop (Suc k - 1) (chars w)"
    proof -
      obtain j where j: "k = Suc j" using k(1) by (cases k) auto
      have "j < length (tl (chars w))" "j < length (chars w)" using j k25 len by auto
      then have "take (Suc j) (tl (chars w)) = take j (tl (chars w)) @ [chars w ! k]"
        "drop j (chars w) = chars w ! j # drop (Suc j) (chars w)" "length (take j (tl (chars w))) = j"
        using j by (simp_all add: take_Suc_conv_app_nth nth_tl Cons_nth_drop_Suc)
      then show ?thesis unfolding v j by (simp add: list_update_append)
    qed
    ultimately show "\<exists>v'. ?f k v = Inr v' \<and> ?P (Suc k) v'" unfolding v by simp
  next
    show "?P 1 w" by simp
  next
    show "1 \<le> BUFFER_HEIGHT" by (simp add: vga_sizes)
  qed
  then obtain v where v: "for_range 1 BUFFER_HEIGHT ?f w = Inr v" "?P BUFFER_HEIGHT v" by blast
  have "drop 24 (chars w) = [last (chars w)]"
  proof -
    have "chars w = butlast (chars w) @ [last (chars w)]" using len by (cases "chars w" rule: rev_cases) auto
    then have "drop 24 (chars w) = drop 24 (butlast (chars w) @ [last (chars w)])" by simp
    also have "\<dots> = [last (chars w)]" using len by simp
    finally show ?thesis .
  qed
  then show ?thesis using v len by (simp add: vga_sizes)
qed

lemma new_line_ok:
  assumes w: "vga_wf w"
  shows "vga_new_line w = Inr (w\<lparr>chars := tl (chars w) @ [replicate 80 (blank (color_code w))], column_position := 0\<rparr>)"
proof -
  have len: "length (chars w) = 25" using w by (simp add: vga_wf_def vga_sizes)
  let ?v = "w\<lparr>chars := tl (chars w) @ [last (chars w)]\<rparr>"
  have "set (tl (chars w)) \<subseteq> set (chars w)" "last (chars w) \<in> set (chars w)"
    using len last_in_set [of "chars w"] by (cases "chars w", auto)+
  then have wf: "vga_wf ?v" using w by (auto simp: vga_wf_def vga_sizes)
  have "(tl (chars w) @ [last (chars w)])[24 := r] = tl (chars w) @ [r]" for r
    using len by (simp add: list_update_append)
  then show ?thesis
    using clear_row_ok [OF wf, of 24] unfolding vga_new_line_def scroll_rows [OF w] by (simp add: vga_sizes)
qed


lemma page_newline_shown:
  assumes w: "vga_wf w" and sh: "shows_page w p"
  shows "\<exists>w'. vga_new_line w = Inr w' \<and> vga_wf w' \<and> color_code w' = color_code w \<and>
    shows_page w' (page_newline (color_code w) p)"
proof -
  let ?w = "w\<lparr>chars := tl (chars w) @ [replicate 80 (blank (color_code w))], column_position := 0\<rparr>"
  have len: "length (chars w) = 25" using w by (simp add: vga_wf_def vga_sizes)
  have "set (tl (chars w)) \<subseteq> set (chars w)" by (cases "chars w") auto
  then have "vga_wf ?w" using w by (auto simp: vga_wf_def vga_sizes)
  moreover have "shows_page ?w (page_newline (color_code w) p)"
  proof -
    obtain n where n: "length (scrolled p) = n + 24"
      using sh by (metis add.commute le_Suc_ex shows_page_def)
    have "drop (Suc n) (scrolled p @ [current p]) = tl (drop n (scrolled p @ [current p]))"
      by (simp only: drop_Suc tl_drop)
    also have "drop n (scrolled p @ [current p]) = drop n (scrolled p) @ [current p]" using n by simp
    finally have "drop (length (scrolled p @ [current p]) - 24) (scrolled p @ [current p]) =
        tl (drop (length (scrolled p) - 24) (scrolled p) @ [current p])" using n by simp
    then show ?thesis using sh by (simp add: shows_page_def page_newline_def)
  qed
  ultimately show ?thesis using new_line_ok [OF w] by simp
qed

lemma page_byte_shown:
  assumes w: "vga_wf w" and sh: "shows_page w p"
  shows "\<exists>w'. vga_write_byte b w = Inr w' \<and> vga_wf w' \<and> color_code w' = color_code w \<and>
    shows_page w' (page_byte (color_code w) b p)"
proof (cases "b = 0x0A")
  case True
  then show ?thesis using page_newline_shown [OF assms] by (simp add: vga_write_byte_def page_byte_def)
next
  case False
  let ?c = "color_code w"
  have "\<exists>v q. (if column_position w \<ge> BUFFER_WIDTH then vga_new_line w else Inr w) = Inr v \<and>
      q = (if 80 \<le> page_col p then page_newline ?c p else p) \<and> vga_wf v \<and> color_code v = ?c \<and>
      shows_page v q \<and> page_col q < 80"
  proof (cases "80 \<le> page_col p")
    case True
    then show ?thesis using page_newline_shown [OF assms] sh
      by (auto simp: shows_page_def vga_sizes page_newline_def)
  next
    case False
    then show ?thesis using assms by (auto simp: shows_page_def vga_sizes)
  qed
  then obtain v q where v: "(if column_position w \<ge> BUFFER_WIDTH then vga_new_line w else Inr w) = Inr v"
    and q: "q = (if 80 \<le> page_col p then page_newline ?c p else p)" and wf: "vga_wf v" and c: "color_code v = ?c"
    and shv: "shows_page v q" and col: "page_col q < 80" by blast
  let ?cell = "\<lparr>ascii_character = b, char_color = ?c\<rparr>"
  let ?v = "v\<lparr>chars := (chars v)[24 := (chars v ! 24)[page_col q := ?cell]], column_position := page_col q + 1\<rparr>"
  have cp: "column_position v = page_col q" using shv by (simp add: shows_page_def)
  have len: "length (drop (length (scrolled q) - 24) (scrolled q)) = 24" using shv by (simp add: shows_page_def)
  have run: "vga_write_byte b w = Inr ?v"
    using False v col wf cp c u32_max_le
    by (simp add: vga_write_byte_def cell_write_ok vga_sizes u64_max_def split del: if_split)
  have wf': "vga_wf ?v"
    using vga_wf_row [OF wf, of "(chars v ! 24)[page_col q := ?cell]" 24] vga_row [OF wf, of 24] col
    by (simp add: vga_wf_def vga_sizes)
  have row24: "chars v ! 24 = current q"
    using shv len by (metis nth_append_length shows_page_def)
  have "shows_page ?v (page_byte ?c b p)"
    using shv False len unfolding row24 page_byte_def q [symmetric] Let_def
    by (simp add: shows_page_def list_update_append)
  then show ?thesis using run wf' c by auto
qed

text \<open>
  C33. Printing a string never leaves the buffer or panics and shows the page of the unbounded
  reference model: the screen stays its last 25 rows, with every byte that is neither printable
  ASCII nor a newline replaced by \<open>0xFE\<close>.
\<close>

theorem vga_refines_page:
  assumes "vga_wf w" and "shows_page w p"
  shows "\<exists>w'. vga_write_string s w = Inr w' \<and> vga_wf w' \<and> shows_page w' (page_string (color_code w) s p)"
proof -
  have "\<exists>w'. vga_write_string s w = Inr w' \<and> vga_wf w' \<and> color_code w' = color_code w \<and>
      shows_page w' (page_string (color_code w) s p)"
    using assms
  proof (induction s arbitrary: w p)
    case Nil
    then show ?case by (simp add: page_string_def)
  next
    case (Cons b s)
    from page_byte_shown [OF Cons.prems, of "vga_byte b"] obtain v where
      v: "vga_write_byte (vga_byte b) w = Inr v" "vga_wf v" "color_code v = color_code w"
        "shows_page v (page_byte (color_code w) (vga_byte b) p)" by blast
    from Cons.IH [OF v(2,4)] v(1,3) show ?case by (simp add: page_string_def)
  qed
  then show ?thesis by blast
qed

theorem vga_refines_page_witness:
  "\<exists>w'. vga_write_string [0x48, 0x69] \<lparr>column_position = 0, color_code = color_code_new Yellow Black,
       chars = replicate 25 (replicate 80 (blank 14))\<rparr> = Inr w' \<and>
     chars w' ! 24 ! 0 = \<lparr>ascii_character = 0x48, char_color = 14\<rparr> \<and>
     chars w' ! 24 ! 1 = \<lparr>ascii_character = 0x69, char_color = 14\<rparr>"
proof -
  let ?w = "\<lparr>column_position = 0, color_code = color_code_new Yellow Black, chars = replicate 25 (replicate 80 (blank 14))\<rparr>"
  let ?p = "\<lparr>scrolled = replicate 24 (replicate 80 (blank 14)), current = replicate 80 (blank 14), page_col = 0\<rparr>"
  have c: "color_code_new Yellow Black = 14" by (simp add: color_code_new_def)
  have wf: "vga_wf ?w" by (simp add: vga_wf_def vga_sizes)
  have sh: "shows_page ?w ?p" by (simp add: shows_page_def replicate_append_same flip: replicate_Suc)
  from vga_refines_page [OF wf sh, of "[0x48, 0x69]"] obtain w' where
    w': "vga_write_string [0x48, 0x69] ?w = Inr w'" "shows_page w' (page_string (color_code ?w) [0x48, 0x69] ?p)" by blast
  have "chars w' ! 24 = current (page_string (color_code ?w) [0x48, 0x69] ?p)"
    using w'(2) by (auto simp: shows_page_def nth_append)
  then show ?thesis
    using w'(1) by (simp add: page_string_def page_byte_def vga_byte_def c)
qed

end
