(* ===== verification/Os_Constants.thy ===== *)
theory Os_Constants
  imports Prelude
begin

text \<open>
  \<^verbatim>\<open>src/src/os_constants.rs\<close>: the architecture-neutral enumerations and their \<open>const\<close> functions.
  Each enumeration is a datatype with the source's variants (a variant whose name another theory
  uses carries the enumeration's name), each \<open>const fn\<close> a function on it. Where the source derives
  \<open>Ord\<close>, the type is an instance of \<open>linorder\<close> ordered by the position of the variant. The
  \<open>cfg\<close> attributes are the argument \<open>target_cfg\<close>. Addresses are 64-bit words, as the code masks
  them.
\<close>

subsection \<open>Architectures\<close>

datatype endianness = Little | Big

datatype architecture =
  X86 | X86_64 | Arm | ArmHf | Aarch64 | RiscV32 | RiscV64 | Mips | MipsEl | Mips64 | Mips64El
  | PowerPc | PowerPc64 | PowerPc64Le | S390x | M68k | Sparc64 | LoongArch64 | Wasm32 | Wasm64

fun triple_prefix :: "architecture \<Rightarrow> string" where
  "triple_prefix X86 = ''i686''"
| "triple_prefix X86_64 = ''x86_64''"
| "triple_prefix Arm = ''arm''"
| "triple_prefix ArmHf = ''armv7''"
| "triple_prefix Aarch64 = ''aarch64''"
| "triple_prefix RiscV32 = ''riscv32''"
| "triple_prefix RiscV64 = ''riscv64''"
| "triple_prefix Mips = ''mips''"
| "triple_prefix MipsEl = ''mipsel''"
| "triple_prefix Mips64 = ''mips64''"
| "triple_prefix Mips64El = ''mips64el''"
| "triple_prefix PowerPc = ''powerpc''"
| "triple_prefix PowerPc64 = ''powerpc64''"
| "triple_prefix PowerPc64Le = ''powerpc64le''"
| "triple_prefix S390x = ''s390x''"
| "triple_prefix M68k = ''m68k''"
| "triple_prefix Sparc64 = ''sparc64''"
| "triple_prefix LoongArch64 = ''loongarch64''"
| "triple_prefix Wasm32 = ''wasm32''"
| "triple_prefix Wasm64 = ''wasm64''"

definition pointer_width :: "architecture \<Rightarrow> nat" where
  "pointer_width a =
     (if a \<in> {X86, Arm, ArmHf, RiscV32, Mips, MipsEl, PowerPc, M68k, Wasm32} then 32 else 64)"

definition is_bi_endian :: "architecture \<Rightarrow> bool" where
  "is_bi_endian a \<longleftrightarrow>
     a \<in> {Arm, ArmHf, Mips, MipsEl, Mips64, Mips64El, PowerPc, PowerPc64, PowerPc64Le, Sparc64}"

definition endianness_of :: "architecture \<Rightarrow> endianness" where
  "endianness_of a =
     (if a \<in> {Mips, Mips64, PowerPc, PowerPc64, S390x, Sparc64, M68k} then Big else Little)"

text \<open>What the compiler reports of its target: \<open>target_arch\<close>, \<open>target_endian\<close> and the feature
  \<open>vfp2\<close>.\<close>

record target_cfg =
  target_arch :: string
  target_endian :: endianness
  target_vfp2 :: bool

definition current :: "target_cfg \<Rightarrow> architecture option" where
  "current t =
     (let arch = target_arch t; big = (target_endian t = Big)
      in if arch = ''x86'' then Some X86
         else if arch = ''x86_64'' then Some X86_64
         else if arch = ''arm'' \<and> target_vfp2 t then Some ArmHf
         else if arch = ''arm'' \<and> \<not> target_vfp2 t then Some Arm
         else if arch = ''aarch64'' then Some Aarch64
         else if arch = ''riscv32'' then Some RiscV32
         else if arch = ''riscv64'' then Some RiscV64
         else if arch = ''mips'' \<and> big then Some Mips
         else if arch = ''mips'' \<and> \<not> big then Some MipsEl
         else if arch = ''mips64'' \<and> big then Some Mips64
         else if arch = ''mips64'' \<and> \<not> big then Some Mips64El
         else if arch = ''powerpc'' then Some PowerPc
         else if arch = ''powerpc64'' \<and> big then Some PowerPc64
         else if arch = ''powerpc64'' \<and> \<not> big then Some PowerPc64Le
         else if arch = ''s390x'' then Some S390x
         else if arch = ''m68k'' then Some M68k
         else if arch = ''loongarch64'' then Some LoongArch64
         else if arch = ''wasm32'' then Some Wasm32
         else if arch = ''wasm64'' then Some Wasm64
         else None)"

definition native :: "target_cfg \<Rightarrow> endianness" where
  "native t = target_endian t"

definition is_little :: "endianness \<Rightarrow> bool" where "is_little e \<longleftrightarrow> e = Little"
definition is_big :: "endianness \<Rightarrow> bool" where "is_big e \<longleftrightarrow> e = Big"

datatype register_width = Bits8 | Bits16 | Bits32 | Bits64 | Bits128

fun bits :: "register_width \<Rightarrow> nat" where
  "bits Bits8 = 8"
| "bits Bits16 = 16"
| "bits Bits32 = 32"
| "bits Bits64 = 64"
| "bits Bits128 = 128"

definition register_bytes :: "register_width \<Rightarrow> nat" where "register_bytes r = bits r div 8"

text \<open>Distinct variants have distinct triples, and no variant has two byte orders.\<close>

lemma triple_prefix_inj: "triple_prefix a = triple_prefix b \<longleftrightarrow> a = b"
  by (cases a; cases b) simp_all

lemma is_big_not_little: "is_big e \<longleftrightarrow> \<not> is_little e"
  by (cases e) (simp_all add: is_big_def is_little_def)

text \<open>
  \<open>current\<close> reads \<open>target_endian\<close> for three architectures only: on a big-endian ARM target it
  names a variant whose byte order is little. It has no line for \<open>sparc64\<close>, although the
  enumeration has that variant.
\<close>

lemma current_byte_order:
  assumes "current t = Some a" and "target_arch t \<in> {''mips'', ''mips64'', ''powerpc64''}"
  shows "endianness_of a = native t"
  using assms by (cases "target_endian t") (auto simp: current_def Let_def endianness_of_def native_def)

lemma current_arm_big_endian:
  assumes "target_arch t \<in> {''arm'', ''aarch64''}" and "target_endian t = Big"
  shows "\<exists>a. current t = Some a \<and> endianness_of a \<noteq> native t"
  using assms by (auto simp: current_def Let_def endianness_of_def native_def)

lemma current_sparc64: "target_arch t = ''sparc64'' \<Longrightarrow> current t = None"
  by (simp add: current_def Let_def)

subsection \<open>Boot protocols and firmware\<close>

datatype boot_protocol =
  Limine | Multiboot1 | Multiboot2 | EfiStub | LinuxBoot | UBoot | Bare | Unknown_protocol

datatype firmware_kind = Uefi | Bios | OpenFirmware | DeviceTree | Acpi | No_firmware

datatype entry_mode =
  RealMode | ProtectedMode | ProtectedModePaged | LongMode | AArch64El1 | AArch64El2
  | RiscVSupervisor | RiscVMachine

subsection \<open>Page sizes\<close>

datatype page_size = Kib4 | Kib16 | Kib64 | Mib2 | Gib1

fun page_bytes_of :: "page_size \<Rightarrow> u64" where
  "page_bytes_of Kib4 = 4 * 1024"
| "page_bytes_of Kib16 = 16 * 1024"
| "page_bytes_of Kib64 = 64 * 1024"
| "page_bytes_of Mib2 = 2 * 1024 * 1024"
| "page_bytes_of Gib1 = 1 * 1024 * 1024 * 1024"

fun page_shift :: "page_size \<Rightarrow> nat" where
  "page_shift Kib4 = 12"
| "page_shift Kib16 = 14"
| "page_shift Kib64 = 16"
| "page_shift Mib2 = 21"
| "page_shift Gib1 = 30"

definition page_mask :: "page_size \<Rightarrow> u64" where
  "page_mask p = page_bytes_of p - 1"

definition page_is_aligned :: "page_size \<Rightarrow> u64 \<Rightarrow> bool" where
  "page_is_aligned p addr \<longleftrightarrow> addr AND page_mask p = 0"

definition page_align_down :: "page_size \<Rightarrow> u64 \<Rightarrow> u64" where
  "page_align_down p addr = addr AND NOT (page_mask p)"

text \<open>\<open>u64::checked_add\<close>: \<open>None\<close> where the sum wraps.\<close>

definition checked_add_u64 :: "u64 \<Rightarrow> u64 \<Rightarrow> u64 option" where
  "checked_add_u64 a b = (if a + b < a then None else Some (a + b))"

definition page_align_up :: "page_size \<Rightarrow> u64 \<Rightarrow> u64 option" where
  "page_align_up p addr =
     (let mask = page_mask p in map_option (\<lambda>a. a AND NOT mask) (checked_add_u64 addr mask))"

definition KIB :: u64 where "KIB = 1024"
definition MIB :: u64 where "MIB = 1024 * KIB"
definition GIB :: u64 where "GIB = 1024 * MIB"
definition TIB :: u64 where "TIB = 1024 * GIB"

definition PAGE_SIZE_4K :: u64 where "PAGE_SIZE_4K = page_bytes_of Kib4"
definition PAGE_SIZE_2M :: u64 where "PAGE_SIZE_2M = page_bytes_of Mib2"
definition PAGE_SIZE_1G :: u64 where "PAGE_SIZE_1G = page_bytes_of Gib1"

definition X86_64_HHDM_DEFAULT :: u64 where "X86_64_HHDM_DEFAULT = 0xffff800000000000"
definition X86_64_MAX_PHYS_4LEVEL :: u64 where "X86_64_MAX_PHYS_4LEVEL = push_bit 46 1"
definition X86_64_MAX_PHYS_5LEVEL :: u64 where "X86_64_MAX_PHYS_5LEVEL = push_bit 52 1"

subsubsection \<open>Sizes are powers of two, ordered as the variants\<close>

fun page_size_rank :: "page_size \<Rightarrow> nat" where
  "page_size_rank Kib4 = 0"
| "page_size_rank Kib16 = 1"
| "page_size_rank Kib64 = 2"
| "page_size_rank Mib2 = 3"
| "page_size_rank Gib1 = 4"

lemma page_size_rank_inj: "page_size_rank p = page_size_rank q \<Longrightarrow> p = q"
  by (cases p; cases q) simp_all

instantiation page_size :: linorder
begin

definition less_eq_page_size :: "page_size \<Rightarrow> page_size \<Rightarrow> bool" where
  "p \<le> q \<longleftrightarrow> page_size_rank p \<le> page_size_rank q"

definition less_page_size :: "page_size \<Rightarrow> page_size \<Rightarrow> bool" where
  "p < q \<longleftrightarrow> page_size_rank p < page_size_rank q"

instance
  by standard (auto simp: less_eq_page_size_def less_page_size_def dest: page_size_rank_inj)

end

lemma page_bytes_pow2: "unat (page_bytes_of p) = 2 ^ page_shift p"
  by (cases p) simp_all

lemma page_mask_eq: "page_mask p = mask (page_shift p)"
  by (cases p) (simp_all add: page_mask_def mask_eq_exp_minus_1)

lemma page_order: "p < q \<longleftrightarrow> page_bytes_of p < page_bytes_of q"
  by (cases p; cases q) (simp_all add: less_page_size_def)

lemma page_align_down_unat: "unat (page_align_down p a) = unat a div 2 ^ page_shift p * 2 ^ page_shift p"
  unfolding page_align_down_def page_mask_eq word_and_not_mask by (simp add: minus_mod_eq_div_mult)

lemma page_is_aligned_iff: "page_is_aligned p a \<longleftrightarrow> 2 ^ page_shift p dvd unat a"
proof -
  have "unat (a AND mask (page_shift p)) = unat a mod 2 ^ page_shift p"
    by (simp flip: take_bit_eq_mask add: unsigned_take_bit_eq) (simp add: take_bit_eq_mod)
  then show ?thesis
    unfolding page_is_aligned_def page_mask_eq by (metis dvd_eq_mod_eq_0 unat_eq_zero)
qed

lemma checked_add_u64_iff: "checked_add_u64 a b = (if unat a + unat b \<le> u64_max then Some (a + b) else None)"
proof -
  have "a \<le> a + b \<longleftrightarrow> unat a + unat b \<le> u64_max"
    using no_olen_add_nat [of a b] by (simp add: u64_max_def less_eq_Suc_le [symmetric] less_Suc_eq_le [symmetric])
  then show ?thesis by (simp add: checked_add_u64_def not_le [symmetric])
qed

lemma page_mask_unat: "unat (page_mask p) = 2 ^ page_shift p - 1"
  by (cases p) (simp_all add: page_mask_def)

lemma round_up_nat:
  fixes n a :: nat
  assumes "0 < n"
  shows "n dvd (a + (n - 1)) div n * n" and "a \<le> (a + (n - 1)) div n * n"
    and "n dvd m \<Longrightarrow> a \<le> m \<Longrightarrow> (a + (n - 1)) div n * n \<le> m"
proof -
  show "n dvd (a + (n - 1)) div n * n" by simp
  have "(a + (n - 1)) mod n \<le> n - 1" using assms by (simp add: Suc_leI less_Suc_eq_le [symmetric])
  then show "a \<le> (a + (n - 1)) div n * n" using div_mult_mod_eq [of "a + (n - 1)" n] by linarith
  assume "n dvd m" "a \<le> m"
  then obtain k where k: "m = k * n" by (metis dvdE mult.commute)
  have "(a + (n - 1)) div n \<le> (k * n + (n - 1)) div n" using k \<open>a \<le> m\<close> by (intro div_le_mono) simp
  also have "\<dots> = k" using assms by (subst div_mult_self3) simp_all
  finally have "(a + (n - 1)) div n * n \<le> k * n" by (rule mult_right_mono) simp
  then show "(a + (n - 1)) div n * n \<le> m" unfolding k .
qed

lemma page_align_up_cases:
  "page_align_up p a =
     (if unat a + (2 ^ page_shift p - 1) \<le> u64_max then Some (page_align_down p (a + page_mask p)) else None)"
  by (simp add: page_align_up_def page_align_down_def Let_def checked_add_u64_iff page_mask_unat)

text \<open>
  C28. The masks of \<open>PageSize\<close> compute with the size as a number: the size is two to the shift,
  \<open>is_aligned\<close> is divisibility, \<open>align_down\<close> gives the largest multiple not above the address and
  \<open>align_up\<close> the least one not below it. \<open>align_up\<close> returns \<open>None\<close> exactly when that multiple is
  \<open>2^64\<close>, and the derived order of the variants is the order of their sizes.
\<close>

theorem page_size_alignment:
  "unat (page_bytes_of p) = 2 ^ page_shift p \<and>
   (page_is_aligned p a \<longleftrightarrow> unat (page_bytes_of p) dvd unat a) \<and>
   is_arg_max unat (\<lambda>b. page_is_aligned p b \<and> b \<le> a) (page_align_down p a) \<and>
   (case page_align_up p a of
      Some b \<Rightarrow> is_arg_min unat (\<lambda>b. page_is_aligned p b \<and> a \<le> b) b
    | None \<Rightarrow> 2 ^ 64 - unat (page_bytes_of p) < unat a) \<and>
   (p < q \<longleftrightarrow> page_bytes_of p < page_bytes_of q)"
proof (intro conjI)
  let ?n = "2 ^ page_shift p :: nat"
  have n: "0 < ?n" "?n < 2 ^ 64" by simp (cases p; simp)
  show "unat (page_bytes_of p) = ?n" by (rule page_bytes_pow2)
  show "page_is_aligned p a \<longleftrightarrow> unat (page_bytes_of p) dvd unat a" unfolding page_bytes_pow2 by (rule page_is_aligned_iff)
  show "p < q \<longleftrightarrow> page_bytes_of p < page_bytes_of q" by (rule page_order)
  have "unat b \<le> unat (page_align_down p a)" if "page_is_aligned p b" "b \<le> a" for b
  proof -
    from that obtain k where k: "unat b = k * ?n" unfolding page_is_aligned_iff by (metis dvdE mult.commute)
    have "k * ?n div ?n \<le> unat a div ?n" using that k by (intro div_le_mono) (simp add: word_le_nat_alt)
    then show ?thesis using k by (simp add: page_align_down_unat)
  qed
  then show "is_arg_max unat (\<lambda>b. page_is_aligned p b \<and> b \<le> a) (page_align_down p a)"
    by (auto simp: is_arg_max_linorder page_is_aligned_iff page_align_down_unat word_le_nat_alt)
  show "case page_align_up p a of
      Some b \<Rightarrow> is_arg_min unat (\<lambda>b. page_is_aligned p b \<and> a \<le> b) b
    | None \<Rightarrow> 2 ^ 64 - unat (page_bytes_of p) < unat a"
  proof (cases "unat a + (?n - 1) \<le> u64_max")
    case True
    then have s: "unat (a + page_mask p) = unat a + (?n - 1)"
      by (simp add: unat_add_lem [THEN iffD1] page_mask_unat u64_max_def)
    show ?thesis
      unfolding page_align_up_cases if_P [OF True] option.case is_arg_min_linorder page_is_aligned_iff
        page_align_down_unat word_le_nat_alt s
      using round_up_nat [OF n(1)] by blast
  next
    case False
    have "2 ^ 64 - N < unat a" if "0 < N" "N < 2 ^ 64" "\<not> unat a + (N - 1) \<le> u64_max" for N :: nat
      using that by (simp add: u64_max_def)
    then have "2 ^ 64 - ?n < unat a" using n False by blast
    then show ?thesis unfolding page_align_up_cases if_not_P [OF False] option.case page_bytes_pow2 .
  qed
qed

subsection \<open>Memory regions, caching and protection\<close>

datatype memory_region_kind =
  Usable_memory | Bootloader_reclaimable | Acpi_reclaimable | Acpi_nvs | Kernel_and_modules
  | Framebuffer_range | Mmio_range | Persistent | Bad_memory | Reserved_memory

definition kind_immediately_usable :: "memory_region_kind \<Rightarrow> bool" where
  "kind_immediately_usable k \<longleftrightarrow> k = Usable_memory"

definition kind_reclaimable :: "memory_region_kind \<Rightarrow> bool" where
  "kind_reclaimable k \<longleftrightarrow> k \<in> {Bootloader_reclaimable, Acpi_reclaimable}"

definition kind_reserved :: "memory_region_kind \<Rightarrow> bool" where
  "kind_reserved k \<longleftrightarrow> \<not> kind_immediately_usable k \<and> \<not> kind_reclaimable k"

fun region_kind_rank :: "memory_region_kind \<Rightarrow> nat" where
  "region_kind_rank Usable_memory = 0"
| "region_kind_rank Bootloader_reclaimable = 1"
| "region_kind_rank Acpi_reclaimable = 2"
| "region_kind_rank Acpi_nvs = 3"
| "region_kind_rank Kernel_and_modules = 4"
| "region_kind_rank Framebuffer_range = 5"
| "region_kind_rank Mmio_range = 6"
| "region_kind_rank Persistent = 7"
| "region_kind_rank Bad_memory = 8"
| "region_kind_rank Reserved_memory = 9"

lemma region_kind_rank_inj: "region_kind_rank k = region_kind_rank l \<Longrightarrow> k = l"
  by (cases k; cases l) simp_all

instantiation memory_region_kind :: linorder
begin

definition less_eq_memory_region_kind :: "memory_region_kind \<Rightarrow> memory_region_kind \<Rightarrow> bool" where
  "k \<le> l \<longleftrightarrow> region_kind_rank k \<le> region_kind_rank l"

definition less_memory_region_kind :: "memory_region_kind \<Rightarrow> memory_region_kind \<Rightarrow> bool" where
  "k < l \<longleftrightarrow> region_kind_rank k < region_kind_rank l"

instance
  by standard (auto simp: less_eq_memory_region_kind_def less_memory_region_kind_def dest: region_kind_rank_inj)

end

text \<open>The variants run from the memory that the allocator may take first to the memory it may never
  take.\<close>

lemma region_kind_order:
  "kind_immediately_usable k \<Longrightarrow> kind_reclaimable l \<Longrightarrow> k < l"
  "kind_reclaimable l \<Longrightarrow> kind_reserved r \<Longrightarrow> l < r"
  unfolding kind_immediately_usable_def kind_reclaimable_def kind_reserved_def less_memory_region_kind_def
  by (cases l; auto) (cases r; auto)

datatype cache_policy = WriteBack | WriteThrough | Uncacheable | WriteCombining | WriteProtect

record memory_protection =
  prot_read :: bool
  prot_write :: bool
  prot_execute :: bool

definition READ_ONLY :: memory_protection where
  "READ_ONLY = \<lparr>prot_read = True, prot_write = False, prot_execute = False\<rparr>"
definition READ_WRITE :: memory_protection where
  "READ_WRITE = \<lparr>prot_read = True, prot_write = True, prot_execute = False\<rparr>"
definition READ_EXECUTE :: memory_protection where
  "READ_EXECUTE = \<lparr>prot_read = True, prot_write = False, prot_execute = True\<rparr>"
definition KERNEL_CODE :: memory_protection where "KERNEL_CODE = READ_EXECUTE"
definition KERNEL_DATA :: memory_protection where "KERNEL_DATA = READ_WRITE"
definition NO_PROTECTION :: memory_protection where
  "NO_PROTECTION = \<lparr>prot_read = False, prot_write = False, prot_execute = False\<rparr>"

definition is_wx_safe :: "memory_protection \<Rightarrow> bool" where
  "is_wx_safe p \<longleftrightarrow> \<not> (prot_write p \<and> prot_execute p)"

lemma constants_wx_safe:
  "p \<in> {READ_ONLY, READ_WRITE, READ_EXECUTE, KERNEL_CODE, KERNEL_DATA, NO_PROTECTION} \<Longrightarrow> is_wx_safe p"
  by (auto simp: is_wx_safe_def READ_ONLY_def READ_WRITE_def READ_EXECUTE_def KERNEL_CODE_def
      KERNEL_DATA_def NO_PROTECTION_def)

datatype alloc_error =
  OutOfMemory | AlignmentUnsatisfied | RegionOverlap | UnalignedAddress | ZeroSize
  | PageTableAllocationFailed

subsection \<open>Privilege levels\<close>

datatype cpu_privilege_level = Kernel_level | Hypervisor | SecureMonitor | User_level

fun x86_ring :: "cpu_privilege_level \<Rightarrow> nat option" where
  "x86_ring Kernel_level = Some 0"
| "x86_ring Hypervisor = Some 0"
| "x86_ring SecureMonitor = None"
| "x86_ring User_level = Some 3"

fun aarch64_el :: "cpu_privilege_level \<Rightarrow> nat option" where
  "aarch64_el User_level = Some 0"
| "aarch64_el Kernel_level = Some 1"
| "aarch64_el Hypervisor = Some 2"
| "aarch64_el SecureMonitor = Some 3"

definition is_privileged :: "cpu_privilege_level \<Rightarrow> bool" where
  "is_privileged l \<longleftrightarrow> l \<noteq> User_level"

lemma privileged_levels:
  "is_privileged l \<longleftrightarrow> x86_ring l \<noteq> Some 3" "is_privileged l \<longleftrightarrow> aarch64_el l \<noteq> Some 0"
  by (cases l; simp add: is_privileged_def)+

subsection \<open>Interrupts and buses\<close>

datatype interrupt_controller =
  Pic8259 | Apic | X2Apic | GicV2 | GicV3 | Plic | RiscVAia | No_controller

datatype trigger_mode = EdgeRising | EdgeFalling | LevelHigh | LevelLow

datatype delivery_mode = Fixed | LowestPriority | Smi | Nmi | Init_signal | StartUp | ExtInt

datatype exception_kind = Fault | Trap | Abort | Interrupt_request

datatype bus_kind =
  Pci | PciExpress | Usb2 | Usb3 | I2c | Spi | Uart | Isa | Eisa | Lpc | SmBus | AmbApb | AmbaAhb
  | AmbaAxi | Mmio_bus | Platform_bus | Nvme | Sata | SdMmc | Can

subsection \<open>Displays\<close>

datatype pixel_format =
  Rgb32 | Bgr32 | Argb32 | Bgra32 | Rgb24 | Bgr24 | Rgb565 | Indexed8 | Grey8 | Unknown_format

fun bpp :: "pixel_format \<Rightarrow> u8" where
  "bpp Rgb32 = 32"
| "bpp Bgr32 = 32"
| "bpp Argb32 = 32"
| "bpp Bgra32 = 32"
| "bpp Rgb24 = 24"
| "bpp Bgr24 = 24"
| "bpp Rgb565 = 16"
| "bpp Indexed8 = 8"
| "bpp Grey8 = 8"
| "bpp Unknown_format = 0"

definition bytes_per_pixel :: "pixel_format \<Rightarrow> u8" where
  "bytes_per_pixel f = (bpp f + 7) div 8"

definition has_alpha :: "pixel_format \<Rightarrow> bool" where
  "has_alpha f \<longleftrightarrow> f \<in> {Argb32, Bgra32}"

datatype rotation = Degrees0 | Degrees90 | Degrees180 | Degrees270

fun flipped :: "rotation \<Rightarrow> rotation" where
  "flipped Degrees0 = Degrees180"
| "flipped Degrees90 = Degrees270"
| "flipped Degrees180 = Degrees0"
| "flipped Degrees270 = Degrees90"

definition transposes_dimensions :: "rotation \<Rightarrow> bool" where
  "transposes_dimensions r \<longleftrightarrow> r \<in> {Degrees90, Degrees270}"

lemma bytes_hold_bits: "unat (bpp f) \<le> 8 * unat (bytes_per_pixel f) \<and> 8 * unat (bytes_per_pixel f) < unat (bpp f) + 8"
  by (cases f) (simp_all add: bytes_per_pixel_def)

lemma alpha_needs_four_bytes: "has_alpha f \<Longrightarrow> bytes_per_pixel f = 4"
  by (auto simp: has_alpha_def bytes_per_pixel_def)

lemma flipped_twice: "flipped (flipped r) = r" "transposes_dimensions (flipped r) = transposes_dimensions r"
  by (cases r; simp add: transposes_dimensions_def)+

end
