(* ===== verification/Pmm.thy ===== *)
theory Pmm
  imports Boot_Info Loops
begin

text \<open>
  \<^verbatim>\<open>src/src/dead_code/pmm.rs\<close>, the bitmap allocator that the buddy allocator replaced: one bit for
  each of the 16,777,216 pages below 64 GiB, set when the page is taken, and a counter of free pages.
  The state is the bitmap and the two statics; the lock is not modelled. Memory map entries and the
  type constants are those of \<open>Boot_Info\<close>.
\<close>

subsection \<open>State and operations\<close>

definition PMM_MAX_PAGES :: nat where "PMM_MAX_PAGES = 64 * 1024 * 1024 * 1024 div 4096"
definition BITMAP_SIZE :: nat where "BITMAP_SIZE = PMM_MAX_PAGES div 8"

record pmm =
  pm_bitmap :: "u8 list"
  pm_hhdm :: nat
  pm_total_free :: nat

definition pmm_start :: pmm where
  "pmm_start = \<lparr>pm_bitmap = replicate BITMAP_SIZE 0xFF, pm_hhdm = 0, pm_total_free = 0\<rparr>"

definition pmm_page_index :: "nat \<Rightarrow> nat" where
  "pmm_page_index phys = phys div 4096"

definition mark_free :: "u8 list \<Rightarrow> nat \<Rightarrow> u8 list res" where
  "mark_free bm page =
     and_then (at_index bm (page div 8)) (\<lambda>x. set_index bm (page div 8) (x AND NOT (push_bit (page mod 8) 1)))"

definition mark_used :: "u8 list \<Rightarrow> nat \<Rightarrow> u8 list res" where
  "mark_used bm page =
     and_then (at_index bm (page div 8)) (\<lambda>x. set_index bm (page div 8) (x OR push_bit (page mod 8) 1))"

definition page_is_free :: "u8 list \<Rightarrow> nat \<Rightarrow> bool res" where
  "page_is_free bm page =
     and_then (at_index bm (page div 8)) (\<lambda>x. Inr (x AND push_bit (page mod 8) 1 = 0))"

definition pmm_align_up :: "nat \<Rightarrow> nat \<Rightarrow> nat res" where
  "pmm_align_up addr align =
     and_then (checked_add addr align) (\<lambda>x.
     and_then (checked_sub x 1) (\<lambda>x.
     and_then (checked_sub align 1) (\<lambda>m. Inr (and_not x m))))"

definition pmm_align_down :: "nat \<Rightarrow> nat \<Rightarrow> nat res" where
  "pmm_align_down addr align = and_then (checked_sub align 1) (\<lambda>m. Inr (and_not addr m))"

text \<open>The whole pages of an entry, or \<open>None\<close> where the code goes on with the next entry.\<close>

definition entry_range :: "limine_entry \<Rightarrow> (nat \<times> nat) option res" where
  "entry_range e =
     and_then (pmm_align_up (le_base e) 4096) (\<lambda>base.
     and_then (checked_add (le_base e) (le_length e)) (\<lambda>last.
     and_then (pmm_align_down last 4096) (\<lambda>last.
     if base \<ge> last then Inr None
     else if pmm_page_index last > PMM_MAX_PAGES then Inr None
     else Inr (Some (pmm_page_index base, pmm_page_index last)))))"

definition init_page :: "nat \<Rightarrow> nat \<Rightarrow> nat \<Rightarrow> u8 list \<times> nat \<Rightarrow> (u8 list \<times> nat) res" where
  "init_page kernel_start kernel_end page s =
     and_then (checked_mul page 4096) (\<lambda>phys.
     if phys \<ge> kernel_start \<and> phys < kernel_end then Inr s
     else
       and_then (mark_free (fst s) page) (\<lambda>bm.
       and_then (checked_add (snd s) 1) (\<lambda>n. Inr (bm, n))))"

fun init_entries :: "limine \<Rightarrow> nat \<Rightarrow> nat \<Rightarrow> limine_entry list \<Rightarrow> u8 list \<times> nat \<Rightarrow> (u8 list \<times> nat) res" where
  "init_entries l ks ke [] s = Inr s"
| "init_entries l ks ke (e # es) s =
     (if le_type e \<noteq> MEMMAP_USABLE l then init_entries l ks ke es s
      else
        and_then (entry_range e) (\<lambda>r.
        and_then (case r of None \<Rightarrow> Inr s | Some (a, b) \<Rightarrow> for_range a b (init_page ks ke) s)
          (init_entries l ks ke es)))"

definition pmm_init :: "limine \<Rightarrow> limine_entry list \<Rightarrow> nat \<Rightarrow> nat \<Rightarrow> nat \<Rightarrow> pmm \<Rightarrow> pmm res" where
  "pmm_init l es kernel_start kernel_end hhdm s =
     and_then (init_entries l kernel_start kernel_end es (pm_bitmap s, 0)) (\<lambda>(bm, n).
     Inr \<lparr>pm_bitmap = bm, pm_hhdm = hhdm, pm_total_free = n\<rparr>)"

definition reclaim_page :: "nat \<Rightarrow> u8 list \<times> nat \<Rightarrow> (u8 list \<times> nat) res" where
  "reclaim_page page s =
     and_then (mark_free (fst s) page) (\<lambda>bm.
     and_then (checked_add (snd s) 1) (\<lambda>n. Inr (bm, n)))"

fun reclaim_entries :: "limine \<Rightarrow> limine_entry list \<Rightarrow> u8 list \<times> nat \<Rightarrow> (u8 list \<times> nat) res" where
  "reclaim_entries l [] s = Inr s"
| "reclaim_entries l (e # es) s =
     (if le_type e \<noteq> MEMMAP_BOOTLOADER_RECLAIMABLE l then reclaim_entries l es s
      else
        and_then (entry_range e) (\<lambda>r.
        and_then (case r of None \<Rightarrow> Inr s | Some (a, b) \<Rightarrow> for_range a b reclaim_page s)
          (reclaim_entries l es)))"

definition reclaim_bootloader_memory :: "limine \<Rightarrow> limine_entry list \<Rightarrow> pmm \<Rightarrow> pmm res" where
  "reclaim_bootloader_memory l es s =
     and_then (reclaim_entries l es (pm_bitmap s, 0)) (\<lambda>(bm, n).
     and_then (checked_add (pm_total_free s) n) (\<lambda>t.
     Inr (s\<lparr>pm_bitmap := bm, pm_total_free := t\<rparr>)))"

fun alloc_scan :: "nat \<Rightarrow> nat \<Rightarrow> pmm \<Rightarrow> (nat option \<times> pmm) res" where
  "alloc_scan i 0 s = Inr (None, s)"
| "alloc_scan i (Suc n) s =
     and_then (page_is_free (pm_bitmap s) i) (\<lambda>f.
     if f then
       and_then (mark_used (pm_bitmap s) i) (\<lambda>bm.
       and_then (checked_mul i 4096) (\<lambda>phys.
       Inr (Some phys, s\<lparr>pm_bitmap := bm,
         pm_total_free := (if pm_total_free s > 0 then pm_total_free s - 1 else pm_total_free s)\<rparr>)))
     else alloc_scan (i + 1) n s)"

definition pmm_alloc_page :: "pmm \<Rightarrow> (nat option \<times> pmm) res" where
  "pmm_alloc_page s = alloc_scan 0 PMM_MAX_PAGES s"

definition pmm_free_page :: "nat \<Rightarrow> pmm \<Rightarrow> pmm res" where
  "pmm_free_page phys s =
     and_then (mark_free (pm_bitmap s) (pmm_page_index phys)) (\<lambda>bm.
     and_then (checked_add (pm_total_free s) 1) (\<lambda>t.
     Inr (s\<lparr>pm_bitmap := bm, pm_total_free := t\<rparr>)))"

definition phys_to_virt :: "nat \<Rightarrow> pmm \<Rightarrow> nat res" where
  "phys_to_virt phys s = checked_add phys (pm_hhdm s)"

definition pmm_free_pages :: "pmm \<Rightarrow> nat" where
  "pmm_free_pages s = pm_total_free s"

subsection \<open>The set of free pages\<close>

definition clear_bits :: "u8 list \<Rightarrow> nat set" where
  "clear_bits bm = {p. p < 8 * length bm \<and> \<not> bit (bm ! (p div 8)) (p mod 8)}"

definition bitmap_shows :: "nat set \<Rightarrow> nat \<Rightarrow> u8 list \<times> nat \<Rightarrow> bool" where
  "bitmap_shows F n s \<longleftrightarrow> length (fst s) = BITMAP_SIZE \<and> clear_bits (fst s) = F \<and> snd s = n"

definition pmm_rep :: "pmm \<Rightarrow> nat set \<Rightarrow> bool" where
  "pmm_rep s F \<longleftrightarrow> bitmap_shows F (card F) (pm_bitmap s, pm_total_free s)"

lemma clear_bits_bound: "clear_bits bm \<subseteq> {..<8 * length bm}"
  by (auto simp: clear_bits_def)

lemma bitmap_shows_bound: "bitmap_shows F n s \<Longrightarrow> F \<subseteq> {..<PMM_MAX_PAGES}"
  using clear_bits_bound [of "fst s"] by (auto simp: bitmap_shows_def BITMAP_SIZE_def PMM_MAX_PAGES_def)

lemma pmm_rep_finite: "pmm_rep s F \<Longrightarrow> finite F"
  unfolding pmm_rep_def by (blast dest: bitmap_shows_bound intro: finite_subset)

lemma page_split: "p = q \<longleftrightarrow> p div 8 = q div 8 \<and> p mod 8 = q mod 8" for p q :: nat
  by (metis div_mult_mod_eq)

lemma clear_bits_update:
  assumes "p < 8 * length bm"
    and y: "\<And>k. k < 8 \<Longrightarrow> bit y k \<longleftrightarrow> (if k = p mod 8 then v else bit (bm ! (p div 8)) k)"
  shows "clear_bits (bm[p div 8 := y]) = (if v then clear_bits bm - {p} else insert p (clear_bits bm))"
proof -
  have i: "p div 8 < length bm" using assms(1) by (simp add: less_mult_imp_div_less mult.commute)
  have "bit (bm[p div 8 := y] ! (q div 8)) (q mod 8) \<longleftrightarrow> (if q = p then v else bit (bm ! (q div 8)) (q mod 8))" for q
    using y [of "q mod 8"] i page_split [of q p] by (cases "q div 8 = p div 8") auto
  then show ?thesis using assms(1) by (auto simp: clear_bits_def)
qed

lemma mark_free_ok:
  assumes "p < 8 * length bm"
  obtains bm' where "mark_free bm p = Inr bm'" "length bm' = length bm" "clear_bits bm' = insert p (clear_bits bm)"
proof
  let ?y = "bm ! (p div 8) AND NOT (push_bit (p mod 8) 1)"
  have "p div 8 < length bm" using assms by (simp add: less_mult_imp_div_less mult.commute)
  then show "mark_free bm p = Inr (bm[p div 8 := ?y])" by (simp add: mark_free_def)
  show "clear_bits (bm[p div 8 := ?y]) = insert p (clear_bits bm)"
    by (subst clear_bits_update [OF assms, of _ False]) (auto simp: bit_simps)
qed simp

lemma mark_used_ok:
  assumes "p < 8 * length bm"
  obtains bm' where "mark_used bm p = Inr bm'" "length bm' = length bm" "clear_bits bm' = clear_bits bm - {p}"
proof
  let ?y = "bm ! (p div 8) OR push_bit (p mod 8) 1"
  have "p div 8 < length bm" using assms by (simp add: less_mult_imp_div_less mult.commute)
  then show "mark_used bm p = Inr (bm[p div 8 := ?y])" by (simp add: mark_used_def)
  show "clear_bits (bm[p div 8 := ?y]) = clear_bits bm - {p}"
    by (subst clear_bits_update [OF assms, of _ True]) (auto simp: bit_simps)
qed simp

lemma page_is_free_ok:
  assumes "p < 8 * length bm"
  shows "page_is_free bm p = Inr (p \<in> clear_bits bm)"
proof -
  have "p div 8 < length bm" using assms by (simp add: less_mult_imp_div_less mult.commute)
  then show ?thesis using assms by (simp add: page_is_free_def clear_bits_def bit_iff_and_push_bit_not_eq_0)
qed

subsection \<open>Allocation and release\<close>

lemma alloc_scan_ok:
  assumes "length (pm_bitmap s) = BITMAP_SIZE" and "i + n = PMM_MAX_PAGES"
    and "clear_bits (pm_bitmap s) \<inter> {..<i} = {}"
  shows "(clear_bits (pm_bitmap s) = {} \<longrightarrow> alloc_scan i n s = Inr (None, s)) \<and>
    (clear_bits (pm_bitmap s) \<noteq> {} \<longrightarrow> (\<exists>bm'. alloc_scan i n s =
       Inr (Some (Min (clear_bits (pm_bitmap s)) * 4096), s\<lparr>pm_bitmap := bm', pm_total_free := pm_total_free s - 1\<rparr>) \<and>
       length bm' = BITMAP_SIZE \<and> clear_bits bm' = clear_bits (pm_bitmap s) - {Min (clear_bits (pm_bitmap s))}))"
  using assms
proof (induction n arbitrary: i)
  case 0
  have "clear_bits (pm_bitmap s) \<subseteq> {..<i}"
    using clear_bits_bound [of "pm_bitmap s"] 0 by (simp add: BITMAP_SIZE_def PMM_MAX_PAGES_def)
  then show ?case using 0 by auto
next
  case (Suc n)
  let ?F = "clear_bits (pm_bitmap s)"
  have i: "i < 8 * length (pm_bitmap s)" "i * 4096 \<le> u64_max"
    using Suc.prems by (auto simp: BITMAP_SIZE_def PMM_MAX_PAGES_def u64_max_def)
  show ?case
  proof (cases "i \<in> ?F")
    case True
    have "finite ?F" using clear_bits_bound by (rule finite_subset) simp
    moreover have "i \<le> x" if "x \<in> ?F" for x using Suc.prems(3) that by (fastforce simp: not_less [symmetric])
    ultimately have "Min ?F = i" using True by (intro Min_eqI)
    then show ?thesis
      using True i mark_used_ok [OF i(1)] Suc.prems(1) page_is_free_ok [OF i(1)] by (auto 0 3)
  next
    case False
    then have "?F \<inter> {..<Suc i} = {}" using Suc.prems(3) by (auto simp: less_Suc_eq)
    then show ?thesis
      using Suc.IH [of "Suc i"] Suc.prems False by (simp add: page_is_free_ok [OF i(1)])
  qed
qed

lemma pmm_alloc_ok:
  assumes "pmm_rep s F"
  shows "if F = {} then pmm_alloc_page s = Inr (None, s)
    else \<exists>s'. pmm_alloc_page s = Inr (Some (Min F * 4096), s') \<and> pmm_rep s' (F - {Min F}) \<and> pm_hhdm s' = pm_hhdm s"
proof -
  have F: "length (pm_bitmap s) = BITMAP_SIZE" "clear_bits (pm_bitmap s) = F" "pm_total_free s = card F"
    using assms by (simp_all add: pmm_rep_def bitmap_shows_def)
  have "F \<noteq> {} \<Longrightarrow> card (F - {Min F}) = card F - 1" using pmm_rep_finite [OF assms] by simp
  then show ?thesis
    using alloc_scan_ok [of s 0 PMM_MAX_PAGES] F by (auto simp: pmm_alloc_page_def pmm_rep_def bitmap_shows_def)
qed

lemma pmm_free_ok:
  assumes "pmm_rep s F" and "phys div 4096 < PMM_MAX_PAGES" and "phys div 4096 \<notin> F"
  shows "\<exists>s'. pmm_free_page phys s = Inr s' \<and> pmm_rep s' (insert (phys div 4096) F) \<and> pm_hhdm s' = pm_hhdm s"
proof -
  have F: "length (pm_bitmap s) = BITMAP_SIZE" "clear_bits (pm_bitmap s) = F" "pm_total_free s = card F"
    using assms by (simp_all add: pmm_rep_def bitmap_shows_def)
  have "phys div 4096 < 8 * length (pm_bitmap s)" using assms(2) F(1) by (simp add: BITMAP_SIZE_def PMM_MAX_PAGES_def)
  from mark_free_ok [OF this] obtain bm where bm: "mark_free (pm_bitmap s) (phys div 4096) = Inr bm"
    "length bm = BITMAP_SIZE" "clear_bits bm = insert (phys div 4096) F" using F by metis
  have "card F \<le> PMM_MAX_PAGES"
    using bitmap_shows_bound assms(1) card_mono [of "{..<PMM_MAX_PAGES}" F] by (fastforce simp: pmm_rep_def)
  then have "card F + 1 \<le> u64_max" by (simp add: PMM_MAX_PAGES_def u64_max_def)
  then show ?thesis
    using assms(3) pmm_rep_finite [OF assms(1)] bm F(3)
    by (simp add: pmm_free_page_def pmm_page_index_def pmm_rep_def bitmap_shows_def)
qed

subsection \<open>Registering the memory map\<close>

text \<open>The whole pages of an entry. An entry that reaches past 64 GiB is dropped as a whole.\<close>

definition entry_pages :: "limine_entry \<Rightarrow> nat set" where
  "entry_pages e =
     (if (le_base e + le_length e) div 4096 \<le> PMM_MAX_PAGES
      then {p. le_base e \<le> p * 4096 \<and> (p + 1) * 4096 \<le> le_base e + le_length e} else {})"

definition entry_fits :: "limine_entry \<Rightarrow> bool" where
  "entry_fits e \<longleftrightarrow> le_base e + 4096 \<le> u64_max \<and> le_base e + le_length e \<le> u64_max"

lemma page_bounds: "{p. b \<le> p * 4096 \<and> (p + 1) * 4096 \<le> c} = {(b + 4095) div 4096..<c div 4096}" for b c :: nat
  by auto

lemma entry_pages_eq:
  "entry_pages e = (if (le_base e + le_length e) div 4096 \<le> PMM_MAX_PAGES
     then {(le_base e + 4095) div 4096..<(le_base e + le_length e) div 4096} else {})"
  unfolding entry_pages_def page_bounds ..

lemma entry_range_ok:
  assumes "entry_fits e"
  obtains r where "entry_range e = Inr r" and "entry_pages e = (case r of None \<Rightarrow> {} | Some (a, b) \<Rightarrow> {a..<b})"
    and "\<And>a b. r = Some (a, b) \<Longrightarrow> a \<le> b \<and> b \<le> PMM_MAX_PAGES"
proof -
  let ?u = "(le_base e + 4095) div 4096" and ?d = "(le_base e + le_length e) div 4096"
  have mask: "and_not x 4095 = x div 4096 * 4096" if "x \<le> u64_max" for x
    using and_not_mask [OF that, of 12] by (simp add: minus_mod_eq_div_mult)
  have up: "pmm_align_up (le_base e) 4096 = Inr (?u * 4096)"
    using assms mask [of "le_base e + 4095"] by (simp add: pmm_align_up_def entry_fits_def add.commute)
  have down: "pmm_align_down (le_base e + le_length e) 4096 = Inr (?d * 4096)"
    using assms mask by (simp add: pmm_align_down_def entry_fits_def)
  let ?r = "if ?u \<ge> ?d then None else if ?d > PMM_MAX_PAGES then None else Some (?u, ?d)"
  have "entry_range e = Inr ?r"
    using assms by (simp add: entry_range_def up down entry_fits_def pmm_page_index_def)
  then show thesis by (rule that) (auto simp: entry_pages_eq split: if_splits)
qed

lemma init_page_ok:
  assumes "bitmap_shows F n s" and "p < PMM_MAX_PAGES" and "n < u64_max"
  shows "\<exists>s'. init_page ks ke p s = Inr s' \<and>
    (if ks \<le> p * 4096 \<and> p * 4096 < ke then s' = s else bitmap_shows (insert p F) (n + 1) s')"
proof (cases "ks \<le> p * 4096 \<and> p * 4096 < ke")
  case True
  have "p * 4096 \<le> u64_max" using assms by (simp add: PMM_MAX_PAGES_def u64_max_def)
  then show ?thesis using True by (simp add: init_page_def)
next
  case False
  have "p < 8 * length (fst s)" "p * 4096 \<le> u64_max"
    using assms by (simp_all add: bitmap_shows_def BITMAP_SIZE_def PMM_MAX_PAGES_def u64_max_def)
  with mark_free_ok [of p "fst s"] obtain bm where "mark_free (fst s) p = Inr bm" "length bm = length (fst s)"
    "clear_bits bm = insert p (clear_bits (fst s))" by metis
  then show ?thesis using False assms(1,3) \<open>p * 4096 \<le> u64_max\<close> by (auto simp: init_page_def bitmap_shows_def)
qed

lemma reclaim_page_eq: "p * 4096 \<le> u64_max \<Longrightarrow> reclaim_page p s = init_page 0 0 p s"
  by (simp add: reclaim_page_def init_page_def)

text \<open>Both loops, with the kernel's pages left out.\<close>

definition kernel_pages :: "nat \<Rightarrow> nat \<Rightarrow> nat set" where
  "kernel_pages ks ke = {p. ks \<le> p * 4096 \<and> p * 4096 < ke}"

lemma init_range_ok:
  assumes "bitmap_shows F n s" and "a \<le> b" and "b \<le> PMM_MAX_PAGES" and "n + PMM_MAX_PAGES \<le> u64_max"
  shows "\<exists>s'. for_range a b (init_page ks ke) s = Inr s' \<and>
    bitmap_shows (F \<union> ({a..<b} - kernel_pages ks ke)) (n + card ({a..<b} - kernel_pages ks ke)) s'"
proof (rule for_range_invariant [OF _ assms(2)])
  show "bitmap_shows (F \<union> ({a..<a} - kernel_pages ks ke)) (n + card ({a..<a} - kernel_pages ks ke)) s"
    using assms(1) by simp
next
  fix j t
  assume j: "a \<le> j" "j < b" and t: "bitmap_shows (F \<union> ({a..<j} - kernel_pages ks ke)) (n + card ({a..<j} - kernel_pages ks ke)) t"
  have "card ({a..<j} - kernel_pages ks ke) \<le> card {a..<j}" by (rule card_mono) auto
  then have "n + card ({a..<j} - kernel_pages ks ke) < u64_max" using j assms(3,4) by simp
  from init_page_ok [OF t _ this, of j ks ke] j assms(3) obtain t' where t': "init_page ks ke j t = Inr t'"
    "if ks \<le> j * 4096 \<and> j * 4096 < ke then t' = t
     else bitmap_shows (insert j (F \<union> ({a..<j} - kernel_pages ks ke))) (n + card ({a..<j} - kernel_pages ks ke) + 1) t'"
    by auto
  have s: "{a..<Suc j} - kernel_pages ks ke =
      (if j \<in> kernel_pages ks ke then {a..<j} - kernel_pages ks ke else insert j ({a..<j} - kernel_pages ks ke))"
    using j by (auto simp: less_Suc_eq)
  have "bitmap_shows (F \<union> ({a..<Suc j} - kernel_pages ks ke)) (n + card ({a..<Suc j} - kernel_pages ks ke)) t'"
    using t'(2) t unfolding s by (cases "j \<in> kernel_pages ks ke") (auto simp: kernel_pages_def)
  with t'(1) show "\<exists>t'. init_page ks ke j t = Inr t' \<and>
      bitmap_shows (F \<union> ({a..<Suc j} - kernel_pages ks ke)) (n + card ({a..<Suc j} - kernel_pages ks ke)) t'" by blast
qed

lemma reclaim_range_eq: "b \<le> PMM_MAX_PAGES \<Longrightarrow> for_range a b reclaim_page s = for_range a b (init_page 0 0) s"
proof -
  have "i + n \<le> PMM_MAX_PAGES \<Longrightarrow> for_loop i n reclaim_page s = for_loop i n (init_page 0 0) s" for i n
  proof (induction n arbitrary: i s)
    case (Suc n)
    then have "i * 4096 \<le> u64_max" by (simp add: PMM_MAX_PAGES_def u64_max_def)
    then show ?case using Suc by (auto simp: reclaim_page_eq intro!: and_then_cong)
  qed simp
  then show "b \<le> PMM_MAX_PAGES \<Longrightarrow> ?thesis" by (cases "a \<le> b") (simp_all add: for_range_def)
qed

definition typed_pages :: "nat \<Rightarrow> limine_entry list \<Rightarrow> nat set" where
  "typed_pages t es = (\<Union>e\<in>{e \<in> set es. le_type e = t}. entry_pages e)"

lemma typed_pages_simps:
  "typed_pages t [] = {}"
  "typed_pages t (e # es) = (if le_type e = t then entry_pages e else {}) \<union> typed_pages t es"
  by (auto simp: typed_pages_def)

lemma entry_pages_bound: "entry_pages e \<subseteq> {..<PMM_MAX_PAGES}"
  by (auto simp: entry_pages_eq)

lemma typed_pages_bound: "typed_pages t es \<subseteq> {..<PMM_MAX_PAGES}"
  using entry_pages_bound by (auto simp: typed_pages_def)

lemma entries_step:
  assumes "bitmap_shows F n s" and "entry_fits e" and "n + PMM_MAX_PAGES \<le> u64_max"
  obtains r s' where "entry_range e = Inr r"
    and "(case r of None \<Rightarrow> Inr s | Some (a, b) \<Rightarrow> for_range a b (init_page ks ke) s) = Inr s'"
    and "(case r of None \<Rightarrow> Inr s | Some (a, b) \<Rightarrow> for_range a b reclaim_page s) =
      (case r of None \<Rightarrow> Inr s | Some (a, b) \<Rightarrow> for_range a b (init_page 0 0) s)"
    and "bitmap_shows (F \<union> (entry_pages e - kernel_pages ks ke)) (n + card (entry_pages e - kernel_pages ks ke)) s'"
proof -
  from entry_range_ok [OF assms(2)] obtain r where r: "entry_range e = Inr r"
    "entry_pages e = (case r of None \<Rightarrow> {} | Some (a, b) \<Rightarrow> {a..<b})"
    "\<And>a b. r = Some (a, b) \<Longrightarrow> a \<le> b \<and> b \<le> PMM_MAX_PAGES" by blast
  show thesis
  proof (cases r)
    case None
    then show thesis using that [of r s] r assms(1) by simp
  next
    case (Some x)
    obtain a b where ab: "r = Some (a, b)" using Some by (cases x) simp
    with r(3) have le: "a \<le> b" "b \<le> PMM_MAX_PAGES" by auto
    from init_range_ok [OF assms(1) le assms(3), of ks ke] obtain s' where
      "for_range a b (init_page ks ke) s = Inr s'"
      "bitmap_shows (F \<union> ({a..<b} - kernel_pages ks ke)) (n + card ({a..<b} - kernel_pages ks ke)) s'" by blast
    then show thesis using that [of "Some (a, b)" s'] r(1,2) ab reclaim_range_eq [OF le(2)] by simp
  qed
qed

definition pages_apart :: "limine_entry list \<Rightarrow> bool" where
  "pages_apart es \<longleftrightarrow> sorted_wrt (\<lambda>e f. entry_pages e \<inter> entry_pages f = {}) es"

lemma init_entries_ok:
  assumes "bitmap_shows F n s" and "pages_apart es" and "list_all entry_fits es"
    and "n + card (typed_pages (MEMMAP_USABLE l) es - kernel_pages ks ke) + PMM_MAX_PAGES \<le> u64_max"
  shows "\<exists>s'. init_entries l ks ke es s = Inr s' \<and>
    bitmap_shows (F \<union> (typed_pages (MEMMAP_USABLE l) es - kernel_pages ks ke))
      (n + card (typed_pages (MEMMAP_USABLE l) es - kernel_pages ks ke)) s'"
  using assms
proof (induction es arbitrary: F n s)
  case Nil
  then show ?case by (simp add: typed_pages_simps)
next
  case (Cons e es)
  note rest = Cons.prems(2,3) [unfolded pages_apart_def sorted_wrt.simps list.pred_inject]
  show ?case
  proof (cases "le_type e = MEMMAP_USABLE l")
    case False
    then show ?thesis using Cons.IH [OF Cons.prems(1)] Cons.prems(4) rest by (simp add: typed_pages_simps pages_apart_def)
  next
    case True
    let ?A = "entry_pages e - kernel_pages ks ke" and ?B = "typed_pages (MEMMAP_USABLE l) es - kernel_pages ks ke"
    have "?A \<inter> ?B = {}" using rest by (auto simp: typed_pages_def)
    moreover have "finite ?A" "finite ?B"
      using entry_pages_bound typed_pages_bound by (blast intro: finite_subset [OF _ finite_lessThan])+
    ultimately have c: "card (?A \<union> ?B) = card ?A + card ?B" by (simp add: card_Un_disjoint)
    have u: "typed_pages (MEMMAP_USABLE l) (e # es) - kernel_pages ks ke = ?A \<union> ?B" using True by (auto simp: typed_pages_simps)
    have n: "n + PMM_MAX_PAGES \<le> u64_max" using Cons.prems(4) by simp
    from rest have "entry_fits e" by simp
    from entries_step [OF Cons.prems(1) this n, of ks ke] obtain r s1 where r: "entry_range e = Inr r"
      "(case r of None \<Rightarrow> Inr s | Some (a, b) \<Rightarrow> for_range a b (init_page ks ke) s) = Inr s1"
      "bitmap_shows (F \<union> ?A) (n + card ?A) s1" by metis
    have "pages_apart es" "list_all entry_fits es" using rest by (simp_all add: pages_apart_def)
    from Cons.IH [OF r(3) this] Cons.prems(4) show ?thesis
      unfolding u c using True r(1,2) by (simp add: Un_assoc add.assoc)
  qed
qed

lemma reclaim_entries_eq:
  assumes "list_all entry_fits es" and "length (fst s) = BITMAP_SIZE"
  shows "reclaim_entries l es s = init_entries (l\<lparr>MEMMAP_USABLE := MEMMAP_BOOTLOADER_RECLAIMABLE l\<rparr>) 0 0 es s"
  using assms(1)
proof (induction es arbitrary: s)
  case (Cons e es)
  from Cons.prems have "entry_fits e" by simp
  from entry_range_ok [OF this] obtain r where r: "entry_range e = Inr r"
    "\<And>a b. r = Some (a, b) \<Longrightarrow> a \<le> b \<and> b \<le> PMM_MAX_PAGES" by metis
  have "(case r of None \<Rightarrow> Inr s | Some (a, b) \<Rightarrow> for_range a b reclaim_page s) =
      (case r of None \<Rightarrow> Inr s | Some (a, b) \<Rightarrow> for_range a b (init_page 0 0) s)"
    using r(2) reclaim_range_eq by (auto split: option.split)
  then show ?case using Cons r(1) by (auto intro!: and_then_cong)
qed simp

lemma reclaim_entries_ok:
  assumes "bitmap_shows F n s" and "pages_apart es" and "list_all entry_fits es" and "n = 0"
  shows "\<exists>s'. reclaim_entries l es s = Inr s' \<and>
    bitmap_shows (F \<union> typed_pages (MEMMAP_BOOTLOADER_RECLAIMABLE l) es) (card (typed_pages (MEMMAP_BOOTLOADER_RECLAIMABLE l) es)) s'"
proof -
  let ?l = "l\<lparr>MEMMAP_USABLE := MEMMAP_BOOTLOADER_RECLAIMABLE l\<rparr>"
  have "kernel_pages 0 0 = {}" by (simp add: kernel_pages_def)
  moreover have "card (typed_pages t es) \<le> PMM_MAX_PAGES" for t
    using card_mono [OF _ typed_pages_bound] by (metis card_lessThan finite_lessThan)
  then have "card (typed_pages (MEMMAP_USABLE ?l) es) + PMM_MAX_PAGES \<le> u64_max"
    by (rule order_trans [OF add_right_mono]) (simp add: PMM_MAX_PAGES_def u64_max_def)
  moreover have "length (fst s) = BITMAP_SIZE" using assms(1) by (simp add: bitmap_shows_def)
  ultimately show ?thesis
    using init_entries_ok [OF assms(1-3), of ?l 0 0] assms(4) by (simp add: reclaim_entries_eq [OF assms(3)])
qed

lemma pmm_start_shows: "bitmap_shows {} 0 (pm_bitmap pmm_start, 0)"
proof -
  have "bit (0xFF :: u8) (p mod 8)" for p :: nat
  proof -
    have "(0xFF :: u8) = mask 8" by (simp add: mask_eq_exp_minus_1)
    then show ?thesis by (simp only: bit_mask_iff) simp
  qed
  then show ?thesis
    by (auto simp: bitmap_shows_def pmm_start_def clear_bits_def less_mult_imp_div_less mult.commute)
qed

lemma pmm_boot_ok:
  assumes "pages_apart es" and "list_all entry_fits es"
    and "typed_pages (MEMMAP_USABLE l) es \<inter> typed_pages (MEMMAP_BOOTLOADER_RECLAIMABLE l) es = {}"
  shows "\<exists>s s'. pmm_init l es ks ke hh pmm_start = Inr s \<and>
    pmm_rep s (typed_pages (MEMMAP_USABLE l) es - kernel_pages ks ke) \<and>
    reclaim_bootloader_memory l es s = Inr s' \<and>
    pmm_rep s' ((typed_pages (MEMMAP_USABLE l) es - kernel_pages ks ke) \<union> typed_pages (MEMMAP_BOOTLOADER_RECLAIMABLE l) es) \<and>
    pm_hhdm s' = hh"
proof -
  let ?U = "typed_pages (MEMMAP_USABLE l) es - kernel_pages ks ke" and ?R = "typed_pages (MEMMAP_BOOTLOADER_RECLAIMABLE l) es"
  have b: "finite A \<and> card A \<le> PMM_MAX_PAGES" if "A \<subseteq> {..<PMM_MAX_PAGES}" for A
    using card_mono [OF _ that] finite_subset [OF that] by simp
  have U: "finite ?U \<and> card ?U \<le> PMM_MAX_PAGES" by (rule b) (use typed_pages_bound in blast)
  have R: "finite ?R \<and> card ?R \<le> PMM_MAX_PAGES" by (rule b) (rule typed_pages_bound)
  have fits: "card ?U + PMM_MAX_PAGES \<le> u64_max" "card ?U + card ?R \<le> u64_max"
    using U R by (auto simp: PMM_MAX_PAGES_def u64_max_def)
  from init_entries_ok [OF pmm_start_shows assms(1,2), of l ks ke] fits(1) obtain bm where
    bm: "init_entries l ks ke es (pm_bitmap pmm_start, 0) = Inr (bm, card ?U)" "length bm = BITMAP_SIZE" "clear_bits bm = ?U"
    by (auto simp: bitmap_shows_def)
  from bm have "bitmap_shows ?U 0 (bm, 0)" by (simp add: bitmap_shows_def)
  from reclaim_entries_ok [OF this assms(1,2) refl, of l] obtain bm' where
    bm': "reclaim_entries l es (bm, 0) = Inr (bm', card ?R)" "length bm' = BITMAP_SIZE" "clear_bits bm' = ?U \<union> ?R"
    by (auto simp: bitmap_shows_def)
  have "card (?U \<union> ?R) = card ?U + card ?R" using U R assms(3) by (intro card_Un_disjoint) auto
  then show ?thesis
    using bm bm' fits(2) by (simp add: pmm_init_def reclaim_bootloader_memory_def pmm_rep_def bitmap_shows_def)
qed

text \<open>A memory map with three usable pages, of which the kernel takes the middle one, and two pages
  of the boot loader.\<close>

definition pmm_demo_map :: "limine_entry list" where
  "pmm_demo_map = [\<lparr>le_base = 0x1000, le_length = 0x3000, le_type = 0\<rparr>, \<lparr>le_base = 0x10000, le_length = 0x2000, le_type = 5\<rparr>]"

lemma pmm_demo_map_pages:
  "pages_apart pmm_demo_map" "list_all entry_fits pmm_demo_map"
  "typed_pages (MEMMAP_USABLE demo_limine) pmm_demo_map = {1, 2, 3}"
  "typed_pages (MEMMAP_BOOTLOADER_RECLAIMABLE demo_limine) pmm_demo_map = {16, 17}"
  "kernel_pages 0x2000 0x3000 = {2}"
proof -
  have p: "entry_pages \<lparr>le_base = 0x1000, le_length = 0x3000, le_type = t\<rparr> = {1, 2, 3}"
    "entry_pages \<lparr>le_base = 0x10000, le_length = 0x2000, le_type = t\<rparr> = {16, 17}" for t
    by (auto simp: entry_pages_eq PMM_MAX_PAGES_def)
  show "pages_apart pmm_demo_map" by (simp add: pages_apart_def pmm_demo_map_def p)
  show "list_all entry_fits pmm_demo_map" by (simp add: pmm_demo_map_def entry_fits_def u64_max_def)
  show "typed_pages (MEMMAP_USABLE demo_limine) pmm_demo_map = {1, 2, 3}"
    "typed_pages (MEMMAP_BOOTLOADER_RECLAIMABLE demo_limine) pmm_demo_map = {16, 17}"
    by (simp_all add: pmm_demo_map_def demo_limine_def typed_pages_simps p)
  show "kernel_pages 0x2000 0x3000 = {2}" by (auto simp: kernel_pages_def)
qed

text \<open>
  C29. The bitmap allocator refines a set of free pages: \<open>alloc_page\<close> takes the lowest free page and
  returns its address, or returns \<open>None\<close> and changes nothing when no page is free; \<open>free_page\<close> of an
  address in a taken page adds that page; freeing what was just allocated restores the set. The
  counter stays the number of free pages, and nothing panics.
\<close>

theorem pmm_refines_page_set:
  assumes "pmm_rep s F"
  shows "pmm_free_pages s = card F \<and>
    (if F = {} then pmm_alloc_page s = Inr (None, s)
     else \<exists>s' s''. pmm_alloc_page s = Inr (Some (Min F * 4096), s') \<and> pmm_rep s' (F - {Min F}) \<and>
        pmm_free_page (Min F * 4096) s' = Inr s'' \<and> pmm_rep s'' F) \<and>
    (\<forall>phys. phys div 4096 \<in> {..<PMM_MAX_PAGES} - F \<longrightarrow>
       (\<exists>s'. pmm_free_page phys s = Inr s' \<and> pmm_rep s' (insert (phys div 4096) F)))"
proof (intro conjI)
  show "pmm_free_pages s = card F" using assms by (simp add: pmm_free_pages_def pmm_rep_def bitmap_shows_def)
  show "\<forall>phys. phys div 4096 \<in> {..<PMM_MAX_PAGES} - F \<longrightarrow>
       (\<exists>s'. pmm_free_page phys s = Inr s' \<and> pmm_rep s' (insert (phys div 4096) F))"
    using pmm_free_ok [OF assms] by blast
  show "if F = {} then pmm_alloc_page s = Inr (None, s)
     else \<exists>s' s''. pmm_alloc_page s = Inr (Some (Min F * 4096), s') \<and> pmm_rep s' (F - {Min F}) \<and>
        pmm_free_page (Min F * 4096) s' = Inr s'' \<and> pmm_rep s'' F"
  proof (cases "F = {}")
    case False
    then have m: "Min F \<in> F" using pmm_rep_finite [OF assms] by simp
    with bitmap_shows_bound [OF assms [unfolded pmm_rep_def]] have "Min F < PMM_MAX_PAGES" by blast
    note m = m this
    from False pmm_alloc_ok [OF assms] obtain s' where
      s': "pmm_alloc_page s = Inr (Some (Min F * 4096), s')" "pmm_rep s' (F - {Min F})" by auto
    from pmm_free_ok [OF s'(2), of "Min F * 4096"] m s' False show ?thesis by (auto simp: insert_absorb)
  qed (use pmm_alloc_ok [OF assms] in simp)
qed

theorem pmm_refines_page_set_witness:
  "\<exists>s s' s''. pmm_free_pages s = 2 \<and> pmm_alloc_page s = Inr (Some 0x1000, s') \<and> pmm_rep s' {3} \<and>
     pmm_free_page 0x1000 s' = Inr s'' \<and> pmm_rep s'' {1, 3}"
proof -
  have "{1, 2, 3} - {2} = {1, 3 :: nat}" by auto
  with pmm_boot_ok [OF pmm_demo_map_pages(1,2), of demo_limine "0x2000" "0x3000" 0] obtain s where s: "pmm_rep s {1, 3}"
    unfolding pmm_demo_map_pages(3-5) by auto
  have m: "card {1, 3 :: nat} = 2" "Min {1, 3 :: nat} = 1" "{1, 3} - {1} = {3 :: nat}" "{1, 3 :: nat} \<noteq> {}" by auto
  from pmm_refines_page_set [OF s] obtain s' s'' where "pmm_free_pages s = 2" "pmm_alloc_page s = Inr (Some 0x1000, s')"
    "pmm_rep s' {3}" "pmm_free_page 0x1000 s' = Inr s''" "pmm_rep s'' {1, 3}"
    unfolding m(1-3) if_not_P [OF m(4)] by auto
  then show ?thesis by blast
qed

text \<open>
  On a memory map whose entries share no page, \<open>init\<close> frees exactly the whole usable pages
  outside the kernel image, and \<open>reclaim_bootloader_memory\<close> then adds the boot loader's pages,
  the kernel image not left out; the counter is the number of free pages after each. An entry that
  ends above 64 GiB contributes no page.
\<close>

theorem pmm_init_correct:
  assumes "pages_apart es" and "list_all entry_fits es"
    and "typed_pages (MEMMAP_USABLE l) es \<inter> typed_pages (MEMMAP_BOOTLOADER_RECLAIMABLE l) es = {}"
  shows "\<exists>s s'. pmm_init l es ks ke hh pmm_start = Inr s \<and>
    pmm_rep s (typed_pages (MEMMAP_USABLE l) es - kernel_pages ks ke) \<and>
    reclaim_bootloader_memory l es s = Inr s' \<and>
    pmm_rep s' ((typed_pages (MEMMAP_USABLE l) es - kernel_pages ks ke) \<union> typed_pages (MEMMAP_BOOTLOADER_RECLAIMABLE l) es) \<and>
    pm_hhdm s' = hh"
  by (rule pmm_boot_ok [OF assms])

theorem pmm_init_correct_witness:
  "\<exists>s s'. pmm_init demo_limine pmm_demo_map 0x2000 0x3000 0 pmm_start = Inr s \<and> pmm_rep s {1, 3} \<and>
     reclaim_bootloader_memory demo_limine pmm_demo_map s = Inr s' \<and> pmm_rep s' {1, 3, 16, 17}"
proof -
  have e: "{1, 2, 3} - {2} = {1, 3 :: nat}" "{1, 3} \<union> {16, 17} = {1, 3, 16, 17 :: nat}" by auto
  have "typed_pages (MEMMAP_USABLE demo_limine) pmm_demo_map \<inter> typed_pages (MEMMAP_BOOTLOADER_RECLAIMABLE demo_limine) pmm_demo_map = {}"
    unfolding pmm_demo_map_pages(3,4) by simp
  from pmm_init_correct [OF pmm_demo_map_pages(1,2) this, of "0x2000" "0x3000" 0] show ?thesis
    unfolding pmm_demo_map_pages(3-5) e by blast
qed

end
