(* ===== verification/Irq_Control.thy ===== *)
theory Irq_Control
  imports Prelude
begin

text \<open>
  \<^verbatim>\<open>src/src/arch.rs\<close>: the interrupt flag control that the kernel passes to the lock of the
  process table. The state is the RFLAGS register; \<open>pushfq\<close> reads it, \<open>cli\<close> clears bit 9, the
  interrupt flag, and \<open>popfq\<close> at ring 0 loads it.
\<close>

definition IF_BIT :: nat where "IF_BIT = 9"

definition interrupts_enabled :: "u64 \<Rightarrow> bool" where
  "interrupts_enabled rflags \<longleftrightarrow> bit rflags IF_BIT"

record irq_control =
  saved_flags :: u64

definition save_and_disable :: "u64 \<Rightarrow> irq_control \<times> u64" where
  "save_and_disable rflags = (\<lparr>saved_flags = rflags\<rparr>, rflags AND NOT (push_bit IF_BIT 1))"

definition restore :: "irq_control \<Rightarrow> u64 \<Rightarrow> u64" where
  "restore irq rflags = saved_flags irq"

text \<open>
  Critical sections as the lock nests them: each body runs between \<open>save_and_disable\<close> and the
  \<open>restore\<close> of the guard, and may hold further sections. \<open>run_section\<close> gives the register after the
  section and the registers that its bodies saw.
\<close>

datatype section_tree = Section "section_tree list"

fun run_section :: "section_tree \<Rightarrow> u64 \<Rightarrow> u64 \<times> u64 list"
and run_sections :: "section_tree list \<Rightarrow> u64 \<Rightarrow> u64 \<times> u64 list" where
  "run_section (Section ts) f =
     (let (irq, f1) = save_and_disable f; (f2, seen) = run_sections ts f1
      in (restore irq f2, f1 # seen))"
| "run_sections [] f = (f, [])"
| "run_sections (t # ts) f =
     (let (f1, seen) = run_section t f; (f2, seen') = run_sections ts f1 in (f2, seen @ seen'))"

lemma disabled: "\<not> interrupts_enabled (snd (save_and_disable f))"
  by (simp add: interrupts_enabled_def save_and_disable_def bit_simps)

lemma sections_keep_flags:
  "fst (run_section t f) = f \<and> (\<forall>g\<in>set (snd (run_section t f)). \<not> interrupts_enabled g)"
  "fst (run_sections ts f) = f \<and> (\<forall>g\<in>set (snd (run_sections ts f)). \<not> interrupts_enabled g)"
proof (induction t f and ts f rule: run_section_run_sections.induct)
  case (1 ts f)
  then show ?case using disabled [of f] by (auto simp: save_and_disable_def restore_def split: prod.splits)
qed (auto split: prod.splits)

text \<open>Interrupts are off in every nested section, and the outermost section restores the register
  it found.\<close>

lemma nested_sections:
  assumes "run_section t f = (f', seen)"
  shows "f' = f" and "g \<in> set seen \<Longrightarrow> \<not> interrupts_enabled g"
  using sections_keep_flags(1) [of t f] assms by auto

end
