(* ===== verification/Spec2Isabelle.thy ===== *)
theory Spec2Isabelle
  imports Buddy_Theorems Slab_Theorems Mantle_Theorems Tlsf_Theorems Tlsf_Search Kernel_Main
    Interrupt_Theorems Gdt Post_Stack Vga_Theorems Framebuffer_Theorems Os_Constants Pmm Irq_Control
begin

text \<open>
  A verification library for an x86-64 kernel written in Rust: its memory allocators (the crate
  \<^verbatim>\<open>abalone\<close>), its page tables (the crate \<^verbatim>\<open>mantle\<close>) and the kernel proper (\<^verbatim>\<open>src/src\<close>: boot
  information, heap, kernel stack, interrupts, timer, text output). Paths are relative to the
  \<^verbatim>\<open>src\<close> directory of the repository.

  \<^bold>\<open>How the parts fit together.\<close> The boot loader passes a memory map, a frame buffer and addresses;
  \<open>harvest\<close> copies them. \<open>heap_init\<close> gives the usable memory outside the kernel image to the buddy
  allocator and one block of 4 MiB to the TLSF allocator, which serves \<open>Box\<close> and \<open>Vec\<close>. The slab
  caches take their slabs from the buddy allocator, and so do the page tables their frames.
  \<open>alloc_kernel_stack\<close> makes the permanent stack, \<open>install_kernel_pml4\<close> the kernel's own tables,
  \<open>release\<close> gives the boot loader's memory to the buddy allocator, and the post-stack cell carries
  the region of the boot stack over the switch of stacks, after which it is released as well.
  \<open>kernel_main\<close> composes all of this, from \<open>harvest\<close> to the halt loop.

  \<^bold>\<open>Conventions.\<close> A fallible operation returns \<open>'a res\<close>, a \<open>panic\<close> (of the Rust code:
  arithmetic overflow of a debug build, an index out of bounds, a failed assertion or \<open>expect\<close>) or a
  value (theory \<open>Prelude\<close>). Addresses and sizes are natural numbers with the checked operations of
  the prelude; bitmaps, registers and port values are words. Memory is a function from addresses to
  bytes (\<open>Memory\<close>), read and written in little-endian units of 1, 4 and 8 bytes, and intrusive
  doubly linked lists through it are described by \<open>dll\<close> (\<open>Linked_List\<close>). Locks are not modelled:
  each operation runs to its end. A load or a store is not checked against the page tables; the
  theorems on the tables say which addresses they translate. Ports and machine registers are in
  \<open>Machine_State\<close>; what a device answers is an argument (\<open>env\<close>).

  \<^bold>\<open>Theories and sources.\<close>
  \<^item> \<open>Prelude\<close>, \<open>Loops\<close>, \<open>Memory\<close>, \<open>Linked_List\<close>, \<open>Machine_State\<close>: shared lemmas and machinery;
    \<open>Bitwise\<close> states what the code relies on from the crate \<^verbatim>\<open>bitwise\<close>, which is not in the
    repository and is a parameter of the definitions, as a locale with a concrete instance.
  \<^item> \<open>Abalone\<close>, \<open>Buddy\<close> (\<^verbatim>\<open>abalone/src/lib.rs\<close>, \<^verbatim>\<open>abalone/src/buddy.rs\<close>): the buddy allocator.
    \<open>Buddy_Inv\<close> states its invariant, \<open>Buddy_Steps\<close>, \<open>Buddy_Loops\<close> and \<open>Buddy_Correct\<close> show that each
    operation keeps it, \<open>Buddy_Contract\<close> and \<open>Buddy_Client\<close> state the allocator's contract as a locale
    and prove what a client gets under any sequence of operations. \<open>Page_Provider\<close> states the smaller
    contracts of the other clients: \<open>frame_source\<close> (allocation only, for the page tables, which never
    free a frame) and its extension \<open>page_provider\<close> (for the slab caches). \<open>Buddy_Provider\<close>
    interprets both on the buddy allocator; there an area is the managed pages together with foreign
    blocks, memory that a client holds and the allocator does not manage (the boot loader's tables,
    the frame buffer). \<open>Buddy_Theorems\<close> holds the properties.
  \<^item> \<open>Slab\<close> (\<^verbatim>\<open>abalone/src/slab.rs\<close>), with \<open>Slab_Inv\<close>, \<open>Slab_Steps\<close>, \<open>Slab_Correct\<close>, \<open>Slab_Theorems\<close>.
  \<^item> \<open>Tlsf\<close> (\<^verbatim>\<open>abalone/src/tlsf.rs\<close>): \<open>Tlsf_Classes\<close> is about the size classes, \<open>Tlsf_Lists\<close> and
    \<open>Tlsf_Correct\<close> about the free lists and bitmaps, \<open>Tlsf_Heap\<close> states the invariant \<open>heap_ok\<close> of the
    sequence of blocks, \<open>Tlsf_Alloc\<close> shows that allocation keeps it and \<open>Tlsf_Dealloc\<close> that
    deallocation does up to one back link, \<open>Tlsf_Search\<close> that the bitmap searches are a first fit over
    the size classes; \<open>Tlsf_Theorems\<close> holds the properties.
  \<^item> \<open>Mantle\<close> (\<^verbatim>\<open>mantle/src/prot.rs\<close>, \<^verbatim>\<open>table.rs\<close>, \<^verbatim>\<open>walker.rs\<close>, \<^verbatim>\<open>pml4.rs\<close>): page tables, with
    \<open>Mantle_Walk\<close>, \<open>Mantle_Steps\<close>, \<open>Mantle_Correct\<close> (map, unmap, translate over an abstract address
    space), \<open>Mantle_Boot\<close> (the tables built at boot) and \<open>Mantle_Theorems\<close>.
  \<^item> \<open>Boot_Info\<close> (\<^verbatim>\<open>src/limine_data.rs\<close>): the harvest of the boot loader's responses.
  \<^item> \<open>Boot_Memory\<close> (\<^verbatim>\<open>src/memory/heap.rs\<close>, \<^verbatim>\<open>vmm.rs\<close>, \<^verbatim>\<open>stack.rs\<close>, \<open>release\<close> of \<^verbatim>\<open>limine_data.rs\<close>, parts of
    \<^verbatim>\<open>main.rs\<close>): the memory side of the boot; \<open>Boot_Theorems\<close> and \<open>Boot_Stack\<close> hold its properties.
  \<^item> \<open>Boot_Sequence\<close> (\<^verbatim>\<open>src/main.rs\<close>, \<^verbatim>\<open>process.rs\<close>, \<open>switch_stack\<close>): the boot over the state of the
    whole kernel. \<open>Boot_Handover\<close> is about the hand-over to the kernel's stack and tables,
    \<open>Kernel_Steps\<close> about the steps before it, \<open>Kernel_Main\<close> about the whole boot.
  \<^item> \<open>Interrupts\<close>, \<open>Interrupt_Handlers\<close>, \<open>Timer\<close>, \<open>Interrupt_Theorems\<close> (\<^verbatim>\<open>src/interrupts\<close>,
    \<^verbatim>\<open>src/timer.rs\<close>); \<open>Gdt\<close> (\<^verbatim>\<open>src/gdt.rs\<close>); \<open>Post_Stack\<close> (\<^verbatim>\<open>src/post_stack_state.rs\<close>).
  \<^item> \<open>Vga\<close>, \<open>Vga_Theorems\<close> (\<^verbatim>\<open>src/writers/vga_buffer.rs\<close>) and \<open>Framebuffer\<close>, \<open>Framebuffer_Steps\<close>,
    \<open>Framebuffer_Theorems\<close> (\<^verbatim>\<open>src/writers/framebuffer.rs\<close>).
  \<^item> \<open>Irq_Control\<close> (\<^verbatim>\<open>src/arch.rs\<close>): saving and restoring the interrupt flag, nested.
  \<^item> \<open>Os_Constants\<close> (\<^verbatim>\<open>src/os_constants.rs\<close>) and \<open>Pmm\<close> (\<^verbatim>\<open>src/dead_code/pmm.rs\<close>): a library of
    enumerations and an older bitmap allocator, which no module of the kernel declares.

  \<^bold>\<open>What is shown.\<close> The allocators: blocks handed out never overlap, keep their contents, come from
  memory that was free, and are refused only when no fit exists; freeing undoes allocating; the
  statistics are exact where the code keeps them exactly. The page tables: \<open>map\<close>, \<open>unmap\<close> and
  \<open>map_mmio\<close> change exactly the translation asked for, and the boot tables translate the direct map
  and the kernel image and nothing else. The boot: the free pages after \<open>heap_init\<close>, \<open>release\<close> and
  the release of the boot stack are exactly the ones they should be, and \<open>kernel_main\<close> reaches the
  halt loop with the allocator, the heap, the tables, the stack and the console in order. Interrupts: each delivery is
  counted and acknowledged once, the handler table is a partial map, masking is exact, sleeping ends
  at the first poll after enough ticks. Output: both writers refine an abstract text screen. The
  bitmap allocator refines a set of pages; the masks of \<open>PageSize\<close> round to multiples. Several
  properties state defects: memory beyond what the bitmaps cover panics, a guard page is mapped again
  by the boot, mapping under a huge page overwrites data, and others.

  \<^bold>\<open>Bounds and fuel.\<close> The loops of the code are recursions over a range or a list, or functions with
  a termination proof; the only fuel is the list of polls that \<open>sleep_ms\<close> makes, whose end without
  a result is itself part of its property. The buddy theorems assume that the managed memory lies
  within the 512 MiB the bitmaps cover, which the code does not check; the TLSF theorems that a
  request is below 512 MiB and an alignment at most 256 MiB.

  \<^bold>\<open>Not modelled.\<close> Formatting of printed values (\<open>core::fmt\<close>), the serial port (the \<^verbatim>\<open>uart_16550\<close> crate)
  and the lines printed there, the panic handler and the test runner (they print and halt), the bit
  layout of descriptors (the \<^verbatim>\<open>x86_64\<close> crate), the process table behind its constructor (the
  \<^verbatim>\<open>seastar\<close> crate), spin locks, caching attributes of a mapping beyond its entry, the crate version
  string, and two old copies of modelled files that no module of the kernel declares
  (\<^verbatim>\<open>src/writers/limine_data.rs\<close>, \<^verbatim>\<open>src/memory/main.rs\<close>).
\<close>

end
